(* ===== verification/Prelude.thy ===== *)
theory Prelude
  imports Main "HOL-Library.Word"
begin

text \<open>
  Shared vocabulary of the development: the machine integers of the C++ code, the
  faults a computation can end in, byte-wise memory copies with their bounds written
  out, and the list and word lemmas the components share.

  The data model is LP64 and little-endian: \<open>size_t\<close> and \<open>uint64_t\<close> are 64 bits wide.
\<close>

unbundle bit_operations_syntax

named_theorems mem_simps \<open>successful memory accesses\<close>
named_theorems frame_simps \<open>frame-wise views of byte lists\<close>
named_theorems word_conv \<open>from machine words to natural numbers\<close>

section \<open>Machine integers\<close>

type_synonym u8 = "8 word"
type_synonym u16 = "16 word"
type_synonym u32 = "32 word"
type_synonym u64 = "64 word"
type_synonym i16 = "16 word"
type_synonym i32 = "32 word"

section \<open>Faults and outcomes\<close>

text \<open>
  A computation of the program ends normally (\<open>Inr\<close>), or in undefined behaviour or an
  exception (\<open>Inl\<close>). A loop that need not end returns an \<open>option\<close> of an outcome, where
  \<open>None\<close> is a loop that never returns.
\<close>

datatype fault =
    Out_Of_Bounds      \<comment> \<open>access outside an object: undefined behaviour\<close>
  | Null_Pointer       \<comment> \<open>access through a null pointer: undefined behaviour\<close>
  | Div_By_Zero        \<comment> \<open>integer division by zero: undefined behaviour\<close>
  | Signed_Overflow    \<comment> \<open>overflow of a signed integer: undefined behaviour\<close>
  | Bad_Alloc          \<comment> \<open>\<open>std::bad_alloc\<close>\<close>
  | Length_Error       \<comment> \<open>\<open>std::length_error\<close>\<close>
  | Invalid_Argument   \<comment> \<open>\<open>std::invalid_argument\<close> of \<open>std::stoul\<close> and the like\<close>
  | Range_Error        \<comment> \<open>\<open>std::out_of_range\<close>\<close>
  | Filesystem_Error   \<comment> \<open>\<open>std::filesystem::filesystem_error\<close>\<close>
  | Float_Cast         \<comment> \<open>conversion of a float the integer type cannot hold: undefined behaviour\<close>

type_synonym 'a outcome = "fault + 'a"

definition obind :: "'a outcome \<Rightarrow> ('a \<Rightarrow> 'b outcome) \<Rightarrow> 'b outcome" where
  "obind x f = (case x of Inl e \<Rightarrow> Inl e | Inr y \<Rightarrow> f y)"

lemma obind_simps [simp]:
  "obind (Inl e) f = Inl e"
  "obind (Inr y) f = f y"
  by (simp_all add: obind_def)

lemma obind_assoc: "obind (obind x f) g = obind x (\<lambda>y. obind (f y) g)"
  by (cases x) simp_all

lemma obind_Inr_iff: "obind x f = Inr z \<longleftrightarrow> (\<exists>y. x = Inr y \<and> f y = Inr z)"
  by (cases x) auto

text \<open>Sequencing where a step may also never return.\<close>

definition pbind :: "'a outcome option \<Rightarrow> ('a \<Rightarrow> 'b outcome option) \<Rightarrow> 'b outcome option" where
  "pbind x f = (case x of None \<Rightarrow> None | Some (Inl e) \<Rightarrow> Some (Inl e) | Some (Inr y) \<Rightarrow> f y)"

lemma pbind_simps [simp]:
  "pbind None f = None"
  "pbind (Some (Inl e)) f = Some (Inl e)"
  "pbind (Some (Inr y)) f = f y"
  by (simp_all add: pbind_def)

lemma pbind_Inr_iff: "pbind x f = Some (Inr z) \<longleftrightarrow> (\<exists>y. x = Some (Inr y) \<and> f y = Some (Inr z))"
  by (auto simp: pbind_def split: option.splits sum.splits)

lemma pbind_assoc: "pbind (pbind x f) g = pbind x (\<lambda>y. pbind (f y) g)"
  by (simp add: pbind_def split: option.split sum.split)

text \<open>Access through a \<open>std::unique_ptr\<close>.\<close>

definition deref :: "'a option \<Rightarrow> 'a outcome" where
  "deref p = (case p of None \<Rightarrow> Inl Null_Pointer | Some x \<Rightarrow> Inr x)"

lemma deref_simps [simp]: "deref None = Inl Null_Pointer" "deref (Some x) = Inr x"
  by (simp_all add: deref_def)

section \<open>Memory\<close>

text \<open>
  A \<open>std::vector\<close>, an array or the target of a pointer is the list of its elements.
  \<open>std::memcpy\<close> outside the object is a fault.
\<close>

definition load_range :: "'a list \<Rightarrow> nat \<Rightarrow> nat \<Rightarrow> 'a list outcome" where
  "load_range src i n =
     (if i + n \<le> length src then Inr (take n (drop i src)) else Inl Out_Of_Bounds)"

definition store_range :: "'a list \<Rightarrow> nat \<Rightarrow> 'a list \<Rightarrow> 'a list outcome" where
  "store_range dst i xs =
     (if i + length xs \<le> length dst
      then Inr (take i dst @ xs @ drop (i + length xs) dst) else Inl Out_Of_Bounds)"

definition memcpy :: "'a list \<Rightarrow> nat \<Rightarrow> 'a list \<Rightarrow> nat \<Rightarrow> nat \<Rightarrow> 'a list outcome" where
  "memcpy dst i src j n = obind (load_range src j n) (store_range dst i)"

text \<open>
  \<open>std::vector(n)\<close> and \<open>resize\<close> from empty: zeroed storage. Sizes above
  \<open>PTRDIFF_MAX\<close> raise \<open>std::length_error\<close>; whether the machine has the memory is the
  parameter \<open>mem_ok\<close>.
\<close>

definition new_zeroed :: "(nat \<Rightarrow> bool) \<Rightarrow> nat \<Rightarrow> ('a::zero) list outcome" where
  "new_zeroed mem_ok n =
     (if 2 ^ 63 \<le> n then Inl Length_Error
      else if mem_ok n then Inr (replicate n 0) else Inl Bad_Alloc)"

lemma load_range_ok [mem_simps]:
  "i + n \<le> length src \<Longrightarrow> load_range src i n = Inr (take n (drop i src))"
  by (simp add: load_range_def)

lemma store_range_ok [mem_simps]:
  "i + length xs \<le> length dst \<Longrightarrow>
   store_range dst i xs = Inr (take i dst @ xs @ drop (i + length xs) dst)"
  by (simp add: store_range_def)

lemma memcpy_ok [mem_simps]:
  assumes "i + n \<le> length dst" and "j + n \<le> length src"
  shows "memcpy dst i src j n = Inr (take i dst @ take n (drop j src) @ drop (i + n) dst)"
  using assms by (simp add: memcpy_def mem_simps)

lemma memcpy_zero [simp]:
  "i \<le> length dst \<Longrightarrow> j \<le> length src \<Longrightarrow> memcpy dst i src j 0 = Inr dst"
  by (simp add: memcpy_ok)

lemma memcpy_length: "memcpy dst i src j n = Inr dst' \<Longrightarrow> length dst' = length dst"
  by (auto simp: memcpy_def load_range_def store_range_def obind_Inr_iff split: if_splits)

lemma memcpy_byte:
  assumes "a < length dst" and "j < length data"
  shows "memcpy dst a data j 1 = Inr (dst[a := data ! j])"
proof -
  have "take 1 (drop j data) = [data ! j]"
    using assms(2) by (simp add: take_Suc_conv_app_nth hd_drop_conv_nth take_Suc)
  then show ?thesis using assms by (simp add: memcpy_ok upd_conv_take_nth_drop)
qed

section \<open>Frames of a byte list\<close>

text \<open>Byte lists are read in frames of \<open>w\<close> bytes; frame \<open>k\<close> starts at byte \<open>k * w\<close>.\<close>

definition frame_at :: "nat \<Rightarrow> 'a list \<Rightarrow> nat \<Rightarrow> 'a list" where
  "frame_at w xs k = take w (drop (k * w) xs)"

definition frames_of :: "nat \<Rightarrow> nat \<Rightarrow> 'a list \<Rightarrow> 'a list list" where
  "frames_of w n xs = map (frame_at w xs) [0..<n]"

lemma length_frames_of [simp]: "length (frames_of w n xs) = n"
  by (simp add: frames_of_def)

lemma nth_frames_of [simp]: "i < n \<Longrightarrow> frames_of w n xs ! i = frame_at w xs i"
  by (simp add: frames_of_def)

lemma frame_fits: "(k::nat) < n \<Longrightarrow> k * w + w \<le> n * w"
  by (metis Suc_leI mult_Suc add.commute mult_le_mono1)

lemma length_frame_at: "k < n \<Longrightarrow> n * w \<le> length xs \<Longrightarrow> length (frame_at w xs k) = w"
  using frame_fits [of k n w] by (simp add: frame_at_def)

lemma frame_at_drop [frame_simps]: "frame_at w (drop (m * w) xs) k = frame_at w xs (m + k)"
  by (simp add: frame_at_def algebra_simps)

lemma frame_at_take [frame_simps]:
  "k < n \<Longrightarrow> frame_at w (take (n * w) xs) k = frame_at w xs k"
  using frame_fits [of k n w] by (simp add: frame_at_def drop_take min_def)

lemma frame_at_append_left [frame_simps]:
  "k < n \<Longrightarrow> length xs = n * w \<Longrightarrow> frame_at w (xs @ ys) k = frame_at w xs k"
  using frame_fits [of k n w] by (simp add: frame_at_def)

lemma frame_at_append_right [frame_simps]:
  "length xs = n * w \<Longrightarrow> n \<le> k \<Longrightarrow> frame_at w (xs @ ys) k = frame_at w ys (k - n)"
  by (simp add: frame_at_def diff_mult_distrib)

text \<open>Frame-wise effect of an aligned block copy.\<close>

lemma frame_at_splice:
  assumes "length dst = n * w" and "a + m \<le> n" and "length new = m * w" and "k < n"
  shows "frame_at w (take (a * w) dst @ new @ drop ((a + m) * w) dst) k =
         (if a \<le> k \<and> k < a + m then frame_at w new (k - a) else frame_at w dst k)"
proof -
  have aw: "length (take (a * w) dst) = a * w"
    using assms by (simp add: min_absorb2)
  consider "k < a" | "a \<le> k" "k < a + m" | "a + m \<le> k" by linarith
  then show ?thesis
  proof cases
    case 1
    then show ?thesis using aw by (simp add: frame_simps)
  next
    case 2
    then show ?thesis
      using aw assms frame_at_append_left [of "k - a" m new w]
      by (simp add: frame_at_append_right [OF aw])
  next
    case 3
    then have "k - a - m + (a + m) = k" by simp
    with 3 show ?thesis
      using aw assms
      by (simp add: frame_at_append_right [OF aw] frame_at_append_right [OF assms(3)]
          frame_at_drop [of w "a + m"] add.commute)
  qed
qed

lemma length_splice:
  assumes "length dst = n * w" and "a + m \<le> n" and "length new = m * w"
  shows "length (take (a * w) dst @ new @ drop ((a + m) * w) dst) = n * w"
proof -
  have "a * w + m * w \<le> n * w"
    using assms(2) by (metis add_mult_distrib mult_le_mono1)
  then show ?thesis using assms by (simp add: add_mult_distrib)
qed

lemma concat_frames_of: "n * w \<le> length xs \<Longrightarrow> concat (frames_of w n xs) = take (n * w) xs"
proof (induction n)
  case 0
  then show ?case by (simp add: frames_of_def)
next
  case (Suc n)
  then have "concat (frames_of w n xs) = take (n * w) xs" by simp
  moreover have "frames_of w (Suc n) xs = frames_of w n xs @ [frame_at w xs n]"
    by (simp add: frames_of_def)
  ultimately show ?case
    by (simp add: frame_at_def take_add add.commute [of w])
qed

lemma frames_of_append:
  assumes "length xs = m * w"
  shows "frames_of w (m + n) (xs @ ys) = frames_of w m xs @ frames_of w n ys"
proof (rule nth_equalityI)
  fix i assume "i < length (frames_of w (m + n) (xs @ ys))"
  then show "frames_of w (m + n) (xs @ ys) ! i = (frames_of w m xs @ frames_of w n ys) ! i"
    using assms by (cases "i < m") (simp_all add: nth_append frame_simps)
qed simp

lemma frames_of_split:
  "m \<le> n \<Longrightarrow> frames_of w n xs = frames_of w m xs @ frames_of w (n - m) (drop (m * w) xs)"
  by (rule nth_equalityI) (auto simp: nth_append frame_simps)

lemma frames_of_take: "n \<le> m \<Longrightarrow> frames_of w n (take (m * w) xs) = frames_of w n xs"
  by (rule nth_equalityI) (auto simp: frame_simps)

lemma length_concat_const: "(\<And>x. x \<in> set xss \<Longrightarrow> length x = w) \<Longrightarrow> length (concat xss) = length xss * w"
  by (induction xss) auto

lemma frames_of_concat:
  assumes "\<And>x. x \<in> set H \<Longrightarrow> length x = w"
  shows "frames_of w (length H) (concat H) = H"
  using assms
proof (induction H)
  case Nil
  then show ?case by (simp add: frames_of_def)
next
  case (Cons x H)
  have "frames_of w (1 + length H) (x @ concat H) = frames_of w 1 x @ frames_of w (length H) (concat H)"
    by (rule frames_of_append) (simp add: Cons.prems)
  then show ?case using Cons by (simp add: frames_of_def frame_at_def)
qed

text \<open>A region of memory, and what a store does to it.\<close>

definition region :: "'a list \<Rightarrow> nat \<Rightarrow> nat \<Rightarrow> 'a list" where
  "region mem off n = take n (drop off mem)"

lemma load_region: "off + n \<le> length mem \<Longrightarrow> load_range mem off n = Inr (region mem off n)"
  by (simp add: load_range_def region_def)

lemma region_stored:
  assumes "store_range mem off bs = Inr mem'"
  shows "region mem' off (length bs) = bs" and "length mem' = length mem"
    and "off' + n \<le> off \<or> off + length bs \<le> off' \<Longrightarrow> region mem' off' n = region mem off' n"
proof -
  have fits: "off + length bs \<le> length mem"
    and mem': "mem' = take off mem @ bs @ drop (off + length bs) mem"
    using assms by (simp_all add: store_range_def split: if_splits)
  show "length mem' = length mem" using fits by (simp add: mem')
  show "region mem' off (length bs) = bs" using fits by (simp add: mem' region_def)
  assume "off' + n \<le> off \<or> off + length bs \<le> off'"
  then show "region mem' off' n = region mem off' n"
  proof
    assume "off' + n \<le> off"
    then show ?thesis using fits by (simp add: mem' region_def drop_take)
  next
    assume "off + length bs \<le> off'"
    then show ?thesis using fits by (simp add: mem' region_def)
  qed
qed

section \<open>Counting loops\<close>

text \<open>\<open>for (i = 0; i < n; ++i)\<close>: the body runs for the listed indices until it faults.\<close>

fun for_each :: "(nat \<Rightarrow> 's \<Rightarrow> 's outcome) \<Rightarrow> nat list \<Rightarrow> 's \<Rightarrow> 's outcome" where
  "for_each body [] s = Inr s"
| "for_each body (i # is) s = obind (body i s) (for_each body is)"

lemma for_each_append: "for_each body (xs @ ys) s = obind (for_each body xs s) (for_each body ys)"
proof (induction xs arbitrary: s)
  case (Cons x xs)
  then show ?case by (cases "body x s") simp_all
qed simp

lemma for_each_upto:
  assumes "P 0 s"
    and "\<And>i s. i < n \<Longrightarrow> P i s \<Longrightarrow> \<exists>s'. body i s = Inr s' \<and> P (Suc i) s'"
  shows "\<exists>s'. for_each body [0..<n] s = Inr s' \<and> P n s'"
  using assms
proof (induction n)
  case (Suc n)
  then obtain s1 where s1: "for_each body [0..<n] s = Inr s1" "P n s1" by auto
  with Suc.prems(2) [of n s1] show ?case by (auto simp: for_each_append)
qed simp

lemma for_each_map: "for_each body (map h xs) s = for_each (\<lambda>i. body (h i)) xs s"
  by (induction xs arbitrary: s) (simp_all add: obind_def split: sum.split)

lemma for_each_cong:
  "(\<And>i s. i \<in> set xs \<Longrightarrow> body i s = body' i s) \<Longrightarrow> for_each body xs s = for_each body' xs s"
  by (induction xs arbitrary: s) (simp_all add: obind_def split: sum.split)

text \<open>Two nested loops visit the positions of a matrix row by row.\<close>

lemma for_each_flatten:
  assumes "0 < c"
  shows "for_each (\<lambda>f. for_each (body f) [0..<c]) [0..<n] s =
         for_each (\<lambda>i. body (i div c) (i mod c)) [0..<n * c] s"
proof (induction n arbitrary: s)
  case (Suc n)
  have "[0..<Suc n * c] = [0..<n * c] @ map (\<lambda>j. n * c + j) [0..<c]"
    using upt_add_eq_append [of 0 "n * c" c] map_add_upt [of "n * c" c] by (simp add: add.commute)
  moreover have "for_each (\<lambda>j. body ((n * c + j) div c) ((n * c + j) mod c)) [0..<c] t =
      for_each (body n) [0..<c] t" for t
    using assms by (intro for_each_cong) simp
  ultimately show ?case by (simp add: for_each_append for_each_map Suc.IH obind_def split: sum.split)
qed simp

lemma for_each_fault:
  assumes "i < n" and "for_each body [0..<i] s = Inr s1" and "body i s1 = Inl e"
  shows "for_each body [0..<n] s = Inl e"
proof -
  have "[0..<n] = [0..<i] @ i # [Suc i..<n]"
    using assms(1) by (metis le0 less_imp_le_nat upt_add_eq_append le_add_diff_inverse upt_conv_Cons)
  then show ?thesis using assms by (simp add: for_each_append)
qed

section \<open>Words\<close>

lemma unat_min [word_conv]: "unat (min a b) = min (unat a) (unat (b :: 'a::len word))"
  by (simp add: min_def word_le_nat_alt)

lemma pow2_less_imp_less: "(2::nat) ^ k < 2 ^ n \<Longrightarrow> k < n"
  by (rule power_less_imp_less_exp [of 2]) simp_all

lemma unat_lt_64: "unat (x :: u64) < 2 ^ 64"
  using unsigned_less [of x] by simp

lemma unat_lt_32: "unat (x :: u32) < 2 ^ 32"
  using unsigned_less [of x] by simp

lemma unat_lt_16: "unat (x :: u16) < 2 ^ 16"
  using unsigned_less [of x] by simp

lemma unat_of_nat_64 [word_conv]: "n < 2 ^ 64 \<Longrightarrow> unat (of_nat n :: u64) = n"
  by (simp add: unat_of_nat take_bit_nat_eq_self)

lemma unat_pow2: "k < 64 \<Longrightarrow> unat (2 ^ k :: u64) = 2 ^ k"
  using unat_of_nat_64 [of "2 ^ k"] power_strict_increasing [of k 64 "2::nat"] by simp

lemma unat_ucast_16 [word_conv]: "unat (ucast (x :: u16) :: u64) = unat x"
  using unat_lt_16 [of x] by (simp add: unsigned_ucast_eq take_bit_nat_eq_self)

lemma unat_ucast_32 [word_conv]: "unat (ucast (x :: u32) :: u64) = unat x"
  using unat_lt_32 [of x] by (simp add: unsigned_ucast_eq take_bit_nat_eq_self)

lemma unat_mult_64: "unat a * unat b < 2 ^ 64 \<Longrightarrow> unat (a * b :: u64) = unat a * unat b"
  by (simp add: unat_word_ariths)

lemma unat_add_64: "unat a + unat b < 2 ^ 64 \<Longrightarrow> unat (a + b :: u64) = unat a + unat b"
  by (simp add: unat_word_ariths)

lemma unat_sub_64 [word_conv]: "b \<le> a \<Longrightarrow> unat (a - b :: u64) = unat a - unat b"
  by (simp add: unat_sub)

end
