(* ===== verification/Pow2.thy ===== *)
theory Pow2
  imports Prelude
begin

text \<open>
  Rounding up to a power of two: the shift-and-or cascade that \<open>next_power_of_2\<close>
  (ring_buffer.cpp) and \<open>next_pow2\<close> (block_recorder.cpp) share, and masking by a
  power of two minus one as a cheap modulus.
\<close>

section \<open>The shift-and-or cascade\<close>

definition smear_right :: "u64 \<Rightarrow> u64" where
  "smear_right v0 =
     (let v1 = v0 OR drop_bit 1 v0;
          v2 = v1 OR drop_bit 2 v1;
          v3 = v2 OR drop_bit 4 v2;
          v4 = v3 OR drop_bit 8 v3;
          v5 = v4 OR drop_bit 16 v4;
          v6 = v5 OR drop_bit 32 v5
      in v6)"

text \<open>After a stage that looks \<open>k\<close> bits ahead, a bit is set if one of the next \<open>k\<close> was.\<close>

definition looks_ahead :: "nat \<Rightarrow> u64 \<Rightarrow> u64 \<Rightarrow> bool" where
  "looks_ahead k v x \<longleftrightarrow> (\<forall>n. bit x n \<longleftrightarrow> (\<exists>d<k. bit v (n + d)))"

lemma looks_ahead_start: "looks_ahead 1 v v"
  by (auto simp: looks_ahead_def)

lemma looks_ahead_double:
  assumes "looks_ahead k v x"
  shows "looks_ahead (k + k) v (x OR drop_bit k x)"
proof -
  have "(\<exists>d<k. bit v (n + d)) \<or> (\<exists>d<k. bit v (k + n + d)) \<longleftrightarrow> (\<exists>d<k + k. bit v (n + d))" for n
  proof
    assume "(\<exists>d<k. bit v (n + d)) \<or> (\<exists>d<k. bit v (k + n + d))"
    then show "\<exists>d<k + k. bit v (n + d)"
      by (metis add.assoc add.commute add_less_mono1 trans_less_add1)
  next
    assume "\<exists>d<k + k. bit v (n + d)"
    then obtain d where d: "d < k + k" "bit v (n + d)" by blast
    show "(\<exists>d<k. bit v (n + d)) \<or> (\<exists>d<k. bit v (k + n + d))"
    proof (cases "d < k")
      case False
      then have "d - k < k" and "k + n + (d - k) = n + d" using d(1) by linarith+
      with d(2) show ?thesis by metis
    qed (use d in blast)
  qed
  then show ?thesis
    using assms by (simp add: looks_ahead_def bit_or_iff bit_drop_bit_eq)
qed

lemma bit_smear_right: "bit (smear_right v) n \<longleftrightarrow> (\<exists>m\<ge>n. bit v m)"
proof -
  define v1 where "v1 = v OR drop_bit 1 v"
  define v2 where "v2 = v1 OR drop_bit 2 v1"
  define v3 where "v3 = v2 OR drop_bit 4 v2"
  define v4 where "v4 = v3 OR drop_bit 8 v3"
  define v5 where "v5 = v4 OR drop_bit 16 v4"
  define v6 where "v6 = v5 OR drop_bit 32 v5"
  have "looks_ahead 2 v v1" using looks_ahead_double [OF looks_ahead_start [of v]] by (simp add: v1_def numeral_2_eq_2)
  then have "looks_ahead 4 v v2" by (auto simp: v2_def dest: looks_ahead_double)
  then have "looks_ahead 8 v v3" by (auto simp: v3_def dest: looks_ahead_double)
  then have "looks_ahead 16 v v4" by (auto simp: v4_def dest: looks_ahead_double)
  then have "looks_ahead 32 v v5" by (auto simp: v5_def dest: looks_ahead_double)
  then have "looks_ahead 64 v v6" by (auto simp: v6_def dest: looks_ahead_double)
  moreover have "smear_right v = v6"
    unfolding smear_right_def Let_def v6_def v5_def v4_def v3_def v2_def v1_def ..
  ultimately have "looks_ahead 64 v (smear_right v)" by simp
  then have "bit (smear_right v) n \<longleftrightarrow> (\<exists>d<64. bit v (n + d))"
    by (simp add: looks_ahead_def)
  also have "\<dots> \<longleftrightarrow> (\<exists>m\<ge>n. bit v m)"
  proof
    assume "\<exists>m\<ge>n. bit v m"
    then obtain m where m: "n \<le> m" "bit v m" by blast
    then have "m < 64" using bit_imp_le_length [OF m(2)] by simp
    with m show "\<exists>d<64. bit v (n + d)" by (intro exI [of _ "m - n"]) simp
  qed (use le_add1 in blast)
  finally show ?thesis .
qed

section \<open>The highest set bit\<close>

lemma bit_unat: "bit (unat (v :: 'a::len word)) n = bit v n"
  by (simp add: bit_unsigned_iff bit_imp_le_length)

lemma high_bit:
  assumes "v \<noteq> (0 :: u64)"
  obtains k where "bit v k" and "\<And>m. k < m \<Longrightarrow> \<not> bit v m" and "k < 64"
    and "2 ^ k \<le> unat v" and "unat v < 2 ^ Suc k"
proof -
  define S where "S = {m. bit v m}"
  have fin: "finite S"
    unfolding S_def by (rule finite_subset [of _ "{..<64}"]) (auto dest: bit_imp_le_length)
  moreover have "S \<noteq> {}"
    using assms by (auto simp: S_def bit_eq_iff)
  ultimately have k: "bit v (Max S)" and top: "\<And>m. Max S < m \<Longrightarrow> \<not> bit v m"
    using Max_in [of S] Max_ge [of S] by (auto simp: S_def not_le [symmetric])
  have "take_bit (Suc (Max S)) (unat v) = unat v"
    by (rule bit_eqI) (use top in \<open>auto simp: bit_take_bit_iff bit_unat less_Suc_eq_le not_less [symmetric]\<close>)
  then have "unat v < 2 ^ Suc (Max S)" by (simp add: take_bit_nat_eq_self_iff)
  moreover have "2 ^ Max S \<le> unat v"
  proof (rule ccontr)
    assume "\<not> 2 ^ Max S \<le> unat v"
    then have "take_bit (Max S) (unat v) = unat v" by (simp add: take_bit_nat_eq_self_iff)
    then have "\<not> bit (unat v) (Max S)" by (metis bit_take_bit_iff less_irrefl)
    with k show False by (simp add: bit_unat)
  qed
  ultimately show ?thesis
    using that [of "Max S"] k top bit_imp_le_length [OF k] by simp
qed

lemma smear_right_mask:
  assumes "v \<noteq> 0"
  obtains k where "smear_right v = mask (Suc k)" and "k < 64"
    and "2 ^ k \<le> unat v" and "unat v < 2 ^ Suc k"
proof -
  from assms obtain k where k: "bit v k" "\<And>m. k < m \<Longrightarrow> \<not> bit v m" "k < 64"
    "2 ^ k \<le> unat v" "unat v < 2 ^ Suc k"
    by (metis high_bit)
  have "smear_right v = mask (Suc k)"
  proof (rule bit_eqI)
    fix n
    show "bit (smear_right v) n \<longleftrightarrow> bit (mask (Suc k) :: u64) n"
      using k(1,3) k(2) [of n] k(2) bit_imp_le_length [of v]
      by (auto simp: bit_smear_right bit_mask_iff less_Suc_eq_le)
        (meson le_trans not_less)+
  qed
  with k that show ?thesis by blast
qed

lemma smear_right_zero [simp]: "smear_right 0 = 0"
  by (simp add: smear_right_def)

text \<open>The common core: smearing \<open>v - 1\<close> and adding one rounds \<open>v\<close> up.\<close>

lemma smear_pred_round_up:
  assumes "v \<noteq> 0" and "unat v \<le> 2 ^ 63"
  shows "\<exists>k\<le>63. unat (smear_right (v - 1) + 1) = 2 ^ k \<and> unat v \<le> 2 ^ k \<and> 2 ^ k < 2 * unat v"
proof (cases "v = 1")
  case True
  then show ?thesis by (intro exI [of _ 0]) simp
next
  case False
  then have nz: "v - 1 \<noteq> 0" by simp
  from assms(1) have u: "unat (v - 1) = unat v - 1" by (metis unat_minus_one)
  from nz obtain k where k: "smear_right (v - 1) = mask (Suc k)" "k < 64"
    "2 ^ k \<le> unat (v - 1)" "unat (v - 1) < 2 ^ Suc k"
    by (rule smear_right_mask)
  have pos: "0 < unat v" using assms(1) by (simp add: unat_gt_0)
  have "(2::nat) ^ k < 2 ^ 63" using k(3) u assms(2) pos by linarith
  then have "k < 63" by (rule pow2_less_imp_less)
  then have k63: "Suc k \<le> 63" by simp
  have "smear_right (v - 1) + 1 = 2 ^ Suc k"
    by (simp add: k(1) mask_eq_exp_minus_1)
  moreover have "unat (2 ^ Suc k :: u64) = 2 ^ Suc k"
    using k63 by (intro unat_pow2) simp
  ultimately show ?thesis
    using k(3,4) u pos k63 by (intro exI [of _ "Suc k"]) auto
qed

section \<open>Masking is the modulus\<close>

lemma unat_and_mask_pow2:
  assumes "unat c = 2 ^ k"
  shows "unat (x AND (c - 1)) = unat x mod unat (c :: u64)"
proof -
  have k: "k < 64"
    using assms unat_lt_64 [of c] by (metis pow2_less_imp_less)
  have "c = 2 ^ k"
    using assms k by (metis unat_pow2 unsigned_word_eqI)
  then have "x AND (c - 1) = take_bit k x"
    by (simp add: take_bit_eq_mask mask_eq_exp_minus_1)
  then have "unat (x AND (c - 1)) = take_bit k (unat x)"
    by (simp only: unsigned_take_bit_eq)
  then show ?thesis
    by (simp add: assms take_bit_eq_mod)
qed

lemma of_nat_mod_pow2:
  assumes "unat c = 2 ^ k"
  shows "unat ((of_nat n :: u64) AND (c - 1)) = n mod unat c"
proof -
  have "k < 64" using assms unat_lt_64 [of c] by (metis pow2_less_imp_less)
  then have "(2::nat) ^ k dvd 2 ^ 64" by (intro le_imp_power_dvd) simp
  then show ?thesis
    by (simp add: unat_and_mask_pow2 [OF assms] assms unat_of_nat take_bit_eq_mod mod_mod_cancel)
qed

end
