(* ===== verification/Ring_Buffer.thy ===== *)
theory Ring_Buffer
  imports Pow2
begin

text \<open>
  \<open>RingBuffer\<close> (include/audio_daemon/ring_buffer.hpp, src/capture/ring_buffer.cpp): the
  rolling PCM history. The state record, the constructor, \<open>write\<close>, \<open>read\<close> and
  \<open>available_frames\<close>; the abstraction of the buffer as the list of all frames ever
  written; and the interface \<open>frame_store\<close> the clip extractor and the pipeline use.
\<close>

section \<open>State and operations\<close>

definition next_power_of_2 :: "u64 \<Rightarrow> u64" where
  "next_power_of_2 v = (if v = 0 then 1 else smear_right (v - 1) + 1)"

record ring_buffer =
  rb_buffer :: "u8 list"
  rb_capacity_frames :: u64
  rb_capacity_mask :: u64
  rb_channels :: u16
  rb_bytes_per_sample :: u16
  rb_write_pos :: u64
  rb_total_written :: u64

text \<open>
  Members are initialised in the order of their declaration, so \<open>capacity_mask_\<close> is
  computed from the finished \<open>capacity_frames_\<close>.
\<close>

definition rb_new :: "(nat \<Rightarrow> bool) \<Rightarrow> u64 \<Rightarrow> u16 \<Rightarrow> u16 \<Rightarrow> ring_buffer outcome" where
  "rb_new mem_ok capacity_frames channels bytes_per_sample =
     (let cap = next_power_of_2 capacity_frames in
      obind (new_zeroed mem_ok (unat (cap * ucast channels * ucast bytes_per_sample)))
        (\<lambda>buf. Inr \<lparr>rb_buffer = buf, rb_capacity_frames = cap, rb_capacity_mask = cap - 1,
                    rb_channels = channels, rb_bytes_per_sample = bytes_per_sample,
                    rb_write_pos = 0, rb_total_written = 0\<rparr>))"

definition rb_bytes_per_frame :: "ring_buffer \<Rightarrow> u64" where
  "rb_bytes_per_frame rb = ucast (rb_channels rb) * ucast (rb_bytes_per_sample rb)"

definition rb_available_frames :: "ring_buffer \<Rightarrow> u64" where
  "rb_available_frames rb = min (rb_total_written rb) (rb_capacity_frames rb)"

text \<open>
  The copy loop of \<open>write\<close>. \<open>src\<close> is the offset of the source pointer in \<open>data\<close>; the
  result is the buffer and the final position.
\<close>

partial_function (option) rb_write_loop ::
  "u64 \<Rightarrow> u64 \<Rightarrow> u64 \<Rightarrow> u8 list \<Rightarrow> u8 list \<Rightarrow> nat \<Rightarrow> u64 \<Rightarrow> u64 \<Rightarrow> (u8 list \<times> u64) outcome option"
where
  "rb_write_loop cap cmask bpf data buf src pos remaining =
     (if remaining = 0 then Some (Inr (buf, pos))
      else let idx = pos AND cmask;
               batch = min remaining (cap - idx)
           in case memcpy buf (unat (idx * bpf)) data src (unat (batch * bpf)) of
                Inl e \<Rightarrow> Some (Inl e)
              | Inr buf' \<Rightarrow>
                  rb_write_loop cap cmask bpf data buf' (src + unat (batch * bpf))
                    (pos + batch) (remaining - batch))"

definition rb_write :: "ring_buffer \<Rightarrow> u8 list \<Rightarrow> u64 \<Rightarrow> ring_buffer outcome option" where
  "rb_write rb data frame_count =
     (case rb_write_loop (rb_capacity_frames rb) (rb_capacity_mask rb) (rb_bytes_per_frame rb)
             data (rb_buffer rb) 0 (rb_write_pos rb) frame_count of
        None \<Rightarrow> None
      | Some (Inl e) \<Rightarrow> Some (Inl e)
      | Some (Inr (buf, pos)) \<Rightarrow>
          Some (Inr (rb\<lparr>rb_buffer := buf, rb_write_pos := pos,
                        rb_total_written := rb_total_written rb + frame_count\<rparr>)))"

text \<open>
  \<open>read\<close> takes a snapshot of the two counters, computes the range (\<open>rb_read_plan\<close>:
  \<open>None\<close> is the early return of 0, otherwise start position and frame count) and then
  copies (\<open>rb_read_loop\<close>). The writer does not take \<open>read_mutex_\<close>, so it may run in between.
\<close>

definition rb_read_plan :: "ring_buffer \<Rightarrow> u64 \<Rightarrow> u64 \<Rightarrow> (u64 \<times> u64) option" where
  "rb_read_plan rb offset_frames count_frames =
     (let total = rb_total_written rb;
          cap = rb_capacity_frames rb;
          avail = min total cap
      in if offset_frames \<ge> avail then None
         else let readable = min count_frames (avail - offset_frames);
                  wp = rb_write_pos rb;
                  start = (if wp \<ge> offset_frames + readable
                           then wp - offset_frames - readable
                           else cap - ((offset_frames + readable - wp) mod cap))
              in Some (start, readable))"

partial_function (option) rb_read_loop ::
  "u64 \<Rightarrow> u64 \<Rightarrow> u64 \<Rightarrow> u8 list \<Rightarrow> u64 \<Rightarrow> u64 \<Rightarrow> u8 list \<Rightarrow> u64 \<Rightarrow> u8 list outcome option"
where
  "rb_read_loop cap cmask bpf buf start readable out copied =
     (if \<not> copied < readable then Some (Inr out)
      else let idx = (start + copied) AND cmask;
               batch = min (readable - copied) (cap - idx)
           in case memcpy out (unat (copied * bpf)) buf (unat (idx * bpf)) (unat (batch * bpf)) of
                Inl e \<Rightarrow> Some (Inl e)
              | Inr out' \<Rightarrow> rb_read_loop cap cmask bpf buf start readable out' (copied + batch))"

definition rb_read_copy ::
  "ring_buffer \<Rightarrow> u8 list \<Rightarrow> u64 \<Rightarrow> u64 \<Rightarrow> (u8 list \<times> u64) outcome option" where
  "rb_read_copy rb out start readable =
     (case rb_read_loop (rb_capacity_frames rb) (rb_capacity_mask rb) (rb_bytes_per_frame rb)
             (rb_buffer rb) start readable out 0 of
        None \<Rightarrow> None
      | Some (Inl e) \<Rightarrow> Some (Inl e)
      | Some (Inr out') \<Rightarrow> Some (Inr (out', readable)))"

definition rb_read ::
  "ring_buffer \<Rightarrow> u8 list \<Rightarrow> u64 \<Rightarrow> u64 \<Rightarrow> (u8 list \<times> u64) outcome option" where
  "rb_read rb out offset_frames count_frames =
     (case rb_read_plan rb offset_frames count_frames of
        None \<Rightarrow> Some (Inr (out, 0))
      | Some (start, readable) \<Rightarrow> rb_read_copy rb out start readable)"

section \<open>The capacity\<close>

lemma next_power_of_2_spec:
  assumes "unat v \<le> 2 ^ 63"
  shows "\<exists>k\<le>63. unat (next_power_of_2 v) = 2 ^ k \<and> unat v \<le> 2 ^ k \<and> (v = 0 \<or> 2 ^ k < 2 * unat v)"
proof (cases "v = 0")
  case True
  then show ?thesis by (intro exI [of _ 0]) (simp add: next_power_of_2_def)
next
  case False
  with smear_pred_round_up [OF False assms] show ?thesis by (auto simp: next_power_of_2_def)
qed

text \<open>Above \<open>2 ^ 63\<close> the rounding itself overflows and the capacity is 0.\<close>

lemma next_power_of_2_overflow:
  assumes "2 ^ 63 < unat v"
  shows "next_power_of_2 v = 0"
proof -
  have nz: "v \<noteq> 0" using assms by auto
  then have u: "unat (v - 1) = unat v - 1" by (metis unat_minus_one)
  have ge: "2 ^ 63 \<le> unat (v - 1)" using assms u by simp
  then have "v - 1 \<noteq> 0" by auto
  then obtain k where k: "smear_right (v - 1) = mask (Suc k)" "k < 64" "unat (v - 1) < 2 ^ Suc k"
    by (metis smear_right_mask)
  have "(2::nat) ^ 63 < 2 ^ Suc k" using ge k(3) by (rule le_less_trans)
  then have "63 < Suc k" by (rule pow2_less_imp_less)
  with k(2) have "Suc k = 64" by simp
  with k(1) nz show ?thesis by (simp add: next_power_of_2_def mask_eq_exp_minus_1)
qed

section \<open>The buffer as a history of frames\<close>

text \<open>
  \<open>slots_hold c w H buf\<close>: the buffer of \<open>c\<close> slots of \<open>w\<close> bytes holds, of the history
  \<open>H\<close> of all frames written, the last \<open>c\<close>, each in the slot of its index modulo \<open>c\<close>.
\<close>

definition slots_hold :: "nat \<Rightarrow> nat \<Rightarrow> u8 list list \<Rightarrow> u8 list \<Rightarrow> bool" where
  "slots_hold c w H buf \<longleftrightarrow>
     length buf = c * w \<and>
     (\<forall>i<length H. length H \<le> i + c \<longrightarrow> frame_at w buf (i mod c) = H ! i)"

definition rb_cap :: "ring_buffer \<Rightarrow> nat" where
  "rb_cap rb = unat (rb_capacity_frames rb)"

definition rb_width :: "ring_buffer \<Rightarrow> nat" where
  "rb_width rb = unat (rb_channels rb) * unat (rb_bytes_per_sample rb)"

definition rb_shape :: "ring_buffer \<Rightarrow> bool" where
  "rb_shape rb \<longleftrightarrow>
     (\<exists>k. rb_cap rb = 2 ^ k) \<and> rb_capacity_mask rb = rb_capacity_frames rb - 1 \<and>
     rb_cap rb * rb_width rb < 2 ^ 63"

definition rb_holds :: "u8 list list \<Rightarrow> ring_buffer \<Rightarrow> bool" where
  "rb_holds H rb \<longleftrightarrow>
     rb_shape rb \<and> (\<forall>f\<in>set H. length f = rb_width rb) \<and>
     rb_write_pos rb = of_nat (length H) \<and> rb_total_written rb = of_nat (length H) \<and>
     slots_hold (rb_cap rb) (rb_width rb) H (rb_buffer rb)"

lemma rb_cap_pos: "rb_shape rb \<Longrightarrow> 0 < rb_cap rb"
  by (auto simp: rb_shape_def)

lemma unat_rb_bytes_per_frame [word_conv]: "unat (rb_bytes_per_frame rb) = rb_width rb"
proof -
  have c: "unat (ucast (rb_channels rb) :: u64) = unat (rb_channels rb)"
    and b: "unat (ucast (rb_bytes_per_sample rb) :: u64) = unat (rb_bytes_per_sample rb)"
    by (simp_all add: unat_ucast_16)
  have "unat (rb_channels rb) * unat (rb_bytes_per_sample rb) < 2 ^ 16 * 2 ^ 16"
    by (intro mult_strict_mono unat_lt_16) simp_all
  then  show ?thesis
    unfolding rb_bytes_per_frame_def rb_width_def c [symmetric] b [symmetric]
    by (intro unat_mult_64) simp
qed

text \<open>One aligned block store of \<open>m\<close> new frames that does not pass the end of the buffer.\<close>

lemma slots_hold_store:
  assumes hold: "slots_hold c w H buf" and m: "m \<le> c - length H mod c" and c: "0 < c"
    and new: "length new = m * w"
  shows "slots_hold c w (H @ frames_of w m new)
           (take (length H mod c * w) buf @ new @ drop ((length H mod c + m) * w) buf)"
proof -
  let ?a = "length H mod c"
  let ?buf = "take (?a * w) buf @ new @ drop ((?a + m) * w) buf"
  have am: "?a + m \<le> c" using m c by (simp add: le_diff_conv2 mod_le_divisor less_imp_le_nat)
  have len: "length buf = c * w" using hold by (simp add: slots_hold_def)
  have old: "\<And>i. i < length H \<Longrightarrow> length H \<le> i + c \<Longrightarrow> frame_at w buf (i mod c) = H ! i"
    using hold by (simp add: slots_hold_def)
  have fr: "frame_at w ?buf k =
      (if ?a \<le> k \<and> k < ?a + m then frame_at w new (k - ?a) else frame_at w buf k)" if "k < c" for k
    using frame_at_splice [OF len am new that] .
  have "frame_at w ?buf (i mod c) = (H @ frames_of w m new) ! i"
    if i: "i < length H + m" "length H + m \<le> i + c" for i
  proof (cases "i < length H")
    case True
    have "\<not> (?a \<le> i mod c \<and> i mod c < ?a + m)"
    proof
      assume in_new: "?a \<le> i mod c \<and> i mod c < ?a + m"
      define d where "d = length H - i"
      have d: "0 < d" "d + m \<le> c" "length H = i + d" using True i by (auto simp: d_def)
      show False
      proof (cases "i mod c + d < c")
        case True
        then have "length H mod c = i mod c + d"
          using d(3) by (metis mod_add_left_eq mod_less)
        with in_new d(1) show False by simp
      next
        case False
        have lt: "i mod c < c" using c by simp
        have "length H mod c = (i mod c + d) mod c"
          using d(3) by (simp add: mod_add_left_eq)
        also have "\<dots> = (i mod c + d - c) mod c"
          using False by (simp add: le_mod_geq)
        also have "\<dots> = i mod c + d - c"
          using lt d(1,2) by (intro mod_less) linarith
        finally show False using in_new lt d False by linarith
      qed
    qed
    then show ?thesis
      using True i c by (auto simp: fr old nth_append)
  next
    case False
    define j where "j = i - length H"
    have j: "j < m" "i = length H + j" using False i by (auto simp: j_def)
    have "?a + j < c" using j am by linarith
    then have "i mod c = ?a + j" by (metis j(2) mod_add_left_eq mod_less)
    with j \<open>?a + j < c\<close> show ?thesis by (simp add: fr nth_append)
  qed
  then show ?thesis
    using length_splice [OF len am new] by (simp add: slots_hold_def)
qed

section \<open>The loops\<close>

text \<open>
  The word-level parameters of a buffer of \<open>c\<close> slots of \<open>w\<close> bytes. Under it every index
  and byte count the loops compute is the number it stands for.
\<close>

definition geometry :: "u64 \<Rightarrow> u64 \<Rightarrow> u64 \<Rightarrow> nat \<Rightarrow> nat \<Rightarrow> bool" where
  "geometry cap cmask bpf c w \<longleftrightarrow>
     unat cap = c \<and> (\<exists>k. c = 2 ^ k) \<and> cmask = cap - 1 \<and> unat bpf = w \<and> c * w < 2 ^ 63"

lemma geometry_of_shape:
  "rb_shape rb \<Longrightarrow>
   geometry (rb_capacity_frames rb) (rb_capacity_mask rb) (rb_bytes_per_frame rb) (rb_cap rb) (rb_width rb)"
  by (auto simp: geometry_def rb_shape_def rb_cap_def word_conv)

lemma geometry_pos: "geometry cap cmask bpf c w \<Longrightarrow> 0 < c"
  by (auto simp: geometry_def)

lemma geometry_index:
  assumes "geometry cap cmask bpf c w"
  shows "unat ((of_nat n :: u64) AND cmask) = n mod c"
  using assms of_nat_mod_pow2 [of cap _ n] by (auto simp: geometry_def)

lemma geometry_bytes:
  assumes "geometry cap cmask bpf c w" and "unat x \<le> c"
  shows "unat (x * bpf) = unat x * w"
proof -
  have "unat x * unat bpf \<le> c * w"
    using assms by (auto simp: geometry_def intro: mult_le_mono1)
  moreover have "c * w < 2 ^ 63" using assms(1) by (simp add: geometry_def)
  ultimately have "unat x * unat bpf < 2 ^ 64" by simp
  then show ?thesis using assms(1) by (simp add: geometry_def unat_mult_64)
qed

lemma geometry_room:
  assumes "geometry cap cmask bpf c w" and "unat idx < c"
  shows "unat (cap - idx) = c - unat idx"
  using assms by (auto simp: geometry_def word_le_nat_alt unat_sub_64)

lemma rb_write_loop_ok:
  assumes g: "geometry cap cmask bpf c w"
    and "slots_hold c w H buf" and "src + unat remaining * w \<le> length data"
  shows "\<exists>buf'. rb_write_loop cap cmask bpf data buf src (of_nat (length H)) remaining =
                 Some (Inr (buf', of_nat (length H + unat remaining))) \<and>
               slots_hold c w (H @ frames_of w (unat remaining) (drop src data)) buf'"
  using assms(2,3)
proof (induction "unat remaining" arbitrary: H buf src remaining rule: less_induct)
  case less
  show ?case
  proof (cases "remaining = 0")
    case True
    with less.prems show ?thesis by (simp add: rb_write_loop.simps frames_of_def)
  next
    case False
    define idx where "idx = (of_nat (length H) :: u64) AND cmask"
    define batch where "batch = min remaining (cap - idx)"
    define a where "a = length H mod c"
    define m where "m = unat batch"
    have c: "0 < c" using g by (rule geometry_pos)
    have a: "unat idx = a" "a < c" using geometry_index [OF g] c by (simp_all add: idx_def a_def)
    have m: "m = min (unat remaining) (c - a)"
      using geometry_room [OF g] a by (simp add: m_def batch_def unat_min)
    have mpos: "0 < m" using False a m by (simp add: unat_gt_0)
    have bytes: "unat (idx * bpf) = a * w" "unat (batch * bpf) = m * w"
      using geometry_bytes [OF g] a m by (simp_all add: m_def)
    define new where "new = take (m * w) (drop src data)"
    have mrem: "m \<le> unat remaining" by (simp add: m)
    have fits: "src + m * w \<le> length data"
      using less.prems(2) mult_le_mono1 [OF mrem, of w] by linarith
    have new: "length new = m * w" using fits by (simp add: new_def)
    define buf' where "buf' = take (a * w) buf @ new @ drop ((a + m) * w) buf"
    have "a * w + m * w \<le> c * w"
      using a m by (metis add_mult_distrib le_add_diff_inverse less_imp_le_nat min.cobounded2
          mult_le_mono1 nat_add_left_cancel_le)
    then have copy: "memcpy buf (a * w) data src (m * w) = Inr buf'"
      using less.prems(1) fits
      by (simp add: memcpy_ok slots_hold_def buf'_def new_def add_mult_distrib)
    have hold': "slots_hold c w (H @ frames_of w m new) buf'"
      unfolding buf'_def a_def
      by (rule slots_hold_store [OF less.prems(1) _ c new]) (simp add: m a_def)
    have rem': "unat (remaining - batch) = unat remaining - m"
      by (simp add: m_def batch_def unat_sub_64)
    have pos': "(of_nat (length H) :: u64) + batch = of_nat (length (H @ frames_of w m new))"
      by (simp add: m_def)
    have "(src + m * w) + unat (remaining - batch) * w \<le> length data"
      using less.prems(2) mrem by (simp add: rem' diff_mult_distrib mult_le_mono1)
    from less.hyps [OF _ hold' this] obtain buf'' where IH:
      "rb_write_loop cap cmask bpf data buf' (src + m * w) (of_nat (length (H @ frames_of w m new)))
         (remaining - batch) =
       Some (Inr (buf'', of_nat (length (H @ frames_of w m new) + unat (remaining - batch))))"
      "slots_hold c w ((H @ frames_of w m new) @
         frames_of w (unat (remaining - batch)) (drop (src + m * w) data)) buf''"
      using mpos mrem rem' by auto
    have "rb_write_loop cap cmask bpf data buf src (of_nat (length H)) remaining =
          rb_write_loop cap cmask bpf data buf' (src + m * w) (of_nat (length H) + batch) (remaining - batch)"
      by (subst rb_write_loop.simps)
        (simp add: False Let_def copy bytes flip: idx_def batch_def)
    moreover have "frames_of w (unat remaining) (drop src data) =
        frames_of w m new @ frames_of w (unat (remaining - batch)) (drop (src + m * w) data)"
      using frames_of_split [OF mrem, of w "drop src data"]
      by (simp add: new_def frames_of_take rem' add.commute)
    ultimately show ?thesis
      using IH mrem by (simp add: pos' rem')
  qed
qed

lemma rb_read_loop_ok:
  assumes g: "geometry cap cmask bpf c w"
    and F: "length F = unat readable" "unat readable \<le> c"
    and buf: "length buf = c * w"
    and slots: "\<And>j. j < length F \<Longrightarrow> frame_at w buf ((unat start + j) mod c) = F ! j"
    and "copied \<le> readable" and "unat readable * w \<le> length out"
  shows "rb_read_loop cap cmask bpf buf start readable out copied =
         Some (Inr (take (unat copied * w) out @ concat (drop (unat copied) F) @
                    drop (unat readable * w) out))"
  using assms(6,7)
proof (induction "unat readable - unat copied" arbitrary: copied out rule: less_induct)
  case less
  show ?case
  proof (cases "copied < readable")
    case False
    with less.prems have "copied = readable" by simp
    with F show ?thesis by (simp add: rb_read_loop.simps)
  next
    case True
    define idx where "idx = (start + copied) AND cmask"
    define batch where "batch = min (readable - copied) (cap - idx)"
    define a where "a = (unat start + unat copied) mod c"
    define m where "m = unat batch"
    define r where "r = unat readable"
    define d where "d = unat copied"
    have dr: "d < r" using True by (simp add: d_def r_def word_less_nat_alt)
    have c: "0 < c" using g by (rule geometry_pos)
    have "start + copied = of_nat (unat start + unat copied)" by simp
    then have a: "unat idx = a" "a < c"
      using geometry_index [OF g, of "unat start + unat copied"] c by (simp_all add: idx_def a_def)
    have m: "m = min (r - d) (c - a)"
      using geometry_room [OF g] a True
      by (simp add: m_def batch_def unat_min unat_sub_64 r_def d_def)
    have mpos: "0 < m" and mrd: "d + m \<le> r" using dr a m by auto
    have bytes: "unat (copied * bpf) = d * w" "unat (idx * bpf) = a * w" "unat (batch * bpf) = m * w"
      using geometry_bytes [OF g] a m dr F(2) by (simp_all add: m_def d_def r_def)
    define new where "new = take (m * w) (drop (a * w) buf)"
    have am: "a * w + m * w \<le> c * w"
      using a m by (metis add_mult_distrib le_add_diff_inverse less_imp_le_nat min.cobounded2
          mult_le_mono1 nat_add_left_cancel_le)
    have new: "length new = m * w" using am buf by (simp add: new_def)
    have "new = concat (frames_of w m (drop (a * w) buf))"
      using am buf by (subst concat_frames_of) (simp_all add: new_def)
    moreover have "frames_of w m (drop (a * w) buf) = take m (drop d F)"
    proof (rule nth_equalityI)
      fix j assume "j < length (frames_of w m (drop (a * w) buf))"
      then have j: "j < m" by simp
      have lt: "a + j < c" using j m by linarith
      have "(unat start + (d + j)) mod c = a + j"
        using lt by (metis a_def add.assoc d_def mod_add_left_eq mod_less)
      then show "frames_of w m (drop (a * w) buf) ! j = take m (drop d F) ! j"
        using slots [of "d + j"] j mrd F(1) by (simp add: frame_at_drop r_def)
    qed (use mrd F(1) in \<open>simp add: r_def\<close>)
    ultimately have new_F: "new = concat (take m (drop d F))" by simp
    have dm: "d * w + m * w \<le> r * w" using mrd by (metis add_mult_distrib mult_le_mono1)
    define out' where "out' = take (d * w) out @ new @ drop (d * w + m * w) out"
    have len_out: "r * w \<le> length out" using less.prems(2) by (simp add: r_def)
    have copy: "memcpy out (d * w) buf (a * w) (m * w) = Inr out'"
      using am buf dm len_out by (simp add: memcpy_ok out'_def new_def)
    have len_out': "length out' = length out"
      using memcpy_length [OF copy] .
    have cm: "unat (copied + batch) = d + m"
      unfolding m_def d_def using mrd unat_lt_64 [of readable]
      by (intro unat_add_64) (simp add: m_def d_def r_def)
    have IH: "rb_read_loop cap cmask bpf buf start readable out' (copied + batch) =
        Some (Inr (take ((d + m) * w) out' @ concat (drop (d + m) F) @ drop (r * w) out'))"
      using less.hyps [of "copied + batch" out'] cm mrd mpos len_out' len_out
      by (simp add: word_le_nat_alt r_def d_def)
    have tk: "take ((d + m) * w) out' = take (d * w) out @ new"
      using new dm len_out by (simp add: out'_def add_mult_distrib)
    have dp: "drop (r * w) out' = drop (r * w) out"
      using new dm dr len_out by (simp add: out'_def)
    have "rb_read_loop cap cmask bpf buf start readable out copied =
          rb_read_loop cap cmask bpf buf start readable out' (copied + batch)"
      by (subst rb_read_loop.simps)
        (simp add: True Let_def copy bytes flip: idx_def batch_def)
    moreover have "concat (drop d F) = new @ concat (drop (d + m) F)"
      by (metis new_F append_take_drop_id concat_append drop_drop add.commute)
    ultimately show ?thesis by (simp add: IH tk dp flip: r_def d_def)
  qed
qed

section \<open>The operations on the history\<close>

lemma rb_width_write: "rb_width (rb\<lparr>rb_buffer := b, rb_write_pos := p, rb_total_written := t\<rparr>) = rb_width rb"
  and rb_cap_write: "rb_cap (rb\<lparr>rb_buffer := b, rb_write_pos := p, rb_total_written := t\<rparr>) = rb_cap rb"
  by (simp_all add: rb_width_def rb_cap_def)

lemma frame_width_of_frames_of:
  "n * w \<le> length xs \<Longrightarrow> f \<in> set (frames_of w n xs) \<Longrightarrow> length f = w"
  by (auto simp: frames_of_def length_frame_at)

lemma rb_write_refines:
  assumes "rb_holds H rb" and "unat n * rb_width rb \<le> length data"
  shows "\<exists>rb'. rb_write rb data n = Some (Inr rb') \<and>
               rb_holds (H @ frames_of (rb_width rb) (unat n) data) rb' \<and>
               rb_cap rb' = rb_cap rb \<and> rb_width rb' = rb_width rb"
proof -
  have shape: "rb_shape rb" using assms(1) by (simp add: rb_holds_def)
  obtain buf' where buf': "rb_write_loop (rb_capacity_frames rb) (rb_capacity_mask rb)
      (rb_bytes_per_frame rb) data (rb_buffer rb) 0 (of_nat (length H)) n =
      Some (Inr (buf', of_nat (length H + unat n)))"
    "slots_hold (rb_cap rb) (rb_width rb) (H @ frames_of (rb_width rb) (unat n) (drop 0 data)) buf'"
    using rb_write_loop_ok [OF geometry_of_shape [OF shape], of H "rb_buffer rb" 0 n data] assms
    by (auto simp: rb_holds_def)
  define rb' where "rb' = rb\<lparr>rb_buffer := buf', rb_write_pos := of_nat (length H + unat n),
                             rb_total_written := rb_total_written rb + n\<rparr>"
  have "rb_write rb data n = Some (Inr rb')"
    using assms(1) buf'(1) by (simp add: rb_write_def rb'_def rb_holds_def)
  moreover have "rb_holds (H @ frames_of (rb_width rb) (unat n) data) rb'"
    using assms buf'(2)
    by (auto simp: rb_holds_def rb'_def rb_shape_def rb_width_write rb_cap_write
        dest: frame_width_of_frames_of [OF assms(2)])
  ultimately show ?thesis by (auto simp: rb'_def rb_width_write rb_cap_write)
qed

text \<open>
  \<open>recent H off m\<close>: the \<open>m\<close> frames that end \<open>off\<close> frames before the newest.
  \<open>rb_readable\<close> is how many frames a request gets.
\<close>

definition recent :: "'a list \<Rightarrow> nat \<Rightarrow> nat \<Rightarrow> 'a list" where
  "recent H off m = take m (drop (length H - off - m) H)"

definition readable_frames :: "nat \<Rightarrow> nat \<Rightarrow> nat \<Rightarrow> nat \<Rightarrow> nat" where
  "readable_frames cap len off cnt = min cnt (min len cap - off)"

lemma length_recent: "off + m \<le> length H \<Longrightarrow> length (recent H off m) = m"
  by (simp add: recent_def)

lemma nth_recent: "off + m \<le> length H \<Longrightarrow> j < m \<Longrightarrow> recent H off m ! j = H ! (length H - off - m + j)"
  by (simp add: recent_def)

lemma recent_newest: "recent (H @ D) 0 (length D) = D"
  by (simp add: recent_def)

lemma recent_all: "length H \<le> m \<Longrightarrow> recent H 0 m = H"
  by (simp add: recent_def)

lemma recent_split:
  assumes "off + m1 + m2 \<le> length H"
  shows "recent H off (m2 + m1) = recent H (off + m1) m2 @ recent H off m1"
proof -
  have "drop m2 (drop (length H - off - (m2 + m1)) H) = drop (length H - off - m1) H"
    using assms by simp
  moreover have "length H - (off + m1) - m2 = length H - off - (m2 + m1)" by simp
  ultimately show ?thesis by (simp add: recent_def take_add)
qed

lemma rb_read_plan_ok:
  assumes "rb_holds H rb" and "length H < 2 ^ 64"
  shows "rb_read_plan rb off cnt =
    (let m = readable_frames (rb_cap rb) (length H) (unat off) (unat cnt)
     in if min (length H) (rb_cap rb) \<le> unat off then None
        else Some (of_nat (length H - unat off - m), of_nat m))"
proof -
  define avail where "avail = min (rb_total_written rb) (rb_capacity_frames rb)"
  have tot: "unat (rb_total_written rb) = length H" and wp: "unat (rb_write_pos rb) = length H"
    using assms by (simp_all add: rb_holds_def unat_of_nat_64)
  have avail: "unat avail = min (length H) (rb_cap rb)"
    by (simp add: avail_def unat_min tot rb_cap_def)
  show ?thesis
  proof (cases "min (length H) (rb_cap rb) \<le> unat off")
    case True
    then have "off \<ge> avail" by (simp add: word_le_nat_alt avail)
    with True show ?thesis by (simp add: rb_read_plan_def Let_def flip: avail_def)
  next
    case False
    define r where "r = min cnt (avail - off)"
    define m where "m = readable_frames (rb_cap rb) (length H) (unat off) (unat cnt)"
    have nle: "\<not> off \<ge> avail" using False by (simp add: word_le_nat_alt avail)
    have r: "unat r = m"
      using nle by (simp add: r_def unat_min unat_sub_64 avail m_def readable_frames_def)
    have om: "unat off + m \<le> length H" using False by (simp add: m_def readable_frames_def)
    then have sum: "unat (off + r) = unat off + m"
      using assms(2) by (subst unat_add_64) (simp_all add: r)
    have ge: "rb_write_pos rb \<ge> off + r" using om by (simp add: word_le_nat_alt sum wp)
    have "unat (rb_write_pos rb - off - r) = length H - unat off - m"
      using unat_sub_64 [OF ge] by (simp only: sum wp diff_diff_left diff_diff_add)
    then have st: "rb_write_pos rb - off - r = of_nat (length H - unat off - m)"
      by (metis of_nat_unat ucast_id)
    have rr: "r = of_nat m" using r by (metis of_nat_unat ucast_id)
    have "rb_read_plan rb off cnt = Some (rb_write_pos rb - off - r, r)"
      using nle ge by (simp add: rb_read_plan_def Let_def flip: avail_def r_def)
    then have "rb_read_plan rb off cnt = Some (of_nat (length H - unat off - m), of_nat m)"
      unfolding st rr [symmetric] .
    then show ?thesis using False by (simp only: Let_def m_def [symmetric] if_False)
  qed
qed

text \<open>
  The copy phase, on a buffer that may have changed since the plan was made: it is enough
  that the slots of the requested window still hold the frames of the history.
\<close>

lemma rb_read_copy_ok:
  assumes "rb_shape rb" and len: "length (rb_buffer rb) = rb_cap rb * rb_width rb"
    and "off + m \<le> length H" and "m \<le> rb_cap rb" and "length H < 2 ^ 64"
    and out: "m * rb_width rb \<le> length out"
    and slots: "\<And>i. length H - off - m \<le> i \<Longrightarrow> i < length H - off \<Longrightarrow>
                 frame_at (rb_width rb) (rb_buffer rb) (i mod rb_cap rb) = H ! i"
  shows "rb_read_copy rb out (of_nat (length H - off - m)) (of_nat m) =
         Some (Inr (concat (recent H off m) @ drop (m * rb_width rb) out, of_nat m))"
proof -
  have um: "unat (of_nat m :: u64) = m" using assms(3,5) by (intro unat_of_nat_64) simp
  define p where "p = length H - off - m"
  have us: "unat (of_nat p :: u64) = p"
    using assms(5) by (intro unat_of_nat_64) (simp add: p_def)
  have "rb_read_loop (rb_capacity_frames rb) (rb_capacity_mask rb) (rb_bytes_per_frame rb)
      (rb_buffer rb) (of_nat p) (of_nat m) out 0 =
    Some (Inr (take (unat (0::u64) * rb_width rb) out @
      concat (drop (unat (0::u64)) (recent H off m)) @
      drop (unat (of_nat m :: u64) * rb_width rb) out))"
  proof (rule rb_read_loop_ok [OF geometry_of_shape [OF assms(1)] _ _ len])
    fix j assume "j < length (recent H off m)"
    then have j: "j < m" using assms(3) by (simp add: length_recent)
    then show "frame_at (rb_width rb) (rb_buffer rb)
        ((unat (of_nat p :: u64) + j) mod rb_cap rb) = recent H off m ! j"
      using slots [of "p + j"] nth_recent [OF assms(3) j, folded p_def] j assms(3)
      by (simp add: us flip: p_def) (simp add: p_def)
  qed (use assms in \<open>simp_all add: um length_recent\<close>)
  then show ?thesis unfolding p_def [symmetric] by (simp add: rb_read_copy_def um)
qed

lemma rb_read_refines:
  assumes h: "rb_holds H rb" and "length H < 2 ^ 64"
    and m: "m = readable_frames (rb_cap rb) (length H) (unat off) (unat cnt)"
    and "m * rb_width rb \<le> length out"
  shows "rb_read rb out off cnt =
         Some (Inr (concat (recent H (unat off) m) @ drop (m * rb_width rb) out, of_nat m))"
proof (cases "min (length H) (rb_cap rb) \<le> unat off")
  case True
  then have "m = 0" by (simp add: m readable_frames_def)
  with True show ?thesis
    using rb_read_plan_ok [OF h assms(2), of off cnt] by (simp add: rb_read_def recent_def)
next
  case False
  then have om: "unat off + m \<le> length H" "unat off + m \<le> rb_cap rb"
    by (auto simp: m readable_frames_def)
  have "rb_read_copy rb out (of_nat (length H - unat off - m)) (of_nat m) =
    Some (Inr (concat (recent H (unat off) m) @ drop (m * rb_width rb) out, of_nat m))"
    by (rule rb_read_copy_ok) (use assms om in \<open>auto simp: rb_holds_def slots_hold_def\<close>)
  with False show ?thesis
    using rb_read_plan_ok [OF h assms(2), of off cnt] m by (simp add: rb_read_def Let_def)
qed

lemma rb_available_refines:
  "rb_holds H rb \<Longrightarrow> length H < 2 ^ 64 \<Longrightarrow>
   unat (rb_available_frames rb) = min (length H) (rb_cap rb)"
  by (simp add: rb_available_frames_def unat_min rb_holds_def unat_of_nat_64 rb_cap_def)

lemma rb_new_refines:
  assumes "unat capacity \<le> 2 ^ 63"
    and "unat (next_power_of_2 capacity) * (unat channels * unat bps) < 2 ^ 63"
    and "mem_ok (unat (next_power_of_2 capacity) * (unat channels * unat bps))"
  shows "\<exists>rb. rb_new mem_ok capacity channels bps = Inr rb \<and> rb_holds [] rb \<and>
              rb_width rb = unat channels * unat bps \<and>
              rb_cap rb = unat (next_power_of_2 capacity)"
proof -
  let ?cap = "next_power_of_2 capacity"
  have "unat (ucast channels * ucast bps :: u64) = unat channels * unat bps"
    using unat_rb_bytes_per_frame [of "\<lparr>rb_buffer = [], rb_capacity_frames = 0, rb_capacity_mask = 0,
      rb_channels = channels, rb_bytes_per_sample = bps, rb_write_pos = 0, rb_total_written = 0\<rparr>"]
    by (simp add: rb_bytes_per_frame_def rb_width_def)
  then have size: "unat (?cap * ucast channels * ucast bps) = unat ?cap * (unat channels * unat bps)"
    using assms(2) by (subst mult.assoc, subst unat_mult_64) simp_all
  obtain k where k: "unat ?cap = 2 ^ k" using next_power_of_2_spec [OF assms(1)] by blast
  show ?thesis
    using assms(2,3) k size
    by (auto simp: rb_new_def Let_def new_zeroed_def rb_holds_def rb_shape_def rb_cap_def
        rb_width_def slots_hold_def not_le)
qed

section \<open>The interface: a store of frames\<close>

text \<open>
  What the clip extractor and the pipeline rely on: a write appends frames to the history,
  a read returns the frames that end \<open>off\<close> before the newest, as many as asked for and kept.
\<close>

fun run_writes ::
  "('s \<Rightarrow> u8 list \<Rightarrow> u64 \<Rightarrow> 's outcome option) \<Rightarrow> 's \<Rightarrow> (u8 list \<times> u64) list \<Rightarrow> 's outcome option" where
  "run_writes put s [] = Some (Inr s)"
| "run_writes put s ((data, n) # ws) =
     (case put s data n of
        None \<Rightarrow> None
      | Some (Inl e) \<Rightarrow> Some (Inl e)
      | Some (Inr s') \<Rightarrow> run_writes put s' ws)"

definition chunk_frames :: "nat \<Rightarrow> (u8 list \<times> u64) list \<Rightarrow> u8 list list" where
  "chunk_frames w ws = concat (map (\<lambda>(data, n). frames_of w (unat n) data) ws)"

locale frame_store =
  fixes put :: "'s \<Rightarrow> u8 list \<Rightarrow> u64 \<Rightarrow> 's outcome option"
    and get :: "'s \<Rightarrow> u8 list \<Rightarrow> u64 \<Rightarrow> u64 \<Rightarrow> (u8 list \<times> u64) outcome option"
    and available :: "'s \<Rightarrow> u64"
    and holds :: "u8 list list \<Rightarrow> 's \<Rightarrow> bool"
    and cap :: "'s \<Rightarrow> nat"
    and width :: "'s \<Rightarrow> nat"
  assumes write_appends:
    "holds H s \<Longrightarrow> unat n * width s \<le> length data \<Longrightarrow>
     \<exists>s'. put s data n = Some (Inr s') \<and> holds (H @ frames_of (width s) (unat n) data) s' \<and>
          cap s' = cap s \<and> width s' = width s"
    and read_recent:
    "holds H s \<Longrightarrow> length H < 2 ^ 64 \<Longrightarrow>
     m = readable_frames (cap s) (length H) (unat off) (unat cnt) \<Longrightarrow>
     m * width s \<le> length out \<Longrightarrow>
     get s out off cnt =
       Some (Inr (concat (recent H (unat off) m) @ drop (m * width s) out, of_nat m))"
    and available_kept:
    "holds H s \<Longrightarrow> length H < 2 ^ 64 \<Longrightarrow> unat (available s) = min (length H) (cap s)"
    and frame_width: "holds H s \<Longrightarrow> f \<in> set H \<Longrightarrow> length f = width s"
begin

lemma run_writes_append:
  assumes "holds H s" and "\<And>data n. (data, n) \<in> set ws \<Longrightarrow> unat n * width s \<le> length data"
  shows "\<exists>s'. run_writes put s ws = Some (Inr s') \<and> holds (H @ chunk_frames (width s) ws) s' \<and>
              cap s' = cap s \<and> width s' = width s"
  using assms
proof (induction ws arbitrary: H s)
  case Nil
  then show ?case by (simp add: chunk_frames_def)
next
  case (Cons w ws)
  obtain data n where w: "w = (data, n)" by (cases w)
  with Cons.prems obtain s1 where s1: "put s data n = Some (Inr s1)"
    "holds (H @ frames_of (width s) (unat n) data) s1" "cap s1 = cap s" "width s1 = width s"
    using write_appends [of H s n data] by auto
  from Cons.IH [OF s1(2)] Cons.prems(2) s1(3,4) show ?case
    by (auto simp: w s1(1) chunk_frames_def)
qed

lemma length_recent_bytes:
  assumes "holds H s" and "off + m \<le> length H"
  shows "length (concat (recent H off m)) = m * width s"
proof -
  have "\<And>f. f \<in> set (recent H off m) \<Longrightarrow> length f = width s"
    using frame_width [OF assms(1)] by (auto simp: recent_def dest: in_set_takeD in_set_dropD)
  from length_concat_const [OF this] show ?thesis using assms(2) by (simp add: length_recent)
qed

text \<open>What was written last is read back unchanged.\<close>

lemma read_back:
  assumes h: "holds H s" and n: "unat n \<le> cap s" and len: "length H + unat n < 2 ^ 64"
    and data: "length data = unat n * width s" and out: "length out = length data"
  shows "\<exists>s'. put s data n = Some (Inr s') \<and> get s' out 0 n = Some (Inr (data, n))"
proof -
  obtain s' where s': "put s data n = Some (Inr s')"
    "holds (H @ frames_of (width s) (unat n) data) s'" "cap s' = cap s" "width s' = width s"
    using write_appends [OF h] data by (metis order_refl)
  have "get s' out 0 n =
    Some (Inr (concat (recent (H @ frames_of (width s) (unat n) data) 0 (unat n)) @
               drop (unat n * width s') out, of_nat (unat n)))"
    using read_recent [OF s'(2), of "unat n" 0 n out] n len data out
    by (simp add: s'(3,4) readable_frames_def)
  moreover have "concat (recent (H @ frames_of (width s) (unat n) data) 0 (unat n)) = data"
    using recent_newest [of H "frames_of (width s) (unat n) data"] data
    by (simp add: concat_frames_of)
  ultimately show ?thesis using s'(1,4) data out by simp
qed

text \<open>A request longer than what is kept is cut to the available frames.\<close>

lemma read_at_most_available:
  assumes "holds H s" and "length H < 2 ^ 64" and "unat cnt * width s \<le> length out"
    and "get s out 0 cnt = Some (Inr (out', got))"
  shows "got = min cnt (available s)"
proof -
  define m where "m = readable_frames (cap s) (length H) 0 (unat cnt)"
  have "m * width s \<le> length out"
    by (rule le_trans [OF mult_le_mono1 assms(3)]) (simp add: m_def readable_frames_def)
  then have "got = of_nat m"
    using read_recent [OF assms(1,2), of m 0 cnt out] assms(4) by (simp add: m_def)
  moreover have "m = unat (min cnt (available s))"
    using available_kept [OF assms(1,2)]
    by (simp add: m_def readable_frames_def unat_min)
  ultimately show ?thesis by simp
qed

end

interpretation rb: frame_store rb_write rb_read rb_available_frames rb_holds rb_cap rb_width
proof unfold_locales
  show "\<exists>s'. rb_write s data n = Some (Inr s') \<and>
      rb_holds (H @ frames_of (rb_width s) (unat n) data) s' \<and> rb_cap s' = rb_cap s \<and> rb_width s' = rb_width s"
    if "rb_holds H s" "unat n * rb_width s \<le> length data" for H s n data
    using rb_write_refines [OF that] .
  show "rb_read s out off cnt = Some (Inr (concat (recent H (unat off) m) @ drop (m * rb_width s) out, of_nat m))"
    if "rb_holds H s" "length H < 2 ^ 64"
      "m = readable_frames (rb_cap s) (length H) (unat off) (unat cnt)" "m * rb_width s \<le> length out"
    for H s m off cnt out
    using rb_read_refines [OF that] .
qed (auto simp: rb_available_refines rb_holds_def)

section \<open>Properties\<close>

text \<open>A small buffer for the witnesses: four one-byte slots after six frames.\<close>

definition demo_buffer :: ring_buffer where
  "demo_buffer = \<lparr>rb_buffer = [5, 6, 3, 4], rb_capacity_frames = 4, rb_capacity_mask = 3,
     rb_channels = 1, rb_bytes_per_sample = 1, rb_write_pos = 6, rb_total_written = 6\<rparr>"

definition demo_history :: "u8 list list" where
  "demo_history = [[1], [2], [3], [4], [5], [6]]"

lemma demo_shape: "rb_shape demo_buffer" and demo_cap: "rb_cap demo_buffer = 4"
  and demo_width: "rb_width demo_buffer = 1"
proof -
  have "\<exists>k. (4::nat) = 2 ^ k" by (rule exI [of _ 2]) simp
  then show "rb_shape demo_buffer" by (simp add: rb_shape_def rb_cap_def rb_width_def demo_buffer_def)
qed (simp_all add: rb_cap_def rb_width_def demo_buffer_def)

lemma demo_holds: "rb_holds demo_history demo_buffer"
proof -
  have "frame_at 1 [5, 6, 3, 4] (i mod 4) = demo_history ! i"
    if "i < 6" "6 \<le> i + 4" for i
  proof -
    from that have "i = 2 \<or> i = 3 \<or> i = 4 \<or> i = 5" by linarith
    then show ?thesis by (auto simp: frame_at_def demo_history_def)
  qed
  then show ?thesis
    using demo_shape
    by (simp add: rb_holds_def demo_cap demo_width slots_hold_def)
      (simp add: demo_buffer_def demo_history_def)
qed

text \<open>
  Least power of two: \<open>next_power_of_2\<close> returns the least power of two that is at least its argument, for
  every argument up to \<open>2 ^ 63\<close> (and 1 for 0); the shift-and-or cascade is exact.
\<close>

theorem next_power_of_2_least:
  assumes "unat v \<le> 2 ^ 63"
  shows "(\<exists>k. unat (next_power_of_2 v) = 2 ^ k) \<and> unat v \<le> unat (next_power_of_2 v) \<and>
         (\<forall>j. unat v \<le> 2 ^ j \<longrightarrow> unat (next_power_of_2 v) \<le> 2 ^ j)"
proof -
  obtain k where k: "unat (next_power_of_2 v) = 2 ^ k" "unat v \<le> 2 ^ k" "v = 0 \<or> 2 ^ k < 2 * unat v"
    using next_power_of_2_spec [OF assms] by blast
  have "(2::nat) ^ k \<le> 2 ^ j" if j: "unat v \<le> 2 ^ j" for j
  proof (cases "v = 0")
    case True
    then have "(2::nat) ^ k = 1" using k(1) by (simp add: next_power_of_2_def)
    then show ?thesis by simp
  next
    case False
    with k(3) j have "(2::nat) ^ k < 2 ^ Suc j" by simp
    then show ?thesis by (simp only: power_strict_increasing_iff) simp
  qed
  with k show ?thesis by auto
qed

theorem next_power_of_2_least_witness:
  "next_power_of_2 2880000 = 4194304 \<and> unat (2880000 :: u64) \<le> unat (next_power_of_2 2880000)"
  using next_power_of_2_least [of 2880000]
  by (simp add: next_power_of_2_def smear_right_def)

text \<open>
  C8: \<open>write\<close> always returns, never leaves the buffer, and is an append on the history: for
  any number of frames (more than the capacity included) and any position, if the caller's
  data holds that many frames, the buffer afterwards holds the old history followed by them.
\<close>

theorem rb_write_appends_history:
  assumes "rb_holds H rb" and "unat n * rb_width rb \<le> length data"
  shows "\<exists>rb'. rb_write rb data n = Some (Inr rb') \<and>
               rb_holds (H @ frames_of (rb_width rb) (unat n) data) rb'"
  using rb.write_appends [OF assms] by blast

theorem rb_write_appends_history_witness:
  "\<exists>rb'. rb_write demo_buffer [7, 8, 9, 10, 11, 12] 6 = Some (Inr rb') \<and>
         rb_holds [[1], [2], [3], [4], [5], [6], [7], [8], [9], [10], [11], [12]] rb'"
proof -
  have "frames_of 1 6 [7, 8, 9, 10, 11, 12] = [[7], [8], [9], [10], [11], [12 :: u8]]"
    by (simp add: frames_of_def frame_at_def upt_rec)
  then show ?thesis
    using rb_write_appends_history [OF demo_holds, of 6 "[7, 8, 9, 10, 11, 12]"]
    by (simp add: demo_width demo_history_def)
qed

text \<open>
  C2: \<open>read\<close> returns, copies exactly the frames of the history that end \<open>offset\<close> frames
  before the newest, oldest first, and nothing else of the caller's memory changes. The
  count is the requested one cut to what is still in the buffer (0 past its end).
\<close>

theorem rb_read_returns_history:
  assumes "rb_holds H rb" and "length H < 2 ^ 64"
    and "m = readable_frames (rb_cap rb) (length H) (unat off) (unat cnt)"
    and "m * rb_width rb \<le> length out"
  shows "rb_read rb out off cnt =
         Some (Inr (concat (recent H (unat off) m) @ drop (m * rb_width rb) out, of_nat m))"
  by (rule rb.read_recent [OF assms])

theorem rb_read_returns_history_witness:
  "rb_read demo_buffer [0, 0, 0, 0, 0] 1 10 = Some (Inr ([3, 4, 5, 0, 0], 3))"
  using rb_read_returns_history [OF demo_holds, of 3 1 10 "[0, 0, 0, 0, 0]"]
  by (simp add: demo_cap demo_width readable_frames_def recent_def demo_history_def)

text \<open>
  \<open>mid_write k H rb rb'\<close>: \<open>rb'\<close> is what a reader may see of \<open>rb\<close> while the capture thread is
  anywhere inside a write of \<open>k\<close> frames: the slots of these frames have any contents, the
  counters may have moved, everything else is as it was.
\<close>

definition mid_write :: "nat \<Rightarrow> u8 list list \<Rightarrow> ring_buffer \<Rightarrow> ring_buffer \<Rightarrow> bool" where
  "mid_write k H rb rb' \<longleftrightarrow>
     rb_capacity_frames rb' = rb_capacity_frames rb \<and> rb_capacity_mask rb' = rb_capacity_mask rb \<and>
     rb_channels rb' = rb_channels rb \<and> rb_bytes_per_sample rb' = rb_bytes_per_sample rb \<and>
     length (rb_buffer rb') = length (rb_buffer rb) \<and>
     (\<forall>s<rb_cap rb. s \<notin> (\<lambda>i. i mod rb_cap rb) ` {length H..<length H + k} \<longrightarrow>
        frame_at (rb_width rb) (rb_buffer rb') s = frame_at (rb_width rb) (rb_buffer rb) s)"

lemma mid_write_shape:
  assumes "mid_write k H rb rb'"
  shows "rb_cap rb' = rb_cap rb" and "rb_width rb' = rb_width rb" and "rb_shape rb' = rb_shape rb"
proof -
  show c: "rb_cap rb' = rb_cap rb" and w: "rb_width rb' = rb_width rb"
    using assms by (simp_all add: mid_write_def rb_cap_def rb_width_def)
  show "rb_shape rb' = rb_shape rb"
    using assms by (simp add: rb_shape_def c w) (simp add: mid_write_def)
qed

lemma slot_survives:
  assumes "i < len" and "len + k \<le> i + c" and "0 < c"
  shows "i mod c \<notin> (\<lambda>i. i mod c) ` {len..<len + (k::nat)}"
proof
  assume "i mod c \<in> (\<lambda>i. i mod c) ` {len..<len + k}"
  then obtain j where j: "len \<le> j" "j < len + k" "i mod c = j mod c" by auto
  then have "c dvd j - i" using assms(1) by (metis le_trans less_imp_le_nat mod_eq_dvd_iff_nat)
  moreover have "0 < j - i" "j - i < c" using assms j by linarith+
  ultimately show False by (meson dvd_imp_le not_le)
qed

text \<open>
  \<open>read\<close> takes no lock the writer takes. A clip whose plan was made before a write of
  \<open>k\<close> frames and whose bytes are copied at any moment during it is still exactly the clip
  of the history at the time of the plan, as long as offset, count and \<open>k\<close> together stay
  within the capacity.
\<close>

theorem rb_read_stable_under_write:
  assumes h: "rb_holds H rb" and len: "length H < 2 ^ 64"
    and plan: "rb_read_plan rb off cnt = Some (start, readable)"
    and mid: "mid_write k H rb rb'"
    and room: "unat off + unat readable + k \<le> rb_cap rb"
    and out: "length out = unat readable * rb_width rb"
  shows "rb_read_copy rb' out start readable =
         Some (Inr (concat (recent H (unat off) (unat readable)), readable))"
proof -
  define m where "m = readable_frames (rb_cap rb) (length H) (unat off) (unat cnt)"
  have p: "start = of_nat (length H - unat off - m)" "readable = of_nat m"
    "\<not> min (length H) (rb_cap rb) \<le> unat off"
    using plan rb_read_plan_ok [OF h len, of off cnt] by (auto simp: Let_def m_def split: if_splits)
  then have om: "unat off + m \<le> length H" "m \<le> rb_cap rb"
    by (auto simp: m_def readable_frames_def)
  then have ur: "unat readable = m" using len by (simp add: p(2) unat_of_nat_64)
  have c: "0 < rb_cap rb" using h by (simp add: rb_holds_def rb_cap_pos)
  have "rb_read_copy rb' out (of_nat (length H - unat off - m)) (of_nat m) =
        Some (Inr (concat (recent H (unat off) m) @ drop (m * rb_width rb') out, of_nat m))"
  proof (rule rb_read_copy_ok)
    fix i assume i: "length H - unat off - m \<le> i" "i < length H - unat off"
    have keep: "i < length H" "length H + k \<le> i + rb_cap rb" using i om room ur by linarith+
    have "i mod rb_cap rb < rb_cap rb" using c by simp
    then have "frame_at (rb_width rb) (rb_buffer rb') (i mod rb_cap rb) =
          frame_at (rb_width rb) (rb_buffer rb) (i mod rb_cap rb)"
      using mid slot_survives [OF keep c] by (simp add: mid_write_def)
    then show "frame_at (rb_width rb') (rb_buffer rb') (i mod rb_cap rb') = H ! i"
      using h keep by (simp add: mid_write_shape [OF mid] rb_holds_def slots_hold_def)
  qed (use h mid om len out ur in
        \<open>auto simp: mid_write_shape [OF mid] rb_holds_def slots_hold_def mid_write_def\<close>)
  then show ?thesis using out by (simp only: p(1,2) ur [unfolded p(2)] mid_write_shape [OF mid]) simp
qed

theorem rb_read_stable_under_write_witness:
  "rb_read_copy (demo_buffer\<lparr>rb_buffer := [5, 6, 99, 4]\<rparr>) [0, 0, 0] 3 3 = Some (Inr ([4, 5, 6], 3))"
proof -
  have plan: "rb_read_plan demo_buffer 0 3 = Some (3, 3)"
    by (simp add: rb_read_plan_def demo_buffer_def Let_def)
  have "mid_write 1 demo_history demo_buffer (demo_buffer\<lparr>rb_buffer := [5, 6, 99, 4]\<rparr>)"
  proof -
    have "frame_at 1 [5, 6, 99, 4] s = frame_at 1 [5, 6, 3, 4 :: u8] s" if "s < 4" "s \<noteq> 2" for s
    proof -
      from that have "s = 0 \<or> s = 1 \<or> s = 3" by linarith
      then show ?thesis by (auto simp: frame_at_def)
    qed
    then show ?thesis
      by (simp add: mid_write_def demo_cap demo_width) (simp add: demo_buffer_def demo_history_def)
  qed
  from rb_read_stable_under_write [OF demo_holds _ plan this, of "[0, 0, 0]"] show ?thesis
    by (simp add: demo_cap demo_width demo_history_def recent_def)
qed

text \<open>
  Without that margin a read is torn. With a full buffer, a plan for all four frames
  followed by a write of one frame copies the newest frame where the oldest should be: the
  clip is not a contiguous piece of any history.
\<close>

theorem rb_read_can_be_torn:
  "rb_read_plan demo_buffer 0 4 = Some (2, 4) \<and>
   (\<exists>rb'. rb_write demo_buffer [7] 1 = Some (Inr rb') \<and>
          rb_read_copy rb' [0, 0, 0, 0] 2 4 = Some (Inr ([7, 4, 5, 6], 4)))"
proof -
  have "rb_write demo_buffer [7] 1 =
    Some (Inr (demo_buffer\<lparr>rb_buffer := [5, 6, 7, 4], rb_write_pos := 7, rb_total_written := 7\<rparr>))"
    by (simp add: rb_write_def demo_buffer_def rb_bytes_per_frame_def rb_write_loop.simps
        memcpy_def load_range_def store_range_def)
  moreover have "rb_read_copy (demo_buffer\<lparr>rb_buffer := [5, 6, 7, 4], rb_write_pos := 7,
      rb_total_written := 7\<rparr>) [0, 0, 0, 0] 2 4 = Some (Inr ([7, 4, 5, 6], 4))"
    by (simp add: rb_read_copy_def demo_buffer_def rb_bytes_per_frame_def rb_read_loop.simps
        memcpy_def load_range_def store_range_def)
  moreover have "rb_read_plan demo_buffer 0 4 = Some (2, 4)"
    by (simp add: rb_read_plan_def demo_buffer_def Let_def)
  ultimately show ?thesis by blast
qed

end
