(* ===== verification/Ring_Interleaved.thy ===== *)
theory Ring_Interleaved
  imports Ring_Buffer "HOL-Library.Sublist"
begin

text \<open>
  \<open>RingBuffer\<close> while the capture thread writes and another thread reads. \<open>read()\<close> takes
  \<open>read_mutex_\<close>, which only keeps readers apart, so here its accesses to the counters and to the
  bytes of the buffer interleave freely with those of \<open>write()\<close>, one by one. \<open>ri_stored\<close> is a history:
  every byte \<open>write()\<close> has stored, in order; \<open>ri_writes\<close> are the writes begun.
\<close>

section \<open>The two threads\<close>

datatype ri_writer =
    RW_Idle
  | RW_Copy "u8 list" u64 nat u64 u64 nat
  | RW_Store u64 u64
  | RW_Count u64

datatype ri_reader =
    RR_Idle
  | RR_Position "u8 list" u64 u64
  | RR_Copy "u8 list" u64 u64 u64 u64 nat
  | RR_Done "u8 list" u64 u64 u64

record ri_state =
  ri_ring :: ring_buffer
  ri_writer :: ri_writer
  ri_reader :: ri_reader
  ri_stored :: "u8 list"
  ri_writes :: "(u8 list \<times> u64) list"

definition ri_init :: "u8 list list \<Rightarrow> ring_buffer \<Rightarrow> ri_state" where
  "ri_init H rb = \<lparr>ri_ring = rb, ri_writer = RW_Idle, ri_reader = RR_Idle, ri_stored = concat H,
     ri_writes = []\<rparr>"

text \<open>
  \<open>write()\<close>: the arguments of \<open>RW_Copy\<close> are \<open>data\<close>, \<open>frame_count\<close>, the offset of \<open>src\<close>, \<open>pos\<close>,
  \<open>remaining\<close>, and how many bytes of the current batch are copied.
\<close>

definition write_begin :: "ri_state \<Rightarrow> u8 list \<Rightarrow> u64 \<Rightarrow> ri_state outcome option" where
  "write_begin s data frame_count =
     (if ri_writer s = RW_Idle
      then Some (Inr (s\<lparr>ri_writer := RW_Copy data frame_count 0 (rb_write_pos (ri_ring s)) frame_count 0,
                        ri_writes := ri_writes s @ [(data, frame_count)]\<rparr>))
      else None)"

definition batch_frames :: "ring_buffer \<Rightarrow> u64 \<Rightarrow> u64 \<Rightarrow> u64" where
  "batch_frames rb pos remaining = min remaining (rb_capacity_frames rb - (pos AND rb_capacity_mask rb))"

definition frame_byte :: "ring_buffer \<Rightarrow> u64 \<Rightarrow> nat \<Rightarrow> nat" where
  "frame_byte rb pos done = unat ((pos AND rb_capacity_mask rb) * rb_bytes_per_frame rb) + done"

definition write_step :: "ri_state \<Rightarrow> ri_state outcome option" where
  "write_step s =
     (let rb = ri_ring s in
      case ri_writer s of
        RW_Idle \<Rightarrow> None
      | RW_Copy data n src pos remaining done \<Rightarrow>
          if remaining = 0 then Some (Inr (s\<lparr>ri_writer := RW_Store n pos\<rparr>))
          else let batch = batch_frames rb pos remaining;
                   bytes = unat (batch * rb_bytes_per_frame rb)
               in if done < bytes
                  then Some (obind (memcpy (rb_buffer rb) (frame_byte rb pos done) data (src + done) 1)
                         (\<lambda>buf. Inr (s\<lparr>ri_ring := rb\<lparr>rb_buffer := buf\<rparr>,
                           ri_stored := ri_stored s @ [data ! (src + done)],
                           ri_writer := RW_Copy data n src pos remaining (done + 1)\<rparr>)))
                  else Some (Inr (s\<lparr>ri_writer :=
                         RW_Copy data n (src + bytes) (pos + batch) (remaining - batch) 0\<rparr>))
      | RW_Store n pos \<Rightarrow>
          Some (Inr (s\<lparr>ri_ring := rb\<lparr>rb_write_pos := pos\<rparr>, ri_writer := RW_Count n\<rparr>))
      | RW_Count n \<Rightarrow>
          Some (Inr (s\<lparr>ri_ring := rb\<lparr>rb_total_written := rb_total_written rb + n\<rparr>,
                       ri_writer := RW_Idle\<rparr>)))"

text \<open>
  \<open>read()\<close>: it loads \<open>total_written_\<close>, later \<open>write_pos_\<close>, later the bytes. The arguments of
  \<open>RR_Copy\<close> are \<open>out\<close>, \<open>offset_frames\<close>, \<open>wp\<close>, \<open>readable\<close>, \<open>copied\<close>, and the bytes copied of the batch.
\<close>

definition read_begin :: "ri_state \<Rightarrow> u8 list \<Rightarrow> u64 \<Rightarrow> u64 \<Rightarrow> ri_state outcome option" where
  "read_begin s out offset_frames count_frames =
     (let total = rb_total_written (ri_ring s);
          avail = min total (rb_capacity_frames (ri_ring s));
          go = (if offset_frames \<ge> avail then RR_Done out offset_frames 0 0
                else RR_Position out offset_frames (min count_frames (avail - offset_frames)))
      in case ri_reader s of
           RR_Idle \<Rightarrow> Some (Inr (s\<lparr>ri_reader := go\<rparr>))
         | RR_Done out' off' wp' readable' \<Rightarrow> Some (Inr (s\<lparr>ri_reader := go\<rparr>))
         | _ \<Rightarrow> None)"

definition read_start :: "u64 \<Rightarrow> u64 \<Rightarrow> u64 \<Rightarrow> u64 \<Rightarrow> u64" where
  "read_start cap wp offset_frames readable =
     (if wp \<ge> offset_frames + readable then wp - offset_frames - readable
      else cap - ((offset_frames + readable - wp) mod cap))"

definition read_step :: "ri_state \<Rightarrow> ri_state outcome option" where
  "read_step s =
     (let rb = ri_ring s in
      case ri_reader s of
        RR_Position out off readable \<Rightarrow>
          Some (Inr (s\<lparr>ri_reader := RR_Copy out off (rb_write_pos rb) readable 0 0\<rparr>))
      | RR_Copy out off wp readable copied done \<Rightarrow>
          if copied < readable
          then let pos = read_start (rb_capacity_frames rb) wp off readable + copied;
                   batch = batch_frames rb pos (readable - copied)
               in if done < unat (batch * rb_bytes_per_frame rb)
                  then Some (obind (memcpy out (unat (copied * rb_bytes_per_frame rb) + done)
                                      (rb_buffer rb) (frame_byte rb pos done) 1)
                         (\<lambda>out'. Inr (s\<lparr>ri_reader := RR_Copy out' off wp readable copied (done + 1)\<rparr>)))
                  else Some (Inr (s\<lparr>ri_reader := RR_Copy out off wp readable (copied + batch) 0\<rparr>))
          else Some (Inr (s\<lparr>ri_reader := RR_Done out off wp readable\<rparr>))
      | _ \<Rightarrow> None)"

text \<open>The plan of the atomic \<open>read()\<close> is that of these steps.\<close>

lemma rb_read_plan_start:
  "rb_read_plan rb off cnt =
     (let avail = min (rb_total_written rb) (rb_capacity_frames rb); readable = min cnt (avail - off)
      in if off \<ge> avail then None
         else Some (read_start (rb_capacity_frames rb) (rb_write_pos rb) off readable, readable))"
  by (simp add: rb_read_plan_def read_start_def Let_def)

datatype ri_event = Write "u8 list" u64 | Write_Step | Read "u8 list" u64 u64 | Read_Step

fun ri_step :: "ri_event \<Rightarrow> ri_state \<Rightarrow> ri_state outcome option" where
  "ri_step (Write data n) s = write_begin s data n"
| "ri_step Write_Step s = write_step s"
| "ri_step (Read out off cnt) s = read_begin s out off cnt"
| "ri_step Read_Step s = read_step s"

text \<open>A run: \<open>None\<close> when an event is not possible where it stands.\<close>

fun ri_run :: "ri_event list \<Rightarrow> ri_state \<Rightarrow> ri_state outcome option" where
  "ri_run [] s = Some (Inr s)"
| "ri_run (e # es) s = pbind (ri_step e s) (ri_run es)"

section \<open>The stream of bytes\<close>

text \<open>The buffer of \<open>c\<close> bytes holds the last \<open>c\<close> bytes of the stream, each at its index modulo \<open>c\<close>.\<close>

definition bytes_hold :: "nat \<Rightarrow> u8 list \<Rightarrow> u8 list \<Rightarrow> bool" where
  "bytes_hold c S buf \<longleftrightarrow>
     length buf = c \<and> (\<forall>i < length S. length S \<le> i + c \<longrightarrow> buf ! (i mod c) = S ! i)"

lemma bytes_hold_store:
  assumes "bytes_hold c S buf" and "0 < c"
  shows "bytes_hold c (S @ [b]) (buf[length S mod c := b])"
proof -
  have lt: "length S mod c < c" using assms(2) by simp
  have ne: "i mod c \<noteq> length S mod c" if "i < length S" "length S + 1 \<le> i + c" for i
  proof
    assume "i mod c = length S mod c"
    then have "c dvd length S - i" using that(1) by (metis less_imp_le_nat mod_eq_dvd_iff_nat)
    then show False using that by (auto dest!: dvd_imp_le)
  qed
  have "buf[length S mod c := b] ! (i mod c) = (S @ [b]) ! i"
    if i: "i < length S + 1" "length S + 1 \<le> i + c" for i
  proof (cases "i = length S")
    case True
    then show ?thesis using lt assms(1) by (simp add: bytes_hold_def)
  next
    case False
    then have "i < length S" using i(1) by simp
    with ne [OF this i(2)] show ?thesis
      using assms(1) i(2) by (simp add: bytes_hold_def nth_append)
  qed
  then show ?thesis using assms(1) by (simp add: bytes_hold_def)
qed

lemma frame_position:
  fixes p c w :: nat
  assumes "m \<le> c - p mod c" and "d < m * w" and "0 < c"
  shows "(p mod c) * w + d = (p * w + d) mod (c * w)" and "(p mod c) * w + d < c * w"
proof -
  have "p mod c < c" using assms(3) by simp
  then have "p mod c + m \<le> c" using assms(1) by linarith
  then have "(p mod c + m) * w \<le> c * w" by (rule mult_le_mono1)
  then show lt: "(p mod c) * w + d < c * w" using assms(2) by (simp add: add_mult_distrib)
  have "(p * w) mod (c * w) = (p mod c) * w" by (rule mult_mod_left [symmetric])
  then show "(p mod c) * w + d = (p * w + d) mod (c * w)"
    using lt by (metis mod_add_left_eq mod_less)
qed

lemma bytes_of_frames:
  assumes hold: "bytes_hold (c * w) S buf" and S: "length S = n * w" and "0 < c" and w: "0 < w"
  shows "slots_hold c w (frames_of w n S) buf"
proof -
  have "frame_at w buf (i mod c) = frame_at w S i" if i: "i < n" "n \<le> i + c" for i
  proof (rule nth_equalityI)
    have buf: "length buf = c * w" using hold by (simp add: bytes_hold_def)
    have l: "length (frame_at w buf (i mod c)) = w" "length (frame_at w S i) = w"
      by (rule length_frame_at [where n = c]; use buf \<open>0 < c\<close> in simp)
        (rule length_frame_at [OF i(1)], simp add: S)
    then show "length (frame_at w buf (i mod c)) = length (frame_at w S i)" by simp
    fix j assume "j < length (frame_at w buf (i mod c))"
    then have j: "j < w" using l by simp
    have fits: "i * w + w \<le> n * w" using i(1) by (rule frame_fits)
    have pos: "(i mod c) * w + j = (i * w + j) mod (c * w)" "(i mod c) * w + j < c * w"
      using frame_position [of 1 c i j w] j \<open>0 < c\<close> by (simp_all add: Suc_leI)
    have "n * w \<le> (i + c) * w" using i(2) by (rule mult_le_mono1)
    then have "buf ! ((i * w + j) mod (c * w)) = S ! (i * w + j)"
      using hold fits j by (simp add: bytes_hold_def S add_mult_distrib)
    moreover have "(i mod c) * w \<le> length buf" "i * w \<le> length S" using pos(2) fits unfolding buf S by linarith+
    ultimately show "frame_at w buf (i mod c) ! j = frame_at w S i ! j"
      using j pos by (simp add: frame_at_def)
  qed
  then show ?thesis using hold by (simp add: slots_hold_def bytes_hold_def)
qed

lemma frames_of_bytes:
  assumes hold: "slots_hold c w H buf" and H: "\<And>f. f \<in> set H \<Longrightarrow> length f = w" and "0 < c" and w: "0 < w"
  shows "bytes_hold (c * w) (concat H) buf"
proof -
  let ?n = "length H" and ?S = "concat H"
  have S: "length ?S = ?n * w" using H by (rule length_concat_const)
  have buf: "length buf = c * w" using hold by (simp add: slots_hold_def)
  have "buf ! (p mod (c * w)) = ?S ! p" if p: "p < ?n * w" "?n * w \<le> p + c * w" for p
  proof -
    define i where "i = p div w"
    define j where "j = p mod w"
    have pij: "p = i * w + j" and j: "j < w" using w by (simp_all add: i_def j_def)
    have i: "i < ?n" using p(1) w by (simp add: i_def less_mult_imp_div_less)
    have "?n * w < (i + c + 1) * w" using p(2) pij j by (simp add: algebra_simps)
    then have ic: "?n \<le> i + c" unfolding mult_less_cancel2 by simp
    have "frame_at w buf (i mod c) = H ! i" using hold i ic by (simp add: slots_hold_def)
    also have "\<dots> = frame_at w ?S i" using frames_of_concat [OF H] i by (metis nth_frames_of)
    finally have eq: "frame_at w buf (i mod c) ! j = frame_at w ?S i ! j" by simp
    have fits: "i * w + w \<le> ?n * w" using i by (rule frame_fits)
    have pos: "(i mod c) * w + j = (i * w + j) mod (c * w)" "(i mod c) * w + j < c * w"
      using frame_position [of 1 c i j w] j \<open>0 < c\<close> by (simp_all add: Suc_leI)
    moreover have "(i mod c) * w \<le> length buf" "i * w \<le> length ?S" using pos(2) fits unfolding buf S by linarith+
    ultimately show ?thesis using eq j by (simp add: frame_at_def pij)
  qed
  then show ?thesis using buf S by (simp add: bytes_hold_def)
qed

section \<open>The invariant\<close>

text \<open>What the stream will be when the writes begun are through.\<close>

definition begun :: "nat \<Rightarrow> u8 list list \<Rightarrow> (u8 list \<times> u64) list \<Rightarrow> u8 list" where
  "begun w H ws = concat H @ concat (map (\<lambda>(data, n). take (unat n * w) data) ws)"

lemma begun_append: "begun w H (ws @ [(data, n)]) = begun w H ws @ take (unat n * w) data"
  by (simp add: begun_def)

text \<open>The counters of \<open>rb\<close> stand for the given numbers of frames.\<close>

definition counters :: "ring_buffer \<Rightarrow> nat \<Rightarrow> nat \<Rightarrow> bool" where
  "counters rb p t \<longleftrightarrow> rb_write_pos rb = of_nat p \<and> rb_total_written rb = of_nat t"

fun writer_ok :: "nat \<Rightarrow> u8 list \<Rightarrow> u8 list \<Rightarrow> ring_buffer \<Rightarrow> ri_writer \<Rightarrow> bool" where
  "writer_ok w T S rb RW_Idle \<longleftrightarrow>
     (\<exists>F. F < 2 ^ 64 \<and> S = T \<and> length T = F * w \<and> counters rb F F)"
| "writer_ok w T S rb (RW_Copy data n src pos remaining done) \<longleftrightarrow>
     (\<exists>P k T0. P + unat n < 2 ^ 64 \<and> k + unat remaining = unat n \<and> src = k * w \<and> pos = of_nat (P + k) \<and>
        unat n * w \<le> length data \<and> length T0 = P * w \<and> T = T0 @ take (unat n * w) data \<and>
        S = T0 @ take (k * w + done) data \<and> counters rb P P \<and>
        done \<le> unat (batch_frames rb pos remaining) * w)"
| "writer_ok w T S rb (RW_Store n pos) \<longleftrightarrow>
     (\<exists>P. P + unat n < 2 ^ 64 \<and> S = T \<and> length T = (P + unat n) * w \<and> pos = of_nat (P + unat n) \<and>
        counters rb P P)"
| "writer_ok w T S rb (RW_Count n) \<longleftrightarrow>
     (\<exists>P. P + unat n < 2 ^ 64 \<and> S = T \<and> length T = (P + unat n) * w \<and> counters rb (P + unat n) P)"

text \<open>
  The window of a read is the \<open>m\<close> frames from frame \<open>a\<close> of the stream. As long as no more than
  \<open>a + c\<close> frames have been stored, what has been copied of it is right.
\<close>

definition copied_ok :: "nat \<Rightarrow> nat \<Rightarrow> u8 list \<Rightarrow> nat \<Rightarrow> nat \<Rightarrow> u8 list \<Rightarrow> bool" where
  "copied_ok c w S a bytes out \<longleftrightarrow>
     (length S \<le> (a + c) * w \<longrightarrow> take bytes out = take bytes (drop (a * w) S))"

fun reader_ok :: "nat \<Rightarrow> nat \<Rightarrow> u8 list \<Rightarrow> ring_buffer \<Rightarrow> ri_reader \<Rightarrow> bool" where
  "reader_ok c w S rb RR_Idle \<longleftrightarrow> True"
| "reader_ok c w S rb (RR_Position out off r) \<longleftrightarrow>
     unat off + unat r \<le> c \<and> unat off + unat r \<le> unat (rb_total_written rb) \<and> unat r * w \<le> length out"
| "reader_ok c w S rb (RR_Copy out off wp r copied done) \<longleftrightarrow>
     unat off + unat r \<le> c \<and> unat off + unat r \<le> unat wp \<and> unat wp * w \<le> length S \<and>
     unat r * w \<le> length out \<and> copied \<le> r \<and>
     done \<le> unat (batch_frames rb (read_start (rb_capacity_frames rb) wp off r + copied) (r - copied)) * w \<and>
     copied_ok c w S (unat wp - unat off - unat r) (unat copied * w + done) out"
| "reader_ok c w S rb (RR_Done out off wp r) \<longleftrightarrow>
     r = 0 \<or> unat off + unat r \<le> c \<and> unat off + unat r \<le> unat wp \<and> unat wp * w \<le> length S \<and>
     unat r * w \<le> length out \<and> copied_ok c w S (unat wp - unat off - unat r) (unat r * w) out"

definition ring_ok :: "nat \<Rightarrow> nat \<Rightarrow> u8 list \<Rightarrow> ring_buffer \<Rightarrow> bool" where
  "ring_ok c w S rb \<longleftrightarrow> rb_shape rb \<and> rb_cap rb = c \<and> rb_width rb = w \<and> 0 < w \<and>
     bytes_hold (c * w) S (rb_buffer rb)"

definition ri_inv :: "nat \<Rightarrow> nat \<Rightarrow> u8 list list \<Rightarrow> ri_state \<Rightarrow> bool" where
  "ri_inv c w H s \<longleftrightarrow>
     ring_ok c w (ri_stored s) (ri_ring s) \<and>
     writer_ok w (begun w H (ri_writes s)) (ri_stored s) (ri_ring s) (ri_writer s) \<and>
     reader_ok c w (ri_stored s) (ri_ring s) (ri_reader s)"

lemma ring_ok_pos: "ring_ok c w S rb \<Longrightarrow> 0 < c" "ring_ok c w S rb \<Longrightarrow> 0 < w"
  by (auto simp: ring_ok_def rb_cap_pos)

lemma ring_geometry:
  "ring_ok c w S rb \<Longrightarrow>
   geometry (rb_capacity_frames rb) (rb_capacity_mask rb) (rb_bytes_per_frame rb) c w"
  using geometry_of_shape [of rb] by (auto simp: ring_ok_def)

lemma unat_batch:
  assumes "ring_ok c w S rb"
  shows "unat (batch_frames rb (of_nat p) remaining) = min (unat remaining) (c - p mod c)"
    and "unat (batch_frames rb (of_nat p) remaining * rb_bytes_per_frame rb) =
      min (unat remaining) (c - p mod c) * w"
proof -
  note g = ring_geometry [OF assms]
  have "p mod c < c" using ring_ok_pos(1) [OF assms] by simp
  then have "unat (rb_capacity_frames rb - (of_nat p AND rb_capacity_mask rb)) = c - p mod c"
    by (subst geometry_room [OF g]) (simp_all add: geometry_index [OF g])
  then show b: "unat (batch_frames rb (of_nat p) remaining) = min (unat remaining) (c - p mod c)"
    by (simp add: batch_frames_def unat_min)
  then have "unat (batch_frames rb (of_nat p) remaining) \<le> c" by simp
  from geometry_bytes [OF g this] show "unat (batch_frames rb (of_nat p) remaining * rb_bytes_per_frame rb) =
      min (unat remaining) (c - p mod c) * w" by (simp add: b)
qed

lemma frame_byte_at:
  assumes "ring_ok c w S rb" and "done < min r (c - p mod c) * w"
  shows "frame_byte rb (of_nat p) done = (p * w + done) mod (c * w)"
    and "frame_byte rb (of_nat p) done < c * w"
proof -
  note g = ring_geometry [OF assms(1)] and pos = ring_ok_pos [OF assms(1)]
  have "unat (of_nat p AND rb_capacity_mask rb) \<le> c"
    using pos by (simp add: geometry_index [OF g] less_imp_le)
  then have fb: "frame_byte rb (of_nat p) done = (p mod c) * w + done"
    by (simp add: frame_byte_def geometry_bytes [OF g] geometry_index [OF g])
  have "min r (c - p mod c) \<le> c - p mod c" by simp
  from frame_position [OF this assms(2) pos(1)] show
    "frame_byte rb (of_nat p) done = (p * w + done) mod (c * w)"
    "frame_byte rb (of_nat p) done < c * w" by (simp_all add: fb)
qed

lemma ring_ok_counters [simp]:
  "ring_ok c w S (rb\<lparr>rb_write_pos := p\<rparr>) = ring_ok c w S rb"
  "ring_ok c w S (rb\<lparr>rb_total_written := t\<rparr>) = ring_ok c w S rb"
  by (simp_all add: ring_ok_def rb_shape_def rb_cap_def rb_width_def)

lemma ring_ok_store:
  assumes "ring_ok c w S rb"
  shows "ring_ok c w (S @ [b]) (rb\<lparr>rb_buffer := (rb_buffer rb)[length S mod (c * w) := b]\<rparr>)"
proof -
  let ?rb' = "rb\<lparr>rb_buffer := (rb_buffer rb)[length S mod (c * w) := b]\<rparr>"
  have same: "rb_cap ?rb' = rb_cap rb" "rb_width ?rb' = rb_width rb" by (simp_all add: rb_cap_def rb_width_def)
  then have "rb_shape ?rb' = rb_shape rb" unfolding rb_shape_def by simp
  moreover have "bytes_hold (c * w) (S @ [b]) (rb_buffer ?rb')"
    using assms bytes_hold_store [of "c * w" S "rb_buffer rb" b] ring_ok_pos [OF assms]
    by (simp add: ring_ok_def)
  ultimately show ?thesis using assms same by (simp add: ring_ok_def)
qed

lemma batch_frames_update [simp]:
  "batch_frames (rb\<lparr>rb_buffer := b\<rparr>) pos r = batch_frames rb pos r"
  "batch_frames (rb\<lparr>rb_write_pos := p\<rparr>) pos r = batch_frames rb pos r"
  "batch_frames (rb\<lparr>rb_total_written := t\<rparr>) pos r = batch_frames rb pos r"
  by (simp_all add: batch_frames_def)

lemma counters_update [simp]: "counters (rb\<lparr>rb_buffer := b\<rparr>) p t = counters rb p t"
  by (simp add: counters_def)

lemma unat_counters:
  assumes "counters rb p t" and "p < 2 ^ 64" and "t \<le> p"
  shows "unat (rb_write_pos rb) = p" and "unat (rb_total_written rb) = t"
  using assms unat_of_nat_64 [of p] unat_of_nat_64 [of t] by (simp_all only: counters_def)

text \<open>What a writer in any state leaves to the reader.\<close>

lemma writer_ok_counters:
  assumes "writer_ok w T S rb wr"
  shows "unat (rb_write_pos rb) * w \<le> length S" and "unat (rb_total_written rb) \<le> unat (rb_write_pos rb)"
    and "prefix S T" and "length T \<le> (2 ^ 64 - 1) * w"
proof -
  have le: "P * w + k * w \<le> (2 ^ 64 - 1) * w" if "P + k < 2 ^ 64" for P k
    unfolding add_mult_distrib [symmetric] by (rule mult_le_mono1) (use that in simp)
  have "unat (rb_write_pos rb) * w \<le> length S \<and> unat (rb_total_written rb) \<le> unat (rb_write_pos rb) \<and>
      prefix S T \<and> length T \<le> (2 ^ 64 - 1) * w"
  proof (cases wr)
    case RW_Idle
    then show ?thesis using assms le [of _ 0] by (auto simp: counters_def unat_of_nat_64 prefix_def)
  next
    case (RW_Copy data n src pos remaining got)
    then obtain P k T0 where A: "P + unat n < 2 ^ 64" "k + unat remaining = unat n"
      "unat n * w \<le> length data" "length T0 = P * w" "T = T0 @ take (unat n * w) data"
      "S = T0 @ take (k * w + got) data" "counters rb P P"
      "got \<le> unat (batch_frames rb pos remaining) * w" using assms by auto
    have "unat (batch_frames rb pos remaining) \<le> unat remaining" by (simp add: batch_frames_def unat_min)
    then have "unat (batch_frames rb pos remaining) * w \<le> unat remaining * w" by (rule mult_le_mono1)
    with A(8) have "got \<le> unat remaining * w" by (rule le_trans)
    then have "k * w + got \<le> (k + unat remaining) * w" by (simp add: add_mult_distrib)
    then have "prefix S T" unfolding A(2,5,6) by (simp add: take_is_prefix prefix_def)
        (metis append_take_drop_id take_take min.absorb1)
    moreover have "P < 2 ^ 64" using A(1) by simp
    ultimately show ?thesis using A(3-7) le [OF A(1)] by (simp add: counters_def unat_of_nat_64)
  next
    case (RW_Store n pos)
    then show ?thesis using assms le by (auto simp: counters_def unat_of_nat_64 add_mult_distrib prefix_def)
  next
    case (RW_Count n)
    then obtain P where "P + unat n < 2 ^ 64" "S = T" "length T = (P + unat n) * w"
      "counters rb (P + unat n) P" using assms by auto
    then show ?thesis using unat_counters [of rb "P + unat n" P] le [of P "unat n"]
      by (simp add: add_mult_distrib)
  qed
  then show "unat (rb_write_pos rb) * w \<le> length S" "unat (rb_total_written rb) \<le> unat (rb_write_pos rb)"
    "prefix S T" "length T \<le> (2 ^ 64 - 1) * w" by auto
qed

lemma copied_ok_grow:
  assumes "copied_ok c w S a b out" and "a * w + b \<le> length S"
  shows "copied_ok c w (S @ bs) a b out"
  using assms by (auto simp: copied_ok_def)

lemma batch_le: "unat (batch_frames rb pos r) * w \<le> unat r * w"
  by (rule mult_le_mono1) (simp add: batch_frames_def unat_min)

lemma copy_within:
  assumes "copied \<le> r" and "got \<le> unat (batch_frames rb pos (r - copied)) * w"
  shows "unat copied * w + got \<le> unat r * w"
proof -
  have "got \<le> unat (r - copied) * w" using assms(2) batch_le by (rule le_trans)
  moreover have "unat (r - copied) = unat r - unat copied" "unat copied \<le> unat r"
    using assms(1) by (simp_all add: unat_sub_64 word_le_nat_alt)
  then have "unat (r - copied) * w + unat copied * w = unat r * w"
    by (metis add_mult_distrib le_add_diff_inverse2)
  ultimately show ?thesis by linarith
qed

lemma window_within:
  fixes V w :: nat
  assumes "off + m \<le> V" and "V * w \<le> n" and "b \<le> m * w"
  shows "(V - off - m) * w + b \<le> n"
proof -
  have "(V - off - m) * w + m * w \<le> V * w"
    unfolding add_mult_distrib [symmetric] by (rule mult_le_mono1) (use assms(1) in simp)
  then show ?thesis using assms(2,3) by linarith
qed

text \<open>The writer moves: the reader keeps what it has.\<close>

lemma reader_ok_grow:
  assumes ok: "reader_ok c w S rb rd"
    and same: "rb_capacity_frames rb' = rb_capacity_frames rb" "rb_capacity_mask rb' = rb_capacity_mask rb"
    and total: "unat (rb_total_written rb) \<le> unat (rb_total_written rb')"
  shows "reader_ok c w (S @ bs) rb' rd"
proof (cases rd)
  case (RR_Copy out off wp r copied got)
  have batch: "batch_frames rb' pos n = batch_frames rb pos n" for pos n by (simp add: batch_frames_def same)
  have A: "unat off + unat r \<le> unat wp" "unat wp * w \<le> length S" "copied \<le> r"
    "got \<le> unat (batch_frames rb (read_start (rb_capacity_frames rb) wp off r + copied) (r - copied)) * w"
    "copied_ok c w S (unat wp - unat off - unat r) (unat copied * w + got) out"
    using ok RR_Copy by simp_all
  have "copied_ok c w (S @ bs) (unat wp - unat off - unat r) (unat copied * w + got) out"
    by (rule copied_ok_grow [OF A(5) window_within [OF A(1,2) copy_within [OF A(3,4)]]])
  then show ?thesis using ok RR_Copy by (simp add: batch same)
next
  case (RR_Done out off wp r)
  have "copied_ok c w (S @ bs) (unat wp - unat off - unat r) (unat r * w) out" if "r \<noteq> 0"
    using ok RR_Done that by (intro copied_ok_grow window_within) auto
  then show ?thesis using ok RR_Done by auto
qed (use ok total same in auto)

lemma byte_of_take:
  assumes "j < length xs"
  shows "take (Suc j) xs = take j xs @ [xs ! j]"
  using assms by (rule take_Suc_conv_app_nth)

lemma write_step_ok:
  assumes inv: "ri_inv c w H s"
  shows "write_step s = None \<or> (\<exists>s'. write_step s = Some (Inr s') \<and> ri_inv c w H s' \<and> ri_writes s' = ri_writes s)"
proof -
  let ?rb = "ri_ring s" and ?S = "ri_stored s" and ?T = "begun w H (ri_writes s)"
  have R: "ring_ok c w ?S ?rb" and W: "writer_ok w ?T ?S ?rb (ri_writer s)"
    and D: "reader_ok c w ?S ?rb (ri_reader s)" using inv by (simp_all add: ri_inv_def)
  note g = ring_geometry [OF R] and pos = ring_ok_pos [OF R]
  have D0: "reader_ok c w ?S rb' (ri_reader s)" if "rb_capacity_frames rb' = rb_capacity_frames ?rb"
      "rb_capacity_mask rb' = rb_capacity_mask ?rb" "unat (rb_total_written ?rb) \<le> unat (rb_total_written rb')" for rb'
    using reader_ok_grow [OF D that, of "[]"] by simp
  show ?thesis
  proof (cases "ri_writer s")
    case RW_Idle
    then show ?thesis by (simp add: write_step_def)
  next
    case (RW_Copy data n src p remaining got)
    then obtain P k T0 where A: "P + unat n < 2 ^ 64" "k + unat remaining = unat n" "src = k * w"
      "p = of_nat (P + k)" "unat n * w \<le> length data" "length T0 = P * w" "?T = T0 @ take (unat n * w) data"
      "?S = T0 @ take (k * w + got) data" "counters ?rb P P" "got \<le> unat (batch_frames ?rb p remaining) * w"
      using W by auto
    let ?m = "min (unat remaining) (c - (P + k) mod c)"
    have batch: "unat (batch_frames ?rb p remaining) = ?m"
      "unat (batch_frames ?rb p remaining * rb_bytes_per_frame ?rb) = ?m * w"
      using unat_batch [OF R, of "P + k" remaining] by (simp_all only: A(4))
    have "?m * w \<le> unat remaining * w" by (rule mult_le_mono1) simp
    then have data: "k * w + ?m * w \<le> length data"
      using A(5) unfolding A(2) [symmetric] add_mult_distrib by linarith
    then have S: "length ?S = (P + k) * w + got"
      using A(6,10) by (simp add: A(8) batch add_mult_distrib)
    show ?thesis
    proof (cases "remaining = 0")
      case True
      then have "got = 0" "k = unat n" using A(2,10) batch by simp_all
      then have "writer_ok w ?T ?S ?rb (RW_Store n p)"
        using A S by (auto simp: add_mult_distrib)
      then show ?thesis using inv RW_Copy True by (simp add: write_step_def ri_inv_def)
    next
      case more: False
      show ?thesis
      proof (cases "got < ?m * w")
        case True
        let ?b = "data ! (src + got)"
        let ?buf = "(rb_buffer ?rb)[length ?S mod (c * w) := ?b]"
        let ?rb' = "?rb\<lparr>rb_buffer := ?buf\<rparr>"
        have fb: "frame_byte ?rb p got = length ?S mod (c * w)" "frame_byte ?rb p got < c * w"
          using frame_byte_at [OF R True] by (simp_all only: A(4) S)
        have buf: "length (rb_buffer ?rb) = c * w" using R by (simp add: ring_ok_def bytes_hold_def)
        have in_data: "src + got < length data" using data True A(3) by simp
        have "memcpy (rb_buffer ?rb) (frame_byte ?rb p got) data (src + got) 1 = Inr ?buf"
          using memcpy_byte [of "frame_byte ?rb p got" "rb_buffer ?rb" "src + got" data] fb buf in_data by simp
        moreover have "ring_ok c w (?S @ [?b]) ?rb'"
          by (rule ring_ok_store [OF R])
        moreover have "?S @ [?b] = T0 @ take (k * w + (got + 1)) data"
          using byte_of_take [of "k * w + got" data] in_data A(3) by (simp add: A(8))
        then have "writer_ok w ?T (?S @ [?b]) ?rb' (RW_Copy data n src p remaining (got + 1))"
          using A(1-7,9) True batch by auto
        moreover have "reader_ok c w (?S @ [?b]) ?rb' (ri_reader s)"
          by (rule reader_ok_grow [OF D]) simp_all
        ultimately show ?thesis using RW_Copy more True batch by (simp add: write_step_def Let_def ri_inv_def)
      next
        case False
        then have got: "got = ?m * w" using A(10) batch by simp
        let ?wr = "RW_Copy data n (src + ?m * w) (p + batch_frames ?rb p remaining)
          (remaining - batch_frames ?rb p remaining) 0"
        have le: "batch_frames ?rb p remaining \<le> remaining" by (simp add: batch_frames_def)
        then have rem: "unat (remaining - batch_frames ?rb p remaining) = unat remaining - ?m"
          by (simp add: unat_sub_64 word_le_nat_alt batch)
        have "p + batch_frames ?rb p remaining = of_nat (P + k + unat (batch_frames ?rb p remaining))"
          by (simp add: A(4))
        then have p: "p + batch_frames ?rb p remaining = of_nat (P + (k + ?m))"
          unfolding batch(1) add.assoc .
        have S0: "?S = T0 @ take ((k + ?m) * w + 0) data" using A(8) got by (simp add: add_mult_distrib)
        have "writer_ok w ?T ?S ?rb ?wr"
          unfolding writer_ok.simps
          by (rule exI [of _ P], rule exI [of _ "k + ?m"], rule exI [of _ T0])
            (use A(1,2,5-7,9) p S0 in \<open>simp add: rem A(3) add_mult_distrib\<close>)
        then show ?thesis using inv RW_Copy more False batch by (simp add: write_step_def Let_def ri_inv_def)
      qed
    qed
  next
    case (RW_Store n p)
    then obtain P where A: "P + unat n < 2 ^ 64" "?S = ?T" "length ?T = (P + unat n) * w" "p = of_nat (P + unat n)"
      "counters ?rb P P" using W by auto
    have "writer_ok w ?T ?S (?rb\<lparr>rb_write_pos := p\<rparr>) (RW_Count n)"
      using A by (auto simp: counters_def)
    moreover have "reader_ok c w ?S (?rb\<lparr>rb_write_pos := p\<rparr>) (ri_reader s)" by (rule D0) simp_all
    ultimately show ?thesis using R RW_Store by (simp add: write_step_def Let_def ri_inv_def)
  next
    case (RW_Count n)
    then obtain P where A: "P + unat n < 2 ^ 64" "?S = ?T" "length ?T = (P + unat n) * w"
      "counters ?rb (P + unat n) P" using W by auto
    let ?rb' = "?rb\<lparr>rb_total_written := rb_total_written ?rb + n\<rparr>"
    have c: "counters ?rb' (P + unat n) (P + unat n)" using A(4) by (simp add: counters_def)
    have "reader_ok c w ?S ?rb' (ri_reader s)"
      using unat_counters [OF A(4,1)] unat_counters [OF c A(1)] by (intro D0) simp_all
    moreover have "writer_ok w ?T ?S ?rb' RW_Idle" using A c by auto
    ultimately show ?thesis using R RW_Count by (simp add: write_step_def Let_def ri_inv_def)
  qed
qed

lemma read_start_at:
  assumes "unat off + unat r \<le> unat wp"
  shows "read_start cap wp off r = of_nat (unat wp - unat off - unat r)"
proof -
  have sum: "unat (off + r) = unat off + unat r" using assms unat_lt_64 [of wp] by (intro unat_add_64) simp
  then have ge: "wp \<ge> off + r" using assms by (simp add: word_le_nat_alt)
  have "unat (wp - off - r) = unat wp - unat off - unat r"
    using unat_sub_64 [OF ge] by (simp only: sum diff_diff_left diff_diff_add)
  then have "wp - off - r = of_nat (unat wp - unat off - unat r)" by (metis of_nat_unat ucast_id)
  then show ?thesis using ge by (simp add: read_start_def)
qed

lemma take_update_take:
  "j < length xs \<Longrightarrow> take (Suc j) (xs[j := x]) = take j xs @ [x]"
  by (simp add: take_Suc_conv_app_nth)

text \<open>A byte copied from the buffer is the one of the stream, unless the writer has lapped the reader.\<close>

lemma copied_ok_byte:
  assumes hold: "bytes_hold (c * w) S buf" and ok: "copied_ok c w S a b out"
    and "b < length out" and "a * w + b < length S" and x: "x = (a * w + b) mod (c * w)"
  shows "copied_ok c w S a (b + 1) (out[b := buf ! x])"
  unfolding copied_ok_def
proof
  assume lap: "length S \<le> (a + c) * w"
  then have "length S \<le> (a * w + b) + c * w" by (simp add: add_mult_distrib)
  then have byte: "buf ! x = S ! (a * w + b)" using hold assms(4) by (simp add: bytes_hold_def x)
  have "take (b + 1) (out[b := buf ! x]) = take b out @ [S ! (a * w + b)]"
    using take_update_take [OF assms(3)] by (simp add: byte)
  also have "take b out = take b (drop (a * w) S)" using ok lap by (simp add: copied_ok_def)
  also have "take b (drop (a * w) S) @ [S ! (a * w + b)] = take (b + 1) (drop (a * w) S)"
    using byte_of_take [of b "drop (a * w) S"] assms(4) by simp
  finally show "take (b + 1) (out[b := buf ! x]) = take (b + 1) (drop (a * w) S)" .
qed

lemma read_step_ok:
  assumes inv: "ri_inv c w H s"
  shows "read_step s = None \<or> (\<exists>s'. read_step s = Some (Inr s') \<and> ri_inv c w H s' \<and> ri_writes s' = ri_writes s)"
proof -
  let ?rb = "ri_ring s" and ?S = "ri_stored s" and ?T = "begun w H (ri_writes s)"
  have R: "ring_ok c w ?S ?rb" and W: "writer_ok w ?T ?S ?rb (ri_writer s)"
    and D: "reader_ok c w ?S ?rb (ri_reader s)" using inv by (simp_all add: ri_inv_def)
  note g = ring_geometry [OF R] and pos = ring_ok_pos [OF R] and C = writer_ok_counters [OF W]
  show ?thesis
  proof (cases "ri_reader s")
    case (RR_Position out off r)
    then have "reader_ok c w ?S ?rb (RR_Copy out off (rb_write_pos ?rb) r 0 0)"
      using D C(1,2) by (auto simp: copied_ok_def)
    then show ?thesis using inv RR_Position by (simp add: read_step_def Let_def ri_inv_def)
  next
    case (RR_Copy out off wp r k got)
    let ?a = "unat wp - unat off - unat r"
    let ?pos = "read_start (rb_capacity_frames ?rb) wp off r + k"
    have A: "unat off + unat r \<le> c" "unat off + unat r \<le> unat wp" "unat wp * w \<le> length ?S"
      "unat r * w \<le> length out" "k \<le> r" "got \<le> unat (batch_frames ?rb ?pos (r - k)) * w"
      "copied_ok c w ?S ?a (unat k * w + got) out" using D RR_Copy by simp_all
    have p: "?pos = of_nat (?a + unat k)" by (simp add: read_start_at [OF A(2)])
    define m where "m = min (unat (r - k)) (c - (?a + unat k) mod c)"
    have batch: "unat (batch_frames ?rb ?pos (r - k)) = m"
      "unat (batch_frames ?rb ?pos (r - k) * rb_bytes_per_frame ?rb) = m * w"
      using unat_batch [OF R, of "?a + unat k" "r - k"] by (simp_all only: p m_def)
    have m: "m \<le> unat (r - k)" by (simp add: m_def)
    have le: "got \<le> m * w" using A(6) unfolding batch(1) .
    have kw: "unat (k * rb_bytes_per_frame ?rb) = unat k * w"
      by (rule geometry_bytes [OF g]) (use A(1,5) in \<open>simp add: word_le_nat_alt\<close>)
    show ?thesis
    proof (cases "k < r")
      case False
      then have "k = r" using A(5) by simp
      then have "got = 0" using le m by simp
      then have "reader_ok c w ?S ?rb (RR_Done out off wp r)" using A \<open>k = r\<close> by simp
      then show ?thesis using inv RR_Copy False by (simp add: read_step_def Let_def ri_inv_def)
    next
      case more: True
      show ?thesis
      proof (cases "got < m * w")
        case True
        let ?b = "unat k * w + got"
        let ?x = "frame_byte ?rb ?pos got"
        have fb: "?x = ((?a + unat k) * w + got) mod (c * w)" "?x < c * w"
          using frame_byte_at [OF R True [unfolded m_def]] by (simp_all only: p)
        have "Suc got \<le> unat (batch_frames ?rb ?pos (r - k)) * w" using True batch(1) by simp
        from copy_within [OF A(5) this] have b: "Suc ?b \<le> unat r * w" by simp
        have in_S: "?a * w + ?b < length ?S" using window_within [OF A(2,3) b] by simp
        have hold: "bytes_hold (c * w) ?S (rb_buffer ?rb)" using R by (simp add: ring_ok_def)
        let ?out = "out[?b := rb_buffer ?rb ! ?x]"
        have "memcpy out ?b (rb_buffer ?rb) ?x 1 = Inr ?out"
          by (rule memcpy_byte) (use b A(4) fb hold in \<open>simp_all add: bytes_hold_def\<close>)
        moreover have "copied_ok c w ?S ?a (?b + 1) ?out"
          by (rule copied_ok_byte [OF hold A(7) _ in_S]) (use b A(4) fb in \<open>simp_all add: add_mult_distrib add.assoc\<close>)
        then have "reader_ok c w ?S ?rb (RR_Copy ?out off wp r k (got + 1))"
          using A(1-5) True unfolding reader_ok.simps batch(1) by simp
        ultimately show ?thesis using R W RR_Copy more True batch kw
          by (simp add: read_step_def Let_def ri_inv_def)
      next
        case False
        then have got: "got = m * w" using le by linarith
        let ?k = "k + batch_frames ?rb ?pos (r - k)"
        have rk: "unat (r - k) = unat r - unat k" "unat k \<le> unat r"
          using A(5) by (simp_all add: unat_sub_64 word_le_nat_alt)
        then have km: "unat k + m \<le> unat r" using m by linarith
        then have k: "unat ?k = unat k + m"
          using unat_lt_64 [of r] by (subst unat_add_64) (simp_all add: batch)
        then have "?k \<le> r" using km by (simp add: word_le_nat_alt)
        moreover have "copied_ok c w ?S ?a (unat ?k * w + 0) out"
          using A(7) unfolding k got by (simp add: add_mult_distrib)
        ultimately have "reader_ok c w ?S ?rb (RR_Copy out off wp r ?k 0)" using A(1-4) by simp
        then show ?thesis using R W RR_Copy more False batch
          by (simp add: read_step_def Let_def ri_inv_def)
      qed
    qed
  qed (simp_all add: read_step_def)
qed

section \<open>Runs\<close>

fun event_ok :: "nat \<Rightarrow> ri_event \<Rightarrow> bool" where
  "event_ok w (Write data n) \<longleftrightarrow> unat n * w \<le> length data"
| "event_ok w (Read out off cnt) \<longleftrightarrow> unat cnt * w \<le> length out"
| "event_ok w e \<longleftrightarrow> True"

fun event_frames :: "ri_event \<Rightarrow> nat" where
  "event_frames (Write data n) = unat n"
| "event_frames e = 0"

lemma write_begin_ok:
  assumes inv: "ri_inv c w H s" and e: "unat n * w \<le> length data"
    and len: "length (begun w H (ri_writes s)) = F * w" and F: "F + unat n < 2 ^ 64"
  shows "write_begin s data n = None \<or> (\<exists>s'. write_begin s data n = Some (Inr s') \<and> ri_inv c w H s' \<and>
    length (begun w H (ri_writes s')) = (F + unat n) * w)"
proof (cases "ri_writer s")
  case RW_Idle
  have R: "ring_ok c w (ri_stored s) (ri_ring s)" using inv by (simp add: ri_inv_def)
  have w: "0 < w" using ring_ok_pos(2) [OF R] .
  let ?T = "begun w H (ri_writes s)" and ?T' = "begun w H (ri_writes s @ [(data, n)])"
  obtain F' where "ri_stored s = ?T" "length ?T = F' * w" "counters (ri_ring s) F' F'"
    using inv RW_Idle by (auto simp: ri_inv_def)
  then have A: "ri_stored s = ?T" "counters (ri_ring s) F F" using len w by auto
  have "writer_ok w ?T' (ri_stored s) (ri_ring s) (RW_Copy data n 0 (rb_write_pos (ri_ring s)) n 0)"
    unfolding writer_ok.simps
    by (rule exI [of _ F], rule exI [of _ 0], rule exI [of _ ?T])
      (use F e len A in \<open>simp add: begun_append counters_def\<close>)
  moreover have "length ?T' = (F + unat n) * w" using len e by (simp add: begun_append add_mult_distrib)
  ultimately show ?thesis using inv RW_Idle by (simp add: write_begin_def ri_inv_def)
qed (simp_all add: write_begin_def)

lemma read_begin_ok:
  assumes inv: "ri_inv c w H s" and e: "unat cnt * w \<le> length out"
  shows "read_begin s out off cnt = None \<or> (\<exists>s'. read_begin s out off cnt = Some (Inr s') \<and> ri_inv c w H s' \<and>
    ri_writes s' = ri_writes s)"
proof -
  let ?rb = "ri_ring s"
  let ?avail = "min (rb_total_written ?rb) (rb_capacity_frames ?rb)"
  let ?go = "if off \<ge> ?avail then RR_Done out off 0 0 else RR_Position out off (min cnt (?avail - off))"
  have R: "ring_ok c w (ri_stored s) ?rb" using inv by (simp add: ri_inv_def)
  have avail: "unat ?avail = min (unat (rb_total_written ?rb)) c"
    using R by (simp add: unat_min ring_ok_def rb_cap_def)
  have "reader_ok c w (ri_stored s) ?rb ?go"
  proof (cases "off \<ge> ?avail")
    case False
    then have off: "unat off < unat ?avail" by (simp only: not_le word_less_nat_alt)
    then have "unat (?avail - off) = unat ?avail - unat off" by (simp add: unat_sub_64 word_le_nat_alt)
    then have r: "unat (min cnt (?avail - off)) = min (unat cnt) (unat ?avail - unat off)" by (simp add: unat_min)
    then have "unat off + unat (min cnt (?avail - off)) \<le> unat ?avail" using off by linarith
    moreover have "unat (min cnt (?avail - off)) * w \<le> length out"
      by (rule le_trans [OF mult_le_mono1 e]) (simp add: r)
    ultimately show ?thesis using False avail by simp
  qed simp
  then have "ri_inv c w H (s\<lparr>ri_reader := ?go\<rparr>)" using inv by (simp add: ri_inv_def)
  then show ?thesis by (cases "ri_reader s") (simp_all add: read_begin_def Let_def)
qed

lemma ri_step_ok:
  assumes inv: "ri_inv c w H s" and e: "event_ok w e"
    and len: "length (begun w H (ri_writes s)) = F * w" and F: "F + event_frames e < 2 ^ 64"
  shows "ri_step e s = None \<or> (\<exists>s'. ri_step e s = Some (Inr s') \<and> ri_inv c w H s' \<and>
    length (begun w H (ri_writes s')) = (F + event_frames e) * w)"
proof (cases e)
  case (Write data n)
  then show ?thesis using write_begin_ok [OF inv _ len, of n data] e F by simp
next
  case Write_Step
  then show ?thesis using write_step_ok [OF inv] len by auto
next
  case (Read out off cnt)
  then show ?thesis using read_begin_ok [OF inv, of cnt out off] e len by auto
next
  case Read_Step
  then show ?thesis using read_step_ok [OF inv] len by auto
qed

lemma ri_run_ok:
  "\<lbrakk>ri_inv c w H s; \<forall>e \<in> set es. event_ok w e; length (begun w H (ri_writes s)) = F * w;
    F + sum_list (map event_frames es) < 2 ^ 64; ri_run es s = Some r\<rbrakk> \<Longrightarrow>
   \<exists>s'. r = Inr s' \<and> ri_inv c w H s'"
proof (induction es arbitrary: s F)
  case (Cons e es)
  have "event_ok w e" "F + event_frames e < 2 ^ 64" using Cons.prems(2,4) by auto
  from ri_step_ok [OF Cons.prems(1) this(1) Cons.prems(3) this(2)] Cons.prems(5) obtain s1 where
    s1: "ri_step e s = Some (Inr s1)" "ri_inv c w H s1"
      "length (begun w H (ri_writes s1)) = (F + event_frames e) * w" by auto
  have "F + event_frames e + sum_list (map event_frames es) < 2 ^ 64" using Cons.prems(4) by simp
  from Cons.IH [OF s1(2) _ s1(3) this] Cons.prems(2,5) s1(1) show ?case by simp
qed auto

lemma ri_init_inv:
  assumes "rb_holds H rb" and "0 < rb_width rb" and "length H < 2 ^ 64"
  shows "ri_inv (rb_cap rb) (rb_width rb) H (ri_init H rb)"
    and "length (begun (rb_width rb) H (ri_writes (ri_init H rb))) = length H * rb_width rb"
proof -
  have H: "\<And>f. f \<in> set H \<Longrightarrow> length f = rb_width rb" using assms(1) by (simp add: rb_holds_def)
  have len: "length (concat H) = length H * rb_width rb" using H by (rule length_concat_const)
  have "bytes_hold (rb_cap rb * rb_width rb) (concat H) (rb_buffer rb)"
    by (rule frames_of_bytes) (use assms H in \<open>auto simp: rb_holds_def rb_cap_pos\<close>)
  then show "ri_inv (rb_cap rb) (rb_width rb) H (ri_init H rb)"
    using assms len by (simp add: ri_inv_def ri_init_def ring_ok_def rb_holds_def begun_def counters_def)
  show "length (begun (rb_width rb) H (ri_writes (ri_init H rb))) = length H * rb_width rb"
    by (simp add: begun_def ri_init_def len)
qed

text \<open>
  C20: reads beside writes. For any interleaving of the accesses of \<open>write()\<close> and \<open>read()\<close>, any
  number of each: no access leaves the buffer, whenever no write is under way the buffer is what
  the writes one after the other make of it, and a finished read has exactly the \<open>readable\<close> frames that end
  \<open>offset_frames\<close> before the position it loaded, if by the end of its copying not more than
  \<open>capacity - offset_frames - readable\<close> frames beyond that position had been stored, those of an
  unfinished write included.
\<close>

theorem ring_reads_beside_writes:
  assumes "rb_holds H rb" and "0 < rb_width rb" and "\<forall>e \<in> set events. event_ok (rb_width rb) e"
    and "length H + sum_list (map event_frames events) < 2 ^ 64"
    and "ri_run events (ri_init H rb) = Some r"
  shows "\<exists>s. r = Inr s \<and> prefix (ri_stored s) (begun (rb_width rb) H (ri_writes s)) \<and>
     (ri_writer s = RW_Idle \<longrightarrow>
        rb_holds (frames_of (rb_width rb) (length (begun (rb_width rb) H (ri_writes s)) div rb_width rb)
          (begun (rb_width rb) H (ri_writes s))) (ri_ring s)) \<and>
     (\<forall>out off wp readable. ri_reader s = RR_Done out off wp readable \<and> readable \<noteq> 0 \<and>
        length (ri_stored s) \<le> (unat wp + (rb_cap rb - unat off - unat readable)) * rb_width rb \<longrightarrow>
        take (unat readable * rb_width rb) out =
          take (unat readable * rb_width rb) (drop ((unat wp - unat off - unat readable) * rb_width rb) (ri_stored s)))"
proof -
  let ?c = "rb_cap rb" and ?w = "rb_width rb"
  have "length H < 2 ^ 64" using assms(4) by simp
  from ri_run_ok [OF ri_init_inv(1) [OF assms(1,2) this] assms(3) ri_init_inv(2) [OF assms(1,2) this] assms(4,5)]
  obtain s where r: "r = Inr s" and inv: "ri_inv ?c ?w H s" by blast
  have R: "ring_ok ?c ?w (ri_stored s) (ri_ring s)"
    and W: "writer_ok ?w (begun ?w H (ri_writes s)) (ri_stored s) (ri_ring s) (ri_writer s)"
    and D: "reader_ok ?c ?w (ri_stored s) (ri_ring s) (ri_reader s)"
    using inv by (simp_all add: ri_inv_def)
  have "rb_holds (frames_of ?w (length (begun ?w H (ri_writes s)) div ?w) (begun ?w H (ri_writes s))) (ri_ring s)"
    if "ri_writer s = RW_Idle"
  proof -
    obtain F where F: "ri_stored s = begun ?w H (ri_writes s)" "length (begun ?w H (ri_writes s)) = F * ?w"
      "counters (ri_ring s) F F" using W \<open>ri_writer s = RW_Idle\<close> by auto
    have "slots_hold ?c ?w (frames_of ?w F (begun ?w H (ri_writes s))) (rb_buffer (ri_ring s))"
      by (rule bytes_of_frames) (use R F ring_ok_pos [OF R] in \<open>simp_all add: ring_ok_def\<close>)
    moreover have "length f = ?w" if "f \<in> set (frames_of ?w F (begun ?w H (ri_writes s)))" for f
      using that F(2) length_frame_at [of _ F ?w "begun ?w H (ri_writes s)"] by (auto simp: frames_of_def)
    ultimately have "rb_holds (frames_of ?w F (begun ?w H (ri_writes s))) (ri_ring s)"
      using R F(3) by (simp add: rb_holds_def ring_ok_def counters_def)
    then show ?thesis using F(2) assms(2) by simp
  qed
  moreover have "take (unat readable * ?w) out =
      take (unat readable * ?w) (drop ((unat wp - unat off - unat readable) * ?w) (ri_stored s))"
    if "ri_reader s = RR_Done out off wp readable" "readable \<noteq> 0"
      "length (ri_stored s) \<le> (unat wp + (?c - unat off - unat readable)) * ?w" for out off wp readable
  proof -
    have d: "unat off + unat readable \<le> unat wp"
      "copied_ok ?c ?w (ri_stored s) (unat wp - unat off - unat readable) (unat readable * ?w) out"
      using D that(1,2) by auto
    have "unat off + unat readable \<le> ?c" using D that(1,2) by auto
    then have "unat wp - unat off - unat readable + ?c = unat wp + (?c - unat off - unat readable)"
      using d(1) by simp
    then show ?thesis using d(2) that(3) by (simp add: copied_ok_def)
  qed
  ultimately show ?thesis using r writer_ok_counters(3) [OF W] by auto
qed

lemmas ri_eval = ri_init_def write_begin_def write_step_def read_begin_def read_step_def batch_frames_def
  frame_byte_def read_start_def rb_bytes_per_frame_def demo_buffer_def demo_history_def Let_def
  memcpy_def load_range_def store_range_def min_def

theorem ring_reads_beside_writes_witness:
  "\<exists>s. ri_run [Write [7] 1, Read [0, 0] 0 2, Read_Step, Write_Step, Read_Step, Read_Step, Read_Step,
      Write_Step, Read_Step]
      (ri_init demo_history demo_buffer) = Some (Inr s) \<and>
     ri_reader s = RR_Done [5, 6] 0 6 2 \<and> [5, 6] = take 2 (drop 4 (ri_stored s))"
proof -
  let ?es = "[Write [7] 1, Read [0, 0] 0 2, Read_Step, Write_Step, Read_Step, Read_Step, Read_Step,
      Write_Step, Read_Step]"
  obtain s where s: "ri_run ?es (ri_init demo_history demo_buffer) = Some (Inr s)"
    "ri_reader s = RR_Done [5, 6] 0 6 2" "length (ri_stored s) = 7"
    by (simp add: ri_eval)
  have "rb_width demo_buffer = 1" "rb_cap demo_buffer = 4" by (simp_all add: demo_width demo_cap)
  with ring_reads_beside_writes [OF demo_holds _ _ _ s(1)] s(2,3) have
    "[5, 6] = take 2 (drop 4 (ri_stored s))" by (simp add: demo_history_def)
  with s(1,2) show ?thesis by blast
qed

text \<open>
  A torn read: all four frames of a full buffer are asked for, and a frame is written after the
  position was loaded. The newest frame then stands where the oldest should be.
\<close>

lemma ring_read_torn:
  "\<exists>s. ri_run [Read [0, 0, 0, 0] 0 4, Read_Step, Write [7] 1, Write_Step, Read_Step, Read_Step,
      Read_Step, Read_Step, Read_Step, Read_Step, Read_Step] (ri_init demo_history demo_buffer) =
      Some (Inr s) \<and> ri_reader s = RR_Done [7, 4, 5, 6] 0 6 4 \<and> ri_stored s = [1, 2, 3, 4, 5, 6, 7]"
  by (simp add: ri_eval)

section \<open>Reading does not wait\<close>

text \<open>
  How many steps \<open>read()\<close> has left: its bytes, an end for each batch, and the return. Steps
  of the writer do not change it.
\<close>

fun read_work :: "nat \<Rightarrow> ri_reader \<Rightarrow> nat" where
  "read_work w (RR_Position out off r) = unat r * w + unat r + 2"
| "read_work w (RR_Copy out off wp r copied got) = unat (r - copied) * w - got + unat (r - copied) + 1"
| "read_work w _ = 0"

lemma read_step_work:
  assumes inv: "ri_inv c w H s" and step: "read_step s = Some (Inr s')"
  shows "read_work w (ri_reader s') < read_work w (ri_reader s)"
proof -
  let ?rb = "ri_ring s"
  have R: "ring_ok c w (ri_stored s) ?rb" and D: "reader_ok c w (ri_stored s) ?rb (ri_reader s)"
    using inv by (simp_all add: ri_inv_def)
  note pos = ring_ok_pos [OF R]
  show ?thesis
  proof (cases "ri_reader s")
    case (RR_Position out off r)
    then show ?thesis using step by (auto simp: read_step_def Let_def)
  next
    case (RR_Copy out off wp r k got)
    let ?a = "unat wp - unat off - unat r"
    let ?pos = "read_start (rb_capacity_frames ?rb) wp off r + k"
    have A: "unat off + unat r \<le> unat wp" "k \<le> r" using D RR_Copy by simp_all
    have p: "?pos = of_nat (?a + unat k)" by (simp add: read_start_at [OF A(1)])
    define m where "m = min (unat (r - k)) (c - (?a + unat k) mod c)"
    have batch: "unat (batch_frames ?rb ?pos (r - k)) = m"
      "unat (batch_frames ?rb ?pos (r - k) * rb_bytes_per_frame ?rb) = m * w"
      using unat_batch [OF R, of "?a + unat k" "r - k"] by (simp_all only: p m_def)
    have m: "m \<le> unat (r - k)" by (simp add: m_def)
    show ?thesis
    proof (cases "k < r")
      case False
      then show ?thesis using step RR_Copy by (auto simp: read_step_def Let_def)
    next
      case more: True
      have "unat (r - k) = unat r - unat k" "unat k < unat r"
        using more by (simp_all add: unat_sub_64 word_le_nat_alt word_less_nat_alt)
      moreover have "(?a + unat k) mod c < c" using pos by simp
      ultimately have m0: "0 < m" by (simp add: m_def)
      have mw: "m * w \<le> unat (r - k) * w" using m by (rule mult_le_mono1)
      show ?thesis
      proof (cases "got < m * w")
        case True
        then have "got < unat (r - k) * w" using mw by (rule less_le_trans)
        then show ?thesis using step RR_Copy more True
          by (auto simp: read_step_def Let_def batch obind_Inr_iff)
      next
        case False
        have "batch_frames ?rb ?pos (r - k) \<le> r - k" by (simp add: batch_frames_def)
        then have "unat (r - k - batch_frames ?rb ?pos (r - k)) = unat (r - k) - m"
          using unat_sub_64 [of "batch_frames ?rb ?pos (r - k)" "r - k"] by (simp only: batch)
        then have left: "unat (r - (k + batch_frames ?rb ?pos (r - k))) = unat (r - k) - m"
          by (simp only: diff_diff_eq)
        have got: "got = m * w" using D RR_Copy False by (simp add: batch)
        have "ri_reader s' = RR_Copy out off wp r (k + batch_frames ?rb ?pos (r - k)) 0"
          using step RR_Copy more False by (auto simp: read_step_def Let_def batch)
        then have "read_work w (ri_reader s') = (unat (r - k) - m) * w - 0 + (unat (r - k) - m) + 1"
          by (simp only: read_work.simps left)
        moreover have "read_work w (ri_reader s) = unat (r - k) * w - m * w + unat (r - k) + 1"
          by (simp only: RR_Copy read_work.simps got)
        moreover have "(unat (r - k) - m) * w = unat (r - k) * w - m * w" by (rule diff_mult_distrib)
        ultimately show ?thesis using m m0 by linarith
      qed
    qed
  qed (use step in \<open>simp_all add: read_step_def\<close>)
qed

lemma other_steps_keep_reader:
  "\<lbrakk>ri_step e s = Some (Inr s'); e \<noteq> Read_Step; \<And>out off cnt. e \<noteq> Read out off cnt\<rbrakk> \<Longrightarrow>
   ri_reader s' = ri_reader s"
  by (cases e) (auto simp: write_begin_def write_step_def Let_def obind_Inr_iff split: ri_writer.splits if_splits)

lemma read_count:
  "\<lbrakk>ri_inv c w H s; \<forall>e \<in> set es. event_ok w e \<and> (\<forall>out off cnt. e \<noteq> Read out off cnt);
    length (begun w H (ri_writes s)) = F * w; F + sum_list (map event_frames es) < 2 ^ 64;
    ri_run es s = Some (Inr t)\<rbrakk> \<Longrightarrow>
   count_list es Read_Step + read_work w (ri_reader t) \<le> read_work w (ri_reader s)"
proof (induction es arbitrary: s F)
  case (Cons e es)
  have "event_ok w e" "F + event_frames e < 2 ^ 64" using Cons.prems(2,4) by auto
  from ri_step_ok [OF Cons.prems(1) this(1) Cons.prems(3) this(2)] Cons.prems(5) obtain s1 where
    s1: "ri_step e s = Some (Inr s1)" "ri_inv c w H s1"
      "length (begun w H (ri_writes s1)) = (F + event_frames e) * w" by auto
  have "F + event_frames e + sum_list (map event_frames es) < 2 ^ 64" using Cons.prems(4) by simp
  from Cons.IH [OF s1(2) _ s1(3) this] Cons.prems(2,5) s1(1)
  have IH: "count_list es Read_Step + read_work w (ri_reader t) \<le> read_work w (ri_reader s1)" by simp
  show ?case
  proof (cases "e = Read_Step")
    case True
    then have "read_step s = Some (Inr s1)" using s1(1) by simp
    from read_step_work [OF Cons.prems(1) this] IH True show ?thesis by simp
  next
    case False
    then have "ri_reader s1 = ri_reader s" using other_steps_keep_reader [OF s1(1)] Cons.prems(2) by auto
    then show ?thesis using IH False by simp
  qed
qed auto

fun reads_for :: "u64 \<Rightarrow> u64 \<Rightarrow> ri_reader \<Rightarrow> bool" where
  "reads_for off r (RR_Position out off' r') \<longleftrightarrow> off' = off \<and> r' = r"
| "reads_for off r (RR_Copy out off' wp r' copied got) \<longleftrightarrow> off' = off \<and> r' = r"
| "reads_for off r (RR_Done out off' wp r') \<longleftrightarrow> off' = off \<and> r' = r"
| "reads_for off r RR_Idle \<longleftrightarrow> False"

lemma reads_for_step:
  assumes "reads_for off r (ri_reader s)" and "ri_step e s = Some (Inr s')"
    and "\<And>out off cnt. e \<noteq> Read out off cnt"
  shows "reads_for off r (ri_reader s')"
proof (cases "e = Read_Step")
  case True
  then show ?thesis using assms(1,2)
    by (cases "ri_reader s") (auto simp: read_step_def Let_def obind_Inr_iff split: if_splits)
next
  case False
  then show ?thesis using other_steps_keep_reader [OF assms(2) False assms(3)] assms(1) by simp
qed

lemma reads_for_run:
  "\<lbrakk>reads_for off r (ri_reader s); \<forall>e \<in> set es. \<forall>out off cnt. e \<noteq> Read out off cnt;
    ri_run es s = Some (Inr t)\<rbrakk> \<Longrightarrow> reads_for off r (ri_reader t)"
proof (induction es arbitrary: s)
  case (Cons e es)
  from Cons.prems(3) obtain s1 where s1: "ri_step e s = Some (Inr s1)" "ri_run es s1 = Some (Inr t)"
    by (cases "ri_step e s" rule: option.exhaust) (auto simp: pbind_Inr_iff)
  have "reads_for off r (ri_reader s1)" by (rule reads_for_step [OF Cons.prems(1) s1(1)]) (use Cons.prems(2) in auto)
  with Cons.IH s1(2) Cons.prems(2) show ?case by simp
qed simp

lemma ri_run_length:
  "\<lbrakk>ri_inv c w H s; \<forall>e \<in> set es. event_ok w e; length (begun w H (ri_writes s)) = F * w;
    F + sum_list (map event_frames es) < 2 ^ 64; ri_run es s = Some (Inr t)\<rbrakk> \<Longrightarrow>
   length (begun w H (ri_writes t)) = (F + sum_list (map event_frames es)) * w"
proof (induction es arbitrary: s F)
  case (Cons e es)
  have "event_ok w e" "F + event_frames e < 2 ^ 64" using Cons.prems(2,4) by auto
  from ri_step_ok [OF Cons.prems(1) this(1) Cons.prems(3) this(2)] Cons.prems(5) obtain s1 where
    s1: "ri_step e s = Some (Inr s1)" "ri_inv c w H s1"
      "length (begun w H (ri_writes s1)) = (F + event_frames e) * w" by auto
  have "F + event_frames e + sum_list (map event_frames es) < 2 ^ 64" using Cons.prems(4) by simp
  from Cons.IH [OF s1(2) _ s1(3) this] Cons.prems(2,5) s1(1) show ?case by (simp add: add.assoc)
qed simp

text \<open>
  \<open>read()\<close> returns whatever the writer does: from where it has loaded \<open>total_written_\<close>, in no run
  does it take more than a step for each byte and each frame of its window and two more, and as
  long as it has not returned its next step is possible.
\<close>

theorem read_is_wait_free:
  assumes "rb_holds H rb" and "0 < rb_width rb" and "\<forall>e \<in> set before. event_ok (rb_width rb) e"
    and "ri_run before (ri_init H rb) = Some (Inr s)" and "ri_reader s = RR_Position out off r"
    and "\<forall>e \<in> set after. event_ok (rb_width rb) e \<and> (\<forall>out off cnt. e \<noteq> Read out off cnt)"
    and "length H + sum_list (map event_frames before) + sum_list (map event_frames after) < 2 ^ 64"
    and "ri_run after s = Some (Inr t)"
  shows "count_list after Read_Step \<le> unat r * rb_width rb + unat r + 2 \<and>
     ((\<exists>out' wp. ri_reader t = RR_Done out' off wp r) \<or> (\<exists>t'. read_step t = Some (Inr t')))"
proof -
  let ?c = "rb_cap rb" and ?w = "rb_width rb"
  let ?F = "length H + sum_list (map event_frames before)"
  have H: "length H < 2 ^ 64" and b: "?F < 2 ^ 64" using assms(7) by simp_all
  note init = ri_init_inv [OF assms(1,2) H]
  have s: "ri_inv ?c ?w H s" using ri_run_ok [OF init(1) assms(3) init(2) b assms(4)] by simp
  have len: "length (begun ?w H (ri_writes s)) = ?F * ?w"
    by (rule ri_run_length [OF init(1) assms(3) init(2) b assms(4)])
  have after: "\<forall>e \<in> set after. event_ok ?w e" "\<forall>e \<in> set after. \<forall>out off cnt. e \<noteq> Read out off cnt"
    using assms(6) by simp_all
  have "ri_inv ?c ?w H t" using ri_run_ok [OF s after(1) len assms(7,8)] by simp
  moreover have "reads_for off r (ri_reader t)"
    by (rule reads_for_run [OF _ after(2) assms(8)]) (simp add: assms(5))
  ultimately have "(\<exists>out' wp. ri_reader t = RR_Done out' off wp r) \<or> (\<exists>t'. read_step t = Some (Inr t'))"
    using read_step_ok [of ?c ?w H t]
    by (cases "ri_reader t") (auto simp: read_step_def Let_def split: if_splits)
  moreover have "count_list after Read_Step \<le> read_work ?w (ri_reader s)"
    using read_count [OF s assms(6) len assms(7,8)] by simp
  ultimately show ?thesis by (simp add: assms(5))
qed

end
