(* ===== verification/Pcm_Samples.thy ===== *)
theory Pcm_Samples
  imports Prelude
begin

text \<open>
  PCM samples in memory: 16- and 32-bit samples read through a pointer cast on a
  little-endian machine, and the packed 3-byte samples the program unpacks by hand
  (block_recorder.cpp, clip_extractor.cpp, capture_pipeline.cpp, audiod-mon.cpp) and
  packs again (capture_pipeline.cpp). The interface \<open>sample_codec\<close> states what the
  three formats share and lifts it to buffers.
\<close>

section \<open>Single samples\<close>

definition i16_load :: "u8 list \<Rightarrow> i16" where
  "i16_load p = ucast (p ! 0) OR push_bit 8 (ucast (p ! 1))"

definition i16_store :: "i16 \<Rightarrow> u8 list" where
  "i16_store v = [ucast v, ucast (drop_bit 8 v)]"

definition i32_load :: "u8 list \<Rightarrow> i32" where
  "i32_load p = ucast (p ! 0) OR push_bit 8 (ucast (p ! 1)) OR
                push_bit 16 (ucast (p ! 2)) OR push_bit 24 (ucast (p ! 3))"

definition i32_store :: "i32 \<Rightarrow> u8 list" where
  "i32_store v = [ucast v, ucast (drop_bit 8 v), ucast (drop_bit 16 v), ucast (drop_bit 24 v)]"

text \<open>\<open>p[0] | (p[1] << 8) | (p[2] << 16)\<close>, then sign extension by \<open>v |= 0xFF000000\<close>.\<close>

definition s24_load :: "u8 list \<Rightarrow> i32" where
  "s24_load p =
     (let v = ucast (p ! 0) OR push_bit 8 (ucast (p ! 1)) OR push_bit 16 (ucast (p ! 2))
      in if v AND 0x800000 \<noteq> 0 then v OR 0xFF000000 else v)"

text \<open>\<open>v & 0xFF\<close>, \<open>(v >> 8) & 0xFF\<close>, \<open>(v >> 16) & 0xFF\<close> with the arithmetic shift of \<open>int32_t\<close>.\<close>

definition s24_store :: "i32 \<Rightarrow> u8 list" where
  "s24_store v = [ucast (v AND 0xFF), ucast (signed_drop_bit 8 v AND 0xFF),
                  ucast (signed_drop_bit 16 v AND 0xFF)]"

text \<open>libsndfile takes 24-bit samples left-justified in 32 bits: \<open>v << 8\<close>.\<close>

definition left_justify :: "i32 \<Rightarrow> i32" where
  "left_justify v = push_bit 8 v"

definition s24_range :: "i32 \<Rightarrow> bool" where
  "s24_range v \<longleftrightarrow> - (2 ^ 23) \<le> sint v \<and> sint v < 2 ^ 23"

section \<open>Bits of single samples\<close>

lemma byte_bit_high: "8 \<le> n \<Longrightarrow> \<not> bit (x :: u8) n"
  by (auto dest: bit_imp_le_length)

lemma bit_i16_load:
  "bit (i16_load p) n \<longleftrightarrow> n < 16 \<and> (if n < 8 then bit (p ! 0) n else bit (p ! 1) (n - 8))"
  by (auto simp: i16_load_def bit_simps byte_bit_high not_less)

lemma bit_i32_load:
  "bit (i32_load p) n \<longleftrightarrow>
     n < 32 \<and> (if n < 8 then bit (p ! 0) n else if n < 16 then bit (p ! 1) (n - 8)
              else if n < 24 then bit (p ! 2) (n - 16) else bit (p ! 3) (n - 24))"
  by (cases "n < 8"; cases "n < 16"; cases "n < 24")
    (auto simp: i32_load_def bit_simps byte_bit_high not_less)

lemma i16_load_store: "i16_load (i16_store v) = v"
  by (rule bit_word_eqI) (auto simp: bit_i16_load i16_store_def bit_simps not_less)

lemma i32_load_store: "i32_load (i32_store v) = v"
proof (rule bit_word_eqI)
  fix n assume "n < LENGTH(32)"
  then show "bit (i32_load (i32_store v)) n = bit v n"
    by (cases "n < 8"; cases "n < 16"; cases "n < 24")
      (auto simp: bit_i32_load i32_store_def bit_simps not_less)
qed

lemma i16_store_load:
  assumes "length p = 2"
  shows "i16_store (i16_load p) = p"
proof -
  from assms obtain a b where p: "p = [a, b]" by (auto simp: numeral_eq_Suc length_Suc_conv)
  have "ucast (i16_load [a, b]) = a" "ucast (drop_bit 8 (i16_load [a, b])) = b"
    by (rule bit_word_eqI; simp add: bit_i16_load bit_simps)+
  then show ?thesis by (simp add: p i16_store_def)
qed

lemma i32_store_load:
  assumes "length p = 4"
  shows "i32_store (i32_load p) = p"
proof -
  from assms obtain a b c d where p: "p = [a, b, c, d]"
    by (auto simp: numeral_eq_Suc length_Suc_conv)
  have "ucast (i32_load [a, b, c, d]) = a" "ucast (drop_bit 8 (i32_load [a, b, c, d])) = b"
    "ucast (drop_bit 16 (i32_load [a, b, c, d])) = c" "ucast (drop_bit 24 (i32_load [a, b, c, d])) = d"
    by (rule bit_word_eqI; simp add: bit_i32_load bit_simps)+
  then show ?thesis by (simp add: p i32_store_def)
qed

text \<open>The 24 bits as stored, before the sign is extended.\<close>

lemma bit_s24_raw:
  "bit (ucast (p ! 0) OR push_bit 8 (ucast (p ! 1)) OR push_bit 16 (ucast (p ! 2)) :: i32) n \<longleftrightarrow>
     n < 24 \<and> (if n < 8 then bit (p ! 0) n else if n < 16 then bit (p ! 1) (n - 8)
              else bit (p ! 2) (n - 16))"
  for p :: "u8 list"
  by (cases "n < 8"; cases "n < 16"; cases "n < 24")
    (auto simp: bit_simps byte_bit_high not_less)

lemma bit_sign_mask: "bit (0xFF000000 :: i32) n \<longleftrightarrow> 24 \<le> n \<and> n < 32"
proof -
  have "(0xFF000000 :: i32) = push_bit 24 (mask 8)" by (simp add: mask_eq_exp_minus_1)
  then show ?thesis by (auto simp only: bit_simps) auto
qed

lemma and_bit_nonzero: "(v :: i32) AND 0x800000 \<noteq> 0 \<longleftrightarrow> bit v 23"
proof -
  have "(0x800000 :: i32) = push_bit 23 1" by simp
  then show ?thesis by (simp only: bit_iff_and_push_bit_not_eq_0)
qed

lemma bit_s24_load:
  "bit (s24_load p) n \<longleftrightarrow>
     n < 32 \<and> (if n < 8 then bit (p ! 0) n else if n < 16 then bit (p ! 1) (n - 8)
              else if n < 24 then bit (p ! 2) (n - 16) else bit (p ! 2) 7)"
proof -
  define v :: i32 where "v = ucast (p ! 0) OR push_bit 8 (ucast (p ! 1)) OR push_bit 16 (ucast (p ! 2))"
  note raw = bit_s24_raw [of p, folded v_def]
  have "bit (s24_load p) n \<longleftrightarrow> bit v n \<or> (bit v 23 \<and> 24 \<le> n \<and> n < 32)"
    unfolding s24_load_def Let_def v_def [symmetric] and_bit_nonzero
    by (simp only: bit_or_iff bit_sign_mask split: if_split) blast
  then show ?thesis by (auto simp: raw)
qed

lemma s24_load_signed: "s24_load p = signed_take_bit 23 (s24_load p)"
proof (rule bit_word_eqI)
  fix n assume "n < LENGTH(32)"
  then show "bit (s24_load p) n = bit (signed_take_bit 23 (s24_load p)) n"
    by (cases "n = 23") (auto simp: bit_simps bit_s24_load min_def)
qed

lemma s24_range_iff: "s24_range v \<longleftrightarrow> signed_take_bit 23 v = v"
proof -
  have "signed_take_bit 23 v = v \<longleftrightarrow> sint (signed_take_bit 23 v) = sint v"
    by (metis signed_word_eqI)
  also have "sint (signed_take_bit 23 v) = signed_take_bit 23 (sint v)"
    by (rule bit_eqI) (auto simp: bit_simps min_def)
  finally show ?thesis
    by (simp add: s24_range_def signed_take_bit_int_eq_self_iff)
qed

lemma s24_load_range: "s24_range (s24_load p)"
  using s24_load_signed [of p] by (simp add: s24_range_iff)

lemma bit_s24_high: "s24_range v \<Longrightarrow> 23 \<le> n \<Longrightarrow> n < 32 \<Longrightarrow> bit v n = bit v 23"
proof -
  assume h: "s24_range v" "23 \<le> n" "n < 32"
  have "bit v n = bit (signed_take_bit 23 v) n" using h(1) by (simp add: s24_range_iff)
  then show ?thesis using h(2,3) by (simp add: bit_signed_take_bit_iff min_def)
qed

lemma and_0xFF: "(v :: i32) AND 0xFF = take_bit 8 v"
  by (simp add: take_bit_eq_mask mask_eq_exp_minus_1)

lemma s24_store_bits: "s24_store v = [ucast v, ucast (drop_bit 8 v), ucast (drop_bit 16 v)]"
proof -
  have "ucast (v AND 0xFF) = (ucast v :: u8)"
    "ucast (signed_drop_bit 8 v AND 0xFF) = (ucast (drop_bit 8 v) :: u8)"
    "ucast (signed_drop_bit 16 v AND 0xFF) = (ucast (drop_bit 16 v) :: u8)"
    by (rule bit_word_eqI; simp add: and_0xFF bit_simps)+
  then show ?thesis by (simp add: s24_store_def)
qed

lemma s24_store_load:
  assumes "length p = 3"
  shows "s24_store (s24_load p) = p"
proof -
  from assms obtain a b c where p: "p = [a, b, c]" by (auto simp: numeral_eq_Suc length_Suc_conv)
  have "ucast (s24_load [a, b, c]) = a" "ucast (drop_bit 8 (s24_load [a, b, c])) = b"
    "ucast (drop_bit 16 (s24_load [a, b, c])) = c"
    by (rule bit_word_eqI; simp add: bit_s24_load bit_simps)+
  then show ?thesis by (simp add: p s24_store_bits)
qed

lemma s24_load_store:
  assumes "s24_range v"
  shows "s24_load (s24_store v) = v"
proof (rule bit_word_eqI)
  fix n assume n: "n < LENGTH(32)"
  show "bit (s24_load (s24_store v)) n = bit v n"
    using n bit_s24_high [OF assms, of n]
    by (cases "n < 8"; cases "n < 16"; cases "n < 24")
      (auto simp: bit_s24_load s24_store_bits bit_simps not_less)
qed

text \<open>Left justification loses nothing: it scales by 256 without overflow.\<close>

lemma sint_left_justify:
  assumes "s24_range v"
  shows "sint (left_justify v) = 256 * sint v"
proof -
  have "left_justify v = word_of_int (256 * sint v)"
    by (simp add: left_justify_def push_bit_eq_mult)
  moreover have "signed_take_bit 31 (256 * sint v) = 256 * sint v"
    using assms by (intro signed_take_bit_int_eq_self) (auto simp: s24_range_def)
  ultimately show ?thesis by (simp only: signed_of_int) simp
qed

text \<open>The value of a packed sample is its three bytes in two's complement.\<close>

lemma sint_s24_load:
  "sint (s24_load p) =
     (let u = uint (p ! 0) + 256 * uint (p ! 1) + 65536 * uint (p ! 2)
      in if u < 2 ^ 23 then u else u - 2 ^ 24)"
proof -
  define u where "u = uint (p ! 0) + 256 * uint (p ! 1) + 65536 * uint (p ! 2)"
  define o0 where "o0 = uint (p ! 0) OR push_bit 8 (uint (p ! 1))"
  have o0: "o0 = uint (p ! 0) + 256 * uint (p ! 1)"
  proof -
    have "uint (p ! 0) + push_bit 8 (uint (p ! 1)) = o0"
      unfolding o0_def by (rule disjunctive_add_eq_or) (rule bit_eqI, auto simp: bit_simps byte_bit_high)
    then show ?thesis by (simp add: push_bit_eq_mult)
  qed
  have u: "u = o0 OR push_bit 16 (uint (p ! 2))"
  proof -
    have "o0 + push_bit 16 (uint (p ! 2)) = o0 OR push_bit 16 (uint (p ! 2))"
      by (rule disjunctive_add_eq_or) (rule bit_eqI, auto simp: o0_def bit_simps byte_bit_high)
    then show ?thesis by (simp add: u_def o0 push_bit_eq_mult)
  qed
  have bits: "sint (s24_load p) = signed_take_bit 23 u"
  proof (rule bit_eqI)
    fix n
    show "bit (sint (s24_load p)) n = bit (signed_take_bit 23 u) n"
      by (cases "n < 8"; cases "n < 16"; cases "n < 24"; cases "n = 23")
        (auto simp: u o0_def bit_simps bit_s24_load byte_bit_high not_less min_def)
  qed
  have b: "0 \<le> u" "u < 2 ^ 24"
    using uint_lt2p [of "p ! 0"] uint_lt2p [of "p ! 1"] uint_lt2p [of "p ! 2"]
    by (simp_all add: u_def)
  have "signed_take_bit 23 u = (if u < 2 ^ 23 then u else u - 2 ^ 24)"
  proof (cases "u < 2 ^ 23")
    case True
    with b show ?thesis by (simp add: signed_take_bit_int_eq_self)
  next
    case False
    have "signed_take_bit 23 u = signed_take_bit 23 (u - 2 ^ 24)"
      by (simp add: signed_take_bit_eq_iff_take_bit_eq take_bit_eq_mod)
    also have "\<dots> = u - 2 ^ 24" using b False by (intro signed_take_bit_int_eq_self) simp_all
    finally show ?thesis using False by simp
  qed
  then show ?thesis unfolding bits Let_def u_def [symmetric] .
qed

section \<open>Buffers of samples\<close>

definition decode_all :: "nat \<Rightarrow> (u8 list \<Rightarrow> 'v) \<Rightarrow> nat \<Rightarrow> u8 list \<Rightarrow> 'v list" where
  "decode_all w dec n bs = map dec (frames_of w n bs)"

definition encode_all :: "('v \<Rightarrow> u8 list) \<Rightarrow> 'v list \<Rightarrow> u8 list" where
  "encode_all enc vs = concat (map enc vs)"

locale sample_codec =
  fixes width :: nat
    and dec :: "u8 list \<Rightarrow> 'v"
    and enc :: "'v \<Rightarrow> u8 list"
    and valid :: "'v \<Rightarrow> bool"
  assumes length_enc: "length (enc v) = width"
    and dec_enc: "valid v \<Longrightarrow> dec (enc v) = v"
    and enc_dec: "length p = width \<Longrightarrow> enc (dec p) = p"
    and valid_dec: "valid (dec p)"
begin

lemma decode_append:
  "length bs = m * width \<Longrightarrow>
   decode_all width dec (m + n) (bs @ cs) = decode_all width dec m bs @ decode_all width dec n cs"
  by (simp add: decode_all_def frames_of_append)

lemma decode_encode:
  assumes "\<And>v. v \<in> set vs \<Longrightarrow> valid v"
  shows "decode_all width dec (length vs) (encode_all enc vs) = vs"
proof -
  have "frames_of width (length (map enc vs)) (concat (map enc vs)) = map enc vs"
    by (rule frames_of_concat) (auto simp: length_enc)
  then show ?thesis using assms by (simp add: decode_all_def encode_all_def map_idI dec_enc)
qed

lemma encode_decode:
  assumes "length bs = n * width"
  shows "encode_all enc (decode_all width dec n bs) = bs"
proof -
  have "\<And>f. f \<in> set (frames_of width n bs) \<Longrightarrow> length f = width"
    using assms by (auto simp: frames_of_def length_frame_at)
  then have "map (enc \<circ> dec) (frames_of width n bs) = frames_of width n bs"
    by (intro map_idI) (simp add: enc_dec)
  then show ?thesis using concat_frames_of [of n width bs] assms
    by (simp add: decode_all_def encode_all_def)
qed

lemma decode_inj:
  "length bs = n * width \<Longrightarrow> length cs = n * width \<Longrightarrow>
   decode_all width dec n bs = decode_all width dec n cs \<Longrightarrow> bs = cs"
  by (metis encode_decode)

end

lemma length_i16_store: "length (i16_store v) = 2"
  and length_i32_store: "length (i32_store x) = 4"
  and length_s24_store: "length (s24_store x) = 3"
  by (simp_all add: i16_store_def i32_store_def s24_store_def)

interpretation s16: sample_codec 2 i16_load i16_store "\<lambda>_. True"
  by unfold_locales (simp_all add: i16_load_store i16_store_load length_i16_store)

interpretation s24: sample_codec 3 s24_load s24_store s24_range
  by unfold_locales (simp_all add: s24_load_store s24_store_load s24_load_range length_s24_store)

interpretation s32: sample_codec 4 i32_load i32_store "\<lambda>_. True"
  by unfold_locales (simp_all add: i32_load_store i32_store_load length_i32_store)

text \<open>
  What the library calls and the unpacking loop read from memory: \<open>n\<close> samples from byte
  offset \<open>off\<close>; reading past the end of the object is a fault.
\<close>

definition read_shorts :: "u8 list \<Rightarrow> nat \<Rightarrow> nat \<Rightarrow> i16 list outcome" where
  "read_shorts mem off n = obind (load_range mem off (n * 2)) (\<lambda>bs. Inr (decode_all 2 i16_load n bs))"

definition read_ints :: "u8 list \<Rightarrow> nat \<Rightarrow> nat \<Rightarrow> i32 list outcome" where
  "read_ints mem off n = obind (load_range mem off (n * 4)) (\<lambda>bs. Inr (decode_all 4 i32_load n bs))"

definition unpack24 :: "u8 list \<Rightarrow> nat \<Rightarrow> nat \<Rightarrow> i32 list outcome" where
  "unpack24 mem off n =
     obind (load_range mem off (n * 3)) (\<lambda>bs. Inr (map left_justify (decode_all 3 s24_load n bs)))"

section \<open>Properties\<close>

text \<open>
  Unpacking a 3-byte sample is exact. The value is the two's complement of the bytes,
  it lies in the 24-bit range, packing it again gives the bytes back, and the left-justified
  form handed to libsndfile is 256 times the value without overflow.
\<close>

theorem s24_unpack_exact:
  assumes "length p = 3"
  shows "sint (s24_load p) =
           (let u = uint (p ! 0) + 256 * uint (p ! 1) + 65536 * uint (p ! 2)
            in if u < 2 ^ 23 then u else u - 2 ^ 24) \<and>
         s24_range (s24_load p) \<and> s24_store (s24_load p) = p \<and>
         sint (left_justify (s24_load p)) = 256 * sint (s24_load p)"
  using assms by (simp add: sint_s24_load s24_load_range s24_store_load sint_left_justify)

theorem s24_unpack_exact_witness:
  "sint (s24_load [0xFE, 0xFF, 0xFF]) = -2 \<and> s24_store (s24_load [0xFE, 0xFF, 0xFF]) = [0xFE, 0xFF, 0xFF]"
  using s24_unpack_exact [of "[0xFE, 0xFF, 0xFF]"] by simp

end
