(* ===== verification/Sndfile.thy ===== *)
theory Sndfile
  imports Pcm_Samples
begin

text \<open>
  libsndfile as the program sees it. The library is not part of the repository: what a
  call returns is a parameter (\<open>sf_lib\<close>), a function of the calls made so far. The calls
  themselves, with the samples handed over, are recorded in a log, so that properties can
  speak about what ends up in which file.
\<close>

section \<open>Calls and their log\<close>

datatype sf_container = SF_FORMAT_WAV | SF_FORMAT_FLAC

datatype sf_subtype = SF_FORMAT_PCM_16 | SF_FORMAT_PCM_24 | SF_FORMAT_PCM_32

record sf_info =
  info_samplerate :: i32
  info_channels :: i32
  info_container :: sf_container
  info_subtype :: sf_subtype

datatype sf_payload = Shorts "i16 list" | Ints "i32 list"

datatype sf_event =
    Sf_Open string sf_info bool     \<comment> \<open>\<open>sf_open\<close> for writing and whether it succeeded\<close>
  | Sf_Write sf_payload             \<comment> \<open>\<open>sf_write(f)_short\<close> or \<open>sf_write(f)_int\<close>\<close>
  | Sf_Sync
  | Sf_Close

text \<open>
  \<open>lib_open\<close>: does the next \<open>sf_open\<close> succeed; \<open>lib_written\<close>: what the next write of
  the given number of items (or frames) returns.
\<close>

record sf_lib =
  lib_open :: "sf_event list \<Rightarrow> string \<Rightarrow> sf_info \<Rightarrow> bool"
  lib_written :: "sf_event list \<Rightarrow> sf_payload \<Rightarrow> nat \<Rightarrow> int"

text \<open>A library whose disk never fails; it only serves as a concrete instance.\<close>

definition reliable_lib :: sf_lib where
  "reliable_lib = \<lparr>lib_open = (\<lambda>_ _ _. True), lib_written = (\<lambda>_ _ n. int n)\<rparr>"

section \<open>What a payload holds\<close>

text \<open>
  The three ways the program hands \<open>n\<close> samples at byte offset \<open>off\<close> to the library.
\<close>

definition pcm_payload :: "u16 \<Rightarrow> u8 list \<Rightarrow> nat \<Rightarrow> nat \<Rightarrow> sf_payload outcome" where
  "pcm_payload bits mem off n =
     (if bits = 32 then obind (read_ints mem off n) (\<lambda>xs. Inr (Ints xs))
      else if bits = 24 then obind (unpack24 mem off n) (\<lambda>xs. Inr (Ints xs))
      else obind (read_shorts mem off n) (\<lambda>xs. Inr (Shorts xs)))"

text \<open>
  The bytes a payload puts into a file of the subtype the program chose: a 24-bit file
  keeps the upper three bytes of each integer.
\<close>

definition payload_bytes :: "u16 \<Rightarrow> sf_payload \<Rightarrow> u8 list" where
  "payload_bytes bits p =
     (case p of
        Shorts xs \<Rightarrow> encode_all i16_store xs
      | Ints xs \<Rightarrow> if bits = 24 then encode_all s24_store (map (signed_drop_bit 8) xs)
                   else encode_all i32_store xs)"

definition supported_bits :: "u16 \<Rightarrow> bool" where
  "supported_bits bits \<longleftrightarrow> bits = 16 \<or> bits = 24 \<or> bits = 32"

definition bytes_of_bits :: "u16 \<Rightarrow> nat" where
  "bytes_of_bits bits = unat bits div 8"

lemma supported_bits_cases:
  assumes "supported_bits bits"
  obtains "bits = 16" "bytes_of_bits bits = 2" | "bits = 24" "bytes_of_bits bits = 3"
        | "bits = 32" "bytes_of_bits bits = 4"
  using assms by (auto simp: supported_bits_def bytes_of_bits_def)

lemma justify_back: "signed_drop_bit 8 (left_justify (s24_load p)) = s24_load p"
proof (rule bit_word_eqI)
  fix n assume "n < LENGTH(32)"
  then show "bit (signed_drop_bit 8 (left_justify (s24_load p))) n = bit (s24_load p) n"
    using bit_s24_high [OF s24_load_range [of p], of n]
      bit_s24_high [OF s24_load_range [of p], of 23]
    by (auto simp: bit_signed_drop_bit_iff left_justify_def bit_push_bit_iff min_def)
qed

text \<open>A payload built from supported samples carries exactly the bytes it was built from.\<close>

lemma payload_bytes_exact:
  assumes bits: "supported_bits bits" and room: "off + n * bytes_of_bits bits \<le> length mem"
  shows "\<exists>p. pcm_payload bits mem off n = Inr p \<and>
             payload_bytes bits p = take (n * bytes_of_bits bits) (drop off mem)"
proof -
  define bs where "bs = take (n * bytes_of_bits bits) (drop off mem)"
  have len: "length bs = n * bytes_of_bits bits" using room by (simp add: bs_def)
  have load: "load_range mem off (n * bytes_of_bits bits) = Inr bs"
    using room by (simp add: mem_simps bs_def)
  from bits have "\<exists>p. pcm_payload bits mem off n = Inr p \<and> payload_bytes bits p = bs"
  proof (cases rule: supported_bits_cases)
    case 1
    then show ?thesis using load len s16.encode_decode [of bs n]
      by (simp add: pcm_payload_def read_shorts_def payload_bytes_def)
  next
    case 2
    then show ?thesis using load len s24.encode_decode [of bs n]
      by (simp add: pcm_payload_def unpack24_def payload_bytes_def decode_all_def comp_def
          justify_back)
  next
    case 3
    then show ?thesis using load len s32.encode_decode [of bs n]
      by (simp add: pcm_payload_def read_ints_def payload_bytes_def)
  qed
  then show ?thesis by (simp add: bs_def)
qed

section \<open>File formats\<close>

definition sf_subtype_of_bits :: "u16 \<Rightarrow> sf_subtype" where
  "sf_subtype_of_bits bits =
     (if bits = 32 then SF_FORMAT_PCM_32 else if bits = 24 then SF_FORMAT_PCM_24
      else SF_FORMAT_PCM_16)"

end
