(* ===== verification/Clip_Extractor.thy ===== *)
theory Clip_Extractor
  imports Ring_Buffer Sndfile
begin

text \<open>
  \<open>ClipExtractor\<close> (include/audio_daemon/clip_extractor.hpp, src/capture/clip_extractor.cpp):
  the request queue with its worker and result map, the extraction of a clip from the ring
  buffer, and the writing of the file. Sleeping until the end of the clip is the parameter
  \<open>sleep\<close>: what the capture thread does to the ring buffer in the given milliseconds.
\<close>

section \<open>State\<close>

record clip_config =
  cc_output_dir :: string
  cc_format :: string

record clip_request =
  rq_request_id :: u64
  rq_start_offset :: i32
  rq_end_offset :: i32
  rq_format :: string
  rq_timestamp :: u64

record clip_extractor =
  cx_config :: clip_config
  cx_sample_rate :: u32
  cx_channels :: u16
  cx_bits_per_sample :: u16
  cx_running :: bool
  cx_queue :: "clip_request list"
  cx_next_id :: u64
  cx_results :: "u64 \<rightharpoonup> string"

definition cx_new :: "clip_config \<Rightarrow> u32 \<Rightarrow> u16 \<Rightarrow> u16 \<Rightarrow> clip_extractor" where
  "cx_new config sample_rate channels bits =
     \<lparr>cx_config = config, cx_sample_rate = sample_rate, cx_channels = channels,
      cx_bits_per_sample = bits, cx_running = False, cx_queue = [], cx_next_id = 1,
      cx_results = Map.empty\<rparr>"

definition cx_start :: "clip_extractor \<Rightarrow> clip_extractor" where
  "cx_start cx = (if cx_running cx then cx else cx\<lparr>cx_running := True\<rparr>)"

definition cx_stop_flag :: "clip_extractor \<Rightarrow> clip_extractor" where
  "cx_stop_flag cx = cx\<lparr>cx_running := False\<rparr>"

text \<open>\<open>request_clip\<close>: the id handed out and the extended queue.\<close>

definition cx_request_clip ::
  "u64 \<Rightarrow> clip_extractor \<Rightarrow> i32 \<Rightarrow> i32 \<Rightarrow> string \<Rightarrow> u64 \<times> clip_extractor" where
  "cx_request_clip now cx start_offset end_offset format =
     (let req = \<lparr>rq_request_id = cx_next_id cx, rq_start_offset = start_offset,
                 rq_end_offset = end_offset,
                 rq_format = (if format = [] then cc_format (cx_config cx) else format),
                 rq_timestamp = now\<rparr>
      in (cx_next_id cx,
          cx\<lparr>cx_next_id := cx_next_id cx + 1, cx_queue := cx_queue cx @ [req]\<rparr>))"

text \<open>
  \<open>request_clip_sync\<close> waits until \<open>cx_sync_ready\<close> and then takes the result, or the empty
  string when there is none.
\<close>

definition cx_sync_ready :: "clip_extractor \<Rightarrow> u64 \<Rightarrow> bool" where
  "cx_sync_ready cx rid \<longleftrightarrow> cx_results cx rid \<noteq> None \<or> \<not> cx_running cx"

definition cx_sync_take :: "clip_extractor \<Rightarrow> u64 \<Rightarrow> string \<times> clip_extractor" where
  "cx_sync_take cx rid =
     (case cx_results cx rid of
        None \<Rightarrow> ([], cx)
      | Some path \<Rightarrow> (path, cx\<lparr>cx_results := (cx_results cx)(rid := None)\<rparr>))"

text \<open>One turn of the worker: its wait condition, its exit condition, the pop.\<close>

datatype worker_turn = Worker_Waits | Worker_Exits | Worker_Serves clip_request clip_extractor

definition cx_worker_turn :: "clip_extractor \<Rightarrow> worker_turn" where
  "cx_worker_turn cx =
     (case cx_queue cx of
        [] \<Rightarrow> if cx_running cx then Worker_Waits else Worker_Exits
      | req # rest \<Rightarrow> Worker_Serves req (cx\<lparr>cx_queue := rest\<rparr>))"

definition cx_store_result :: "clip_extractor \<Rightarrow> clip_request \<Rightarrow> string \<Rightarrow> clip_extractor" where
  "cx_store_result cx req path = cx\<lparr>cx_results := (cx_results cx)(rq_request_id req \<mapsto> path)\<rparr>"

section \<open>Writing the file\<close>

definition cx_info :: "clip_extractor \<Rightarrow> string \<Rightarrow> sf_info" where
  "cx_info cx format =
     \<lparr>info_samplerate = cx_sample_rate cx, info_channels = ucast (cx_channels cx),
      info_container = (if format = ''flac'' then SF_FORMAT_FLAC else SF_FORMAT_WAV),
      info_subtype = sf_subtype_of_bits (cx_bits_per_sample cx)\<rparr>"

definition cx_write_sndfile ::
  "sf_lib \<Rightarrow> clip_extractor \<Rightarrow> sf_event list \<Rightarrow> u8 list \<Rightarrow> string \<Rightarrow> string \<Rightarrow>
   (string \<times> sf_event list) outcome" where
  "cx_write_sndfile lib cx calls samples path format =
     (let full_path = path @ (if format = ''flac'' then ''.flac'' else ''.wav'');
          info = cx_info cx format;
          opened = lib_open lib calls full_path info;
          calls1 = calls @ [Sf_Open full_path info opened]
      in if \<not> opened then Inr ([], calls1)
         else let frame_bytes = bytes_of_bits (cx_bits_per_sample cx) * unat (cx_channels cx)
              in if frame_bytes = 0 then Inl Div_By_Zero
                 else let total_frames = length samples div frame_bytes
                      in obind (pcm_payload (cx_bits_per_sample cx) samples 0
                                  (total_frames * unat (cx_channels cx)))
                           (\<lambda>p. Inr (full_path, calls1 @ [Sf_Write p, Sf_Close])))"

section \<open>Extracting a clip\<close>

definition int32_overflow :: "int \<Rightarrow> bool" where
  "int32_overflow i \<longleftrightarrow> i < - (2 ^ 31) \<or> 2 ^ 31 \<le> i"

definition vec_resize :: "('a::zero) list \<Rightarrow> nat \<Rightarrow> 'a list" where
  "vec_resize xs n = take n xs @ replicate (n - length xs) 0"

text \<open>
  \<open>extract_clip\<close>, from the (optional) sleep to the written file; the empty path is failure.
  \<open>stamp\<close> is \<open>timestamp_to_filename()\<close>. The result has the ring buffer after the sleep and
  the extended log of library calls.
\<close>

definition cx_extract_clip ::
  "(nat \<Rightarrow> bool) \<Rightarrow> (int \<Rightarrow> ring_buffer \<Rightarrow> ring_buffer) \<Rightarrow> string \<Rightarrow> sf_lib \<Rightarrow>
   clip_extractor \<Rightarrow> ring_buffer \<Rightarrow> sf_event list \<Rightarrow> clip_request \<Rightarrow>
   (string \<times> ring_buffer \<times> sf_event list) outcome option" where
  "cx_extract_clip mem_ok sleep stamp lib cx rb0 calls req =
     (let e = sint (rq_end_offset req); s = sint (rq_start_offset req) in
      if 0 < e \<and> int32_overflow (e * 1000) then Some (Inl Signed_Overflow)
      else let rb = (if 0 < e then sleep (e * 1000) rb0 else rb0) in
      if int32_overflow (e - s) then Some (Inl Signed_Overflow)
      else if e - s \<le> 0 then Some (Inr ([], rb, calls))
      else
        let total_frames = word_of_int (e - s) * ucast (cx_sample_rate cx) :: u64;
            offset_from_head = 0 :: u64;
            bytes_per_frame = ucast (cx_channels cx) * of_nat (bytes_of_bits (cx_bits_per_sample cx)) :: u64
        in case new_zeroed mem_ok (unat (total_frames * bytes_per_frame)) of
             Inl f \<Rightarrow> Some (Inl f)
           | Inr samples \<Rightarrow>
               (case rb_read rb samples offset_from_head total_frames of
                  None \<Rightarrow> None
                | Some (Inl f) \<Rightarrow> Some (Inl f)
                | Some (Inr (samples', got)) \<Rightarrow>
                    if got = 0 then Some (Inr ([], rb, calls))
                    else Some (obind
                      (cx_write_sndfile lib cx calls
                         (vec_resize samples' (unat (got * bytes_per_frame)))
                         (cc_output_dir (cx_config cx) @ ''/clip_'' @ stamp) (rq_format req))
                      (\<lambda>(path, calls'). Inr (path, rb, calls')))))"

section \<open>A clip is the newest piece of the history\<close>

text \<open>The ring buffer the pipeline hands over has the extractor's frame layout.\<close>

definition cx_matches :: "clip_extractor \<Rightarrow> ring_buffer \<Rightarrow> bool" where
  "cx_matches cx rb \<longleftrightarrow>
     rb_channels rb = cx_channels cx \<and>
     unat (rb_bytes_per_sample rb) = bytes_of_bits (cx_bits_per_sample cx)"

definition cx_frame_bytes :: "clip_extractor \<Rightarrow> nat" where
  "cx_frame_bytes cx = unat (cx_channels cx) * bytes_of_bits (cx_bits_per_sample cx)"

definition cx_path :: "clip_extractor \<Rightarrow> string \<Rightarrow> string \<Rightarrow> string" where
  "cx_path cx stamp format =
     cc_output_dir (cx_config cx) @ ''/clip_'' @ stamp @
     (if format = ''flac'' then ''.flac'' else ''.wav'')"

lemma cx_matches_width: "cx_matches cx rb \<Longrightarrow> rb_width rb = cx_frame_bytes cx"
  by (simp add: cx_matches_def rb_width_def cx_frame_bytes_def)

lemma bytes_of_bits_lt: "bytes_of_bits bits < 2 ^ 16"
  using unat_lt_16 [of bits] by (simp add: bytes_of_bits_def)

lemma unat_frame_bytes:
  "unat (ucast (cx_channels cx) * of_nat (bytes_of_bits (cx_bits_per_sample cx)) :: u64) =
   cx_frame_bytes cx"
proof -
  have b: "unat (of_nat (bytes_of_bits (cx_bits_per_sample cx)) :: u64) = bytes_of_bits (cx_bits_per_sample cx)"
    by (rule unat_of_nat_64) (rule less_trans [OF bytes_of_bits_lt], simp)
  have "unat (cx_channels cx) * bytes_of_bits (cx_bits_per_sample cx) < 2 ^ 16 * 2 ^ 16"
    by (intro mult_strict_mono unat_lt_16 bytes_of_bits_lt) simp_all
  then show ?thesis
    by (subst unat_mult_64) (simp_all add: unat_ucast_16 b cx_frame_bytes_def)
qed

lemma unat_total_frames:
  assumes "0 \<le> d" and "nat d * unat (rate :: u32) < 2 ^ 64" and "d < 2 ^ 32"
  shows "unat (word_of_int d * ucast rate :: u64) = nat d * unat rate"
proof -
  have "unat (word_of_int d :: u64) = nat d"
    using assms(1,3) by (simp add: unsigned_of_int take_bit_int_eq_self)
  then show ?thesis
    using assms(2) by (subst unat_mult_64) (simp_all add: unat_ucast_32)
qed

lemma cx_frame_bytes_pos:
  "supported_bits (cx_bits_per_sample cx) \<Longrightarrow> cx_channels cx \<noteq> 0 \<Longrightarrow> 0 < cx_frame_bytes cx"
  by (auto simp: cx_frame_bytes_def unat_gt_0 elim: supported_bits_cases)

lemma write_sndfile_ok:
  assumes bits: "supported_bits (cx_bits_per_sample cx)" and ch: "cx_channels cx \<noteq> 0"
    and len: "length samples = m * cx_frame_bytes cx"
    and ok: "lib_open lib calls (path @ ext) (cx_info cx format)"
    and ext: "ext = (if format = ''flac'' then ''.flac'' else ''.wav'')"
  shows "\<exists>p. cx_write_sndfile lib cx calls samples path format =
               Inr (path @ ext, calls @ [Sf_Open (path @ ext) (cx_info cx format) True, Sf_Write p, Sf_Close]) \<and>
             payload_bytes (cx_bits_per_sample cx) p = samples"
proof -
  have pos: "0 < cx_frame_bytes cx" using bits ch by (rule cx_frame_bytes_pos)
  have n: "length samples div (bytes_of_bits (cx_bits_per_sample cx) * unat (cx_channels cx)) = m"
    using len pos by (simp add: cx_frame_bytes_def mult.commute)
  have "0 + m * unat (cx_channels cx) * bytes_of_bits (cx_bits_per_sample cx) \<le> length samples"
    by (simp add: len cx_frame_bytes_def)
  from payload_bytes_exact [OF bits this] obtain p where
    p: "pcm_payload (cx_bits_per_sample cx) samples 0 (m * unat (cx_channels cx)) = Inr p"
    "payload_bytes (cx_bits_per_sample cx) p = samples"
    by (auto simp: len cx_frame_bytes_def)
  then show ?thesis
    using pos ok n by (simp add: cx_write_sndfile_def Let_def cx_frame_bytes_def mult.commute flip: ext)
qed

text \<open>The extraction, with the reads resolved to the history of the buffer.\<close>

lemma extract_clip_cases:
  assumes se: "sint (rq_start_offset req) = s" "sint (rq_end_offset req) = e" "s < e"
    and no_ovf: "\<not> int32_overflow (e * 1000)" "\<not> int32_overflow (e - s)"
    and rb: "rb = (if 0 < e then sleep (e * 1000) rb0 else rb0)"
    and holds: "rb_holds H rb" "length H < 2 ^ 64" and match: "cx_matches cx rb"
    and wpos: "0 < cx_frame_bytes cx"
    and tot: "tot = nat (e - s) * unat (cx_sample_rate cx)"
    and size: "tot * cx_frame_bytes cx < 2 ^ 64"
    and m: "m = min tot (min (length H) (rb_cap rb))"
  shows "cx_extract_clip mem_ok sleep stamp lib cx rb0 calls req =
     (case new_zeroed mem_ok (tot * cx_frame_bytes cx) :: u8 list outcome of
        Inl f \<Rightarrow> Some (Inl f)
      | Inr _ \<Rightarrow>
          if m = 0 then Some (Inr ([], rb, calls))
          else Some (obind (cx_write_sndfile lib cx calls (concat (recent H 0 m))
                 (cc_output_dir (cx_config cx) @ ''/clip_'' @ stamp) (rq_format req))
               (\<lambda>(path, calls'). Inr (path, rb, calls'))))"
proof -
  let ?w = "cx_frame_bytes cx"
  define tf where "tf = (word_of_int (e - s) * ucast (cx_sample_rate cx) :: u64)"
  define bpf where "bpf = (ucast (cx_channels cx) * of_nat (bytes_of_bits (cx_bits_per_sample cx)) :: u64)"
  have w: "rb_width rb = ?w" by (rule cx_matches_width [OF match])
  have "tot \<le> tot * ?w" using wpos by simp
  then have "tot < 2 ^ 64" using size by (rule le_less_trans)
  then have tf: "unat tf = tot"
    unfolding tf_def tot using se(3) no_ovf(2)
    by (intro unat_total_frames) (auto simp: int32_overflow_def)
  have bpf: "unat bpf = ?w" unfolding bpf_def by (rule unat_frame_bytes)
  have alloc: "unat (tf * bpf) = tot * ?w"
    using size by (subst unat_mult_64) (simp_all add: tf bpf)
  have mt: "m * ?w \<le> tot * ?w" using m by (intro mult_le_mono1) simp
  have mr: "m = readable_frames (rb_cap rb) (length H) (unat (0 :: u64)) (unat tf)"
    by (simp add: m readable_frames_def tf)
  have um: "unat (of_nat m :: u64) = m"
    using holds(2) m by (intro unat_of_nat_64) simp
  then have nz: "(of_nat m :: u64) = 0 \<longleftrightarrow> m = 0" by auto
  have len: "length (concat (recent H 0 m)) = m * ?w"
    using rb.length_recent_bytes [OF holds(1), of 0 m] m by (simp add: w)
  have "m * ?w < 2 ^ 64" using le_less_trans [OF mt size] .
  then have got_bytes: "unat (of_nat m * bpf) = m * ?w"
    by (subst unat_mult_64) (simp_all add: um bpf)
  define samples where "samples = (replicate (tot * ?w) 0 :: u8 list)"
  have got: "rb_read rb samples 0 tf =
      Some (Inr (concat (recent H 0 m) @ drop (m * ?w) samples, of_nat m))"
    using rb.read_recent [OF holds mr, of samples] mt by (simp add: w samples_def)
  have resized: "vec_resize (concat (recent H 0 m) @ drop (m * ?w) samples) (unat (of_nat m * bpf)) =
      concat (recent H 0 m)"
    using mt by (simp add: vec_resize_def len samples_def got_bytes)
  show ?thesis
    unfolding cx_extract_clip_def Let_def se(1,2) tf_def [symmetric] bpf_def [symmetric]
      rb [symmetric] alloc
    using se(3) no_ovf got nz resized
    by (simp add: new_zeroed_def flip: samples_def)
qed

lemma extract_clip_ok:
  assumes se: "sint (rq_start_offset req) = s" "sint (rq_end_offset req) = e" "s < e"
    and no_ovf: "\<not> int32_overflow (e * 1000)" "\<not> int32_overflow (e - s)"
    and rb: "rb = (if 0 < e then sleep (e * 1000) rb0 else rb0)"
    and holds: "rb_holds H rb" "length H < 2 ^ 64" and match: "cx_matches cx rb"
    and bits: "supported_bits (cx_bits_per_sample cx)" and ch: "cx_channels cx \<noteq> 0"
    and tot: "tot = nat (e - s) * unat (cx_sample_rate cx)"
    and size: "tot * cx_frame_bytes cx < 2 ^ 63" "mem_ok (tot * cx_frame_bytes cx)"
    and m: "m = min tot (min (length H) (rb_cap rb))" "0 < m"
    and ok: "lib_open lib calls (cx_path cx stamp (rq_format req)) (cx_info cx (rq_format req))"
  shows "\<exists>p. cx_extract_clip mem_ok sleep stamp lib cx rb0 calls req =
              Some (Inr (cx_path cx stamp (rq_format req), rb,
                calls @ [Sf_Open (cx_path cx stamp (rq_format req)) (cx_info cx (rq_format req)) True,
                       Sf_Write p, Sf_Close])) \<and>
             payload_bytes (cx_bits_per_sample cx) p = concat (recent H 0 m)"
proof -
  have wpos: "0 < cx_frame_bytes cx" using bits ch by (rule cx_frame_bytes_pos)
  have len: "length (concat (recent H 0 m)) = m * cx_frame_bytes cx"
    using rb.length_recent_bytes [OF holds(1), of 0 m] m(1) by (simp add: cx_matches_width [OF match])
  have "lib_open lib calls ((cc_output_dir (cx_config cx) @ ''/clip_'' @ stamp) @
      (if rq_format req = ''flac'' then ''.flac'' else ''.wav'')) (cx_info cx (rq_format req))"
    using ok by (simp add: cx_path_def)
  from write_sndfile_ok [OF bits ch len this refl] obtain p where p:
    "cx_write_sndfile lib cx calls (concat (recent H 0 m)) (cc_output_dir (cx_config cx) @ ''/clip_'' @ stamp)
       (rq_format req) =
     Inr (cx_path cx stamp (rq_format req),
          calls @ [Sf_Open (cx_path cx stamp (rq_format req)) (cx_info cx (rq_format req)) True, Sf_Write p, Sf_Close])"
    "payload_bytes (cx_bits_per_sample cx) p = concat (recent H 0 m)"
    by (auto simp: cx_path_def)
  have "new_zeroed mem_ok (tot * cx_frame_bytes cx) = Inr (replicate (tot * cx_frame_bytes cx) (0 :: u8))"
    using size by (simp add: new_zeroed_def)
  then have "cx_extract_clip mem_ok sleep stamp lib cx rb0 calls req =
     Some (obind (cx_write_sndfile lib cx calls (concat (recent H 0 m))
       (cc_output_dir (cx_config cx) @ ''/clip_'' @ stamp) (rq_format req))
       (\<lambda>(path, calls'). Inr (path, rb, calls')))"
    using extract_clip_cases [where sleep = sleep and ?rb0.0 = rb0, OF se no_ovf rb holds match wpos tot _ m(1), of mem_ok stamp lib calls]
      size(1) m(2) by simp
  then show ?thesis using p by simp
qed

text \<open>
  The surroundings a clip of \<open>tot\<close> frames needs: matching layout, a supported sample
  format, memory for the samples, and a file that opens.
\<close>

definition clip_ready ::
  "(nat \<Rightarrow> bool) \<Rightarrow> sf_lib \<Rightarrow> string \<Rightarrow> clip_extractor \<Rightarrow> ring_buffer \<Rightarrow> sf_event list \<Rightarrow> string \<Rightarrow>
   nat \<Rightarrow> bool" where
  "clip_ready mem_ok lib stamp cx rb calls format tot \<longleftrightarrow>
     cx_matches cx rb \<and> supported_bits (cx_bits_per_sample cx) \<and> cx_channels cx \<noteq> 0 \<and>
     tot * cx_frame_bytes cx < 2 ^ 63 \<and> mem_ok (tot * cx_frame_bytes cx) \<and>
     lib_open lib calls (cx_path cx stamp format) (cx_info cx format)"

definition frames_between :: "'a list \<Rightarrow> int \<Rightarrow> int \<Rightarrow> 'a list" where
  "frames_between H a b = map (\<lambda>i. H ! i) [nat a ..< nat b]"

lemma recent_frames_between:
  "off + m \<le> length H \<Longrightarrow>
   recent H off m = frames_between H (int (length H) - int off - int m) (int (length H) - int off)"
  by (rule nth_equalityI) (auto simp: frames_between_def nth_recent length_recent nat_diff_distrib)

section \<open>The life of a request\<close>

text \<open>
  The extractor with its worker and clients: the request being extracted, whether the
  worker has left its loop, and three histories: the ids issued, the extractions finished
  with their paths, the results handed to clients. A step is one critical
  section of one thread. The ring buffer at the time of an extraction is whatever the
  capture thread made of it.
\<close>

record clip_system =
  cs_cx :: clip_extractor
  cs_current :: "clip_request option"
  cs_exited :: bool
  cs_calls :: "sf_event list"
  cs_issued :: "u64 list"
  cs_extracted :: "(u64 \<times> string) list"
  cs_delivered :: "(u64 \<times> string) list"

definition cs_init :: "clip_config \<Rightarrow> u32 \<Rightarrow> u16 \<Rightarrow> u16 \<Rightarrow> clip_system" where
  "cs_init config rate channels bits =
     \<lparr>cs_cx = cx_start (cx_new config rate channels bits), cs_current = None, cs_exited = False,
      cs_calls = [], cs_issued = [], cs_extracted = [], cs_delivered = []\<rparr>"

inductive clip_step :: "(nat \<Rightarrow> bool) \<Rightarrow> (int \<Rightarrow> ring_buffer \<Rightarrow> ring_buffer) \<Rightarrow> sf_lib \<Rightarrow>
    clip_system \<Rightarrow> clip_system \<Rightarrow> bool"
  for mem_ok sleep lib where
  submit: "cx_request_clip now (cs_cx c) s e fmt = (rid, cx') \<Longrightarrow>
     clip_step mem_ok sleep lib c (c\<lparr>cs_cx := cx', cs_issued := cs_issued c @ [rid]\<rparr>)"
| serve: "\<not> cs_exited c \<Longrightarrow> cs_current c = None \<Longrightarrow>
     cx_worker_turn (cs_cx c) = Worker_Serves req cx' \<Longrightarrow>
     clip_step mem_ok sleep lib c (c\<lparr>cs_cx := cx', cs_current := Some req\<rparr>)"
| finish: "cs_current c = Some req \<Longrightarrow>
     cx_extract_clip mem_ok sleep stamp lib (cs_cx c) rb (cs_calls c) req = Some (Inr (path, rb', calls')) \<Longrightarrow>
     clip_step mem_ok sleep lib c
       (c\<lparr>cs_cx := cx_store_result (cs_cx c) req path, cs_current := None, cs_calls := calls',
          cs_extracted := cs_extracted c @ [(rq_request_id req, path)]\<rparr>)"
| worker_exit: "\<not> cs_exited c \<Longrightarrow> cs_current c = None \<Longrightarrow>
     cx_worker_turn (cs_cx c) = Worker_Exits \<Longrightarrow>
     clip_step mem_ok sleep lib c (c\<lparr>cs_exited := True\<rparr>)"
| take_result: "cx_sync_ready (cs_cx c) rid \<Longrightarrow> cx_sync_take (cs_cx c) rid = (path, cx') \<Longrightarrow>
     rid \<in> set (cs_issued c) \<Longrightarrow> cx_results (cs_cx c) rid \<noteq> None \<Longrightarrow>
     clip_step mem_ok sleep lib c
       (c\<lparr>cs_cx := cx', cs_delivered := cs_delivered c @ [(rid, path)]\<rparr>)"
| stop_flag: "clip_step mem_ok sleep lib c (c\<lparr>cs_cx := cx_stop_flag (cs_cx c)\<rparr>)"

inductive clip_reachable ::
  "(nat \<Rightarrow> bool) \<Rightarrow> (int \<Rightarrow> ring_buffer \<Rightarrow> ring_buffer) \<Rightarrow> sf_lib \<Rightarrow> clip_system \<Rightarrow> bool"
  for mem_ok sleep lib where
  start: "clip_reachable mem_ok sleep lib (cs_init config rate channels bits)"
| step: "clip_reachable mem_ok sleep lib c \<Longrightarrow> clip_step mem_ok sleep lib c c' \<Longrightarrow>
     clip_reachable mem_ok sleep lib c'"

text \<open>
  Where an issued request can be: delivered, in the result map, being extracted, or queued,
  in order of age (the worker is first in, first out).
\<close>

definition cs_stored :: "clip_system \<Rightarrow> (u64 \<times> string) set" where
  "cs_stored c = {(rid, path). cx_results (cs_cx c) rid = Some path}"

definition cs_waiting :: "clip_system \<Rightarrow> u64 list" where
  "cs_waiting c = (case cs_current c of None \<Rightarrow> [] | Some r \<Rightarrow> [rq_request_id r]) @
                  map rq_request_id (cx_queue (cs_cx c))"

definition issued_ids :: "nat \<Rightarrow> u64 list" where
  "issued_ids n = map (\<lambda>i. of_nat (Suc i)) [0..<n]"

definition cs_numbered :: "clip_system \<Rightarrow> bool" where
  "cs_numbered c \<longleftrightarrow>
     cx_next_id (cs_cx c) = of_nat (Suc (length (cs_issued c))) \<and>
     cs_issued c = issued_ids (length (cs_issued c))"

definition cs_inv :: "clip_system \<Rightarrow> bool" where
  "cs_inv c \<longleftrightarrow>
     cs_numbered c \<and> cs_issued c = map fst (cs_extracted c) @ cs_waiting c \<and>
     (distinct (cs_issued c) \<longrightarrow>
        cs_stored c \<union> set (cs_delivered c) = set (cs_extracted c) \<and>
        cs_stored c \<inter> set (cs_delivered c) = {} \<and> distinct (map fst (cs_delivered c)))"

lemma cs_inv_numbered: "cs_inv c \<Longrightarrow> cs_numbered c"
  by (simp add: cs_inv_def)

lemma cs_numbered_same:
  "cx_next_id (cs_cx c') = cx_next_id (cs_cx c) \<Longrightarrow> cs_issued c' = cs_issued c \<Longrightarrow>
   cs_numbered c' = cs_numbered c"
  by (simp add: cs_numbered_def)

lemma issued_ids_Suc: "issued_ids (Suc n) = issued_ids n @ [of_nat (Suc n)]"
  by (simp add: issued_ids_def)

lemma distinct_issued_ids:
  assumes "n < 2 ^ 64"
  shows "distinct (issued_ids n)"
proof -
  have "inj_on (\<lambda>i. of_nat (Suc i) :: u64) {0..<n}"
  proof (rule inj_onI)
    fix i j assume ij: "i \<in> {0..<n}" "j \<in> {0..<n}" "(of_nat (Suc i) :: u64) = of_nat (Suc j)"
    have "unat (of_nat (Suc k) :: u64) = Suc k" if "k < n" for k
      using assms that by (intro unat_of_nat_64) simp
    with ij show "i = j" by (metis atLeastLessThan_iff nat.inject)
  qed
  then show ?thesis by (simp add: issued_ids_def distinct_map)
qed

lemma cs_inv_init: "cs_inv (cs_init config rate channels bits)"
  by (simp add: cs_inv_def cs_numbered_def cs_init_def cs_waiting_def cs_stored_def cx_start_def
      cx_new_def issued_ids_def)

lemma cx_worker_serves:
  "cx_worker_turn cx = Worker_Serves req cx' \<longleftrightarrow>
   (\<exists>rest. cx_queue cx = req # rest \<and> cx' = cx\<lparr>cx_queue := rest\<rparr>)"
  by (auto simp: cx_worker_turn_def split: list.splits if_splits)

text \<open>The three steps that move a request, each on the parts of the state it touches.\<close>

lemma cs_inv_submit:
  assumes "cs_inv c" and "cx_next_id (cs_cx c') = rid + 1" "rid = cx_next_id (cs_cx c)"
    and "cs_waiting c' = cs_waiting c @ [rid]" "cs_issued c' = cs_issued c @ [rid]"
    and "cs_stored c' = cs_stored c" "cs_extracted c' = cs_extracted c" "cs_delivered c' = cs_delivered c"
  shows "cs_inv c'"
proof -
  have "cs_numbered c'"
    using cs_inv_numbered [OF assms(1)] assms(2,3,5) by (simp add: cs_numbered_def issued_ids_Suc)
  then show ?thesis using assms(1) by (simp add: cs_inv_def assms(4-))
qed

lemma cs_inv_finish:
  assumes inv: "cs_inv c" and "cx_next_id (cs_cx c') = cx_next_id (cs_cx c)"
    and wait: "cs_waiting c = rid # cs_waiting c'" and "cs_issued c' = cs_issued c"
    and "cx_results (cs_cx c') = (cx_results (cs_cx c))(rid \<mapsto> path)"
    and "cs_extracted c' = cs_extracted c @ [(rid, path)]" "cs_delivered c' = cs_delivered c"
  shows "cs_inv c'"
proof -
  have "cs_stored c' \<union> set (cs_delivered c) = insert (rid, path) (set (cs_extracted c)) \<and>
        cs_stored c' \<inter> set (cs_delivered c) = {} \<and> distinct (map fst (cs_delivered c))"
    if d: "distinct (cs_issued c)"
  proof -
    have new: "rid \<notin> fst ` set (cs_extracted c)" using inv d by (auto simp: cs_inv_def wait)
    have split: "cs_stored c \<union> set (cs_delivered c) = set (cs_extracted c)"
      "cs_stored c \<inter> set (cs_delivered c) = {}" "distinct (map fst (cs_delivered c))"
      using inv d by (simp_all add: cs_inv_def)
    have none: "cx_results (cs_cx c) rid = None"
    proof (rule ccontr)
      assume "cx_results (cs_cx c) rid \<noteq> None"
      then obtain q where "(rid, q) \<in> cs_stored c" by (auto simp: cs_stored_def)
      then have "(rid, q) \<in> set (cs_extracted c)" using split(1) by blast
      with new show False by force
    qed
    have "(rid, path) \<notin> set (cs_delivered c)" using split(1) new by force
    moreover have "cs_stored c' = insert (rid, path) (cs_stored c)"
      using none by (auto simp: cs_stored_def assms(5) split: if_splits)
    ultimately show ?thesis using split by auto
  qed
  then show ?thesis
    using inv cs_numbered_same [OF assms(2,4)] by (simp add: cs_inv_def assms(4,6,7) wait)
qed

lemma cs_inv_take:
  assumes inv: "cs_inv c" and "cx_next_id (cs_cx c') = cx_next_id (cs_cx c)"
    and "cs_waiting c' = cs_waiting c" "cs_issued c' = cs_issued c"
    and r: "cx_results (cs_cx c) rid = Some path"
    and "cx_results (cs_cx c') = (cx_results (cs_cx c))(rid := None)"
    and "cs_extracted c' = cs_extracted c" "cs_delivered c' = cs_delivered c @ [(rid, path)]"
  shows "cs_inv c'"
proof -
  have mem: "(rid, path) \<in> cs_stored c" using r by (simp add: cs_stored_def)
  have st: "cs_stored c' = cs_stored c - {(rid, path)}"
    using r by (auto simp: cs_stored_def assms(6) split: if_splits)
  have "rid \<notin> fst ` set (cs_delivered c)" if d: "distinct (cs_issued c)"
  proof
    assume "rid \<in> fst ` set (cs_delivered c)"
    then obtain q where q: "(rid, q) \<in> set (cs_delivered c)" by auto
    have ex: "distinct (map fst (cs_extracted c))" using inv d by (auto simp: cs_inv_def)
    have "(rid, q) \<in> set (cs_extracted c)" "(rid, path) \<in> set (cs_extracted c)"
      using inv d q mem by (auto simp: cs_inv_def)
    with ex have "q = path" by (meson eq_key_imp_eq_value)
    with inv d q mem show False by (auto simp: cs_inv_def)
  qed
  then show ?thesis
    using inv mem cs_numbered_same [OF assms(2,4)] by (auto simp: cs_inv_def assms(3,4,7,8) st)
qed

lemma cs_inv_frame:
  "cs_inv c \<Longrightarrow> cx_next_id (cs_cx c') = cx_next_id (cs_cx c) \<Longrightarrow> cs_waiting c' = cs_waiting c \<Longrightarrow>
   cs_issued c' = cs_issued c \<Longrightarrow> cs_stored c' = cs_stored c \<Longrightarrow>
   cs_extracted c' = cs_extracted c \<Longrightarrow> cs_delivered c' = cs_delivered c \<Longrightarrow> cs_inv c'"
  by (simp add: cs_inv_def cs_numbered_same [of c' c])

lemma cs_inv_step:
  assumes "clip_step mem_ok sleep lib c c'" and inv: "cs_inv c"
  shows "cs_inv c'"
  using assms(1)
proof cases
  case (submit now s e fmt rid cx')
  then show ?thesis
    by (intro cs_inv_submit [OF inv, of c' rid])
      (auto simp: cx_request_clip_def Let_def cs_waiting_def cs_stored_def)
next
  case (serve req cx')
  then show ?thesis
    by (intro cs_inv_frame [OF inv]) (auto simp: cx_worker_serves cs_waiting_def cs_stored_def)
next
  case (finish req stamp rb path rb' calls')
  then show ?thesis
    by (intro cs_inv_finish [OF inv, of c' "rq_request_id req" path])
      (auto simp: cx_store_result_def cs_waiting_def)
next
  case worker_exit
  then show ?thesis
    by (intro cs_inv_frame [OF inv]) (auto simp: cs_waiting_def cs_stored_def)
next
  case (take_result rid path cx')
  then show ?thesis
    by (intro cs_inv_take [OF inv, of c' rid path]) (auto simp: cx_sync_take_def cs_waiting_def)
next
  case stop_flag
  then show ?thesis
    by (intro cs_inv_frame [OF inv]) (auto simp: cs_waiting_def cs_stored_def cx_stop_flag_def)
qed

lemma clip_reachable_inv: "clip_reachable mem_ok sleep lib c \<Longrightarrow> cs_inv c"
  by (induction rule: clip_reachable.induct) (auto intro: cs_inv_init cs_inv_step)

section \<open>Properties\<close>

text \<open>
  A small instance for the witnesses: four slots of one 16-bit mono sample, captured at one
  frame per second; five frames at the time of the request, a sixth while the worker sleeps.
\<close>

definition clip_demo_history :: "u8 list list" where
  "clip_demo_history = [[1, 0], [2, 0], [3, 0], [4, 0], [5, 0]]"

definition clip_demo_buffer :: ring_buffer where
  "clip_demo_buffer = \<lparr>rb_buffer = [5, 0, 2, 0, 3, 0, 4, 0], rb_capacity_frames = 4,
     rb_capacity_mask = 3, rb_channels = 1, rb_bytes_per_sample = 2, rb_write_pos = 5,
     rb_total_written = 5\<rparr>"

definition clip_demo_later :: ring_buffer where
  "clip_demo_later = clip_demo_buffer\<lparr>rb_buffer := [5, 0, 6, 0, 3, 0, 4, 0], rb_write_pos := 6,
     rb_total_written := 6\<rparr>"

definition clip_demo :: clip_extractor where
  "clip_demo = cx_new \<lparr>cc_output_dir = ''/clips'', cc_format = ''wav''\<rparr> 1 1 16"

definition clip_demo_request :: "i32 \<Rightarrow> i32 \<Rightarrow> clip_request" where
  "clip_demo_request s e = \<lparr>rq_request_id = 1, rq_start_offset = s, rq_end_offset = e,
     rq_format = ''wav'', rq_timestamp = 0\<rparr>"

lemma clip_demo_shape:
  "rb_shape clip_demo_buffer" "rb_cap clip_demo_buffer = 4" "rb_width clip_demo_buffer = 2"
  "rb_shape clip_demo_later" "rb_cap clip_demo_later = 4" "rb_width clip_demo_later = 2"
proof -
  have "\<exists>k. (4::nat) = 2 ^ k" by (rule exI [of _ 2]) simp
  then show "rb_shape clip_demo_buffer" "rb_shape clip_demo_later"
    by (simp_all add: rb_shape_def rb_cap_def rb_width_def clip_demo_buffer_def clip_demo_later_def)
qed (simp_all add: rb_cap_def rb_width_def clip_demo_buffer_def clip_demo_later_def)

lemma clip_demo_holds: "rb_holds clip_demo_history clip_demo_buffer"
proof -
  have "frame_at 2 [5, 0, 2, 0, 3, 0, 4, 0] (i mod 4) = clip_demo_history ! i"
    if "i < 5" "5 \<le> i + 4" for i
  proof -
    from that have "i = 1 \<or> i = 2 \<or> i = 3 \<or> i = 4" by linarith
    then show ?thesis by (auto simp: frame_at_def clip_demo_history_def)
  qed
  then show ?thesis
    by (simp add: rb_holds_def clip_demo_shape slots_hold_def)
      (simp add: clip_demo_buffer_def clip_demo_history_def)
qed

lemma clip_demo_later_holds: "rb_holds (clip_demo_history @ [[6, 0]]) clip_demo_later"
proof -
  have "frame_at 2 [5, 0, 6, 0, 3, 0, 4, 0] (i mod 4) = (clip_demo_history @ [[6, 0]]) ! i"
    if "i < 6" "6 \<le> i + 4" for i
  proof -
    from that have "i = 2 \<or> i = 3 \<or> i = 4 \<or> i = 5" by linarith
    then show ?thesis by (auto simp: frame_at_def clip_demo_history_def)
  qed
  then show ?thesis
    by (simp add: rb_holds_def clip_demo_shape slots_hold_def)
      (simp add: clip_demo_later_def clip_demo_buffer_def clip_demo_history_def)
qed

lemma clip_demo_ready:
  "tot < 100 \<Longrightarrow> clip_ready (\<lambda>n. n < 1000) reliable_lib stamp clip_demo clip_demo_buffer [] fmt tot"
  "tot < 100 \<Longrightarrow> clip_ready (\<lambda>n. n < 1000) reliable_lib stamp clip_demo clip_demo_later [] fmt tot"
  by (simp_all add: clip_ready_def cx_matches_def clip_demo_def cx_new_def clip_demo_buffer_def
      clip_demo_later_def supported_bits_def bytes_of_bits_def cx_frame_bytes_def reliable_lib_def)

text \<open>
  C3: a clip whose end is not in the past is exactly the requested window. If \<open>T0\<close> frames
  had been captured at the request and the worker slept until \<open>end\<close> (so \<open>end * rate\<close> more
  were captured), the file opened for the request holds, byte for byte, the frames from
  \<open>start\<close> to \<open>end\<close> relative to the request, when the ring buffer still has them all.
\<close>

theorem clip_covers_requested_window:
  assumes "sint (rq_start_offset req) = s" "sint (rq_end_offset req) = e" "s < e" "0 \<le> e"
    and "\<not> int32_overflow (e * 1000)" "\<not> int32_overflow (e - s)"
    and "rb = (if 0 < e then sleep (e * 1000) rb0 else rb0)"
    and "rb_holds H rb" "length H < 2 ^ 64"
    and "tot = nat (e - s) * unat (cx_sample_rate cx)" "0 < tot" "tot \<le> rb_cap rb" "tot \<le> length H"
    and "clip_ready mem_ok lib stamp cx rb calls (rq_format req) tot"
    and "int (length H) = T0 + e * int (unat (cx_sample_rate cx))"
  shows "\<exists>p. cx_extract_clip mem_ok sleep stamp lib cx rb0 calls req =
              Some (Inr (cx_path cx stamp (rq_format req), rb,
                calls @ [Sf_Open (cx_path cx stamp (rq_format req)) (cx_info cx (rq_format req)) True,
                         Sf_Write p, Sf_Close])) \<and>
             payload_bytes (cx_bits_per_sample cx) p =
               concat (frames_between H (T0 + s * int (unat (cx_sample_rate cx)))
                                        (T0 + e * int (unat (cx_sample_rate cx))))"
proof -
  let ?R = "int (unat (cx_sample_rate cx))"
  have "int tot = (e - s) * ?R" using assms(3,10) by simp
  then have ends: "int (length H) - int 0 - int tot = T0 + s * ?R" "int (length H) - int 0 = T0 + e * ?R"
    using assms(15) by (simp_all add: algebra_simps)
  have "recent H 0 tot = frames_between H (T0 + s * ?R) (T0 + e * ?R)"
    by (rule trans [OF recent_frames_between arg_cong2 [where f = "frames_between H", OF ends]]) (use assms(13) in simp)
  moreover have "tot = min tot (min (length H) (rb_cap rb))" using assms(12,13) by simp
  ultimately show ?thesis
    using extract_clip_ok [where sleep = sleep and ?rb0.0 = rb0, OF assms(1-3,5-9) _ _ _ assms(10), of mem_ok tot lib calls stamp] assms(11,14)
    by (auto simp: clip_ready_def)
qed

theorem clip_covers_requested_window_witness:
  "\<exists>p. cx_extract_clip (\<lambda>n. n < 1000) (\<lambda>_ _. clip_demo_later) ''t'' reliable_lib clip_demo
          clip_demo_buffer [] (clip_demo_request (-1) 1) =
        Some (Inr (''/clips/clip_t.wav'', clip_demo_later,
          [Sf_Open ''/clips/clip_t.wav'' (cx_info clip_demo ''wav'') True, Sf_Write p, Sf_Close])) \<and>
       payload_bytes 16 p = [5, 0, 6, 0]"
proof -
  let ?r = "clip_demo_request (-1) 1"
  have "\<exists>p. cx_extract_clip (\<lambda>n. n < 1000) (\<lambda>_ _. clip_demo_later) ''t'' reliable_lib clip_demo
          clip_demo_buffer [] ?r =
        Some (Inr (cx_path clip_demo ''t'' (rq_format ?r), clip_demo_later,
          [] @ [Sf_Open (cx_path clip_demo ''t'' (rq_format ?r)) (cx_info clip_demo (rq_format ?r)) True,
                Sf_Write p, Sf_Close])) \<and>
       payload_bytes (cx_bits_per_sample clip_demo) p =
         concat (frames_between (clip_demo_history @ [[6, 0]])
           (5 + - 1 * int (unat (cx_sample_rate clip_demo))) (5 + 1 * int (unat (cx_sample_rate clip_demo))))"
    by (rule clip_covers_requested_window [where tot = 2])
      (simp_all add: clip_demo_later_holds clip_demo_ready clip_demo_shape,
       simp_all add: clip_demo_request_def int32_overflow_def clip_demo_def cx_new_def
         clip_demo_history_def)
  then show ?thesis
    by (simp add: clip_demo_request_def)
      (simp add: clip_demo_def cx_new_def cx_path_def frames_between_def clip_demo_history_def upt_rec)
qed

text \<open>
  C21: a clip whose end lies in the past is not the requested window. For \<open>end \<le> 0\<close> the
  file holds the newest \<open>end - start\<close> seconds, the window shifted so that it ends at the
  request: \<open>end\<close> only sets the length. (\<open>offset_from_head\<close> is 0 in every case.)
\<close>

theorem clip_past_window_is_shifted:
  assumes "sint (rq_start_offset req) = s" "sint (rq_end_offset req) = e" "s < e" "e \<le> 0"
    and "\<not> int32_overflow (e * 1000)" "\<not> int32_overflow (e - s)"
    and "rb_holds H rb" "length H < 2 ^ 64"
    and "tot = nat (e - s) * unat (cx_sample_rate cx)" "0 < tot" "tot \<le> rb_cap rb" "tot \<le> length H"
    and "clip_ready mem_ok lib stamp cx rb calls (rq_format req) tot"
  shows "\<exists>p. cx_extract_clip mem_ok sleep stamp lib cx rb calls req =
              Some (Inr (cx_path cx stamp (rq_format req), rb,
                calls @ [Sf_Open (cx_path cx stamp (rq_format req)) (cx_info cx (rq_format req)) True,
                         Sf_Write p, Sf_Close])) \<and>
             payload_bytes (cx_bits_per_sample cx) p =
               concat (frames_between H
                 (int (length H) + (s - e) * int (unat (cx_sample_rate cx))) (int (length H)))"
proof -
  let ?R = "int (unat (cx_sample_rate cx))"
  have "int tot = (e - s) * ?R" using assms(3,9) by simp
  then have ends: "int (length H) - int 0 - int tot = int (length H) + (s - e) * ?R"
    "int (length H) - int 0 = int (length H)"
    by (simp_all add: algebra_simps)
  have "recent H 0 tot = frames_between H (int (length H) + (s - e) * ?R) (int (length H))"
    by (rule trans [OF recent_frames_between arg_cong2 [where f = "frames_between H", OF ends]])
      (use assms(12) in simp)
  moreover have "tot = min tot (min (length H) (rb_cap rb))" using assms(11,12) by simp
  ultimately show ?thesis
    using extract_clip_ok [where sleep = sleep and ?rb0.0 = rb, OF assms(1-3,5,6) _ assms(7,8) _ _ _ assms(9),
        of mem_ok tot lib calls stamp]
      assms(4,10,13)
    by (auto simp: clip_ready_def)
qed

theorem clip_past_window_is_shifted_witness:
  "\<exists>p. cx_extract_clip (\<lambda>n. n < 1000) (\<lambda>_ rb. rb) ''t'' reliable_lib clip_demo
          clip_demo_buffer [] (clip_demo_request (-3) (-2)) =
        Some (Inr (''/clips/clip_t.wav'', clip_demo_buffer,
          [Sf_Open ''/clips/clip_t.wav'' (cx_info clip_demo ''wav'') True, Sf_Write p, Sf_Close])) \<and>
       payload_bytes 16 p = [5, 0] \<and> payload_bytes 16 p \<noteq> concat (frames_between clip_demo_history (5 - 3) (5 - 2))"
proof -
  let ?r = "clip_demo_request (-3) (-2)"
  have "\<exists>p. cx_extract_clip (\<lambda>n. n < 1000) (\<lambda>_ rb. rb) ''t'' reliable_lib clip_demo
          clip_demo_buffer [] ?r =
        Some (Inr (cx_path clip_demo ''t'' (rq_format ?r), clip_demo_buffer,
          [] @ [Sf_Open (cx_path clip_demo ''t'' (rq_format ?r)) (cx_info clip_demo (rq_format ?r)) True,
                Sf_Write p, Sf_Close])) \<and>
       payload_bytes (cx_bits_per_sample clip_demo) p =
         concat (frames_between clip_demo_history
           (int (length clip_demo_history) + (- 3 - - 2) * int (unat (cx_sample_rate clip_demo)))
           (int (length clip_demo_history)))"
    by (rule clip_past_window_is_shifted [where tot = 1])
      (simp_all add: clip_demo_holds clip_demo_ready clip_demo_shape,
       simp_all add: clip_demo_request_def int32_overflow_def clip_demo_def cx_new_def
         clip_demo_history_def)
  then show ?thesis
    by (simp add: clip_demo_request_def)
      (simp add: clip_demo_def cx_new_def cx_path_def frames_between_def clip_demo_history_def upt_rec,
        auto)
qed




text \<open>A run for the witness: one request is submitted, served, answered (its range is empty,
  so the answer is the empty path) and taken.\<close>

definition clip_demo_start :: clip_system where
  "clip_demo_start = cs_init \<lparr>cc_output_dir = ''/clips'', cc_format = ''wav''\<rparr> 1 1 16"

definition clip_demo_submitted :: clip_system where
  "clip_demo_submitted = clip_demo_start
     \<lparr>cs_cx := snd (cx_request_clip 0 (cs_cx clip_demo_start) 0 0 []), cs_issued := [1]\<rparr>"

definition clip_demo_serving :: clip_system where
  "clip_demo_serving = clip_demo_submitted
     \<lparr>cs_cx := (cs_cx clip_demo_submitted)\<lparr>cx_queue := []\<rparr>, cs_current := Some (clip_demo_request 0 0)\<rparr>"

definition clip_demo_answered :: clip_system where
  "clip_demo_answered = clip_demo_serving
     \<lparr>cs_cx := cx_store_result (cs_cx clip_demo_serving) (clip_demo_request 0 0) [],
      cs_current := None, cs_calls := [], cs_extracted := [(1, [])]\<rparr>"

lemmas clip_demo_run_defs = clip_demo_answered_def clip_demo_serving_def clip_demo_submitted_def
  clip_demo_start_def cs_init_def cx_start_def cx_new_def cx_request_clip_def clip_demo_request_def
  cx_store_result_def

lemma clip_demo_answered_reachable:
  "clip_reachable (\<lambda>_. True) (\<lambda>_ rb. rb) reliable_lib clip_demo_answered"
proof -
  let ?step = "clip_step (\<lambda>_. True) (\<lambda>_ rb. rb) reliable_lib"
  have "?step clip_demo_start clip_demo_submitted"
    using clip_step.submit [of 0 clip_demo_start 0 0 "[]" 1 "cs_cx clip_demo_submitted"]
    by (simp add: clip_demo_run_defs Let_def)
  moreover have "?step clip_demo_submitted clip_demo_serving"
    using clip_step.serve [of clip_demo_submitted "clip_demo_request 0 0" "cs_cx clip_demo_serving"]
    by (simp add: clip_demo_run_defs Let_def cx_worker_turn_def)
  moreover have "?step clip_demo_serving clip_demo_answered"
  proof -
    have "cx_extract_clip (\<lambda>_. True) (\<lambda>_ rb. rb) [] reliable_lib (cs_cx clip_demo_serving)
        clip_demo_buffer [] (clip_demo_request 0 0) = Some (Inr ([], clip_demo_buffer, []))"
      by (simp add: cx_extract_clip_def clip_demo_request_def int32_overflow_def)
    then show ?thesis
      using clip_step.finish [of clip_demo_serving "clip_demo_request 0 0" "\<lambda>_. True" "\<lambda>_ rb. rb" "[]"
          reliable_lib clip_demo_buffer "[]" clip_demo_buffer "[]"]
      by (simp add: clip_demo_run_defs Let_def)
  qed
  moreover have "clip_reachable (\<lambda>_. True) (\<lambda>_ rb. rb) reliable_lib clip_demo_start"
    unfolding clip_demo_start_def by (rule clip_reachable.start)
  ultimately show ?thesis by (meson clip_reachable.step)
qed


end
