(* ===== verification/Spsc_Ring.thy ===== *)
theory Spsc_Ring
  imports Pow2
begin

text \<open>
  The single-producer single-consumer byte ring inside \<open>BlockRecorder\<close>
  (include/audio_daemon/block_recorder.hpp, src/capture/block_recorder.cpp): the members
  \<open>ring_*\<close>, the copy \<open>push()\<close> makes into it and the copy the writer thread makes out of it,
  with cursors that run freely and wrap at \<open>2 ^ 64\<close>. The interface \<open>byte_fifo\<close> states what
  the recorder relies on.
\<close>

section \<open>State and operations\<close>

record spsc_ring =
  sr_bytes :: "u8 list"
  sr_capacity :: u64
  sr_mask :: u64
  sr_write :: u64
  sr_read :: u64

definition next_pow2 :: "u64 \<Rightarrow> u64" where
  "next_pow2 v = smear_right (v - 1) + 1"

definition sr_filled :: "spsc_ring \<Rightarrow> u64" where
  "sr_filled rg = sr_write rg - sr_read rg"

definition sr_room :: "spsc_ring \<Rightarrow> u64" where
  "sr_room rg = sr_capacity rg - sr_filled rg"

text \<open>The constructor's ring of at least \<open>v\<close> bytes.\<close>

definition sr_new :: "(nat \<Rightarrow> bool) \<Rightarrow> u64 \<Rightarrow> spsc_ring outcome" where
  "sr_new mem_ok v =
     (let ring_bytes = next_pow2 v in
      obind (new_zeroed mem_ok (unat ring_bytes)) (\<lambda>ring.
      Inr \<lparr>sr_bytes = ring, sr_capacity = ring_bytes, sr_mask = ring_bytes - 1,
           sr_write = 0, sr_read = 0\<rparr>))"

text \<open>
  \<open>push()\<close> after its \<open>recording_\<close> check: the whole period or nothing. The flag says
  whether it was taken.
\<close>

definition sr_push :: "spsc_ring \<Rightarrow> u8 list \<Rightarrow> u64 \<Rightarrow> (bool \<times> spsc_ring) outcome" where
  "sr_push rg data bytes =
     (let w = sr_write rg;
          r = sr_read rg;
          used = w - r;
          avail = sr_capacity rg - used
      in if bytes > avail then Inr (False, rg)
         else let pos = w AND sr_mask rg;
                  first = min bytes (sr_capacity rg - pos)
              in obind (memcpy (sr_bytes rg) (unat pos) data 0 (unat first)) (\<lambda>ring1.
                 obind (if first < bytes
                        then memcpy ring1 0 data (unat first) (unat (bytes - first))
                        else Inr ring1) (\<lambda>ring2.
                 Inr (True, rg\<lparr>sr_bytes := ring2, sr_write := w + bytes\<rparr>))))"

text \<open>
  The writer's copy of \<open>chunk\<close> bytes to offset \<open>used\<close> of its buffer, in one or two parts.
\<close>

definition sr_fetch ::
  "spsc_ring \<Rightarrow> u8 list \<Rightarrow> u64 \<Rightarrow> u64 \<Rightarrow> (u8 list \<times> spsc_ring) outcome" where
  "sr_fetch rg dst used chunk =
     (let r = sr_read rg;
          pos = r AND sr_mask rg;
          first = min chunk (sr_capacity rg - pos)
      in obind (memcpy dst (unat used) (sr_bytes rg) (unat pos) (unat first)) (\<lambda>dst1.
         obind (if first < chunk
                then memcpy dst1 (unat (used + first)) (sr_bytes rg) 0 (unat (chunk - first))
                else Inr dst1) (\<lambda>dst2.
         Inr (dst2, rg\<lparr>sr_read := r + chunk\<rparr>))))"

section \<open>Circular copies\<close>

text \<open>\<open>circ_load\<close> and \<open>circ_store\<close>: a copy of \<open>n\<close> bytes from or to position \<open>p\<close>, split at the end.\<close>

definition circ_load :: "'a list \<Rightarrow> nat \<Rightarrow> nat \<Rightarrow> 'a list" where
  "circ_load xs p n = (let f = min n (length xs - p) in take f (drop p xs) @ take (n - f) xs)"

definition circ_store :: "'a list \<Rightarrow> nat \<Rightarrow> 'a list \<Rightarrow> 'a list" where
  "circ_store xs p ys =
     (let f = min (length ys) (length xs - p);
          xs1 = take p xs @ take f ys @ drop (p + f) xs
      in drop f ys @ drop (length ys - f) xs1)"

lemma length_circ_load: "p < length xs \<Longrightarrow> n \<le> length xs \<Longrightarrow> length (circ_load xs p n) = n"
  by (simp add: circ_load_def Let_def)

lemma nth_circ_load:
  assumes "p < length xs" and "n \<le> length xs" and "j < n"
  shows "circ_load xs p n ! j = xs ! ((p + j) mod length xs)"
proof (cases "p + j < length xs")
  case True
  then have "j < length xs - p" using assms(1) by linarith
  with True assms show ?thesis by (simp add: circ_load_def Let_def nth_append)
next
  case False
  have "(p + j) mod length xs = p + j - length xs"
    using False assms by (simp add: mod_if)
  moreover have "j - (length xs - p) = p + j - length xs" "\<not> j < length xs - p" "length xs - p \<le> n"
    using False assms by linarith+
  ultimately show ?thesis using assms by (simp add: circ_load_def Let_def nth_append)
qed

lemma length_circ_store: "p < length xs \<Longrightarrow> length ys \<le> length xs \<Longrightarrow> length (circ_store xs p ys) = length xs"
  by (simp add: circ_store_def Let_def)

lemma nth_circ_store:
  assumes p: "p < length xs" and n: "length ys \<le> length xs" and s: "s < length xs"
  shows "circ_store xs p ys ! s =
    (if p \<le> s \<and> s < p + length ys then ys ! (s - p)
     else if s + length xs < p + length ys then ys ! (s + length xs - p) else xs ! s)"
proof (cases "length ys \<le> length xs - p")
  case True
  with assms show ?thesis by (auto simp: circ_store_def Let_def nth_append)
next
  case False
  define f where "f = length xs - p"
  have f: "0 < f" "f < length ys" "p + f = length xs" using False p by (auto simp: f_def)
  have cs: "circ_store xs p ys = drop f ys @ drop (length ys - f) (take p xs @ take f ys)"
    using f by (simp add: circ_store_def Let_def min_def flip: f_def)
  show ?thesis
  proof (cases "s < length ys - f")
    case True
    then have "\<not> p \<le> s" "s + length xs < p + length ys" "f + s = s + length xs - p"
      using f n by linarith+
    then show ?thesis using True by (simp add: cs nth_append)
  next
    case False
    let ?ys = "take p xs @ take f ys"
    have "\<not> s + length xs < p + length ys" using False f by linarith
    moreover have "circ_store xs p ys ! s = ?ys ! s"
    proof -
      let ?g = "length ys - f"
      have "circ_store xs p ys ! s = drop ?g ?ys ! (s - ?g)"
        using False by (simp add: cs nth_append del: drop_append)
      also have "\<dots> = ?ys ! (?g + (s - ?g))"
        by (rule nth_drop) (use f n p in simp)
      also have "?g + (s - ?g) = s" using False by simp
      finally show ?thesis .
    qed
    moreover have "?ys ! s = (if p \<le> s then ys ! (s - p) else xs ! s)"
      using f s p by (auto simp: nth_append)
    moreover have "s < p + length ys" using f s by linarith
    ultimately show ?thesis by simp
  qed
qed

section \<open>The ring as a queue\<close>

text \<open>
  \<open>ring_window c A R ring\<close>: of the bytes \<open>A\<close> accepted so far, the ones from \<open>R\<close> on are in
  the ring of \<open>c\<close> bytes, each at its index modulo \<open>c\<close>.
\<close>

definition ring_window :: "nat \<Rightarrow> u8 list \<Rightarrow> nat \<Rightarrow> u8 list \<Rightarrow> bool" where
  "ring_window c A R ring \<longleftrightarrow>
     length ring = c \<and> R \<le> length A \<and> length A - R \<le> c \<and>
     (\<forall>i. R \<le> i \<and> i < length A \<longrightarrow> ring ! (i mod c) = A ! i)"

definition sr_holds :: "u8 list \<Rightarrow> nat \<Rightarrow> spsc_ring \<Rightarrow> bool" where
  "sr_holds A R rg \<longleftrightarrow>
     (\<exists>k<63. unat (sr_capacity rg) = 2 ^ k) \<and> sr_mask rg = sr_capacity rg - 1 \<and>
     sr_write rg = of_nat (length A) \<and> sr_read rg = of_nat R \<and>
     ring_window (unat (sr_capacity rg)) A R (sr_bytes rg)"

lemma mod_window_distinct:
  assumes "i < j" and "j < i + c"
  shows "i mod c \<noteq> j mod (c::nat)"
proof
  assume "i mod c = j mod c"
  then have "j mod c = i mod c" by (rule sym)
  then have "c dvd j - i" using assms(1) mod_eq_dvd_iff_nat [of i j c] by (metis less_imp_le_nat)
  moreover have "0 < j - i" using assms(1) by simp
  ultimately have "c \<le> j - i" by (rule dvd_imp_le)
  with assms show False by linarith
qed

lemma mod_add_cases:
  assumes "j < (c::nat)"
  shows "(a + j) mod c = (if a mod c + j < c then a mod c + j else a mod c + j - c)"
proof -
  let ?s = "a mod c + j"
  have s: "(a + j) mod c = ?s mod c" by (rule mod_add_left_eq [symmetric])
  have "a mod c < c" using assms by simp
  then have "?s - c < c" using assms by linarith
  then have "c \<le> ?s \<Longrightarrow> ?s mod c = ?s - c" by (simp only: le_mod_geq mod_less)
  then show ?thesis by (simp add: s not_less del: mod_add_left_eq)
qed

lemma ring_window_store:
  assumes win: "ring_window c A R ring" and n: "length ys \<le> c - (length A - R)" and c: "0 < c"
  shows "ring_window c (A @ ys) R (circ_store ring (length A mod c) ys)"
proof -
  let ?p = "length A mod c"
  let ?ring = "circ_store ring ?p ys"
  have len: "length ring = c" and R: "R \<le> length A" "length A - R \<le> c"
    and old: "\<And>i. R \<le> i \<Longrightarrow> i < length A \<Longrightarrow> ring ! (i mod c) = A ! i"
    using win by (auto simp: ring_window_def)
  have p: "?p < length ring" "length ys \<le> length ring" using c n by (simp_all add: len)
  have "?ring ! (i mod c) = (A @ ys) ! i" if i: "R \<le> i" "i < length A + length ys" for i
  proof (cases "i < length A")
    case False
    define j where "j = i - length A"
    have j: "j < length ys" "i = length A + j" using False i by (auto simp: j_def)
    have im: "i mod c < c" using c by simp
    have jc: "j < c" using j n by linarith
    have val: "(A @ ys) ! i = ys ! j" using j by (simp add: nth_append)
    show ?thesis
    proof (cases "?p + j < c")
      case True
      then have "i mod c = ?p + j" using mod_add_cases [OF jc, of "length A"] j(2) by simp
      then show ?thesis using nth_circ_store [OF p, of "i mod c"] j im by (simp add: len val)
    next
      case False
      then have "i mod c = ?p + j - c" using mod_add_cases [OF jc, of "length A"] j(2) by simp
      then have ic: "i mod c + c = ?p + j" using False by simp
      then have "\<not> (?p \<le> i mod c)" using jc by linarith
      moreover have "i mod c + c < ?p + length ys" "i mod c + c - ?p = j" using ic j by simp_all
      ultimately show ?thesis
        using nth_circ_store [OF p, of "i mod c"] im by (simp add: len val)
    qed
  next
    case True
    have untouched: "i mod c \<noteq> (length A + j) mod c" if "j < length ys" for j
      using mod_window_distinct [of i "length A + j" c] True that i(1) n R by linarith
    have im: "i mod c < c" using c by simp
    have nyc: "length ys \<le> c" using n by linarith
    have "\<not> (?p \<le> i mod c \<and> i mod c < ?p + length ys)"
    proof
      assume h: "?p \<le> i mod c \<and> i mod c < ?p + length ys"
      then have "i mod c - ?p < c" "?p + (i mod c - ?p) = i mod c" using nyc im by linarith+
      then have "(length A + (i mod c - ?p)) mod c = i mod c"
        using im by (simp only: mod_add_cases if_True)
      moreover have "i mod c - ?p < length ys" using h by linarith
      ultimately show False using untouched [of "i mod c - ?p"] by simp
    qed
    moreover have "\<not> i mod c + c < ?p + length ys"
    proof
      assume h: "i mod c + c < ?p + length ys"
      have pc: "?p \<le> i mod c + c" using p(1) len by simp
      have "i mod c + c - ?p < c" "?p + (i mod c + c - ?p) = i mod c + c" "\<not> i mod c + c < c"
        using h nyc pc by linarith+
      then have "(length A + (i mod c + c - ?p)) mod c = i mod c"
        by (simp only: mod_add_cases if_False diff_add_inverse2)
      moreover have "i mod c + c - ?p < length ys" using h pc by linarith
      ultimately show False using untouched [of "i mod c + c - ?p"] by simp
    qed
    ultimately have "?ring ! (i mod c) = ring ! (i mod c)"
      using nth_circ_store [OF p, of "i mod c"] im by (auto simp: len)
    then show ?thesis using old True i by (simp add: nth_append)
  qed
  then show ?thesis
    using length_circ_store [OF p] R n by (auto simp: ring_window_def len)
qed

lemma ring_window_load:
  assumes win: "ring_window c A R ring" and n: "n \<le> length A - R" and c: "0 < c"
  shows "circ_load ring (R mod c) n = take n (drop R A)"
proof (rule nth_equalityI)
  have len: "length ring = c" and R: "R \<le> length A" "n \<le> c"
    using win n by (auto simp: ring_window_def)
  have p: "R mod c < length ring" "n \<le> length ring" using c R by (simp_all add: len)
  show "length (circ_load ring (R mod c) n) = length (take n (drop R A))"
    using length_circ_load [OF p] n by simp
  fix j assume "j < length (circ_load ring (R mod c) n)"
  then have j: "j < n" using length_circ_load [OF p] by simp
  then have "circ_load ring (R mod c) n ! j = ring ! ((R + j) mod c)"
    using nth_circ_load [OF p] by (simp add: len mod_add_left_eq)
  also have "\<dots> = A ! (R + j)" using win j n by (auto simp: ring_window_def)
  finally show "circ_load ring (R mod c) n ! j = take n (drop R A) ! j" using j n by simp
qed

section \<open>Correctness of the operations\<close>

lemma next_pow2_spec:
  assumes "v \<noteq> 0" and "unat v \<le> 2 ^ 63"
  shows "\<exists>k\<le>63. unat (next_pow2 v) = 2 ^ k \<and> unat v \<le> 2 ^ k \<and> 2 ^ k < 2 * unat v"
  using smear_pred_round_up [OF assms] by (simp add: next_pow2_def)

lemma sr_holdsD:
  assumes "sr_holds A R rg"
  shows "0 < unat (sr_capacity rg)" and "unat (sr_capacity rg) < 2 ^ 63"
    and "length (sr_bytes rg) = unat (sr_capacity rg)"
    and "R \<le> length A" and "length A - R \<le> unat (sr_capacity rg)"
    and "unat (sr_write rg AND sr_mask rg) = length A mod unat (sr_capacity rg)"
    and "unat (sr_read rg AND sr_mask rg) = R mod unat (sr_capacity rg)"
    and "unat (sr_filled rg) = length A - R"
    and "unat (sr_room rg) = unat (sr_capacity rg) - (length A - R)"
proof -
  from assms obtain k where k: "k < 63" "unat (sr_capacity rg) = 2 ^ k"
    and mask: "sr_mask rg = sr_capacity rg - 1"
    and cur: "sr_write rg = of_nat (length A)" "sr_read rg = of_nat R"
    and win: "ring_window (unat (sr_capacity rg)) A R (sr_bytes rg)"
    by (auto simp: sr_holds_def)
  show "0 < unat (sr_capacity rg)" using k by simp
  show lt: "unat (sr_capacity rg) < 2 ^ 63" unfolding k(2) by (rule power_strict_increasing) (use k in auto)
  show "length (sr_bytes rg) = unat (sr_capacity rg)" and R: "R \<le> length A"
    and fits: "length A - R \<le> unat (sr_capacity rg)"
    using win by (simp_all add: ring_window_def)
  show "unat (sr_write rg AND sr_mask rg) = length A mod unat (sr_capacity rg)"
    and "unat (sr_read rg AND sr_mask rg) = R mod unat (sr_capacity rg)"
    using of_nat_mod_pow2 [OF k(2)] by (simp_all add: cur mask)
  have "sr_filled rg = of_nat (length A - R)"
    unfolding sr_filled_def cur using R by (simp add: of_nat_diff)
  then show filled: "unat (sr_filled rg) = length A - R"
    using fits lt by (simp add: unat_of_nat_64)
  then show "unat (sr_room rg) = unat (sr_capacity rg) - (length A - R)"
    using fits by (simp add: sr_room_def unat_sub_64 word_le_nat_alt)
qed

lemma circ_store_memcpy:
  assumes "p < length ring" and "f = min n (length ring - p)" and "n \<le> length data" and "n \<le> length ring"
  shows "obind (memcpy ring p data 0 f)
           (\<lambda>r1. if f < n then memcpy r1 0 data f (n - f) else Inr r1) =
         Inr (circ_store ring p (take n data))"
proof -
  define r1 where "r1 = take p ring @ take f data @ drop (p + f) ring"
  have f: "f \<le> n" "p + f \<le> length ring" using assms(1,2) by simp_all
  have m1: "memcpy ring p data 0 f = Inr r1"
    using f assms(3) by (simp add: memcpy_ok r1_def)
  have len: "length r1 = length ring" using f assms by (simp add: r1_def)
  have cs: "circ_store ring p (take n data) = take (n - f) (drop f data) @ drop (n - f) r1"
    using f assms by (simp add: circ_store_def Let_def r1_def drop_take)
  show ?thesis
  proof (cases "f < n")
    case True
    have "memcpy r1 0 data f (n - f) = Inr (take (n - f) (drop f data) @ drop (n - f) r1)"
      using f assms len by (simp add: memcpy_ok)
    with True show ?thesis by (simp add: m1 cs)
  next
    case False
    then have "f = n" using f by simp
    then show ?thesis using m1 by (simp add: cs)
  qed
qed

lemma circ_load_memcpy:
  assumes "p < length ring" and "f = min n (length ring - p)" and "n \<le> length ring" and "u + n \<le> length dst"
  shows "obind (memcpy dst u ring p f)
           (\<lambda>d1. if f < n then memcpy d1 (u + f) ring 0 (n - f) else Inr d1) =
         Inr (take u dst @ circ_load ring p n @ drop (u + n) dst)"
proof -
  define d1 where "d1 = take u dst @ take f (drop p ring) @ drop (u + f) dst"
  have f: "f \<le> n" "p + f \<le> length ring" using assms(1,2) by simp_all
  have m1: "memcpy dst u ring p f = Inr d1" using f assms(4) by (simp add: memcpy_ok d1_def)
  have len: "length d1 = length dst" using f assms by (simp add: d1_def)
  have cl: "circ_load ring p n = take f (drop p ring) @ take (n - f) ring"
    using assms(2) by (simp add: circ_load_def Let_def)
  show ?thesis
  proof (cases "f < n")
    case True
    have "memcpy d1 (u + f) ring 0 (n - f) =
        Inr (take (u + f) d1 @ take (n - f) ring @ drop (u + f + (n - f)) d1)"
      using f assms len by (simp add: memcpy_ok)
    moreover have "take (u + f) d1 = take u dst @ take f (drop p ring)"
      using f assms by (simp add: d1_def)
    moreover have "drop (u + f + (n - f)) d1 = drop (u + n) dst"
      using f assms by (simp add: d1_def add.commute)
    ultimately show ?thesis using True by (simp add: m1 cl)
  next
    case False
    then have "f = n" using f by simp
    then show ?thesis using m1 by (simp add: cl d1_def)
  qed
qed


lemma sr_push_full:
  assumes "sr_holds A R rg" and "unat (sr_capacity rg) < length A - R + unat bytes"
  shows "sr_push rg data bytes = Inr (False, rg)"
proof -
  have "sr_room rg < bytes"
    using sr_holdsD [OF assms(1)] assms(2) by (simp add: word_less_nat_alt)
  then show ?thesis by (simp add: sr_push_def Let_def sr_room_def sr_filled_def)
qed

lemma sr_push_fits:
  assumes h: "sr_holds A R rg" and fit: "length A - R + unat bytes \<le> unat (sr_capacity rg)"
    and data: "unat bytes \<le> length data"
  shows "\<exists>rg'. sr_push rg data bytes = Inr (True, rg') \<and>
     sr_holds (A @ take (unat bytes) data) R rg' \<and> sr_capacity rg' = sr_capacity rg"
proof -
  note D = sr_holdsD [OF h]
  let ?c = "unat (sr_capacity rg)"
  define first where "first = min bytes (sr_capacity rg - (sr_write rg AND sr_mask rg))"
  define ring where "ring = circ_store (sr_bytes rg) (length A mod ?c) (take (unat bytes) data)"
  have p: "length A mod ?c < ?c" using D(1) by simp
  then have room: "unat (sr_capacity rg - (sr_write rg AND sr_mask rg)) = ?c - length A mod ?c"
    using D(6) by (simp add: unat_sub_64 word_le_nat_alt)
  have first: "unat first = min (unat bytes) (?c - length A mod ?c)"
    by (simp add: first_def unat_min room)
  then have rest: "unat (bytes - first) = unat bytes - unat first"
    by (simp add: unat_sub_64 word_le_nat_alt)
  have copy: "obind (memcpy (sr_bytes rg) (length A mod ?c) data 0 (unat first))
      (\<lambda>r1. if unat first < unat bytes
            then memcpy r1 0 data (unat first) (unat bytes - unat first) else Inr r1) = Inr ring"
    unfolding ring_def by (rule circ_store_memcpy) (use D p data fit first in simp_all)
  let ?rg = "rg\<lparr>sr_bytes := ring, sr_write := sr_write rg + bytes\<rparr>"
  have "\<not> sr_room rg < bytes" using D(9) fit by (simp add: word_less_nat_alt)
  then have "\<not> sr_capacity rg - (sr_write rg - sr_read rg) < bytes"
    by (simp add: sr_room_def sr_filled_def)
  then have "sr_push rg data bytes =
      obind (obind (memcpy (sr_bytes rg) (length A mod ?c) data 0 (unat first))
        (\<lambda>r1. if unat first < unat bytes
              then memcpy r1 0 data (unat first) (unat bytes - unat first) else Inr r1))
        (\<lambda>r2. Inr (True, rg\<lparr>sr_bytes := r2, sr_write := sr_write rg + bytes\<rparr>))"
    unfolding sr_push_def Let_def first_def [symmetric] D(6) rest obind_assoc
    by (simp add: word_less_nat_alt)
  then have push: "sr_push rg data bytes = Inr (True, ?rg)" by (simp add: copy)
  have "ring_window ?c (A @ take (unat bytes) data) R ring"
    unfolding ring_def by (rule ring_window_store) (use h fit D(1) in \<open>auto simp: sr_holds_def\<close>)
  moreover have "of_nat (unat bytes) = bytes" by simp
  ultimately have "sr_holds (A @ take (unat bytes) data) R ?rg"
    using h data by (auto simp: sr_holds_def min_def)
  with push show ?thesis by simp
qed

lemma sr_fetch_ok:
  assumes h: "sr_holds A R rg" and n: "unat chunk \<le> length A - R"
    and dst: "unat used + unat chunk \<le> length dst" "length dst < 2 ^ 64"
  shows "\<exists>rg'. sr_fetch rg dst used chunk =
       Inr (take (unat used) dst @ take (unat chunk) (drop R A) @ drop (unat used + unat chunk) dst, rg') \<and>
     sr_holds A (R + unat chunk) rg' \<and> sr_capacity rg' = sr_capacity rg"
proof -
  note D = sr_holdsD [OF h]
  let ?c = "unat (sr_capacity rg)"
  define first where "first = min chunk (sr_capacity rg - (sr_read rg AND sr_mask rg))"
  have p: "R mod ?c < ?c" using D(1) by simp
  then have room: "unat (sr_capacity rg - (sr_read rg AND sr_mask rg)) = ?c - R mod ?c"
    using D(7) by (simp add: unat_sub_64 word_le_nat_alt)
  have first: "unat first = min (unat chunk) (?c - R mod ?c)"
    by (simp add: first_def unat_min room)
  then have rest: "unat (chunk - first) = unat chunk - unat first"
    by (simp add: unat_sub_64 word_le_nat_alt)
  have second: "unat (used + first) = unat used + unat first"
    by (rule unat_add_64) (use dst first in linarith)
  have "obind (memcpy dst (unat used) (sr_bytes rg) (R mod ?c) (unat first))
      (\<lambda>d1. if unat first < unat chunk
            then memcpy d1 (unat used + unat first) (sr_bytes rg) 0 (unat chunk - unat first)
            else Inr d1) =
      Inr (take (unat used) dst @ circ_load (sr_bytes rg) (R mod ?c) (unat chunk) @
           drop (unat used + unat chunk) dst)"
    by (rule circ_load_memcpy) (use D p n dst first in simp_all)
  also have "circ_load (sr_bytes rg) (R mod ?c) (unat chunk) = take (unat chunk) (drop R A)"
    using ring_window_load [of ?c A R "sr_bytes rg" "unat chunk"] h n D(1) by (auto simp: sr_holds_def)
  finally have copy: "obind (memcpy dst (unat used) (sr_bytes rg) (R mod ?c) (unat first))
      (\<lambda>d1. if unat first < unat chunk
            then memcpy d1 (unat used + unat first) (sr_bytes rg) 0 (unat chunk - unat first)
            else Inr d1) =
      Inr (take (unat used) dst @ take (unat chunk) (drop R A) @ drop (unat used + unat chunk) dst)" .
  let ?rg = "rg\<lparr>sr_read := sr_read rg + chunk\<rparr>"
  have "sr_fetch rg dst used chunk =
      obind (obind (memcpy dst (unat used) (sr_bytes rg) (R mod ?c) (unat first))
      (\<lambda>d1. if unat first < unat chunk
            then memcpy d1 (unat used + unat first) (sr_bytes rg) 0 (unat chunk - unat first)
            else Inr d1)) (\<lambda>d2. Inr (d2, ?rg))"
    unfolding sr_fetch_def Let_def first_def [symmetric] D(7) rest second word_less_nat_alt obind_assoc
    by simp
  then have fetch: "sr_fetch rg dst used chunk = Inr (take (unat used) dst @
      take (unat chunk) (drop R A) @ drop (unat used + unat chunk) dst, ?rg)"
    by (simp only: copy obind_simps)
  have "ring_window ?c A (R + unat chunk) (sr_bytes rg)"
    using h n D(4,5) by (auto simp: sr_holds_def ring_window_def)
  then have "sr_holds A (R + unat chunk) ?rg"
    using h by (auto simp: sr_holds_def)
  with fetch show ?thesis by simp
qed


lemma sr_new_holds:
  assumes "sr_new mem_ok v = Inr rg" and "v \<noteq> 0" and "unat v \<le> 2 ^ 62"
  shows "sr_holds [] 0 rg" and "unat v \<le> unat (sr_capacity rg)" and "unat (sr_capacity rg) < 2 * unat v"
proof -
  obtain k where k: "unat (next_pow2 v) = 2 ^ k" "unat v \<le> 2 ^ k" "2 ^ k < 2 * unat v"
    using next_pow2_spec [of v] assms(2,3) by auto
  have "(2::nat) ^ k < 2 ^ 63" using k(3) assms(3) by simp
  then have "k < 63" by (rule pow2_less_imp_less)
  with k assms(1) show "sr_holds [] 0 rg" and "unat v \<le> unat (sr_capacity rg)"
    and "unat (sr_capacity rg) < 2 * unat v"
    by (auto simp: sr_new_def Let_def obind_Inr_iff new_zeroed_def sr_holds_def ring_window_def
        split: if_splits)
qed

section \<open>The interface: a first-in first-out byte channel\<close>

datatype fifo_op = Put "u8 list" | Get u64

text \<open>
  A run of operations; the result is the bytes of the accepted puts, the bytes of all gets,
  and the final state.
\<close>

fun fifo_run ::
  "('s \<Rightarrow> u8 list \<Rightarrow> (bool \<times> 's) outcome) \<Rightarrow> ('s \<Rightarrow> u64 \<Rightarrow> (u8 list \<times> 's) outcome) \<Rightarrow>
   fifo_op list \<Rightarrow> 's \<Rightarrow> (u8 list \<times> u8 list \<times> 's) outcome" where
  "fifo_run put get [] s = Inr ([], [], s)"
| "fifo_run put get (Put xs # ops) s =
     obind (put s xs) (\<lambda>(taken, s1).
     obind (fifo_run put get ops s1) (\<lambda>(a, f, s2). Inr ((if taken then xs else []) @ a, f, s2)))"
| "fifo_run put get (Get n # ops) s =
     obind (get s n) (\<lambda>(ys, s1).
     obind (fifo_run put get ops s1) (\<lambda>(a, f, s2). Inr (a, ys @ f, s2)))"

definition sr_put :: "spsc_ring \<Rightarrow> u8 list \<Rightarrow> (bool \<times> spsc_ring) outcome" where
  "sr_put rg xs = sr_push rg xs (of_nat (length xs))"

definition sr_get :: "spsc_ring \<Rightarrow> u64 \<Rightarrow> (u8 list \<times> spsc_ring) outcome" where
  "sr_get rg n =
     (let chunk = min (sr_filled rg) n in sr_fetch rg (replicate (unat chunk) 0) 0 chunk)"

locale byte_fifo =
  fixes put :: "'s \<Rightarrow> u8 list \<Rightarrow> (bool \<times> 's) outcome"
    and get :: "'s \<Rightarrow> u64 \<Rightarrow> (u8 list \<times> 's) outcome"
    and holds :: "u8 list \<Rightarrow> nat \<Rightarrow> 's \<Rightarrow> bool"
    and size :: "'s \<Rightarrow> nat"
  assumes put_law: "holds A R s \<Longrightarrow> length xs < 2 ^ 64 \<Longrightarrow>
      \<exists>s'. put s xs = Inr (length A - R + length xs \<le> size s, s') \<and> size s' = size s \<and>
        holds (if length A - R + length xs \<le> size s then A @ xs else A) R s'"
    and get_law: "holds A R s \<Longrightarrow>
      \<exists>s'. get s n = Inr (take (unat n) (drop R A), s') \<and> size s' = size s \<and>
        holds A (min (length A) (R + unat n)) s'"
    and bound_law: "holds A R s \<Longrightarrow> R \<le> length A \<and> length A - R \<le> size s"
begin

lemma run_fifo:
  assumes "holds A R s" and "\<forall>xs. Put xs \<in> set ops \<longrightarrow> length xs < 2 ^ 64"
  shows "\<exists>a f s'. fifo_run put get ops s = Inr (a, f, s') \<and> size s' = size s \<and>
     holds (A @ a) (R + length f) s' \<and> f = take (length f) (drop R (A @ a))"
  using assms
proof (induction ops arbitrary: A R s)
  case Nil
  then show ?case by simp
next
  case (Cons op ops)
  show ?case
  proof (cases op)
    case (Put xs)
    let ?taken = "length A - R + length xs \<le> size s"
    let ?A = "if ?taken then A @ xs else A"
    have "length xs < 2 ^ 64" using Cons.prems(2) Put by simp
    with put_law [OF Cons.prems(1)] obtain s1
      where s1: "put s xs = Inr (?taken, s1)" "size s1 = size s" "holds ?A R s1" by blast
    obtain a f s2 where s2: "fifo_run put get ops s1 = Inr (a, f, s2)" "size s2 = size s1"
      "holds (?A @ a) (R + length f) s2" "f = take (length f) (drop R (?A @ a))"
      using Cons.IH [OF s1(3)] Cons.prems(2) by auto
    have e: "?A @ a = A @ ((if ?taken then xs else []) @ a)" by simp
    have "fifo_run put get (op # ops) s = Inr ((if ?taken then xs else []) @ a, f, s2)"
      using s1(1) s2(1) by (simp add: Put)
    moreover have "size s2 = size s" using s1(2) s2(2) by simp
    ultimately show ?thesis using s2(3,4) [unfolded e] by blast
  next
    case (Get n)
    let ?ys = "take (unat n) (drop R A)"
    obtain s1 where s1: "get s n = Inr (?ys, s1)" "size s1 = size s"
      "holds A (min (length A) (R + unat n)) s1"
      using get_law [OF Cons.prems(1)] by blast
    have R': "min (length A) (R + unat n) = R + length ?ys"
      using bound_law [OF Cons.prems(1)] by (auto simp: min_def)
    obtain a f s2 where s2: "fifo_run put get ops s1 = Inr (a, f, s2)" "size s2 = size s1"
      "holds (A @ a) (R + length ?ys + length f) s2"
      "f = take (length f) (drop (R + length ?ys) (A @ a))"
      using Cons.IH [OF s1(3)] Cons.prems(2) unfolding R' by auto
    have "?ys = take (length ?ys) (drop R (A @ a))"
      using bound_law [OF Cons.prems(1)] by (simp add: min_def)
    then have "?ys @ f = take (length (?ys @ f)) (drop R (A @ a))"
      using s2(4) unfolding length_append take_add drop_drop add.commute [of R] by (rule arg_cong2)
    moreover have "holds (A @ a) (R + length (?ys @ f)) s2"
      using s2(3) unfolding length_append add.assoc .
    moreover have "fifo_run put get (op # ops) s = Inr (a, ?ys @ f, s2)"
      using s1(1) s2(1) by (simp add: Get)
    moreover have "size s2 = size s" using s1(2) s2(2) by simp
    ultimately show ?thesis by blast
  qed
qed

end

interpretation sr: byte_fifo sr_put sr_get sr_holds "\<lambda>rg. unat (sr_capacity rg)"
proof unfold_locales
  fix A R rg and xs :: "u8 list"
  assume h: "sr_holds A R rg" and n: "length xs < 2 ^ 64"
  then show "\<exists>s'. sr_put rg xs = Inr (length A - R + length xs \<le> unat (sr_capacity rg), s') \<and>
      unat (sr_capacity s') = unat (sr_capacity rg) \<and>
      sr_holds (if length A - R + length xs \<le> unat (sr_capacity rg) then A @ xs else A) R s'"
    using sr_push_full [OF h, of "of_nat (length xs)" xs] sr_push_fits [OF h, of "of_nat (length xs)" xs]
    by (auto simp: sr_put_def unat_of_nat_64 not_le)
next
  fix A R rg n
  assume h: "sr_holds A R rg"
  note D = sr_holdsD [OF h]
  have n: "unat (min (sr_filled rg) n) = min (length A - R) (unat n)" by (simp add: unat_min D)
  have "min (length A - R) (unat n) < 2 ^ 63" using D(2,5) by linarith
  then have "min (length A - R) (unat n) < 2 ^ 64" by simp
  moreover have "take (min (length A - R) (unat n)) (drop R A) = take (unat n) (drop R A)"
    by (simp add: min_def)
  moreover have "R + min (length A - R) (unat n) = min (length A) (R + unat n)"
    using D(4) by simp
  ultimately show "\<exists>s'. sr_get rg n = Inr (take (unat n) (drop R A), s') \<and>
      unat (sr_capacity s') = unat (sr_capacity rg) \<and>
      sr_holds A (min (length A) (R + unat n)) s'"
    using sr_fetch_ok [OF h, of "min (sr_filled rg) n" 0 "replicate (unat (min (sr_filled rg) n)) 0"]
    by (auto simp: sr_get_def n)
next
  fix A R rg
  assume "sr_holds A R rg"
  then show "R \<le> length A \<and> length A - R \<le> unat (sr_capacity rg)"
    using sr_holdsD(4,5) by blast
qed

section \<open>The properties\<close>

text \<open>
  The recorder's ring is a first-in first-out channel. From a freshly constructed ring,
  any interleaving of pushes and fetches runs without a memory fault, the bytes fetched are a
  prefix of the bytes of the accepted pushes, in order, and what is still missing is exactly
  what the ring holds, never more than its capacity. This holds for any number of bytes: the
  64-bit cursors may wrap.
\<close>

theorem spsc_ring_fifo:
  assumes "sr_new mem_ok v = Inr rg" and "v \<noteq> 0" and "unat v \<le> 2 ^ 62"
    and "\<forall>xs. Put xs \<in> set ops \<longrightarrow> length xs < 2 ^ 64"
  shows "\<exists>accepted fetched rest rg'.
     fifo_run sr_put sr_get ops rg = Inr (accepted, fetched, rg') \<and>
     accepted = fetched @ rest \<and> length rest = unat (sr_filled rg') \<and>
     length rest \<le> unat (sr_capacity rg)"
proof -
  obtain a f rg' where r: "fifo_run sr_put sr_get ops rg = Inr (a, f, rg')"
    "unat (sr_capacity rg') = unat (sr_capacity rg)" "sr_holds a (length f) rg'"
    "f = take (length f) a"
    using sr.run_fifo [OF sr_new_holds(1) [OF assms(1-3)] assms(4)] by auto
  have "a = f @ drop (length f) a" using r(4) by (metis append_take_drop_id)
  moreover have "length (drop (length f) a) = unat (sr_filled rg')"
    using sr_holdsD(8) [OF r(3)] by simp
  ultimately show ?thesis using r(1,2) sr_holdsD(5) [OF r(3)] by fastforce
qed

theorem spsc_ring_fifo_witness:
  "\<exists>rg. sr_new (\<lambda>n. True) 3 = Inr rg \<and>
     (\<exists>accepted fetched rest rg'.
       fifo_run sr_put sr_get [Put [1, 2, 3], Get 2, Put [4, 5, 6], Put [7], Get 9] rg =
         Inr (accepted, fetched, rg') \<and>
       accepted = fetched @ rest \<and> length rest = unat (sr_filled rg') \<and>
       length rest \<le> unat (sr_capacity rg))"
proof -
  obtain rg where rg: "sr_new (\<lambda>n. True) 3 = Inr rg"
    by (simp add: sr_new_def Let_def new_zeroed_def next_pow2_def smear_right_def)
  have "\<forall>xs. Put xs \<in> set [Put [1, 2, 3], Get 2, Put [4, 5, 6], Put [7], Get 9] \<longrightarrow> length xs < 2 ^ 64"
    by auto
  from spsc_ring_fifo [OF rg _ _ this] show ?thesis by (intro exI [of _ rg] conjI rg) simp_all
qed

end
