(* ===== verification/Timestamps.thy ===== *)
theory Timestamps
  imports Prelude
begin

text \<open>
  Text the program builds from numbers: the \<open>%d\<close>, \<open>%u\<close> and zero-padded \<open>%0nd\<close> conversions of
  \<open>snprintf\<close> on natural numbers, the decimal reader they are the inverse of, and the broken-down
  UTC time of \<open>gmtime_r\<close>. File names of recorded blocks rest on both.
\<close>

section \<open>Decimal numbers\<close>

definition digit :: "nat \<Rightarrow> char" where
  "digit d = char_of (48 + d)"

definition digit_val :: "char \<Rightarrow> nat" where
  "digit_val c = of_char c - 48"

definition is_digit :: "char \<Rightarrow> bool" where
  "is_digit c \<longleftrightarrow> 48 \<le> (of_char c :: nat) \<and> (of_char c :: nat) \<le> 57"

fun dec :: "nat \<Rightarrow> string" where
  "dec n = (if n < 10 then [digit n] else dec (n div 10) @ [digit (n mod 10)])"

declare dec.simps [simp del]

definition undec :: "string \<Rightarrow> nat" where
  "undec s = foldl (\<lambda>acc c. 10 * acc + digit_val c) 0 s"

definition pad0 :: "nat \<Rightarrow> string \<Rightarrow> string" where
  "pad0 w s = replicate (w - length s) (CHR ''0'') @ s"

lemma digit_val_digit [simp]: "d < 10 \<Longrightarrow> digit_val (digit d) = d"
  by (simp add: digit_val_def digit_def)

lemma is_digit_digit [simp]: "d < 10 \<Longrightarrow> is_digit (digit d)"
  by (simp add: is_digit_def digit_def)

lemma digit_zero: "CHR ''0'' = digit 0"
  by (simp add: digit_def char_of_def bit_Suc_0_iff)

lemma undec_snoc: "undec (s @ [c]) = 10 * undec s + digit_val c"
  by (simp add: undec_def)

lemma undec_dec [simp]: "undec (dec n) = n"
proof (induction n rule: dec.induct)
  case (1 n)
  show ?case
  proof (cases "n < 10")
    case True
    then show ?thesis by (subst dec.simps) (simp add: undec_def)
  next
    case False
    with 1 show ?thesis by (subst dec.simps) (simp add: undec_snoc)
  qed
qed

lemma undec_pad0 [simp]: "undec (pad0 w s) = undec s"
proof -
  have "undec (replicate n (CHR ''0'') @ s) = undec s" for n
    by (induction n) (simp_all add: undec_def digit_zero)
  then show ?thesis by (simp add: pad0_def)
qed

lemma dec_nonempty [simp]: "dec n \<noteq> []"
  by (subst dec.simps) simp

lemma dec_digits: "c \<in> set (dec n) \<Longrightarrow> is_digit c"
proof (induction n rule: dec.induct)
  case (1 n)
  then show ?case by (subst (asm) (2) dec.simps) (auto split: if_splits)
qed

lemma length_dec: "n < 10 ^ k \<Longrightarrow> 0 < k \<Longrightarrow> length (dec n) \<le> k"
proof (induction n arbitrary: k rule: dec.induct)
  case (1 n)
  show ?case
  proof (cases "n < 10")
    case True
    with 1 show ?thesis by (subst dec.simps) simp
  next
    case False
    then obtain j where j: "k = Suc j" "0 < j" using 1(2,3) by (cases k; cases "k - 1") auto
    then have "n div 10 < 10 ^ j" using 1(2) by (simp add: less_mult_imp_div_less mult.commute)
    with 1(1) [OF False this] j show ?thesis using False by (subst dec.simps) simp
  qed
qed

lemma dec_inj: "dec a = dec b \<longleftrightarrow> a = b"
  by (metis undec_dec)

lemma pad0_inj: "pad0 w (dec a) = pad0 w (dec b) \<longleftrightarrow> a = b"
  by (metis undec_dec undec_pad0)

lemma length_pad0: "length (pad0 w s) = max w (length s)"
  by (simp add: pad0_def)

lemma length_pad0_dec2: "a < 100 \<Longrightarrow> length (pad0 2 (dec a)) = 2"
  using length_dec [of a 2] by (simp add: length_pad0)

section \<open>UTC time\<close>

record tm =
  tm_year :: nat  \<comment> \<open>the full year, \<open>tm_year + 1900\<close> of C\<close>
  tm_mon :: nat   \<comment> \<open>0 to 11\<close>
  tm_mday :: nat  \<comment> \<open>1 to 31\<close>
  tm_hour :: nat
  tm_min :: nat
  tm_sec :: nat

definition leap_year :: "nat \<Rightarrow> bool" where
  "leap_year y \<longleftrightarrow> 4 dvd y \<and> \<not> 100 dvd y \<or> 400 dvd y"

definition year_days :: "nat \<Rightarrow> nat" where
  "year_days y = (if leap_year y then 366 else 365)"

definition month_days :: "nat \<Rightarrow> nat list" where
  "month_days y = [31, if leap_year y then 29 else 28, 31, 30, 31, 30, 31, 31, 30, 31, 30, 31]"

text \<open>Years and months are counted off one by one from the day number.\<close>

function split_year :: "nat \<Rightarrow> nat \<Rightarrow> nat \<times> nat" where
  "split_year y d = (if d < year_days y then (y, d) else split_year (y + 1) (d - year_days y))"
  by pat_completeness auto
termination
  by (relation "measure snd") (auto simp: year_days_def split: if_splits)

declare split_year.simps [simp del]

fun split_month :: "nat \<Rightarrow> nat list \<Rightarrow> nat \<Rightarrow> nat \<times> nat" where
  "split_month m [] d = (m, d)"
| "split_month m (n # ns) d = (if d < n then (m, d) else split_month (m + 1) ns (d - n))"

definition gmtime :: "nat \<Rightarrow> tm" where
  "gmtime secs =
     (let (y, doy) = split_year 1970 (secs div 86400);
          (mon, d) = split_month 0 (month_days y) doy;
          s = secs mod 86400
      in \<lparr>tm_year = y, tm_mon = mon, tm_mday = d + 1,
          tm_hour = s div 3600, tm_min = s mod 3600 div 60, tm_sec = s mod 60\<rparr>)"

lemma split_year_back:
  "split_year y d = (y', r) \<Longrightarrow> y \<le> y' \<and> r < year_days y' \<and> d = (\<Sum>k\<leftarrow>[y..<y']. year_days k) + r"
proof (induction y d arbitrary: y' r rule: split_year.induct)
  case (1 y d)
  show ?case
  proof (cases "d < year_days y")
    case True
    then show ?thesis using 1(2) by (subst (asm) split_year.simps) auto
  next
    case False
    then have "split_year (y + 1) (d - year_days y) = (y', r)"
      using 1(2) by (subst (asm) split_year.simps) simp
    from 1(1) [OF False this] False show ?thesis by (auto simp: upt_conv_Cons)
  qed
qed

lemma split_month_back:
  "split_month m ns d = (m', r) \<Longrightarrow> d < sum_list ns \<Longrightarrow>
   m \<le> m' \<and> m' < m + length ns \<and> r < ns ! (m' - m) \<and> d = sum_list (take (m' - m) ns) + r"
proof (induction ns arbitrary: m d)
  case Nil
  then show ?case by simp
next
  case (Cons n ns)
  show ?case
  proof (cases "d < n")
    case True
    then show ?thesis using Cons.prems by auto
  next
    case False
    then have "Suc m \<le> m' \<and> m' < Suc m + length ns \<and> r < ns ! (m' - Suc m) \<and>
        d - n = sum_list (take (m' - Suc m) ns) + r"
      using Cons.IH [of "Suc m" "d - n"] Cons.prems by auto
    moreover from this obtain j where "m' = Suc m + j" by (metis le_iff_add)
    ultimately show ?thesis using False by auto
  qed
qed

lemma sum_month_days: "sum_list (month_days y) = year_days y"
  by (simp add: month_days_def year_days_def)

lemma length_month_days [simp]: "length (month_days y) = 12"
  by (simp add: month_days_def)

lemma month_days_bound: "m < 12 \<Longrightarrow> month_days y ! m \<le> 31"
proof -
  have "\<forall>n \<in> set (month_days y). n \<le> 31" by (simp add: month_days_def)
  then show "m < 12 \<Longrightarrow> month_days y ! m \<le> 31" by simp
qed

lemma split_year_bound: "split_year y d = (y', r) \<Longrightarrow> y' \<le> y + d div 365"
proof (induction y d arbitrary: y' r rule: split_year.induct)
  case (1 y d)
  show ?case
  proof (cases "d < year_days y")
    case True
    then show ?thesis using 1(2) by (subst (asm) split_year.simps) auto
  next
    case False
    then have "split_year (y + 1) (d - year_days y) = (y', r)"
      using 1(2) by (subst (asm) split_year.simps) simp
    from 1(1) [OF False this] have "y' \<le> y + 1 + (d - year_days y) div 365" .
    also have "\<dots> \<le> y + 1 + (d - 365) div 365"
      by (intro add_left_mono div_le_mono diff_le_mono2) (simp add: year_days_def)
    also have "\<dots> \<le> y + d div 365"
      using False by (simp add: year_days_def le_div_geq not_less split: if_splits)
    finally show ?thesis .
  qed
qed

text \<open>The fields of \<open>gmtime\<close>: their ranges, and the instant they stand for.\<close>

lemma gmtime_fields:
  assumes "t = gmtime secs"
  shows "tm_mon t < 12" and "1 \<le> tm_mday t" and "tm_mday t \<le> 31" and "tm_hour t < 24"
    and "tm_min t < 60" and "tm_sec t < 60" and "1970 \<le> tm_year t"
    and "tm_year t \<le> 1970 + secs div 86400 div 365"
    and "secs = ((\<Sum>k\<leftarrow>[1970..<tm_year t]. year_days k) +
                 sum_list (take (tm_mon t) (month_days (tm_year t))) + (tm_mday t - 1)) * 86400 +
                tm_hour t * 3600 + tm_min t * 60 + tm_sec t"
proof -
  obtain y doy where y: "split_year 1970 (secs div 86400) = (y, doy)" by fastforce
  obtain m d where m: "split_month 0 (month_days y) doy = (m, d)" by fastforce
  define s where "s = secs mod 86400"
  have t: "t = \<lparr>tm_year = y, tm_mon = m, tm_mday = d + 1, tm_hour = s div 3600,
      tm_min = s mod 3600 div 60, tm_sec = s mod 60\<rparr>"
    by (simp add: assms gmtime_def y m Let_def flip: s_def)
  note Y = split_year_back [OF y]
  have M: "m < 12" "d < month_days y ! m" "doy = sum_list (take m (month_days y)) + d"
    using split_month_back [OF m] Y by (simp_all add: sum_month_days)
  have "s < 86400" by (simp add: s_def)
  then show "tm_hour t < 24" and "tm_min t < 60" and "tm_sec t < 60" by (auto simp: t)
  show "tm_mon t < 12" and "1 \<le> tm_mday t" and "1970 \<le> tm_year t" using M Y by (simp_all add: t)
  show "tm_mday t \<le> 31" using M month_days_bound [OF M(1), of y] by (simp add: t)
  show "tm_year t \<le> 1970 + secs div 86400 div 365" using split_year_bound [OF y] by (simp add: t)
  have "s mod 3600 = s mod 3600 div 60 * 60 + s mod 60"
    using div_mult_mod_eq [of "s mod 3600" 60] by (simp add: mod_mod_cancel)
  moreover have "s = s div 3600 * 3600 + s mod 3600" by (rule div_mult_mod_eq [symmetric])
  ultimately have "s = s div 3600 * 3600 + s mod 3600 div 60 * 60 + s mod 60" by linarith
  moreover have "secs = secs div 86400 * 86400 + s" by (simp add: s_def)
  ultimately show "secs = ((\<Sum>k\<leftarrow>[1970..<tm_year t]. year_days k) +
      sum_list (take (tm_mon t) (month_days (tm_year t))) + (tm_mday t - 1)) * 86400 +
      tm_hour t * 3600 + tm_min t * 60 + tm_sec t"
    using Y M(3) by (simp add: t)
qed

lemma gmtime_inj: "gmtime a = gmtime b \<longleftrightarrow> a = b"
  by (metis gmtime_fields(9))

end
