(* ===== verification/Block_Recorder.thy ===== *)
theory Block_Recorder
  imports Spsc_Ring Sndfile Timestamps
begin

text \<open>
  \<open>BlockRecorder\<close> (include/audio_daemon/block_recorder.hpp, src/capture/block_recorder.cpp):
  \<open>push()\<close> on the capture thread, the writer thread that drains the ring into consecutive files
  of a fixed number of frames, and \<open>start()\<close>/\<open>stop()\<close>. The calls made to libsndfile are logged;
  what \<open>sf_open\<close> and the write functions return is the parameter \<open>lib\<close>, the system clock in
  microseconds the parameter \<open>clock\<close>, both functions of the calls made so far.
\<close>

section \<open>State\<close>

record block_config =
  bc_enabled :: bool
  bc_output_dir :: string
  bc_block_duration_seconds :: u32
  bc_format :: string
  bc_max_blocks :: u32

text \<open>\<open>br_calls\<close> is the log of library calls; the other fields are the members of the class.\<close>

record recorder =
  br_config :: block_config
  br_sample_rate :: u32
  br_channels :: u16
  br_bits_per_sample :: u16
  br_block_frames :: u64
  br_bytes_per_frame :: u64
  br_recording :: bool
  br_ring :: spsc_ring
  br_writer_running :: bool
  br_file_open :: bool
  br_current_path :: string
  br_frames_in_block :: u64
  br_write_buffer :: "u8 list"
  br_buffer_used :: u64
  br_flush_threshold :: u64
  br_blocks_written :: u64
  br_total_frames_written :: u64
  br_stats_current_file :: string
  br_calls :: "sf_event list"

definition br_new ::
  "(nat \<Rightarrow> bool) \<Rightarrow> block_config \<Rightarrow> u32 \<Rightarrow> u16 \<Rightarrow> u16 \<Rightarrow> recorder outcome" where
  "br_new mem_ok config sample_rate channels bits =
     (let bpf = ucast channels * of_nat (bytes_of_bits bits) :: u64;
          one_second = ucast sample_rate * bpf;
          flush = max one_second 65536
      in obind (new_zeroed mem_ok (unat (flush * 2))) (\<lambda>wb.
         obind (sr_new mem_ok (one_second * 4)) (\<lambda>ring.
         Inr \<lparr>br_config = config, br_sample_rate = sample_rate, br_channels = channels,
              br_bits_per_sample = bits,
              br_block_frames = ucast (bc_block_duration_seconds config) * ucast sample_rate,
              br_bytes_per_frame = bpf, br_recording = False, br_ring = ring,
              br_writer_running = False, br_file_open = False, br_current_path = [],
              br_frames_in_block = 0, br_write_buffer = wb, br_buffer_used = 0,
              br_flush_threshold = flush, br_blocks_written = 0, br_total_frames_written = 0,
              br_stats_current_file = [], br_calls = []\<rparr>)))"

text \<open>\<open>initialize()\<close> never returns false; the parameter says which directories can be created.\<close>

definition br_initialize :: "(string \<Rightarrow> bool) \<Rightarrow> recorder \<Rightarrow> bool outcome" where
  "br_initialize create_directories br =
     (if \<not> bc_enabled (br_config br) then Inr True
      else if create_directories (bc_output_dir (br_config br)) then Inr True
      else Inl Filesystem_Error)"

lemma br_initialize_true: "br_initialize create_directories br = Inr ok \<Longrightarrow> ok"
  by (simp add: br_initialize_def split: if_splits)

definition br_start :: "recorder \<Rightarrow> recorder" where
  "br_start br =
     (if bc_enabled (br_config br) then br\<lparr>br_recording := True, br_writer_running := True\<rparr> else br)"

definition br_stop_flags :: "recorder \<Rightarrow> recorder" where
  "br_stop_flags br = br\<lparr>br_recording := False, br_writer_running := False\<rparr>"

text \<open>\<open>push()\<close>; the flag says whether the period went into the ring.\<close>

definition br_push :: "recorder \<Rightarrow> u8 list \<Rightarrow> u64 \<Rightarrow> (bool \<times> recorder) outcome" where
  "br_push br data frame_count =
     (if \<not> br_recording br then Inr (False, br)
      else obind (sr_push (br_ring br) data (frame_count * br_bytes_per_frame br))
             (\<lambda>(taken, ring). Inr (taken, br\<lparr>br_ring := ring\<rparr>)))"

text \<open>\<open>Stats\<close> and \<open>get_stats()\<close>.\<close>

record recorder_stats =
  rt_blocks_written :: u64
  rt_total_frames_written :: u64
  rt_current_file :: string

definition br_get_stats :: "recorder \<Rightarrow> recorder_stats" where
  "br_get_stats br =
     \<lparr>rt_blocks_written = br_blocks_written br, rt_total_frames_written = br_total_frames_written br,
      rt_current_file = br_stats_current_file br\<rparr>"

section \<open>Files\<close>

definition c_str :: "string \<Rightarrow> string" where
  "c_str s = takeWhile (\<lambda>c. c \<noteq> CHR 0x00) s"

text \<open>\<open>snprintf\<close> into \<open>char name[128]\<close> keeps at most 127 characters.\<close>

definition block_name :: "string \<Rightarrow> tm \<Rightarrow> string" where
  "block_name format t = ''block_'' @ pad0 4 (dec (tm_year t)) @ pad0 2 (dec (tm_mon t + 1)) @
     pad0 2 (dec (tm_mday t)) @ ''_'' @ pad0 2 (dec (tm_hour t)) @ pad0 2 (dec (tm_min t)) @
     pad0 2 (dec (tm_sec t)) @ ''.'' @ c_str format"

definition br_make_filename :: "block_config \<Rightarrow> u64 \<Rightarrow> string" where
  "br_make_filename config timestamp_us =
     bc_output_dir config @ ''/'' @
     take 127 (block_name (bc_format config) (gmtime (unat timestamp_us div 1000000)))"

definition br_info :: "recorder \<Rightarrow> sf_info" where
  "br_info br =
     \<lparr>info_samplerate = br_sample_rate br, info_channels = ucast (br_channels br),
      info_container = (if bc_format (br_config br) = ''flac'' then SF_FORMAT_FLAC else SF_FORMAT_WAV),
      info_subtype = sf_subtype_of_bits (br_bits_per_sample br)\<rparr>"

definition br_open_next_file ::
  "sf_lib \<Rightarrow> (sf_event list \<Rightarrow> u64) \<Rightarrow> recorder \<Rightarrow> bool \<times> recorder" where
  "br_open_next_file lib clock br =
     (let path = br_make_filename (br_config br) (clock (br_calls br));
          opened = lib_open lib (br_calls br) path (br_info br);
          br1 = br\<lparr>br_calls := br_calls br @ [Sf_Open path (br_info br) opened],
                   br_file_open := opened\<rparr>
      in if \<not> opened then (False, br1)
         else (True, br1\<lparr>br_current_path := path, br_frames_in_block := 0,
                         br_stats_current_file := path\<rparr>))"

definition br_close_current_file :: "recorder \<Rightarrow> recorder" where
  "br_close_current_file br =
     (if br_file_open br
      then br\<lparr>br_calls := br_calls br @ [Sf_Sync, Sf_Close], br_file_open := False,
              br_current_path := []\<rparr>
      else br)"

section \<open>The writer thread\<close>

text \<open>One batch of frames, at offset \<open>src\<close> of the write buffer, goes to the open file.\<close>

definition br_write_batch :: "sf_lib \<Rightarrow> recorder \<Rightarrow> nat \<Rightarrow> u64 \<Rightarrow> recorder outcome" where
  "br_write_batch lib br src batch =
     (let batch_samples = batch * ucast (br_channels br) in
      obind (pcm_payload (br_bits_per_sample br) (br_write_buffer br) src (unat batch_samples)) (\<lambda>p.
      let written = lib_written lib (br_calls br) p (unat batch);
          br1 = br\<lparr>br_calls := br_calls br @ [Sf_Write p]\<rparr>
      in Inr (if written < 0 then br1
              else br1\<lparr>br_total_frames_written := br_total_frames_written br + word_of_int written\<rparr>)))"

text \<open>Counting the batch; a full block is closed.\<close>

definition br_advance_block :: "recorder \<Rightarrow> u64 \<Rightarrow> recorder" where
  "br_advance_block br batch =
     (let br1 = br\<lparr>br_frames_in_block := br_frames_in_block br + batch\<rparr>
      in if br_frames_in_block br1 \<ge> br_block_frames br1
         then (br_close_current_file br1)\<lparr>br_blocks_written := br_blocks_written br1 + 1\<rparr>
         else br1)"

text \<open>
  The inner loop: frames from the write buffer to files. The flag of the result says that a
  file could not be opened and the samples were dropped (\<open>goto drain_done\<close>).
\<close>

partial_function (option) br_process ::
  "sf_lib \<Rightarrow> (sf_event list \<Rightarrow> u64) \<Rightarrow> recorder \<Rightarrow> nat \<Rightarrow> u64 \<Rightarrow> (bool \<times> recorder) outcome option"
where
  "br_process lib clock br src src_remaining =
     (if src_remaining = 0 then Some (Inr (False, br))
      else case (if br_file_open br then (True, br) else br_open_next_file lib clock br) of
        (opened, br1) \<Rightarrow>
          if \<not> opened then Some (Inr (True, br1\<lparr>br_buffer_used := 0\<rparr>))
          else let space = br_block_frames br1 - br_frames_in_block br1;
                   batch = min src_remaining space
               in case br_write_batch lib br1 src batch of
                    Inl e \<Rightarrow> Some (Inl e)
                  | Inr br2 \<Rightarrow>
                      br_process lib clock (br_advance_block br2 batch)
                        (src + unat (batch * br_bytes_per_frame br1)) (src_remaining - batch))"

text \<open>
  One iteration of the drain loop: it ends because the ring is empty or the samples were
  dropped, or goes round again.
\<close>

datatype drain_result = Ring_Empty | Go_On | Dropped

definition br_drain_iter ::
  "sf_lib \<Rightarrow> (sf_event list \<Rightarrow> u64) \<Rightarrow> recorder \<Rightarrow> (drain_result \<times> recorder) outcome option" where
  "br_drain_iter lib clock br =
     (let avail = sr_filled (br_ring br) in
      if avail = 0 then Some (Inr (Ring_Empty, br))
      else let chunk = min avail (of_nat (length (br_write_buffer br)) - br_buffer_used br) in
      case sr_fetch (br_ring br) (br_write_buffer br) (br_buffer_used br) chunk of
        Inl e \<Rightarrow> Some (Inl e)
      | Inr (wb, ring) \<Rightarrow>
          let used = br_buffer_used br + chunk;
              br1 = br\<lparr>br_write_buffer := wb, br_ring := ring, br_buffer_used := used\<rparr>;
              bpf = br_bytes_per_frame br
          in if bpf = 0 then Some (Inl Div_By_Zero)
             else let frame_bytes = used - used mod bpf; frames = frame_bytes div bpf
             in if frames = 0 then Some (Inr (Go_On, br1))
                else case br_process lib clock br1 0 frames of
                  None \<Rightarrow> None
                | Some (Inl e) \<Rightarrow> Some (Inl e)
                | Some (Inr (True, br2)) \<Rightarrow> Some (Inr (Dropped, br2))
                | Some (Inr (False, br2)) \<Rightarrow>
                    let leftover = br_buffer_used br2 - frame_bytes
                    in Some (obind
                         (if 0 < leftover
                          then memcpy (br_write_buffer br2) 0 (br_write_buffer br2)
                                 (unat frame_bytes) (unat leftover)
                          else Inr (br_write_buffer br2))
                         (\<lambda>wb2. Inr (Go_On, br2\<lparr>br_write_buffer := wb2, br_buffer_used := leftover\<rparr>))))"

text \<open>The wait condition and the exit condition of \<open>writer_thread_func\<close>.\<close>

definition br_wake :: "recorder \<Rightarrow> bool" where
  "br_wake br \<longleftrightarrow> br_flush_threshold br \<le> sr_filled (br_ring br) \<or> \<not> br_writer_running br"

definition br_exit :: "recorder \<Rightarrow> bool" where
  "br_exit br \<longleftrightarrow> \<not> br_writer_running br \<and> sr_write (br_ring br) = sr_read (br_ring br)"

section \<open>The files a log of calls leaves\<close>

text \<open>Path, contents and whether the file has been closed, in the order of opening.\<close>

type_synonym block_file = "string \<times> u8 list \<times> bool"

fun file_step :: "u16 \<Rightarrow> block_file list \<Rightarrow> sf_event \<Rightarrow> block_file list" where
  "file_step bits fs (Sf_Open path info ok) = (if ok then fs @ [(path, [], False)] else fs)"
| "file_step bits fs (Sf_Write p) =
     (case rev fs of [] \<Rightarrow> []
      | (path, bytes, closed) # rest \<Rightarrow> rev rest @ [(path, bytes @ payload_bytes bits p, closed)])"
| "file_step bits fs Sf_Sync = fs"
| "file_step bits fs Sf_Close =
     (case rev fs of [] \<Rightarrow> []
      | (path, bytes, closed) # rest \<Rightarrow> rev rest @ [(path, bytes, True)])"

definition files_of :: "recorder \<Rightarrow> block_file list" where
  "files_of br = foldl (file_step (br_bits_per_sample br)) [] (br_calls br)"

definition recorded :: "block_file list \<Rightarrow> u8 list" where
  "recorded fs = concat (map (fst \<circ> snd) fs)"

lemma recorded_simps [simp]:
  "recorded [] = []"
  "recorded (fs @ [(path, bytes, closed)]) = recorded fs @ bytes"
  by (simp_all add: recorded_def)

text \<open>A complete block: closed, with exactly \<open>B\<close> frames of \<open>w\<close> bytes.\<close>

definition full_block :: "nat \<Rightarrow> nat \<Rightarrow> block_file \<Rightarrow> bool" where
  "full_block B w f \<longleftrightarrow> (case f of (path, bytes, closed) \<Rightarrow> closed \<and> length bytes = B * w)"

lemma full_block_simp [simp]:
  "full_block B w (path, bytes, closed) \<longleftrightarrow> closed \<and> length bytes = B * w"
  by (simp add: full_block_def)

definition br_width :: "recorder \<Rightarrow> nat" where
  "br_width br = unat (br_channels br) * bytes_of_bits (br_bits_per_sample br)"

definition br_block :: "recorder \<Rightarrow> nat" where
  "br_block br = unat (br_block_frames br)"

text \<open>
  The parameters a recorder needs to make sense: a supported sample format, at least one
  channel, blocks of at least one frame.
\<close>

definition br_sane :: "recorder \<Rightarrow> bool" where
  "br_sane br \<longleftrightarrow> supported_bits (br_bits_per_sample br) \<and> br_channels br \<noteq> 0 \<and>
     unat (br_bytes_per_frame br) = br_width br \<and> 0 < br_block br \<and>
     length (br_write_buffer br) < 2 ^ 63"

text \<open>What the loop leaves alone.\<close>

definition br_fixed where
  "br_fixed br = (br_config br, br_sample_rate br, br_channels br, br_bits_per_sample br,
     br_block_frames br, br_bytes_per_frame br, br_recording br, br_ring br,
     br_writer_running br, br_write_buffer br, br_flush_threshold br, br_buffer_used br)"

lemma br_fixed_iff:
  "br_fixed a = br_fixed b \<longleftrightarrow>
     br_config a = br_config b \<and> br_sample_rate a = br_sample_rate b \<and> br_channels a = br_channels b \<and>
     br_bits_per_sample a = br_bits_per_sample b \<and> br_block_frames a = br_block_frames b \<and>
     br_bytes_per_frame a = br_bytes_per_frame b \<and> br_recording a = br_recording b \<and>
     br_ring a = br_ring b \<and> br_writer_running a = br_writer_running b \<and>
     br_write_buffer a = br_write_buffer b \<and> br_flush_threshold a = br_flush_threshold b \<and>
     br_buffer_used a = br_buffer_used b"
  by (auto simp: br_fixed_def)

lemma br_fixed_sane: "br_fixed a = br_fixed b \<Longrightarrow> br_sane a = br_sane b"
  by (simp add: br_fixed_iff br_sane_def br_width_def br_block_def)

text \<open>The files between two batches: complete blocks, then at most one open file.\<close>

definition br_files_ok :: "recorder \<Rightarrow> bool" where
  "br_files_ok br \<longleftrightarrow>
     (\<exists>full cur. files_of br = full @ cur \<and>
        (\<forall>f \<in> set full. full_block (br_block br) (br_width br) f) \<and>
        br_blocks_written br = of_nat (length full) \<and>
        (if br_file_open br
         then \<exists>bytes. cur = [(br_current_path br, bytes, False)] \<and>
                length bytes = unat (br_frames_in_block br) * br_width br \<and>
                unat (br_frames_in_block br) < br_block br
         else cur = []))"

text \<open>The write buffer and the ring play no part in it.\<close>

lemma br_files_ok_buffers [simp]:
  "br_files_ok (br\<lparr>br_write_buffer := wb, br_buffer_used := used\<rparr>) = br_files_ok br"
  "br_files_ok (br\<lparr>br_write_buffer := wb, br_ring := ring, br_buffer_used := used\<rparr>) = br_files_ok br"
  "br_files_ok (br\<lparr>br_ring := ring\<rparr>) = br_files_ok br"
  "br_files_ok (br\<lparr>br_recording := b, br_writer_running := b'\<rparr>) = br_files_ok br"
  by (simp_all add: br_files_ok_def files_of_def br_width_def br_block_def)

lemma files_of_buffers [simp]:
  "files_of (br\<lparr>br_write_buffer := wb, br_buffer_used := used\<rparr>) = files_of br"
  "files_of (br\<lparr>br_ring := ring\<rparr>) = files_of br"
  "files_of (br\<lparr>br_recording := b, br_writer_running := b'\<rparr>) = files_of br"
  by (simp_all add: files_of_def)

definition opens_succeed :: "sf_lib \<Rightarrow> bool" where
  "opens_succeed lib \<longleftrightarrow> (\<forall>calls path info. lib_open lib calls path info)"

lemma br_open_ok:
  assumes "opens_succeed lib" and "\<not> br_file_open br" and "br_files_ok br" and "0 < br_block br"
    and o: "br_open_next_file lib clock br = (opened, br1)"
  shows "opened" and "br_file_open br1" and "br_files_ok br1"
    and "recorded (files_of br1) = recorded (files_of br)" and "br_fixed br1 = br_fixed br"
proof -
  let ?path = "br_make_filename (br_config br) (clock (br_calls br))"
  have br1: "opened" "br1 = br\<lparr>br_calls := br_calls br @ [Sf_Open ?path (br_info br) True],
      br_file_open := True, br_current_path := ?path, br_frames_in_block := 0,
      br_stats_current_file := ?path\<rparr>"
    using o assms(1) by (simp_all add: br_open_next_file_def Let_def opens_succeed_def)
  then show "opened" and "br_file_open br1" and "br_fixed br1 = br_fixed br"
    by (simp_all add: br_fixed_iff)
  have files: "files_of br1 = files_of br @ [(?path, [], False)]"
    by (simp add: br1 files_of_def)
  then show "recorded (files_of br1) = recorded (files_of br)" by simp
  show "br_files_ok br1"
    using assms(2,3,4) files by (simp add: br_files_ok_def) (simp add: br1 br_block_def br_width_def)
qed


lemma br_write_batch_frame:
  assumes "br_write_batch lib br src batch = Inr br2"
  shows "br_fixed br2 = br_fixed br" and "br_file_open br2 = br_file_open br"
    and "br_frames_in_block br2 = br_frames_in_block br"
    and "br_blocks_written br2 = br_blocks_written br" and "br_current_path br2 = br_current_path br"
    and "\<exists>p. pcm_payload (br_bits_per_sample br) (br_write_buffer br) src
           (unat (batch * ucast (br_channels br))) = Inr p \<and> br_calls br2 = br_calls br @ [Sf_Write p]"
proof -
  from assms obtain p where p: "pcm_payload (br_bits_per_sample br) (br_write_buffer br) src
      (unat (batch * ucast (br_channels br))) = Inr p"
    and br2: "br2 = (if lib_written lib (br_calls br) p (unat batch) < 0
        then br\<lparr>br_calls := br_calls br @ [Sf_Write p]\<rparr>
        else br\<lparr>br_calls := br_calls br @ [Sf_Write p], br_total_frames_written :=
          br_total_frames_written br + word_of_int (lib_written lib (br_calls br) p (unat batch))\<rparr>)"
    by (auto simp: br_write_batch_def Let_def obind_Inr_iff)
  show "br_fixed br2 = br_fixed br" and "br_file_open br2 = br_file_open br"
    and "br_frames_in_block br2 = br_frames_in_block br"
    and "br_blocks_written br2 = br_blocks_written br" and "br_current_path br2 = br_current_path br"
    by (simp_all add: br2 br_fixed_iff)
  have "br_calls br2 = br_calls br @ [Sf_Write p]" by (simp add: br2)
  with p show "\<exists>p. pcm_payload (br_bits_per_sample br) (br_write_buffer br) src
      (unat (batch * ucast (br_channels br))) = Inr p \<and> br_calls br2 = br_calls br @ [Sf_Write p]"
    by blast
qed

lemma br_batch_ok:
  assumes sane: "br_sane br" and files: "br_files_ok br" and open_file: "br_file_open br"
    and room: "unat (br_frames_in_block br) + unat batch \<le> br_block br"
    and src: "src + unat batch * br_width br \<le> length (br_write_buffer br)"
  shows "\<exists>br2. br_write_batch lib br src batch = Inr br2 \<and> br_fixed br2 = br_fixed br \<and>
     br_files_ok (br_advance_block br2 batch) \<and> br_fixed (br_advance_block br2 batch) = br_fixed br \<and>
     recorded (files_of (br_advance_block br2 batch)) =
       recorded (files_of br) @ take (unat batch * br_width br) (drop src (br_write_buffer br))"
proof -
  let ?ch = "ucast (br_channels br) :: u64"
  define bytes where "bytes = take (unat batch * br_width br) (drop src (br_write_buffer br))"
  have bits: "supported_bits (br_bits_per_sample br)" and ch: "0 < unat (br_channels br)"
    using sane by (auto simp: br_sane_def unat_gt_0)
  have b: "0 < bytes_of_bits (br_bits_per_sample br)" using bits by (auto elim: supported_bits_cases)
  have "unat batch * unat (br_channels br) \<le> unat batch * br_width br"
    using b by (simp add: br_width_def)
  also have "\<dots> < 2 ^ 64" using src sane by (simp add: br_sane_def)
  finally have samples: "unat (batch * ?ch) = unat batch * unat (br_channels br)"
    by (simp add: unat_mult_64 unat_ucast_16)
  then have size: "unat (batch * ?ch) * bytes_of_bits (br_bits_per_sample br) = unat batch * br_width br"
    by (simp add: br_width_def)
  obtain p where p: "pcm_payload (br_bits_per_sample br) (br_write_buffer br) src (unat (batch * ?ch)) = Inr p"
    "payload_bytes (br_bits_per_sample br) p = bytes"
    using payload_bytes_exact [OF bits, of src "unat (batch * ?ch)" "br_write_buffer br"] src size
    by (auto simp: bytes_def)
  obtain br2 where w: "br_write_batch lib br src batch = Inr br2" by (simp add: br_write_batch_def Let_def p)
  then have br2: "br_fixed br2 = br_fixed br" "br_calls br2 = br_calls br @ [Sf_Write p]" "br_file_open br2"
    "br_frames_in_block br2 = br_frames_in_block br" "br_blocks_written br2 = br_blocks_written br"
    "br_current_path br2 = br_current_path br"
    using br_write_batch_frame [OF w] p(1) open_file by auto
  obtain full old where f: "files_of br = full @ [(br_current_path br, old, False)]"
    "\<forall>f \<in> set full. full_block (br_block br) (br_width br) f"
    "br_blocks_written br = of_nat (length full)"
    "length old = unat (br_frames_in_block br) * br_width br"
    using files open_file by (auto simp: br_files_ok_def)
  have f2: "files_of br2 = full @ [(br_current_path br, old @ bytes, False)]"
    using f(1) br2(1,2) by (simp add: files_of_def br_fixed_iff p)
  have sum: "unat (br_frames_in_block br + batch) = unat (br_frames_in_block br) + unat batch"
    using room unat_lt_64 [of "br_block_frames br"] by (intro unat_add_64) (simp add: br_block_def)
  have len: "length (old @ bytes) = unat (br_frames_in_block br + batch) * br_width br"
    using f(4) src by (simp add: bytes_def sum add_mult_distrib)
  let ?br = "br_advance_block br2 batch"
  have same: "br_fixed ?br = br_fixed br2"
    by (simp add: br_advance_block_def br_close_current_file_def br_fixed_iff Let_def)
  have bw: "br_block ?br = br_block br" "br_width ?br = br_width br"
    using same br2(1) by (simp_all add: br_block_def br_width_def br_fixed_iff)
  have goal: "br_files_ok ?br \<and> recorded (files_of ?br) = recorded (files_of br) @ bytes"
  proof (cases "br_block br \<le> unat (br_frames_in_block br + batch)")
    case True
    then have eq: "unat (br_frames_in_block br + batch) = br_block br" using room sum by simp
    have "br_block_frames br2 \<le> br_frames_in_block br2 + batch"
      using True br2(1,4) by (simp add: word_le_nat_alt br_block_def br_fixed_iff)
    then have adv: "?br = br2\<lparr>br_frames_in_block := br_frames_in_block br2 + batch,
        br_calls := br_calls br2 @ [Sf_Sync, Sf_Close], br_file_open := False,
        br_current_path := [], br_blocks_written := br_blocks_written br2 + 1\<rparr>"
      using br2(3) by (simp add: br_advance_block_def br_close_current_file_def Let_def)
    have files3: "files_of ?br = full @ [(br_current_path br, old @ bytes, True)]"
      using f2 by (simp add: adv files_of_def)
    have "br_files_ok ?br"
      unfolding br_files_ok_def bw files3
      by (intro exI [of _ "full @ [(br_current_path br, old @ bytes, True)]"] exI [of _ "[]"])
        (use f len eq br2(5) in \<open>simp add: adv\<close>)
    then show ?thesis by (simp add: files3 f(1))
  next
    case False
    have "\<not> br_block_frames br2 \<le> br_frames_in_block br2 + batch"
      using False br2(1,4) by (simp add: word_le_nat_alt br_block_def br_fixed_iff)
    then have adv: "?br = br2\<lparr>br_frames_in_block := br_frames_in_block br2 + batch\<rparr>"
      by (simp add: br_advance_block_def Let_def)
    have files3: "files_of ?br = full @ [(br_current_path br, old @ bytes, False)]"
      using f2 by (simp add: adv files_of_def)
    have "br_files_ok ?br"
      unfolding br_files_ok_def bw files3
      by (intro exI [of _ full] exI [of _ "[(br_current_path br, old @ bytes, False)]"])
        (use f len False br2(3-6) in \<open>simp add: adv\<close>)
    then show ?thesis by (simp add: files3 f(1))
  qed
  show ?thesis using w br2(1) goal same by (simp add: bytes_def)
qed

lemma br_process_ok:
  assumes "opens_succeed lib" and "br_sane br" and "br_files_ok br"
    and "src + unat remaining * br_width br \<le> length (br_write_buffer br)"
  shows "\<exists>br'. br_process lib clock br src remaining = Some (Inr (False, br')) \<and>
     br_fixed br' = br_fixed br \<and> br_files_ok br' \<and>
     recorded (files_of br') = recorded (files_of br) @
       take (unat remaining * br_width br) (drop src (br_write_buffer br))"
  using assms(2-4)
proof (induction "unat remaining" arbitrary: br src remaining rule: less_induct)
  case less
  show ?case
  proof (cases "remaining = 0")
    case True
    then show ?thesis using less.prems by (subst br_process.simps) simp
  next
    case False
    define o1 where "o1 = (if br_file_open br then (True, br) else br_open_next_file lib clock br)"
    obtain opened br1 where o1': "o1 = (opened, br1)" by (cases o1)
    have pos: "0 < br_block br" using less.prems(1) by (simp add: br_sane_def)
    have br1: "opened" "br_file_open br1" "br_files_ok br1"
      "recorded (files_of br1) = recorded (files_of br)" "br_fixed br1 = br_fixed br"
      using br_open_ok [OF assms(1) _ less.prems(2) pos, of clock opened br1] o1' less.prems(2)
      by (auto simp: o1_def split: if_splits)
    have bw: "br_block br1 = br_block br" "br_width br1 = br_width br"
      "br_write_buffer br1 = br_write_buffer br" "br_bytes_per_frame br1 = br_bytes_per_frame br"
      using br1(5) by (simp_all add: br_block_def br_width_def br_fixed_iff)
    have sane1: "br_sane br1" using less.prems(1) br_fixed_sane [OF br1(5)] by simp
    define batch where "batch = min remaining (br_block_frames br1 - br_frames_in_block br1)"
    have f: "unat (br_frames_in_block br1) < br_block br1"
      using br1(2,3) by (auto simp: br_files_ok_def)
    then have space: "unat (br_block_frames br1 - br_frames_in_block br1) =
        br_block br1 - unat (br_frames_in_block br1)"
      by (simp add: unat_sub_64 word_le_nat_alt br_block_def)
    have ub: "unat batch = min (unat remaining) (br_block br1 - unat (br_frames_in_block br1))"
      by (simp add: batch_def unat_min space)
    have b: "0 < unat batch" "unat batch \<le> unat remaining"
      "unat (br_frames_in_block br1) + unat batch \<le> br_block br1"
      using False f ub by (auto simp: unat_gt_0)
    have fits: "unat batch * br_width br \<le> unat remaining * br_width br" using b(2) by simp
    then have src: "src + unat batch * br_width br1 \<le> length (br_write_buffer br1)"
      unfolding bw using less.prems(3) by linarith
    obtain br2 where w: "br_write_batch lib br1 src batch = Inr br2"
      and br4: "br_files_ok (br_advance_block br2 batch)"
        "br_fixed (br_advance_block br2 batch) = br_fixed br"
        "recorded (files_of (br_advance_block br2 batch)) = recorded (files_of br) @
           take (unat batch * br_width br) (drop src (br_write_buffer br))"
      using br_batch_ok [OF sane1 br1(3,2) b(3) src, of lib] br1(4,5) by (auto simp: bw)
    have "length (br_write_buffer br) < 2 ^ 63" using less.prems(1) by (simp add: br_sane_def)
    then have "unat batch * br_width br < 2 ^ 63" using fits less.prems(3) by linarith
    then have step: "unat (batch * br_bytes_per_frame br1) = unat batch * br_width br"
      using less.prems(1) by (subst unat_mult_64) (simp_all add: bw br_sane_def)
    have rest: "unat (remaining - batch) = unat remaining - unat batch"
      using b(2) by (simp add: unat_sub_64 word_le_nat_alt)
    have unfolded: "br_process lib clock br src remaining =
        br_process lib clock (br_advance_block br2 batch) (src + unat batch * br_width br) (remaining - batch)"
      by (subst br_process.simps)
        (simp add: False o1' br1(1) Let_def w step flip: o1_def batch_def)
    have bw4: "br_width (br_advance_block br2 batch) = br_width br"
      "br_write_buffer (br_advance_block br2 batch) = br_write_buffer br"
      using br4(2) by (simp_all add: br_width_def br_fixed_iff)
    have sum: "unat batch * br_width br + unat (remaining - batch) * br_width br = unat remaining * br_width br"
      using b(2) by (simp add: rest flip: add_mult_distrib)
    have "\<exists>br'. br_process lib clock (br_advance_block br2 batch) (src + unat batch * br_width br)
          (remaining - batch) = Some (Inr (False, br')) \<and>
        br_fixed br' = br_fixed (br_advance_block br2 batch) \<and> br_files_ok br' \<and>
        recorded (files_of br') = recorded (files_of (br_advance_block br2 batch)) @
          take (unat (remaining - batch) * br_width (br_advance_block br2 batch))
            (drop (src + unat batch * br_width br) (br_write_buffer (br_advance_block br2 batch)))"
    proof (rule less.hyps)
      show "unat (remaining - batch) < unat remaining" using rest b by simp
      show "br_sane (br_advance_block br2 batch)" using less.prems(1) br_fixed_sane [OF br4(2)] by simp
      show "src + unat batch * br_width br + unat (remaining - batch) * br_width (br_advance_block br2 batch)
          \<le> length (br_write_buffer (br_advance_block br2 batch))"
        unfolding bw4 using less.prems(3) sum by linarith
    qed (rule br4(1))
    then show ?thesis
      unfolding unfolded bw4 br4(2,3) sum [symmetric] take_add by (simp add: add.commute)
  qed
qed

section \<open>Draining the ring\<close>

text \<open>
  The writer's loop over the iterations, as it runs when no push comes in between.
\<close>

partial_function (option) br_drain ::
  "sf_lib \<Rightarrow> (sf_event list \<Rightarrow> u64) \<Rightarrow> recorder \<Rightarrow> recorder outcome option" where
  "br_drain lib clock br =
     (case br_drain_iter lib clock br of
        None \<Rightarrow> None
      | Some (Inl e) \<Rightarrow> Some (Inl e)
      | Some (Inr (res, br1)) \<Rightarrow>
          if res = Go_On then br_drain lib clock br1 else Some (Inr br1))"

text \<open>
  Between iterations: \<open>A\<close> are all bytes accepted by \<open>push\<close>, the first \<open>R\<close> of which have left
  the ring; they are in the files but for an incomplete frame in the write buffer.
\<close>

definition br_inv :: "u8 list \<Rightarrow> nat \<Rightarrow> recorder \<Rightarrow> bool" where
  "br_inv A R br \<longleftrightarrow>
     br_sane br \<and> br_files_ok br \<and> sr_holds A R (br_ring br) \<and>
     unat (br_buffer_used br) < br_width br \<and> br_width br \<le> length (br_write_buffer br) \<and>
     recorded (files_of br) @ take (unat (br_buffer_used br)) (br_write_buffer br) = take R A"

text \<open>What an iteration of the writer leaves alone.\<close>

definition br_params where
  "br_params br = (br_config br, br_sample_rate br, br_channels br, br_bits_per_sample br,
     br_block_frames br, br_bytes_per_frame br, br_recording br, br_writer_running br,
     br_flush_threshold br, length (br_write_buffer br), sr_capacity (br_ring br))"

lemma br_params_width: "br_params a = br_params b \<Longrightarrow> br_width a = br_width b \<and> br_block a = br_block b"
  by (simp add: br_params_def br_width_def br_block_def)

lemma br_drain_iter_empty:
  assumes "br_inv A R br" and "R = length A"
  shows "br_drain_iter lib clock br = Some (Inr (Ring_Empty, br))"
proof -
  have "unat (sr_filled (br_ring br)) = 0" using assms sr_holdsD(8) by (fastforce simp: br_inv_def)
  then have "sr_filled (br_ring br) = 0" by (simp add: unat_eq_0)
  then show ?thesis by (simp add: br_drain_iter_def Let_def)
qed

lemma br_drain_iter_ok:
  assumes opens: "opens_succeed lib" and inv: "br_inv A R br" and data: "R \<noteq> length A"
  shows "\<exists>br' R'. br_drain_iter lib clock br = Some (Inr (Go_On, br')) \<and> br_inv A R' br' \<and>
     R < R' \<and> br_params br' = br_params br"
proof -
  define u where "u = unat (br_buffer_used br)"
  define w where "w = br_width br"
  define L where "L = length (br_write_buffer br)"
  have sane: "br_sane br" and files: "br_files_ok br" and ring: "sr_holds A R (br_ring br)"
    and u: "u < w" and wL: "w \<le> L" and L: "L < 2 ^ 63"
    and rec0: "recorded (files_of br) @ take u (br_write_buffer br) = take R A"
    using inv by (auto simp: br_inv_def br_sane_def u_def w_def L_def)
  have R: "R < length A" using sr_holdsD(4) [OF ring] data by simp
  have uL: "unat (of_nat L :: u64) = L" using L by (simp add: unat_of_nat_64)
  have room: "unat (of_nat L - br_buffer_used br) = L - u"
    using u wL by (subst unat_sub_64) (simp_all add: word_le_nat_alt uL flip: u_def)
  define chunk where "chunk = min (sr_filled (br_ring br)) (of_nat L - br_buffer_used br)"
  define c where "c = unat chunk"
  have c: "c = min (length A - R) (L - u)"
    using sr_holdsD(8) [OF ring] by (simp add: c_def chunk_def unat_min room)
  have c0: "0 < c" "c \<le> length A - R" "u + c \<le> L" using c R u wL by auto
  obtain ring1 where fetch: "sr_fetch (br_ring br) (br_write_buffer br) (br_buffer_used br) chunk =
      Inr (take u (br_write_buffer br) @ take c (drop R A) @ drop (u + c) (br_write_buffer br), ring1)"
    and ring1: "sr_holds A (R + c) ring1" "sr_capacity ring1 = sr_capacity (br_ring br)"
    using sr_fetch_ok [OF ring, of chunk "br_buffer_used br" "br_write_buffer br"] c0 L
    by (auto simp: u_def c_def L_def)
  define wb where "wb = take u (br_write_buffer br) @ take c (drop R A) @ drop (u + c) (br_write_buffer br)"
  define used where "used = br_buffer_used br + chunk"
  define br1 where "br1 = br\<lparr>br_write_buffer := wb, br_ring := ring1, br_buffer_used := used\<rparr>"
  have used: "unat used = u + c"
    unfolding used_def u_def c_def using c0(3) L by (intro unat_add_64) (simp add: u_def c_def)
  have wbl: "length wb = L" using c0 by (simp add: wb_def L_def)
  have taken: "take (u + c) wb = take u (br_write_buffer br) @ take c (drop R A)"
    using c0 by (simp add: wb_def L_def)
  have rec1: "recorded (files_of br) @ take (u + c) wb = take (R + c) A"
    unfolding taken append_assoc [symmetric] rec0 by (simp add: take_add)
  have bpf: "unat (br_bytes_per_frame br) = w" using sane by (simp add: br_sane_def w_def)
  then have bpf0: "br_bytes_per_frame br \<noteq> 0" using u by auto
  have w1: "br_width br1 = w" "br_block br1 = br_block br" by (simp_all add: br1_def br_width_def w_def br_block_def)
  have sane1: "br_sane br1" using sane wbl L by (simp add: br_sane_def w1) (simp add: br1_def w_def)
  have files1: "files_of br1 = files_of br" by (simp add: files_of_def br1_def)
  have files_ok1: "br_files_ok br1"
    using files by (simp add: br1_def)
  define fb where "fb = used - used mod br_bytes_per_frame br"
  define n where "n = (u + c) div w"
  have um: "unat (used mod br_bytes_per_frame br) = (u + c) mod w"
    by (simp add: unat_mod_distrib used bpf)
  have fb: "unat fb = n * w"
  proof -
    have "unat fb = (u + c) - (u + c) mod w"
      unfolding fb_def by (subst unat_sub_64) (simp_all add: word_le_nat_alt um used)
    then show ?thesis by (simp add: n_def minus_mod_eq_div_mult)
  qed
  have frames: "unat (fb div br_bytes_per_frame br) = n"
    using u by (simp add: unat_div_distrib fb bpf)
  have head: "br_drain_iter lib clock br =
      (if n = 0 then Some (Inr (Go_On, br1))
       else case br_process lib clock br1 0 (fb div br_bytes_per_frame br) of
         None \<Rightarrow> None
       | Some (Inl e) \<Rightarrow> Some (Inl e)
       | Some (Inr (True, br2)) \<Rightarrow> Some (Inr (Dropped, br2))
       | Some (Inr (False, br2)) \<Rightarrow>
           let leftover = br_buffer_used br2 - fb
           in Some (obind
                (if 0 < leftover
                 then memcpy (br_write_buffer br2) 0 (br_write_buffer br2) (unat fb) (unat leftover)
                 else Inr (br_write_buffer br2))
                (\<lambda>wb2. Inr (Go_On, br2\<lparr>br_write_buffer := wb2, br_buffer_used := leftover\<rparr>))))"
  proof -
    have "unat (sr_filled (br_ring br)) \<noteq> 0" using sr_holdsD(8) [OF ring] R by simp
    then have "sr_filled (br_ring br) \<noteq> 0" by auto
    moreover have "fb div br_bytes_per_frame br = 0 \<longleftrightarrow> n = 0" using frames by (metis unat_eq_0)
    ultimately show ?thesis
      using bpf0
      unfolding br_drain_iter_def Let_def L_def [symmetric] chunk_def [symmetric]
        fetch [folded wb_def] sum.case prod.case used_def [symmetric] br1_def [symmetric]
        fb_def [symmetric]
      by simp
  qed
  show ?thesis
  proof (cases "n = 0")
    case True
    then have "u + c < w" using u by (simp add: n_def div_eq_0_iff)
    then have "br_inv A (R + c) br1"
      using sane1 files_ok1 ring1 rec1 wL
      by (simp add: br_inv_def w1 files1) (simp add: br1_def used wbl)
    then show ?thesis
      using True head c0(1) ring1(2) wbl
      by (intro exI [of _ br1] exI [of _ "R + c"]) (simp add: br_params_def br1_def L_def)
  next
    case False
    have nw: "n * w \<le> u + c" by (simp add: n_def div_times_less_eq_dividend)
    obtain br2 where p: "br_process lib clock br1 0 (fb div br_bytes_per_frame br) = Some (Inr (False, br2))"
      and fixed: "br_fixed br2 = br_fixed br1" and files2: "br_files_ok br2"
      and rec2: "recorded (files_of br2) = recorded (files_of br) @ take (n * w) wb"
      using br_process_ok [OF opens sane1 files_ok1, of 0 "fb div br_bytes_per_frame br" clock] nw c0(3) wbl
      by (auto simp: frames w1 files1) (auto simp: br1_def)
    have f2: "br_buffer_used br2 = used" "br_write_buffer br2 = wb" "br_ring br2 = ring1"
      using fixed by (simp_all add: br_fixed_iff br1_def)
    define lo where "lo = used - fb"
    have lo: "unat lo = (u + c) mod w"
      unfolding lo_def using nw
      by (subst unat_sub_64) (simp_all add: word_le_nat_alt fb used n_def minus_div_mult_eq_mod)
    have split: "n * w + (u + c) mod w = u + c" by (simp add: n_def)
    define wb2 where "wb2 = take (unat lo) (drop (n * w) wb) @ drop (unat lo) wb"
    have mv: "(if 0 < lo then memcpy wb 0 wb (n * w) (unat lo) else Inr wb) = Inr wb2"
    proof (cases "0 < lo")
      case True
      have "n * w + unat lo \<le> length wb" using split lo c0(3) wbl by simp
      then show ?thesis using True by (simp add: memcpy_ok wb2_def)
    next
      case False
      then have "unat lo = 0" by (simp add: word_less_nat_alt)
      then show ?thesis using False by (simp add: wb2_def)
    qed
    have wb2: "take (unat lo) wb2 = take (unat lo) (drop (n * w) wb)" "length wb2 = L"
      using split lo c0(3) wbl by (simp_all add: wb2_def)
    define br3 where "br3 = br2\<lparr>br_write_buffer := wb2, br_buffer_used := lo\<rparr>"
    have it: "br_drain_iter lib clock br = Some (Inr (Go_On, br3))"
      using False unfolding head p Let_def option.case sum.case prod.case bool.case f2 fb
        lo_def [symmetric] mv obind_simps br3_def by simp
    have w3: "br_width br3 = w" "br_block br3 = br_block br" "br_width br2 = w" "br_block br2 = br_block br"
      using fixed by (simp_all add: br3_def br_width_def br_block_def br_fixed_iff br1_def w_def)
    have sane3: "br_sane br3"
      using sane fixed wb2(2) L by (simp add: br_sane_def w3) (simp add: br3_def br_fixed_iff br1_def w_def)
    have files3: "files_of br3 = files_of br2" by (simp add: files_of_def br3_def)
    have files_ok3: "br_files_ok br3"
      using files2 by (simp add: br3_def)
    have "take (n * w) wb @ take (unat lo) wb2 = take (u + c) wb"
      unfolding wb2(1) take_add [symmetric] by (simp only: lo split)
    then have "recorded (files_of br3) @ take (unat lo) wb2 = take (R + c) A"
      using rec1 by (simp only: files3 rec2 append_assoc)
    then have "br_inv A (R + c) br3"
      using sane3 files_ok3 ring1 wL wb2(2) lo u
      by (simp add: br_inv_def w3) (simp add: br3_def f2)
    moreover have "br_params br3 = br_params br"
      using fixed ring1(2) wb2(2) by (simp add: br_params_def br_fixed_iff br3_def br1_def L_def)
    ultimately show ?thesis using it c0(1) by (intro exI [of _ br3] exI [of _ "R + c"]) simp
  qed
qed

text \<open>The drain loop ends with an empty ring.\<close>

lemma br_drain_ok:
  assumes "opens_succeed lib" and "br_inv A R br"
  shows "\<exists>br'. br_drain lib clock br = Some (Inr br') \<and> br_inv A (length A) br' \<and>
     br_params br' = br_params br"
  using assms(2)
proof (induction "length A - R" arbitrary: R br rule: less_induct)
  case less
  show ?case
  proof (cases "R = length A")
    case True
    with br_drain_iter_empty [OF less.prems True, of lib clock] less.prems show ?thesis
      by (subst br_drain.simps) simp
  next
    case False
    obtain br1 R1 where it: "br_drain_iter lib clock br = Some (Inr (Go_On, br1))"
      and inv1: "br_inv A R1 br1" "R < R1" "br_params br1 = br_params br"
      using br_drain_iter_ok [OF assms(1) less.prems False] by blast
    have "R1 \<le> length A" using inv1(1) sr_holdsD(4) by (auto simp: br_inv_def)
    then have "length A - R1 < length A - R" using inv1(2) by simp
    from less.hyps [OF this inv1(1)] show ?thesis
      using it inv1(3) by (subst br_drain.simps) simp
  qed
qed

end
