(* ===== verification/Recorder_System.thy ===== *)
theory Recorder_System
  imports Block_Recorder
begin

text \<open>
  The block recorder at run time: the capture thread pushing, the writer thread at its three
  program points, and \<open>stop()\<close>, interleaved step by step. A step of the writer is one iteration
  of its drain loop; pushes come in between. The ghost component is the list of all bytes
  that \<open>push()\<close> has accepted. Waiting is its predicate here; \<open>Recorder_Wakeups\<close> has the condition
  variable.
\<close>

section \<open>Steps\<close>

datatype writer_pc = Waiting | Draining | Deciding | Exited

record rec_system =
  rs_rec :: recorder
  rs_pc :: writer_pc
  rs_accepted :: "u8 list"

definition rs_init :: "recorder \<Rightarrow> rec_system" where
  "rs_init br = \<lparr>rs_rec = br_start br, rs_pc = Waiting, rs_accepted = []\<rparr>"

text \<open>\<open>push\<close> is given the \<open>n\<close> frames of a captured period.\<close>

inductive rec_step ::
  "sf_lib \<Rightarrow> (sf_event list \<Rightarrow> u64) \<Rightarrow> rec_system \<Rightarrow> rec_system \<Rightarrow> bool"
  for lib clock where
  push: "\<lbrakk>length data = unat n * br_width (rs_rec s); length data < 2 ^ 63;
      br_push (rs_rec s) data n = Inr (taken, br')\<rbrakk> \<Longrightarrow>
    rec_step lib clock s (s\<lparr>rs_rec := br',
      rs_accepted := rs_accepted s @ (if taken then data else [])\<rparr>)"
| stop: "rec_step lib clock s (s\<lparr>rs_rec := br_stop_flags (rs_rec s)\<rparr>)"
| wake: "\<lbrakk>rs_pc s = Waiting; br_wake (rs_rec s)\<rbrakk> \<Longrightarrow>
    rec_step lib clock s (s\<lparr>rs_pc := Draining\<rparr>)"
| drain: "\<lbrakk>rs_pc s = Draining; br_drain_iter lib clock (rs_rec s) = Some (Inr (res, br'))\<rbrakk> \<Longrightarrow>
    rec_step lib clock s (s\<lparr>rs_rec := br', rs_pc := (if res = Go_On then Draining else Deciding)\<rparr>)"
| again: "\<lbrakk>rs_pc s = Deciding; \<not> br_exit (rs_rec s)\<rbrakk> \<Longrightarrow>
    rec_step lib clock s (s\<lparr>rs_pc := Waiting\<rparr>)"
| exit: "\<lbrakk>rs_pc s = Deciding; br_exit (rs_rec s)\<rbrakk> \<Longrightarrow>
    rec_step lib clock s (s\<lparr>rs_rec := br_close_current_file (rs_rec s), rs_pc := Exited\<rparr>)"

inductive rec_reachable ::
  "sf_lib \<Rightarrow> (sf_event list \<Rightarrow> u64) \<Rightarrow> recorder \<Rightarrow> rec_system \<Rightarrow> bool"
  for lib clock br0 where
  init: "rec_reachable lib clock br0 (rs_init br0)"
| step: "\<lbrakk>rec_reachable lib clock br0 s; rec_step lib clock s s'\<rbrakk> \<Longrightarrow> rec_reachable lib clock br0 s'"

section \<open>A fresh recorder\<close>

lemma unat_one_second:
  "unat (ucast (rate :: u32) * (ucast (channels :: u16) * of_nat (bytes_of_bits bits)) :: u64) =
   unat rate * (unat channels * bytes_of_bits bits)"
  "unat (ucast (channels :: u16) * of_nat (bytes_of_bits bits) :: u64) = unat channels * bytes_of_bits bits"
proof -
  have b: "bytes_of_bits bits < 2 ^ 13"
    using unat_lt_16 [of bits] by (simp add: bytes_of_bits_def less_mult_imp_div_less)
  then have ub: "unat (of_nat (bytes_of_bits bits) :: u64) = bytes_of_bits bits"
    by (intro unat_of_nat_64) simp
  have w: "unat channels * bytes_of_bits bits < 2 ^ 16 * 2 ^ 13"
    by (rule mult_strict_mono) (use unat_lt_16 [of channels] b in simp_all)
  show bpf: "unat (ucast (channels :: u16) * of_nat (bytes_of_bits bits) :: u64) =
      unat channels * bytes_of_bits bits"
    using w by (subst unat_mult_64) (simp_all add: ub unat_ucast_16)
  have "unat rate * (unat channels * bytes_of_bits bits) < 2 ^ 32 * (2 ^ 16 * 2 ^ 13)"
    by (rule mult_strict_mono) (use unat_lt_32 [of rate] w in simp_all)
  then show "unat (ucast (rate :: u32) * (ucast (channels :: u16) * of_nat (bytes_of_bits bits)) :: u64) =
      unat rate * (unat channels * bytes_of_bits bits)"
    by (subst unat_mult_64) (simp_all add: bpf unat_ucast_32)
qed

text \<open>Bytes of one second of audio, for a recorder created with the given parameters.\<close>

definition second_bytes :: "u32 \<Rightarrow> u16 \<Rightarrow> u16 \<Rightarrow> nat" where
  "second_bytes rate channels bits = unat rate * (unat channels * bytes_of_bits bits)"

lemma second_bytes_lt:
  assumes "supported_bits bits"
  shows "second_bytes rate channels bits < 2 ^ 50"
proof -
  have "unat channels * bytes_of_bits bits < 2 ^ 18"
    using assms unat_lt_16 [of channels] by (cases rule: supported_bits_cases) simp_all
  then have "second_bytes rate channels bits < 2 ^ 32 * 2 ^ 18"
    unfolding second_bytes_def by (intro mult_strict_mono) (use unat_lt_32 [of rate] in simp_all)
  then show ?thesis by simp
qed

lemma br_new_ok:
  assumes new: "br_new mem_ok config rate channels bits = Inr br"
    and bits: "supported_bits bits" and "channels \<noteq> 0" and "rate \<noteq> 0"
  shows "br_width br = unat channels * bytes_of_bits bits" and "0 < br_width br"
    and "br_block br = unat (bc_block_duration_seconds config) * unat rate"
    and "unat (br_flush_threshold br) = max (second_bytes rate channels bits) 65536"
    and "length (br_write_buffer br) = 2 * max (second_bytes rate channels bits) 65536"
    and "sr_holds [] 0 (br_ring br)"
    and "4 * second_bytes rate channels bits \<le> unat (sr_capacity (br_ring br))"
    and "unat (sr_capacity (br_ring br)) < 8 * second_bytes rate channels bits"
    and "br_calls br = []" and "br_buffer_used br = 0" and "\<not> br_file_open br"
    and "br_blocks_written br = 0" and "unat (br_bytes_per_frame br) = br_width br"
    and "br_bits_per_sample br = bits" and "br_channels br = channels"
    and "\<not> br_recording br" and "\<not> br_writer_running br" and "br_config br = config"
proof -
  let ?bpf = "ucast channels * of_nat (bytes_of_bits bits) :: u64"
  let ?one = "ucast rate * ?bpf :: u64"
  have lt: "second_bytes rate channels bits < 2 ^ 50" using bits by (rule second_bytes_lt)
  have one: "unat ?one = second_bytes rate channels bits"
    by (simp only: unat_one_second second_bytes_def)
  have flush: "unat (max ?one 65536) = max (second_bytes rate channels bits) 65536"
    by (simp add: max_def word_le_nat_alt one)
  have wbl: "unat (max ?one 65536 * 2) = max (second_bytes rate channels bits) 65536 * 2"
    using lt by (subst unat_mult_64) (simp_all add: flush)
  have four: "unat (?one * 4) = second_bytes rate channels bits * 4"
    using lt by (subst unat_mult_64) (simp_all add: one)
  from new obtain wb ring where wb: "new_zeroed mem_ok (unat (max ?one 65536 * 2)) = Inr wb"
    and ring: "sr_new mem_ok (?one * 4) = Inr ring"
    and br: "br = \<lparr>br_config = config, br_sample_rate = rate, br_channels = channels,
              br_bits_per_sample = bits,
              br_block_frames = ucast (bc_block_duration_seconds config) * ucast rate,
              br_bytes_per_frame = ?bpf, br_recording = False, br_ring = ring,
              br_writer_running = False, br_file_open = False, br_current_path = [],
              br_frames_in_block = 0, br_write_buffer = wb, br_buffer_used = 0,
              br_flush_threshold = max ?one 65536, br_blocks_written = 0,
              br_total_frames_written = 0, br_stats_current_file = [], br_calls = []\<rparr>"
    by (auto simp: br_new_def Let_def obind_Inr_iff)
  show w: "br_width br = unat channels * bytes_of_bits bits" by (simp add: br br_width_def)
  have "0 < unat channels" "0 < unat rate" using assms(3,4) by (simp_all add: unat_gt_0)
  moreover have "0 < bytes_of_bits bits" using bits by (auto elim: supported_bits_cases)
  ultimately show pos: "0 < br_width br" by (simp add: w)
  then have sec: "0 < second_bytes rate channels bits"
    using \<open>0 < unat rate\<close> by (simp add: second_bytes_def w)
  have "unat (bc_block_duration_seconds config) * unat rate < 2 ^ 32 * 2 ^ 32"
    by (intro mult_strict_mono) (simp_all add: unat_lt_32 del: power_numeral) 
  then show "br_block br = unat (bc_block_duration_seconds config) * unat rate"
    by (simp add: br br_block_def unat_mult_64 unat_ucast_32)
  show "unat (br_flush_threshold br) = max (second_bytes rate channels bits) 65536"
    by (simp add: br flush)
  show "length (br_write_buffer br) = 2 * max (second_bytes rate channels bits) 65536"
    using wb by (auto simp: br wbl new_zeroed_def split: if_splits)
  have nz: "?one * 4 \<noteq> 0" using four sec by auto
  have "unat (?one * 4) \<le> 2 ^ 62" using four lt by simp
  note ring' = sr_new_holds [OF ring nz this]
  show "sr_holds [] 0 (br_ring br)" using ring'(1) by (simp add: br)
  show "4 * second_bytes rate channels bits \<le> unat (sr_capacity (br_ring br))"
    using ring'(2) unfolding four by (simp add: br)
  show "unat (sr_capacity (br_ring br)) < 8 * second_bytes rate channels bits"
    using ring'(3) unfolding four by (simp add: br)
  show "unat (br_bytes_per_frame br) = br_width br" by (simp add: w) (simp add: br unat_one_second)
  show "br_calls br = []" and "br_buffer_used br = 0" and "\<not> br_file_open br"
    and "br_blocks_written br = 0" and "br_bits_per_sample br = bits" and "br_channels br = channels"
    and "\<not> br_recording br" and "\<not> br_writer_running br" and "br_config br = config"
    by (simp_all add: br)
qed

lemma br_start_inv:
  assumes "br_new mem_ok config rate channels bits = Inr br"
    and "supported_bits bits" and "channels \<noteq> 0" and "rate \<noteq> 0"
    and "bc_block_duration_seconds config \<noteq> 0"
  shows "br_inv [] 0 (br_start br)"
proof -
  note N = br_new_ok [OF assms(1-4)]
  have lt: "second_bytes rate channels bits < 2 ^ 50" using assms(2) by (rule second_bytes_lt)
  have "br_width br \<le> second_bytes rate channels bits"
    using assms(4) by (simp add: N(1) second_bytes_def unat_gt_0 Suc_leI)
  then have w: "br_width br \<le> length (br_write_buffer br)" by (simp add: N(5))
  have B: "0 < br_block br" using assms(4,5) by (simp add: N(3) unat_gt_0)
  have sane: "br_sane br"
    using assms(2,3) B N(5,13-15) lt by (simp add: br_sane_def)
  have files: "files_of br = []" by (simp add: files_of_def N)
  have "br_files_ok br" by (simp add: br_files_ok_def files N)
  moreover have "br_fixed br = br_fixed br" ..
  moreover have "br_sane (br_start br)" "br_width (br_start br) = br_width br"
    using sane by (simp_all add: br_start_def br_sane_def br_width_def br_block_def)
  ultimately show ?thesis
    using N w files
    by (simp add: br_inv_def) (simp add: br_start_def files_of_def)
qed

section \<open>The invariant\<close>

text \<open>
  The shape of the files: complete blocks, then at most one shorter file, which is closed
  exactly when the writer has exited.
\<close>

definition blocks_shape :: "nat \<Rightarrow> nat \<Rightarrow> bool \<Rightarrow> block_file list \<Rightarrow> bool" where
  "blocks_shape B w exited fs \<longleftrightarrow>
     (\<exists>full cur. fs = full @ cur \<and> (\<forall>f \<in> set full. full_block B w f) \<and>
        (cur = [] \<or> (\<exists>path n bytes. cur = [(path, bytes, exited)] \<and> n < B \<and> length bytes = n * w)))"

definition br_static where
  "br_static br = (br_config br, br_bits_per_sample br, br_channels br, br_block_frames br,
     br_flush_threshold br, length (br_write_buffer br), sr_capacity (br_ring br))"

definition rs_ok :: "recorder \<Rightarrow> rec_system \<Rightarrow> bool" where
  "rs_ok br0 s \<longleftrightarrow>
     br_static (rs_rec s) = br_static br0 \<and>
     br_width br0 dvd length (rs_accepted s) \<and>
     br_recording (rs_rec s) = br_writer_running (rs_rec s) \<and>
     (if rs_pc s = Exited
      then \<not> br_recording (rs_rec s) \<and> recorded (files_of (rs_rec s)) = rs_accepted s \<and>
           blocks_shape (br_block br0) (br_width br0) True (files_of (rs_rec s))
      else \<exists>R. br_inv (rs_accepted s) R (rs_rec s))"

lemma br_static_width: "br_static a = br_static b \<Longrightarrow> br_width a = br_width b \<and> br_block a = br_block b"
  by (simp add: br_static_def br_width_def br_block_def)

lemma br_params_static:
  "br_params a = br_params b \<Longrightarrow>
   br_static a = br_static b \<and> br_recording a = br_recording b \<and> br_writer_running a = br_writer_running b"
  by (simp add: br_params_def br_static_def)

lemma br_inv_shape:
  assumes "br_inv A R br"
  shows "blocks_shape (br_block br) (br_width br) False (files_of br)"
proof -
  from assms obtain full cur where f: "files_of br = full @ cur"
    "\<forall>f \<in> set full. full_block (br_block br) (br_width br) f"
    and cur: "if br_file_open br
         then \<exists>bytes. cur = [(br_current_path br, bytes, False)] \<and>
                length bytes = unat (br_frames_in_block br) * br_width br \<and>
                unat (br_frames_in_block br) < br_block br
         else cur = []"
    unfolding br_inv_def br_files_ok_def by blast
  have "cur = [] \<or> (\<exists>path n bytes. cur = [(path, bytes, False)] \<and> n < br_block br \<and>
      length bytes = n * br_width br)"
    using cur by (cases "br_file_open br") auto
  then show ?thesis using f unfolding blocks_shape_def by blast
qed

lemma dvd_recorded:
  assumes "blocks_shape B w c fs"
  shows "w dvd length (recorded fs)"
proof -
  from assms obtain full cur where fs: "fs = full @ cur" and f: "\<forall>f \<in> set full. full_block B w f"
    and cur: "cur = [] \<or> (\<exists>path n bytes. cur = [(path, bytes, c)] \<and> n < B \<and> length bytes = n * w)"
    unfolding blocks_shape_def by blast
  have "w dvd length (recorded full)"
    using f by (induction full) (auto simp: recorded_def full_block_def)
  moreover have "length (recorded fs) = length (recorded full) + length (recorded cur)"
    by (simp add: fs recorded_def)
  ultimately show ?thesis using cur by (auto simp: recorded_def)
qed

lemma br_push_ok:
  assumes inv: "br_inv A R br" and n: "length data = unat n * br_width br" "length data < 2 ^ 63"
  shows "\<exists>taken br'. br_push br data n = Inr (taken, br') \<and>
     br_inv (A @ (if taken then data else [])) R br' \<and> br_static br' = br_static br \<and>
     br_recording br' = br_recording br \<and> br_writer_running br' = br_writer_running br \<and>
     (taken \<longleftrightarrow> br_recording br \<and> length A - R + length data \<le> unat (sr_capacity (br_ring br)))"
proof (cases "br_recording br")
  case False
  then show ?thesis using inv by (auto simp: br_push_def)
next
  case True
  have ring: "sr_holds A R (br_ring br)" using inv by (simp add: br_inv_def)
  have bytes: "unat (n * br_bytes_per_frame br) = length data"
    using inv n by (subst unat_mult_64) (simp_all add: br_inv_def br_sane_def)
  show ?thesis
  proof (cases "length A - R + length data \<le> unat (sr_capacity (br_ring br))")
    case fits: True
    obtain rg where push: "sr_push (br_ring br) data (n * br_bytes_per_frame br) = Inr (True, rg)"
      and rg: "sr_holds (A @ data) R rg" "sr_capacity rg = sr_capacity (br_ring br)"
      using sr_push_fits [OF ring, of "n * br_bytes_per_frame br" data] fits by (auto simp: bytes)
    have "R \<le> length A" using sr_holdsD(4) [OF ring] .
    then have "br_inv (A @ data) R (br\<lparr>br_ring := rg\<rparr>)"
      using inv rg(1) by (simp add: br_inv_def br_sane_def br_width_def br_block_def)
    then show ?thesis
      using True fits push rg(2)
      by (intro exI [of _ True] exI [of _ "br\<lparr>br_ring := rg\<rparr>"]) (simp add: br_push_def br_static_def)
  next
    case full: False
    then have "sr_push (br_ring br) data (n * br_bytes_per_frame br) = Inr (False, br_ring br)"
      using sr_push_full [OF ring, of "n * br_bytes_per_frame br" data] by (simp add: bytes)
    then show ?thesis
      using True full inv by (intro exI [of _ False] exI [of _ br]) (simp add: br_push_def)
  qed
qed

lemma br_exit_ok:
  assumes inv: "br_inv A R br" and ex: "br_exit br" and A: "br_width br dvd length A"
  shows "recorded (files_of (br_close_current_file br)) = A"
    and "blocks_shape (br_block br) (br_width br) True (files_of (br_close_current_file br))"
    and "br_static (br_close_current_file br) = br_static br"
proof -
  have "sr_filled (br_ring br) = 0" using ex by (simp add: br_exit_def sr_filled_def)
  moreover have ring: "sr_holds A R (br_ring br)" using inv by (simp add: br_inv_def)
  ultimately have "length A - R = 0" using sr_holdsD(8) [OF ring] by simp
  then have "take R A = A" by simp
  then have rec: "recorded (files_of br) @ take (unat (br_buffer_used br)) (br_write_buffer br) = A"
    and used: "unat (br_buffer_used br) < br_width br" "br_width br \<le> length (br_write_buffer br)"
    using inv by (simp_all add: br_inv_def)
  then have "length A = length (recorded (files_of br)) + unat (br_buffer_used br)" by auto
  then have "br_width br dvd unat (br_buffer_used br)"
    using A dvd_recorded [OF br_inv_shape [OF inv]] by (simp add: dvd_add_right_iff)
  with used(1) have "unat (br_buffer_used br) = 0" by (auto dest: dvd_imp_le)
  with rec have A: "recorded (files_of br) = A" by simp
  show "br_static (br_close_current_file br) = br_static br"
    by (simp add: br_close_current_file_def br_static_def)
  from inv obtain full cur where f: "files_of br = full @ cur"
    "\<forall>f \<in> set full. full_block (br_block br) (br_width br) f"
    and cur: "if br_file_open br
         then \<exists>bytes. cur = [(br_current_path br, bytes, False)] \<and>
                length bytes = unat (br_frames_in_block br) * br_width br \<and>
                unat (br_frames_in_block br) < br_block br
         else cur = []"
    by (auto simp: br_inv_def br_files_ok_def)
  have "recorded (files_of (br_close_current_file br)) = A \<and>
      blocks_shape (br_block br) (br_width br) True (files_of (br_close_current_file br))"
  proof (cases "br_file_open br")
    case True
    with cur obtain bytes where cur': "cur = [(br_current_path br, bytes, False)]"
      "length bytes = unat (br_frames_in_block br) * br_width br"
      "unat (br_frames_in_block br) < br_block br" by auto
    then have "files_of (br_close_current_file br) = full @ [(br_current_path br, bytes, True)]"
      using True f(1) by (simp add: br_close_current_file_def files_of_def)
    moreover from this have "blocks_shape (br_block br) (br_width br) True (files_of (br_close_current_file br))"
      using f(2) cur'(2,3) unfolding blocks_shape_def by blast
    ultimately show ?thesis using f(1) cur'(1) A by auto
  next
    case False
    then show ?thesis using f cur A unfolding blocks_shape_def by (auto simp: br_close_current_file_def)
  qed
  then show "recorded (files_of (br_close_current_file br)) = A"
    and "blocks_shape (br_block br) (br_width br) True (files_of (br_close_current_file br))" by auto
qed

lemma br_static_stop [simp]: "br_static (br_stop_flags br) = br_static br"
  by (simp add: br_stop_flags_def br_static_def)

lemma br_inv_stop [simp]: "br_inv A R (br_stop_flags br) = br_inv A R br"
  by (simp add: br_inv_def br_stop_flags_def br_sane_def br_width_def br_block_def)

lemma files_of_stop [simp]: "files_of (br_stop_flags br) = files_of br"
  by (simp add: br_stop_flags_def)

lemma rs_ok_step:
  assumes opens: "opens_succeed lib" and ok: "rs_ok br0 s" and step: "rec_step lib clock s s'"
  shows "rs_ok br0 s'"
  using step
proof cases
  case (push data n taken br')
  have w: "br_width (rs_rec s) = br_width br0"
    using ok br_static_width [of "rs_rec s" br0] by (simp add: rs_ok_def)
  show ?thesis
  proof (cases "rs_pc s = Exited")
    case True
    then show ?thesis using ok push by (auto simp: rs_ok_def br_push_def)
  next
    case False
    with ok obtain R where "br_inv (rs_accepted s) R (rs_rec s)" by (auto simp: rs_ok_def)
    from br_push_ok [OF this push(2,3)] push(4)
    have "br_inv (rs_accepted s @ (if taken then data else [])) R br'"
      "br_static br' = br_static (rs_rec s)" "br_recording br' = br_recording (rs_rec s)"
      "br_writer_running br' = br_writer_running (rs_rec s)" by auto
    moreover have "br_width br0 dvd length (rs_accepted s @ (if taken then data else []))"
      using ok push(2) by (simp add: rs_ok_def w)
    ultimately show ?thesis using ok False push(1) by (auto simp: rs_ok_def)
  qed
next
  case stop
  then show ?thesis using ok by (auto simp: rs_ok_def) (simp_all add: br_stop_flags_def)
next
  case wake
  then show ?thesis using ok by (auto simp: rs_ok_def)
next
  case (drain res br')
  with ok obtain R where inv: "br_inv (rs_accepted s) R (rs_rec s)" by (auto simp: rs_ok_def)
  have "(\<exists>R. br_inv (rs_accepted s) R br') \<and> br_params br' = br_params (rs_rec s)"
    using br_drain_iter_empty [OF inv, of lib clock] br_drain_iter_ok [OF opens inv, of clock] drain(3) inv
    by (cases "R = length (rs_accepted s)") auto
  with br_params_static [of br' "rs_rec s"] ok drain show ?thesis by (auto simp: rs_ok_def)
next
  case again
  then show ?thesis using ok by (auto simp: rs_ok_def)
next
  case exit
  with ok obtain R where inv: "br_inv (rs_accepted s) R (rs_rec s)" by (auto simp: rs_ok_def)
  have w: "br_width (rs_rec s) = br_width br0" "br_block (rs_rec s) = br_block br0"
    using ok br_static_width [of "rs_rec s" br0] by (auto simp: rs_ok_def)
  have "br_width (rs_rec s) dvd length (rs_accepted s)" using ok by (simp add: rs_ok_def w)
  note E = br_exit_ok [OF inv exit(3) this]
  moreover have "\<not> br_recording (br_close_current_file (rs_rec s))"
    "\<not> br_writer_running (br_close_current_file (rs_rec s))"
    using exit(3) ok by (auto simp: br_exit_def br_close_current_file_def rs_ok_def)
  ultimately show ?thesis using ok exit(1) by (simp add: rs_ok_def w)
qed

lemma rs_ok_reachable:
  assumes "rec_reachable lib clock br0 s" and "opens_succeed lib" and "br_inv [] 0 (br_start br0)"
    and "\<not> br_recording br0" and "\<not> br_writer_running br0"
  shows "rs_ok br0 s"
  using assms(1)
proof induction
  case init
  show ?case using assms(3-5) by (auto simp: rs_ok_def rs_init_def br_start_def br_static_def)
next
  case (step s s')
  then show ?case using rs_ok_step [OF assms(2)] by blast
qed

section \<open>Stopping\<close>

abbreviation rec_steps where
  "rec_steps lib clock \<equiv> (rec_step lib clock)\<^sup>*\<^sup>*"

lemma rec_drains_to_exit:
  assumes opens: "opens_succeed lib"
  shows "\<lbrakk>rs_ok br0 s; br_inv (rs_accepted s) R (rs_rec s); \<not> br_writer_running (rs_rec s); rs_pc s = Draining\<rbrakk> \<Longrightarrow>
    \<exists>s'. rec_steps lib clock s s' \<and> rs_pc s' = Exited \<and> rs_accepted s' = rs_accepted s"
proof (induction "length (rs_accepted s) - R" arbitrary: s R rule: less_induct)
  case less
  show ?case
  proof (cases "R = length (rs_accepted s)")
    case True
    let ?s1 = "s\<lparr>rs_rec := rs_rec s, rs_pc := (if Ring_Empty = Go_On then Draining else Deciding)\<rparr>"
    have "rec_step lib clock s ?s1"
      by (rule rec_step.drain [OF less.prems(4) br_drain_iter_empty [OF less.prems(2) True]])
    moreover have "br_exit (rs_rec ?s1)"
      using less.prems(2,3) True by (simp add: br_exit_def br_inv_def sr_holds_def)
    then have "rec_step lib clock ?s1 (?s1\<lparr>rs_rec := br_close_current_file (rs_rec ?s1), rs_pc := Exited\<rparr>)"
      by (intro rec_step.exit) simp_all
    ultimately have "rec_steps lib clock s (?s1\<lparr>rs_rec := br_close_current_file (rs_rec ?s1), rs_pc := Exited\<rparr>)"
      by (meson converse_rtranclp_into_rtranclp rtranclp.rtrancl_refl)
    then show ?thesis by (rule exI [where P = "\<lambda>s'. _ s' \<and> _ s'", OF conjI]) simp
  next
    case False
    obtain br1 R1 where it: "br_drain_iter lib clock (rs_rec s) = Some (Inr (Go_On, br1))"
      and inv1: "br_inv (rs_accepted s) R1 br1" "R < R1" "br_params br1 = br_params (rs_rec s)"
      using br_drain_iter_ok [OF opens less.prems(2) False] by blast
    let ?s1 = "s\<lparr>rs_rec := br1, rs_pc := (if Go_On = Go_On then Draining else Deciding)\<rparr>"
    have st: "rec_step lib clock s ?s1" by (rule rec_step.drain [OF less.prems(4) it])
    have "R1 \<le> length (rs_accepted s)" using inv1(1) sr_holdsD(4) by (auto simp: br_inv_def)
    then have "length (rs_accepted ?s1) - R1 < length (rs_accepted s) - R" using inv1(2) by simp
    moreover have "rs_ok br0 ?s1" by (rule rs_ok_step [OF opens less.prems(1) st])
    ultimately obtain s' where "rec_steps lib clock ?s1 s'" "rs_pc s' = Exited"
        "rs_accepted s' = rs_accepted ?s1"
      using less.hyps [of ?s1 R1] inv1 less.prems(3) br_params_static [OF inv1(3)] by auto
    then show ?thesis using st by (auto intro: converse_rtranclp_into_rtranclp)
  qed
qed

lemma rec_stop_exits:
  assumes opens: "opens_succeed lib" and ok: "rs_ok br0 s"
  shows "\<exists>s'. rec_steps lib clock (s\<lparr>rs_rec := br_stop_flags (rs_rec s)\<rparr>) s' \<and>
    rs_pc s' = Exited \<and> rs_accepted s' = rs_accepted s"
proof -
  let ?s = "s\<lparr>rs_rec := br_stop_flags (rs_rec s)\<rparr>"
  have off: "\<not> br_writer_running (rs_rec ?s)" by (simp add: br_stop_flags_def)
  have ok1: "rs_ok br0 ?s" by (rule rs_ok_step [OF opens ok rec_step.stop])
  have draining: "\<exists>s'. rec_steps lib clock t s' \<and> rs_pc s' = Exited \<and> rs_accepted s' = rs_accepted t"
    if t: "rs_ok br0 t" "\<not> br_writer_running (rs_rec t)" "rs_pc t = Draining" for t
  proof -
    have "\<exists>R. br_inv (rs_accepted t) R (rs_rec t)" using t by (auto simp: rs_ok_def)
    then obtain R where "br_inv (rs_accepted t) R (rs_rec t)" ..
    from rec_drains_to_exit [OF opens t(1) this t(2,3)] show ?thesis .
  qed
  have waiting: "\<exists>s'. rec_steps lib clock t s' \<and> rs_pc s' = Exited \<and> rs_accepted s' = rs_accepted t"
    if t: "rs_ok br0 t" "\<not> br_writer_running (rs_rec t)" "rs_pc t = Waiting" for t
  proof -
    let ?t = "t\<lparr>rs_pc := Draining\<rparr>"
    have st: "rec_step lib clock t ?t" by (rule rec_step.wake [OF t(3)]) (simp add: br_wake_def t(2))
    from draining [of ?t] rs_ok_step [OF opens t(1) st] t(2)
    show ?thesis using st by (auto intro: converse_rtranclp_into_rtranclp)
  qed
  have "\<exists>s'. rec_steps lib clock ?s s' \<and> rs_pc s' = Exited \<and> rs_accepted s' = rs_accepted ?s"
  proof (cases "rs_pc s")
    case Waiting
    then show ?thesis using waiting [of ?s] ok1 off by simp
  next
    case Draining
    then show ?thesis using draining [of ?s] ok1 off by simp
  next
    case Deciding
    show ?thesis
    proof (cases "br_exit (rs_rec ?s)")
      case True
      have "rec_step lib clock ?s (?s\<lparr>rs_rec := br_close_current_file (rs_rec ?s), rs_pc := Exited\<rparr>)"
        by (rule rec_step.exit) (use Deciding True in simp_all)
      then show ?thesis by (intro exI conjI, rule r_into_rtranclp) simp_all
    next
      case False
      let ?t = "?s\<lparr>rs_pc := Waiting\<rparr>"
      have st: "rec_step lib clock ?s ?t" by (rule rec_step.again) (use Deciding False in simp_all)
      from waiting [of ?t] rs_ok_step [OF opens ok1 st] off
      show ?thesis using st by (auto intro: converse_rtranclp_into_rtranclp)
    qed
  next
    case Exited
    then show ?thesis by (intro exI [of _ ?s]) simp
  qed
  then show ?thesis by simp
qed

section \<open>A recorder that works, as a concrete instance\<close>

text \<open>16 kHz, mono, 16 bit, blocks of one second; every file opens.\<close>

definition demo_config :: block_config where
  "demo_config = \<lparr>bc_enabled = True, bc_output_dir = ''/rec'', bc_block_duration_seconds = 1,
     bc_format = ''wav'', bc_max_blocks = 0\<rparr>"

lemma demo_recorder:
  assumes "supported_bits bits"
  obtains br where "br_new (\<lambda>n. True) demo_config rate channels bits = Inr br"
    and "second_bytes rate channels bits < 2 ^ 50"
proof -
  have lt: "second_bytes rate channels bits < 2 ^ 50"
    by (rule second_bytes_lt [OF assms])
  let ?one = "ucast rate * (ucast channels * of_nat (bytes_of_bits bits)) :: u64"
  have one: "unat ?one = second_bytes rate channels bits"
    by (simp only: unat_one_second second_bytes_def)
  have flush: "unat (max ?one 65536) = max (second_bytes rate channels bits) 65536"
    by (simp add: max_def word_le_nat_alt one)
  have wbl: "unat (max ?one 65536 * 2) = max (second_bytes rate channels bits) 65536 * 2"
    using lt by (subst unat_mult_64) (simp_all add: flush)
  have four: "unat (?one * 4) = second_bytes rate channels bits * 4"
    using lt by (subst unat_mult_64) (simp_all add: one)
  have cap: "unat (next_pow2 (?one * 4)) < 2 ^ 63"
  proof (cases "?one * 4 = 0")
    case True
    have "next_pow2 0 = 0" by (simp add: next_pow2_def smear_right_def)
    then show ?thesis using True by simp
  next
    case False
    have "unat (?one * 4) \<le> 2 ^ 63" using four lt by simp
    from next_pow2_spec [OF False this] show ?thesis using four lt by auto
  qed
  have "new_zeroed (\<lambda>n. True) (unat (max ?one 65536 * 2)) =
      Inr (replicate (unat (max ?one 65536 * 2)) (0 :: u8))"
    using lt by (simp add: new_zeroed_def wbl)
  moreover have "new_zeroed (\<lambda>n. True) (unat (next_pow2 (?one * 4))) =
      Inr (replicate (unat (next_pow2 (?one * 4))) (0 :: u8))"
    using cap by (simp add: new_zeroed_def)
  ultimately obtain br where "br_new (\<lambda>n. True) demo_config rate channels bits = Inr br"
    unfolding br_new_def Let_def sr_new_def by simp
  then show thesis using lt that by blast
qed

lemma demo_opens: "opens_succeed reliable_lib"
  by (simp add: opens_succeed_def reliable_lib_def)

lemma demo_reaches:
  assumes "br_new (\<lambda>n. True) demo_config 16000 1 16 = Inr br"
  shows "\<exists>s. rec_reachable reliable_lib (\<lambda>calls. 0) br s \<and> rs_accepted s = [1, 2]"
proof -
  have b: "supported_bits 16" by (simp add: supported_bits_def)
  have n: "(1 :: u16) \<noteq> 0" "(16000 :: u32) \<noteq> 0" by simp_all
  note N = br_new_ok [OF assms b n]
  have "bc_block_duration_seconds demo_config \<noteq> 0" by (simp add: demo_config_def)
  from br_start_inv [OF assms b n this] have inv: "br_inv [] 0 (br_start br)" .
  have w: "br_width br = 2" by (simp add: N(1) bytes_of_bits_def)
  have st: "br_recording (br_start br)" "br_width (br_start br) = 2" "br_ring (br_start br) = br_ring br"
    using w by (simp_all add: br_start_def N(18) demo_config_def br_width_def)
  have "128000 \<le> unat (sr_capacity (br_ring br))"
    using N(7) by (simp add: second_bytes_def bytes_of_bits_def)
  then obtain br' where "br_push (br_start br) [1, 2] 1 = Inr (True, br')"
    using br_push_ok [OF inv, of "[1, 2]" 1] st by auto
  then have "rec_step reliable_lib (\<lambda>calls. 0) (rs_init br) ((rs_init br)\<lparr>rs_rec := br',
      rs_accepted := rs_accepted (rs_init br) @ (if True then [1, 2] else [])\<rparr>)"
    by (intro rec_step.push) (simp_all add: rs_init_def st)
  from rec_reachable.step [OF rec_reachable.init this] show ?thesis
    by (intro exI conjI) (assumption, simp add: rs_init_def)
qed

end
