(* ===== verification/Recorder_Properties.thy ===== *)
theory Recorder_Properties
  imports Recorder_System
begin

text \<open>
  What the block recorder guarantees, and where its guarantees end: gapless blocks, the flush
  on \<open>stop()\<close>, when a full ring is drained, the names of the files, and the behaviour with
  blocks of zero length and files that cannot be opened.
\<close>

section \<open>Blocks without gaps\<close>

text \<open>
  C1: gapless recording. In every reachable state the files written so far, put end to end,
  are a prefix of the audio that \<open>push()\<close> accepted: no frame is lost, repeated or reordered
  between one file and the next. Every file but the last holds exactly
  \<open>block_duration_seconds * sample_rate\<close> frames and is closed; the last is shorter. Once the
  writer has exited, nothing accepted is missing.
\<close>

theorem recorder_files_gapless:
  assumes "br_new mem_ok config rate channels bits = Inr br"
    and "supported_bits bits" and "channels \<noteq> 0" and "rate \<noteq> 0"
    and "bc_block_duration_seconds config \<noteq> 0" and "opens_succeed lib"
    and "rec_reachable lib clock br s"
  shows "\<exists>pending. rs_accepted s = recorded (files_of (rs_rec s)) @ pending \<and>
     (rs_pc s = Exited \<longrightarrow> pending = []) \<and>
     blocks_shape (unat (bc_block_duration_seconds config) * unat rate)
       (unat channels * bytes_of_bits bits) (rs_pc s = Exited) (files_of (rs_rec s))"
proof -
  note N = br_new_ok [OF assms(1-4)]
  have ok: "rs_ok br s"
    by (rule rs_ok_reachable [OF assms(7,6) br_start_inv [OF assms(1-5)] N(16,17)])
  have w: "br_width (rs_rec s) = br_width br" "br_block (rs_rec s) = br_block br"
    using ok br_static_width [of "rs_rec s" br] by (auto simp: rs_ok_def)
  show ?thesis
  proof (cases "rs_pc s = Exited")
    case True
    then show ?thesis using ok by (simp add: rs_ok_def N(1,3))
  next
    case False
    with ok obtain R where inv: "br_inv (rs_accepted s) R (rs_rec s)" by (auto simp: rs_ok_def)
    then have "take R (rs_accepted s) =
        recorded (files_of (rs_rec s)) @ take (unat (br_buffer_used (rs_rec s))) (br_write_buffer (rs_rec s))"
      by (simp add: br_inv_def)
    then have "rs_accepted s = recorded (files_of (rs_rec s)) @
        take (unat (br_buffer_used (rs_rec s))) (br_write_buffer (rs_rec s)) @ drop R (rs_accepted s)"
      by (metis append_assoc append_take_drop_id)
    then show ?thesis
      using False br_inv_shape [OF inv] unfolding w N(1,3) by auto
  qed
qed

theorem recorder_files_gapless_witness:
  "\<exists>br s. br_new (\<lambda>n. True) demo_config 16000 1 16 = Inr br \<and>
     rec_reachable reliable_lib (\<lambda>calls. 0) br s \<and> rs_accepted s = [1, 2] \<and>
     (\<exists>pending. rs_accepted s = recorded (files_of (rs_rec s)) @ pending \<and>
       (rs_pc s = Exited \<longrightarrow> pending = []) \<and>
       blocks_shape (unat (bc_block_duration_seconds demo_config) * unat (16000 :: u32))
         (unat (1 :: u16) * bytes_of_bits 16) (rs_pc s = Exited) (files_of (rs_rec s)))"
proof -
  have b: "supported_bits 16" by (simp add: supported_bits_def)
  obtain br where br: "br_new (\<lambda>n. True) demo_config 16000 1 16 = Inr br" by (rule demo_recorder [OF b])
  obtain s where s: "rec_reachable reliable_lib (\<lambda>calls. 0) br s" "rs_accepted s = [1, 2]"
    using demo_reaches [OF br] by blast
  have "bc_block_duration_seconds demo_config \<noteq> 0" by (simp add: demo_config_def)
  from recorder_files_gapless [OF br b _ _ this demo_opens s(1)] br s show ?thesis by (intro exI [of _ br] exI [of _ s] conjI) simp_all
qed

text \<open>
  \<open>stop()\<close> flushes, if the writer sees it. From every reachable state, after the flags are
  cleared, the writer thread, for which waiting is its predicate here, has a finite run to its exit in which it accepts nothing more; the files
  then hold every byte accepted, and all of them are closed.
\<close>

theorem recorder_stop_flushes:
  assumes "br_new mem_ok config rate channels bits = Inr br"
    and "supported_bits bits" and "channels \<noteq> 0" and "rate \<noteq> 0"
    and "bc_block_duration_seconds config \<noteq> 0" and "opens_succeed lib"
    and "rec_reachable lib clock br s"
  shows "\<exists>s'. (rec_step lib clock)\<^sup>*\<^sup>* (s\<lparr>rs_rec := br_stop_flags (rs_rec s)\<rparr>) s' \<and>
     rs_pc s' = Exited \<and> recorded (files_of (rs_rec s')) = rs_accepted s \<and>
     (\<forall>f \<in> set (files_of (rs_rec s')). snd (snd f))"
proof -
  note N = br_new_ok [OF assms(1-4)]
  have ok: "rs_ok br s"
    by (rule rs_ok_reachable [OF assms(7,6) br_start_inv [OF assms(1-5)] N(16,17)])
  obtain s' where run: "rec_steps lib clock (s\<lparr>rs_rec := br_stop_flags (rs_rec s)\<rparr>) s'"
    "rs_pc s' = Exited" "rs_accepted s' = rs_accepted s"
    using rec_stop_exits [OF assms(6) ok] by blast
  have "rs_ok br s'"
    using run(1) rs_ok_step [OF assms(6) ok rec_step.stop]
    by (induction rule: rtranclp_induct) (auto intro: rs_ok_step [OF assms(6)])
  then have "recorded (files_of (rs_rec s')) = rs_accepted s'"
    "blocks_shape (br_block br) (br_width br) True (files_of (rs_rec s'))"
    using run(2) by (simp_all add: rs_ok_def)
  moreover from this(2) have "\<forall>f \<in> set (files_of (rs_rec s')). snd (snd f)"
    unfolding blocks_shape_def by (fastforce simp: full_block_def)
  ultimately show ?thesis using run by auto
qed

theorem recorder_stop_flushes_witness:
  "\<exists>br s s'. br_new (\<lambda>n. True) demo_config 16000 1 16 = Inr br \<and>
     rec_reachable reliable_lib (\<lambda>calls. 0) br s \<and>
     (rec_step reliable_lib (\<lambda>calls. 0))\<^sup>*\<^sup>* (s\<lparr>rs_rec := br_stop_flags (rs_rec s)\<rparr>) s' \<and>
     rs_pc s' = Exited \<and> recorded (files_of (rs_rec s')) = [1, 2]"
proof -
  have b: "supported_bits 16" by (simp add: supported_bits_def)
  obtain br where br: "br_new (\<lambda>n. True) demo_config 16000 1 16 = Inr br" by (rule demo_recorder [OF b])
  obtain s where s: "rec_reachable reliable_lib (\<lambda>calls. 0) br s" "rs_accepted s = [1, 2]"
    using demo_reaches [OF br] by blast
  have "bc_block_duration_seconds demo_config \<noteq> 0" by (simp add: demo_config_def)
  from recorder_stop_flushes [OF br b _ _ this demo_opens s(1)] obtain s' where
    "(rec_step reliable_lib (\<lambda>calls. 0))\<^sup>*\<^sup>* (s\<lparr>rs_rec := br_stop_flags (rs_rec s)\<rparr>) s'"
    "rs_pc s' = Exited" "recorded (files_of (rs_rec s')) = [1, 2]" by (auto simp: s(2))
  with br s(1) show ?thesis by blast
qed

section \<open>Back-pressure\<close>

lemma capacity_cases:
  assumes "sr_holds A R rg" and "65536 < unat (sr_capacity rg)"
  shows "131072 \<le> unat (sr_capacity rg)"
proof -
  from assms(1) obtain k where k: "unat (sr_capacity rg) = 2 ^ k" by (auto simp: sr_holds_def)
  then have "(2::nat) ^ 16 < 2 ^ k" using assms(2) by simp
  then have "17 \<le> k" using pow2_less_imp_less [of 16 k] by simp
  then have "(2::nat) ^ 17 \<le> 2 ^ k" by (rule power_increasing) simp
  then show ?thesis using k by simp
qed

text \<open>
  \<open>push()\<close> drops a period only while the writer has work. With more than 16384 bytes of
  audio per second and periods of at most 65536 bytes, whenever a period is refused because
  the ring is full, the wait condition of the writer thread holds: it drains the ring if it
  looks. That it may not look is shown in \<open>Recorder_Wakeups\<close>.
\<close>

theorem refused_push_means_writer_awake:
  assumes "br_new mem_ok config rate channels bits = Inr br"
    and "supported_bits bits" and "channels \<noteq> 0" and "rate \<noteq> 0"
    and "bc_block_duration_seconds config \<noteq> 0" and "opens_succeed lib"
    and "rec_reachable lib clock br s" and "rs_pc s \<noteq> Exited" and "br_recording (rs_rec s)"
    and "16384 < second_bytes rate channels bits"
    and "length data = unat n * br_width (rs_rec s)" and "length data \<le> 65536"
    and "br_push (rs_rec s) data n = Inr (False, br')"
  shows "br_wake (rs_rec s)"
proof -
  note N = br_new_ok [OF assms(1-4)]
  have ok: "rs_ok br s"
    by (rule rs_ok_reachable [OF assms(7,6) br_start_inv [OF assms(1-5)] N(16,17)])
  then obtain R where inv: "br_inv (rs_accepted s) R (rs_rec s)" using assms(8) by (auto simp: rs_ok_def)
  let ?rg = "br_ring (rs_rec s)" and ?sec = "second_bytes rate channels bits"
  have same: "sr_capacity ?rg = sr_capacity (br_ring br)" "br_flush_threshold (rs_rec s) = br_flush_threshold br"
    using ok by (simp_all add: rs_ok_def br_static_def)
  have ring: "sr_holds (rs_accepted s) R ?rg" using inv by (simp add: br_inv_def)
  have cap: "4 * ?sec \<le> unat (sr_capacity ?rg)" using N(7) by (simp add: same)
  then have cap2: "131072 \<le> unat (sr_capacity ?rg)"
    using capacity_cases [OF ring] assms(10) by simp
  have "length data < 2 ^ 63" using assms(12) by simp
  from br_push_ok [OF inv assms(11) this] assms(9,13)
  have "unat (sr_capacity ?rg) < length (rs_accepted s) - R + length data" by auto
  then have "max ?sec 65536 \<le> length (rs_accepted s) - R"
    using cap cap2 assms(12) by (simp add: max_def)
  then have "br_flush_threshold (rs_rec s) \<le> sr_filled ?rg"
    using sr_holdsD(8) [OF ring] by (simp add: word_le_nat_alt same N(4))
  then show ?thesis by (simp add: br_wake_def)
qed

text \<open>Filling the ring of the concrete recorder step by step.\<close>

lemma reach_push:
  fixes n :: u64
  assumes "rec_reachable lib clock br0 s" and "br_inv (rs_accepted s) R (rs_rec s)"
    and "br_recording (rs_rec s)" and "length data = unat n * br_width (rs_rec s)"
    and "length data < 2 ^ 63"
    and "length (rs_accepted s) - R + length data \<le> unat (sr_capacity (br_ring (rs_rec s)))"
  obtains s' where "rec_reachable lib clock br0 s'" and "rs_accepted s' = rs_accepted s @ data"
    and "br_inv (rs_accepted s') R (rs_rec s')" and "br_static (rs_rec s') = br_static (rs_rec s)"
    and "br_recording (rs_rec s')" and "rs_pc s' = rs_pc s"
proof -
  obtain br' where p: "br_push (rs_rec s) data n = Inr (True, br')"
    "br_inv (rs_accepted s @ data) R br'" "br_static br' = br_static (rs_rec s)" "br_recording br'"
    using br_push_ok [OF assms(2,4,5)] assms(3,6) by auto
  from rec_reachable.step [OF assms(1) rec_step.push [OF assms(4,5) p(1)]] show thesis
    by (rule that) (use p in simp_all)
qed

theorem refused_push_means_writer_awake_witness:
  "\<exists>br s br'. br_new (\<lambda>n. True) demo_config 16000 1 16 = Inr br \<and>
     rec_reachable reliable_lib (\<lambda>calls. 0) br s \<and>
     br_push (rs_rec s) (replicate 65536 0) 32768 = Inr (False, br') \<and> br_wake (rs_rec s)"
proof -
  have b: "supported_bits 16" by (simp add: supported_bits_def)
  have n: "(1 :: u16) \<noteq> 0" "(16000 :: u32) \<noteq> 0" "bc_block_duration_seconds demo_config \<noteq> 0"
    by (simp_all add: demo_config_def)
  obtain br where br: "br_new (\<lambda>n. True) demo_config 16000 1 16 = Inr br" by (rule demo_recorder [OF b])
  note N = br_new_ok [OF br b n(1,2)]
  let ?d = "replicate 65536 0 :: u8 list" and ?s0 = "rs_init br"
  have sec: "second_bytes 16000 1 16 = 32000" by (simp add: second_bytes_def bytes_of_bits_def)
  have "br_inv [] 0 (br_start br)" by (rule br_start_inv [OF br b n])
  then have s0: "br_inv (rs_accepted ?s0) 0 (rs_rec ?s0)" "br_recording (rs_rec ?s0)"
    "br_static (rs_rec ?s0) = br_static br" "rs_pc ?s0 = Waiting"
    by (simp_all add: rs_init_def br_start_def N(18) demo_config_def br_static_def)
  have cap: "unat (sr_capacity (br_ring br)) = 131072"
  proof -
    obtain k where k: "unat (sr_capacity (br_ring br)) = 2 ^ k" using N(6) by (auto simp: sr_holds_def)
    have "(2::nat) ^ 16 < 2 ^ k" "(2::nat) ^ k < 2 ^ 18" using N(7,8) by (simp_all add: sec flip: k)
    from this [THEN pow2_less_imp_less] have "16 < k" "k < 18" .
    then have "k = 17" by simp
    then show ?thesis by (simp add: k)
  qed
  have st: "br_width r = 2" "unat (sr_capacity (br_ring r)) = 131072" if "br_static r = br_static br" for r
    using br_static_width [OF that] that cap by (auto simp: N(1) bytes_of_bits_def br_static_def)
  have d: "length ?d = unat (32768 :: u64) * 2" "length ?d < 2 ^ 63" by simp_all
  obtain s1 where s1: "rec_reachable reliable_lib (\<lambda>calls. 0) br s1" "rs_accepted s1 = ?d"
    "br_inv (rs_accepted s1) 0 (rs_rec s1)" "br_static (rs_rec s1) = br_static br"
    "br_recording (rs_rec s1)" "rs_pc s1 = Waiting"
  proof (rule reach_push [OF rec_reachable.init s0(1,2) _ d(2)])
    show "length ?d = unat (32768 :: u64) * br_width (rs_rec ?s0)" using d(1) st [OF s0(3)] by simp
    show "length (rs_accepted ?s0) - 0 + length ?d \<le> unat (sr_capacity (br_ring (rs_rec ?s0)))"
      using st [OF s0(3)] by (simp add: rs_init_def)
    fix s' assume "rec_reachable reliable_lib (\<lambda>calls. 0) br s'" "rs_accepted s' = rs_accepted ?s0 @ ?d"
      "br_inv (rs_accepted s') 0 (rs_rec s')" "br_static (rs_rec s') = br_static (rs_rec ?s0)"
      "br_recording (rs_rec s')" "rs_pc s' = rs_pc ?s0"
    then show thesis using that [of s'] s0 by (simp add: rs_init_def)
  qed
  obtain s2 where s2: "rec_reachable reliable_lib (\<lambda>calls. 0) br s2" "length (rs_accepted s2) = 131072"
    "br_inv (rs_accepted s2) 0 (rs_rec s2)" "br_static (rs_rec s2) = br_static br"
    "br_recording (rs_rec s2)" "rs_pc s2 = Waiting"
  proof (rule reach_push [OF s1(1,3,5) _ d(2)])
    show "length ?d = unat (32768 :: u64) * br_width (rs_rec s1)" using d(1) st [OF s1(4)] by simp
    show "length (rs_accepted s1) - 0 + length ?d \<le> unat (sr_capacity (br_ring (rs_rec s1)))"
      using st [OF s1(4)] by (simp add: s1(2))
    fix s' assume "rec_reachable reliable_lib (\<lambda>calls. 0) br s'" "rs_accepted s' = rs_accepted s1 @ ?d"
      "br_inv (rs_accepted s') 0 (rs_rec s')" "br_static (rs_rec s') = br_static (rs_rec s1)"
      "br_recording (rs_rec s')" "rs_pc s' = rs_pc s1"
    then show thesis using that [of s'] s1 by simp
  qed
  have w2: "length ?d = unat (32768 :: u64) * br_width (rs_rec s2)" using d(1) st [OF s2(4)] by simp
  obtain br' where p: "br_push (rs_rec s2) ?d 32768 = Inr (False, br')"
    using br_push_ok [OF s2(3) w2 d(2)] st [OF s2(4)] s2(2) by auto
  have "br_wake (rs_rec s2)"
    by (rule refused_push_means_writer_awake [OF br b n demo_opens s2(1) _ s2(5) _ w2 _ p])
      (simp_all add: s2(6) sec)
  with br s2(1) p show ?thesis by blast
qed

text \<open>
  Nothing happened yet: while recording goes on the writer waits, no file was opened and nothing
  was taken from the ring. With a ring smaller than the threshold every step keeps it so.
\<close>

definition rec_idle :: "rec_system \<Rightarrow> bool" where
  "rec_idle s \<longleftrightarrow> (br_writer_running (rs_rec s) \<longrightarrow>
     rs_pc s = Waiting \<and> br_calls (rs_rec s) = [] \<and> br_inv (rs_accepted s) 0 (rs_rec s))"

lemma small_ring_never_wakes:
  assumes "br_inv A 0 br" and "br_writer_running br"
    and "unat (sr_capacity (br_ring br)) < unat (br_flush_threshold br)"
  shows "\<not> br_wake br"
proof
  have ring: "sr_holds A 0 (br_ring br)" using assms(1) by (simp add: br_inv_def)
  assume "br_wake br"
  then have "br_flush_threshold br \<le> sr_filled (br_ring br)" using assms(2) by (simp add: br_wake_def)
  then show False using sr_holdsD(5,8) [OF ring] assms(3) by (simp add: word_le_nat_alt)
qed

lemma rec_idle_step:
  assumes step: "rec_step lib clock s s'" and ok: "rs_ok br s" and idle: "rec_idle s" and lib: "opens_succeed lib"
    and small: "unat (sr_capacity (br_ring (rs_rec s))) < unat (br_flush_threshold (rs_rec s))"
  shows "rec_idle s'"
  using step
proof cases
  case (push data n taken br')
  show ?thesis
  proof (cases "br_writer_running (rs_rec s)")
    case True
    with idle have inv: "br_inv (rs_accepted s) 0 (rs_rec s)" by (simp add: rec_idle_def)
    have "br_calls br' = br_calls (rs_rec s)"
      using push(4) by (auto simp: br_push_def obind_Inr_iff split: if_splits)
    with br_push_ok [OF inv push(2,3)] push(1,4) idle True show ?thesis by (auto simp: rec_idle_def)
  next
    case False
    then show ?thesis using push(1,4)
      by (auto simp: rec_idle_def br_push_def obind_Inr_iff split: if_splits)
  qed
next
  case (drain res br')
  then obtain R where inv: "br_inv (rs_accepted s) R (rs_rec s)" using ok by (auto simp: rs_ok_def)
  have "br_params br' = br_params (rs_rec s)"
    using br_drain_iter_empty [OF inv, of lib clock] br_drain_iter_ok [OF lib inv, of clock] drain(3)
    by (cases "R = length (rs_accepted s)") auto
  then have "br_writer_running br' = br_writer_running (rs_rec s)" by (simp add: br_params_def)
  then show ?thesis using drain idle by (auto simp: rec_idle_def)
qed (use idle small small_ring_never_wakes in
    \<open>auto simp: rec_idle_def br_stop_flags_def br_exit_def br_close_current_file_def\<close>)

text \<open>
  C22: at low data rates the recorder never records. With at most 8192 bytes of audio per
  second (4 kHz mono 16-bit, say) the flush threshold of 64 KiB is larger than the ring, so
  until \<open>stop()\<close> the writer never leaves its wait: no file is ever opened, and all audio
  beyond the first ring-full is dropped.
\<close>

theorem low_rate_recorder_starves:
  assumes "br_new mem_ok config rate channels bits = Inr br"
    and "supported_bits bits" and "channels \<noteq> 0" and "rate \<noteq> 0"
    and "bc_block_duration_seconds config \<noteq> 0" and "opens_succeed lib"
    and "rec_reachable lib clock br s" and "br_writer_running (rs_rec s)"
    and "second_bytes rate channels bits \<le> 8192"
  shows "rs_pc s = Waiting \<and> br_calls (rs_rec s) = [] \<and> length (rs_accepted s) < 65536"
proof -
  note N = br_new_ok [OF assms(1-4)]
  have start: "br_inv [] 0 (br_start br)" by (rule br_start_inv [OF assms(1-5)])
  have ok: "rs_ok br s" if "rec_reachable lib clock br s" for s
    by (rule rs_ok_reachable [OF that assms(6) start N(16,17)])
  have capacity: "unat (sr_capacity (br_ring (rs_rec s))) < 65536"
    "br_flush_threshold (rs_rec s) \<ge> 65536" if "rec_reachable lib clock br s" for s
    using ok [OF that] N(4,8) assms(9) by (auto simp: rs_ok_def br_static_def word_le_nat_alt)
  have "rec_idle s"
    using assms(7)
  proof induction
    case init
    show ?case using start N(9) by (simp add: rec_idle_def rs_init_def br_start_def)
  next
    case (step s s')
    from rec_idle_step [OF step.hyps(2) ok step.IH assms(6)] capacity step.hyps(1) show ?case
      by (fastforce simp: word_le_nat_alt)
  qed
  with assms(8) have idle: "rs_pc s = Waiting" "br_calls (rs_rec s) = []" "br_inv (rs_accepted s) 0 (rs_rec s)"
    by (simp_all add: rec_idle_def)
  from idle(3) have "sr_holds (rs_accepted s) 0 (br_ring (rs_rec s))" by (simp add: br_inv_def)
  from sr_holdsD(5) [OF this] capacity(1) [OF assms(7)] idle(1,2) show ?thesis by simp
qed

theorem low_rate_recorder_starves_witness:
  "\<exists>br. br_new (\<lambda>n. True) demo_config 4000 1 16 = Inr br \<and>
     br_writer_running (rs_rec (rs_init br)) \<and>
     rs_pc (rs_init br) = Waiting \<and> br_calls (rs_rec (rs_init br)) = [] \<and>
     length (rs_accepted (rs_init br)) < 65536"
proof -
  have b: "supported_bits 16" by (simp add: supported_bits_def)
  have n: "(1 :: u16) \<noteq> 0" "(4000 :: u32) \<noteq> 0" "bc_block_duration_seconds demo_config \<noteq> 0"
    by (simp_all add: demo_config_def)
  obtain br where br: "br_new (\<lambda>n. True) demo_config 4000 1 16 = Inr br" by (rule demo_recorder [OF b])
  have run: "br_writer_running (rs_rec (rs_init br))"
    using br_new_ok(18) [OF br b n(1,2)] by (simp add: rs_init_def br_start_def demo_config_def)
  have "second_bytes 4000 1 16 \<le> 8192" by (simp add: second_bytes_def bytes_of_bits_def)
  from low_rate_recorder_starves [OF br b n demo_opens rec_reachable.init run this] br run
  show ?thesis by blast
qed

section \<open>File names\<close>

text \<open>The name with its fields, as a suffix of fixed width behind the year.\<close>

lemma block_name_inj:
  assumes "block_name fmt (gmtime a) = block_name fmt (gmtime b)"
  shows "gmtime a = gmtime b"
proof -
  note F = gmtime_fields [OF refl, of a] gmtime_fields [OF refl, of b]
  have len: "length (pad0 2 (dec (tm_mon (gmtime c) + 1))) = 2" "length (pad0 2 (dec (tm_mday (gmtime c)))) = 2"
    "length (pad0 2 (dec (tm_hour (gmtime c)))) = 2" "length (pad0 2 (dec (tm_min (gmtime c)))) = 2"
    "length (pad0 2 (dec (tm_sec (gmtime c)))) = 2" for c
    using gmtime_fields(1,3-6) [OF refl, of c] by (simp_all add: length_pad0_dec2)
  note len = len(1) [unfolded Suc_eq_plus1 [symmetric]] len(2-5)
  have "tm_year (gmtime a) = tm_year (gmtime b) \<and> tm_mon (gmtime a) = tm_mon (gmtime b) \<and>
      tm_mday (gmtime a) = tm_mday (gmtime b) \<and> tm_hour (gmtime a) = tm_hour (gmtime b) \<and>
      tm_min (gmtime a) = tm_min (gmtime b) \<and> tm_sec (gmtime a) = tm_sec (gmtime b)"
    using assms by (simp add: block_name_def append_eq_append_conv len pad0_inj)
  then show ?thesis by simp
qed

lemma length_block_name:
  assumes "secs < 18446744073710"
  shows "length (block_name fmt (gmtime secs)) \<le> 24 + length (c_str fmt)"
proof -
  note F = gmtime_fields [OF refl, of secs]
  have "secs div 86400 div 365 \<le> 18446744073710 div 86400 div 365" using assms by (intro div_le_mono) simp
  then have "tm_year (gmtime secs) < 10 ^ 6" using F(8) by simp
  then have "length (dec (tm_year (gmtime secs))) \<le> 6" by (rule length_dec) simp
  moreover have "length (pad0 2 (dec (tm_mon (gmtime secs) + 1))) = 2" "length (pad0 2 (dec (tm_mday (gmtime secs)))) = 2"
    "length (pad0 2 (dec (tm_hour (gmtime secs)))) = 2" "length (pad0 2 (dec (tm_min (gmtime secs)))) = 2"
    "length (pad0 2 (dec (tm_sec (gmtime secs)))) = 2"
    using F(1,3-6) by (simp_all add: length_pad0_dec2)
  ultimately show ?thesis by (simp add: block_name_def length_pad0)
qed

text \<open>
  Two blocks get the same file name exactly when they are opened within the same second
  of UTC time. So no block overwrites another as long as consecutive files are opened in
  different seconds, and two files opened in one second (blocks drained from the ring
  faster than real time) share a path.
\<close>

theorem block_filenames_collide_within_second:
  assumes "length (c_str (bc_format config)) \<le> 100"
  shows "br_make_filename config t1 = br_make_filename config t2 \<longleftrightarrow>
     unat t1 div 1000000 = unat t2 div 1000000"
proof -
  have secs: "unat (t :: u64) div 1000000 < 18446744073710" for t
    using unat_lt_64 [of t] by (simp add: less_mult_imp_div_less)
  have full: "take 127 (block_name (bc_format config) (gmtime (unat t div 1000000))) =
      block_name (bc_format config) (gmtime (unat t div 1000000))" for t :: u64
    using length_block_name [OF secs, of "bc_format config" t] assms by simp
  show ?thesis
    by (auto simp: br_make_filename_def full dest!: block_name_inj simp: gmtime_inj)
qed

theorem block_filenames_collide_within_second_witness:
  "br_make_filename demo_config 1772721000000000 = ''/rec/block_20260305_143000.wav'' \<and>
   br_make_filename demo_config 1772721000999999 = ''/rec/block_20260305_143000.wav'' \<and>
   br_make_filename demo_config 1772721000000000 \<noteq> br_make_filename demo_config 1772721001000000"
proof -
  have l: "length (c_str (bc_format demo_config)) \<le> 100" by (simp add: demo_config_def c_str_def)
  have "gmtime 1772721000 = \<lparr>tm_year = 2026, tm_mon = 2, tm_mday = 5, tm_hour = 14, tm_min = 30, tm_sec = 0\<rparr>"
    by (simp add: gmtime_def split_year.simps year_days_def leap_year_def month_days_def)
  then have n: "br_make_filename demo_config 1772721000000000 = ''/rec/block_20260305_143000.wav''"
    by (simp add: br_make_filename_def demo_config_def block_name_def c_str_def dec.simps pad0_def
        digit_def char_of_def bit_Suc_0_iff)
  have "br_make_filename demo_config 1772721000999999 = br_make_filename demo_config 1772721000000000"
    unfolding block_filenames_collide_within_second [OF l] by simp
  moreover have "br_make_filename demo_config 1772721000000000 \<noteq> br_make_filename demo_config 1772721001000000"
    unfolding block_filenames_collide_within_second [OF l] by simp
  ultimately show ?thesis using n by simp
qed

section \<open>Blocks of zero length\<close>

lemma pcm_payload_nothing:
  assumes "src \<le> length mem"
  shows "\<exists>p. pcm_payload bits mem src 0 = Inr p"
  using assms by (simp add: pcm_payload_def read_ints_def unpack24_def read_shorts_def load_range_ok)

text \<open>With blocks of no frames every batch is empty: a file is opened, closed, and nothing moves.\<close>

lemma zero_block_round:
  assumes "opens_succeed lib" and "br_block_frames br = 0" and "src \<le> length (br_write_buffer br)"
  shows "\<exists>br1 br2. br_open_next_file lib clock br = (True, br1) \<and>
     br_block_frames br1 = 0 \<and> br_frames_in_block br1 = 0 \<and> br_write_batch lib br1 src 0 = Inr br2 \<and>
     \<not> br_file_open (br_advance_block br2 0) \<and> br_block_frames (br_advance_block br2 0) = 0 \<and>
     br_write_buffer (br_advance_block br2 0) = br_write_buffer br"
proof -
  obtain br1 where o: "br_open_next_file lib clock br = (True, br1)"
    and br1: "br_block_frames br1 = 0" "br_frames_in_block br1 = 0" "br_write_buffer br1 = br_write_buffer br"
    using assms(1,2) by (simp add: br_open_next_file_def Let_def opens_succeed_def)
  obtain p where p: "pcm_payload (br_bits_per_sample br1) (br_write_buffer br1) src 0 = Inr p"
    using pcm_payload_nothing [of src "br_write_buffer br1"] assms(3) by (auto simp: br1)
  obtain br2 where w: "br_write_batch lib br1 src 0 = Inr br2"
    by (simp add: br_write_batch_def Let_def p)
  have "br_block_frames br2 = 0" "br_frames_in_block br2 = 0" "br_write_buffer br2 = br_write_buffer br"
    using br_write_batch_frame(1,3) [OF w] br1 by (simp_all add: br_fixed_iff)
  then have "\<not> br_file_open (br_advance_block br2 0)" "br_block_frames (br_advance_block br2 0) = 0"
    "br_write_buffer (br_advance_block br2 0) = br_write_buffer br"
    by (simp_all add: br_advance_block_def br_close_current_file_def Let_def)
  with o br1 w show ?thesis by blast
qed

text \<open>
  C24: blocks of zero length hang the writer. With \<open>block_duration_seconds = 0\<close> (which the
  configuration accepts) the loop that distributes frames over files opens and closes empty
  files for ever: it does not return.
\<close>

theorem zero_duration_never_returns:
  assumes "opens_succeed lib" and "bc_block_duration_seconds config = 0"
    and "br_new mem_ok config rate channels bits = Inr br0"
    and "br_block_frames br = br_block_frames br0" and "\<not> br_file_open br"
    and "src \<le> length (br_write_buffer br)" and "remaining \<noteq> 0"
  shows "br_process lib clock br src remaining = None"
proof -
  let ?P = "\<lambda>lib clock br src remaining (y :: (bool \<times> recorder) outcome).
      opens_succeed lib \<longrightarrow> br_block_frames br = 0 \<longrightarrow> src \<le> length (br_write_buffer br) \<longrightarrow>
      remaining \<noteq> 0 \<longrightarrow> \<not> br_file_open br \<longrightarrow> False"
  have "?P lib clock br src remaining y" if "br_process lib clock br src remaining = Some y" for y
  proof (rule br_process.raw_induct [where P = ?P, OF _ that])
    fix loop :: "sf_lib \<Rightarrow> (sf_event list \<Rightarrow> u64) \<Rightarrow> recorder \<Rightarrow> nat \<Rightarrow> u64 \<Rightarrow> (bool \<times> recorder) outcome option"
      and lib clock br src remaining y
    assume 1: "\<And>lib clock br src remaining y. loop lib clock br src remaining = Some y \<Longrightarrow>
        ?P lib clock br src remaining y"
      and 2: "(if remaining = 0 then Some (Inr (False, br))
      else case (if br_file_open br then (True, br) else br_open_next_file lib clock br) of
        (opened, br1) \<Rightarrow>
          if \<not> opened then Some (Inr (True, br1\<lparr>br_buffer_used := 0\<rparr>))
          else let space = br_block_frames br1 - br_frames_in_block br1;
                   batch = min remaining space
               in case br_write_batch lib br1 src batch of
                    Inl e \<Rightarrow> Some (Inl e)
                  | Inr br2 \<Rightarrow>
                      loop lib clock (br_advance_block br2 batch)
                        (src + unat (batch * br_bytes_per_frame br1)) (remaining - batch)) = Some y"
    show "?P lib clock br src remaining y"
    proof (intro impI)
      assume a: "opens_succeed lib" "br_block_frames br = 0" "src \<le> length (br_write_buffer br)"
        "remaining \<noteq> 0" "\<not> br_file_open br"
      obtain br1 br2 where r: "br_open_next_file lib clock br = (True, br1)"
        "br_block_frames br1 = 0" "br_frames_in_block br1 = 0" "br_write_batch lib br1 src 0 = Inr br2"
        "\<not> br_file_open (br_advance_block br2 0)" "br_block_frames (br_advance_block br2 0) = 0"
        "br_write_buffer (br_advance_block br2 0) = br_write_buffer br"
        using zero_block_round [OF a(1-3)] by blast
      have "loop lib clock (br_advance_block br2 0) src remaining = Some y"
        using 2 by (simp add: a(4,5) r(1-4) Let_def)
      from 1 [OF this] show False using a r by simp
    qed
  qed
  moreover have "br_block_frames br = 0"
    using assms(2,3,4) by (auto simp: br_new_def Let_def obind_Inr_iff)
  ultimately have "br_process lib clock br src remaining \<noteq> Some y" for y using assms by blast
  then show ?thesis by (metis not_Some_eq)
qed

theorem zero_duration_never_returns_witness:
  "\<exists>br. br_new (\<lambda>n. True) (demo_config\<lparr>bc_block_duration_seconds := 0\<rparr>) 16000 1 16 = Inr br \<and>
     br_process reliable_lib (\<lambda>calls. 0) br 0 1 = None"
proof -
  have b: "supported_bits 16" by (simp add: supported_bits_def)
  obtain br0 where br0: "br_new (\<lambda>n. True) demo_config 16000 1 16 = Inr br0" by (rule demo_recorder [OF b])
  then have "\<exists>br. br_new (\<lambda>n. True) (demo_config\<lparr>bc_block_duration_seconds := 0\<rparr>) 16000 1 16 = Inr br"
    by (auto simp: br_new_def Let_def obind_Inr_iff)
  then obtain br where br: "br_new (\<lambda>n. True) (demo_config\<lparr>bc_block_duration_seconds := 0\<rparr>) 16000 1 16 = Inr br" ..
  have "\<not> br_file_open br" using br_new_ok(11) [OF br b] by simp
  from zero_duration_never_returns [OF demo_opens _ br refl this] br show ?thesis by auto
qed

section \<open>Files that cannot be opened\<close>

text \<open>The bounds of the write buffer, and a turn that fills it to the brim.\<close>

lemma buffer_bounds:
  assumes "br_inv A R br"
  shows "unat (br_buffer_used br) < br_width br" and "br_width br \<le> length (br_write_buffer br)"
    and "length (br_write_buffer br) < 2 ^ 63" and "unat (br_buffer_used br) \<le> R"
proof -
  let ?u = "unat (br_buffer_used br)"
  show "?u < br_width br" "br_width br \<le> length (br_write_buffer br)" "length (br_write_buffer br) < 2 ^ 63"
    using assms by (auto simp: br_inv_def br_sane_def)
  have "recorded (files_of br) @ take ?u (br_write_buffer br) = take R A" "?u < length (br_write_buffer br)"
    using assms by (auto simp: br_inv_def)
  then have "?u \<le> length (take R A)" by (metis length_append length_take less_imp_le min_absorb2 le_add2)
  then show "?u \<le> R" by simp
qed

lemma fill_to_the_brim:
  assumes inv: "br_inv A R br"
    and full: "length (br_write_buffer br) \<le> unat (br_buffer_used br) + (length A - R)"
  defines "chunk \<equiv> min (sr_filled (br_ring br)) (of_nat (length (br_write_buffer br)) - br_buffer_used br)"
  shows "\<exists>wb ring1. sr_fetch (br_ring br) (br_write_buffer br) (br_buffer_used br) chunk = Inr (wb, ring1) \<and>
      sr_holds A (R + (length (br_write_buffer br) - unat (br_buffer_used br))) ring1"
    and "unat (br_buffer_used br + chunk) = length (br_write_buffer br)"
proof -
  let ?u = "unat (br_buffer_used br)" and ?L = "length (br_write_buffer br)"
  note B = buffer_bounds [OF inv]
  have ring: "sr_holds A R (br_ring br)" using inv by (simp add: br_inv_def)
  have L: "unat (of_nat ?L :: u64) = ?L" using B(3) by (simp add: unat_of_nat_64)
  have "unat (of_nat ?L - br_buffer_used br) = ?L - ?u"
    using B(1,2) by (subst unat_sub_64) (simp_all add: word_le_nat_alt L)
  then have c: "unat chunk = ?L - ?u"
    using sr_holdsD(8) [OF ring] full unfolding chunk_def unat_min by simp
  then show "\<exists>wb ring1. sr_fetch (br_ring br) (br_write_buffer br) (br_buffer_used br) chunk = Inr (wb, ring1) \<and>
      sr_holds A (R + (?L - ?u)) ring1"
    using sr_fetch_ok [OF ring, of chunk "br_buffer_used br" "br_write_buffer br"] full B by auto
  have "?u + unat chunk < 2 ^ 64" using B c by simp
  then show "unat (br_buffer_used br + chunk) = ?L" using B by (simp add: unat_add_64 c)
qed

text \<open>
  C23: a failed open can break the framing of everything that follows. When no file is open and
  the next one cannot be opened, the whole write buffer is thrown away, including the part of
  a frame at its end. If the buffer was filled to the brim, the next byte taken from the ring
  starts a frame only if the buffer size is a multiple of the frame size, as 131072 is not for
  24-bit mono.
\<close>

theorem failed_open_can_split_a_frame:
  assumes "br_inv A R br" and "\<not> br_file_open br"
    and "\<And>path info. \<not> lib_open lib (br_calls br) path info"
    and "unat (br_buffer_used br) + (length A - R) \<ge> length (br_write_buffer br)" and "R < length A"
  shows "\<exists>br' R'. br_drain_iter lib clock br = Some (Inr (Dropped, br')) \<and>
     br_buffer_used br' = 0 \<and> sr_holds A R' (br_ring br') \<and>
     (br_width br dvd R - unat (br_buffer_used br) \<longrightarrow>
      (br_width br dvd R' \<longleftrightarrow> br_width br dvd length (br_write_buffer br)))"
proof -
  define u where "u = unat (br_buffer_used br)"
  define w where "w = br_width br"
  define L where "L = length (br_write_buffer br)"
  define chunk where "chunk = min (sr_filled (br_ring br)) (of_nat L - br_buffer_used br)"
  define used where "used = br_buffer_used br + chunk"
  define frames where "frames = (used - used mod br_bytes_per_frame br) div br_bytes_per_frame br"
  note B = buffer_bounds [OF assms(1), folded u_def w_def L_def]
  note F = fill_to_the_brim [OF assms(1,4), folded L_def u_def, folded chunk_def, folded used_def]
  obtain wb ring1 where fetch: "sr_fetch (br_ring br) (br_write_buffer br) (br_buffer_used br) chunk = Inr (wb, ring1)"
    and ring1: "sr_holds A (R + (L - u)) ring1" using F(1) by blast
  have bpf: "unat (br_bytes_per_frame br) = w" using assms(1) by (simp add: br_inv_def br_sane_def w_def)
  then have bpf0: "br_bytes_per_frame br \<noteq> 0" using B(1) by auto
  have "unat (used - used mod br_bytes_per_frame br) = L div w * w"
    by (subst unat_sub_64) (simp_all add: word_le_nat_alt unat_mod_distrib F(2) bpf minus_mod_eq_div_mult)
  then have "unat frames = L div w" using B(1) by (simp add: frames_def unat_div_distrib bpf)
  then have frames: "frames \<noteq> 0" using B(1,2) by (auto simp: div_eq_0_iff)
  let ?br1 = "br\<lparr>br_write_buffer := wb, br_ring := ring1, br_buffer_used := used\<rparr>"
  obtain br2 where o: "br_open_next_file lib clock ?br1 = (False, br2)" "br_ring br2 = ring1"
    using assms(3) by (simp add: br_open_next_file_def Let_def)
  have "br_process lib clock ?br1 0 frames = Some (Inr (True, br2\<lparr>br_buffer_used := 0\<rparr>))"
    by (subst br_process.simps) (simp add: frames assms(2) o)
  moreover have "sr_filled (br_ring br) \<noteq> 0"
    using sr_holdsD(8) [of A R "br_ring br"] assms(1,5) by (auto simp: br_inv_def)
  ultimately have it: "br_drain_iter lib clock br = Some (Inr (Dropped, br2\<lparr>br_buffer_used := 0\<rparr>))"
    using frames bpf0 unfolding br_drain_iter_def Let_def L_def [symmetric] chunk_def [symmetric]
      fetch sum.case prod.case used_def [symmetric] frames_def [symmetric] by simp
  have "R + (L - u) = (R - u) + L" using B by simp
  then have "w dvd R - u \<longrightarrow> (w dvd R + (L - u) \<longleftrightarrow> w dvd L)" by (simp add: dvd_add_right_iff)
  then show ?thesis using it ring1 o(2)
    by (intro exI [of _ "br2\<lparr>br_buffer_used := 0\<rparr>"] exI [of _ "R + (L - u)"]) (simp add: u_def w_def L_def)
qed

theorem failed_open_can_split_a_frame_witness:
  "\<exists>A br br' R'. br_width br = 3 \<and> br_buffer_used br = 0 \<and> br_inv A 0 br \<and>
     br_drain_iter (reliable_lib\<lparr>lib_open := \<lambda>_ _ _. False\<rparr>) (\<lambda>calls. 0) br = Some (Inr (Dropped, br')) \<and>
     br_buffer_used br' = 0 \<and> sr_holds A R' (br_ring br') \<and> \<not> 3 dvd R'"
proof -
  have b: "supported_bits 24" by (simp add: supported_bits_def)
  have n: "(1 :: u16) \<noteq> 0" "(16000 :: u32) \<noteq> 0" "bc_block_duration_seconds demo_config \<noteq> 0"
    by (simp_all add: demo_config_def)
  obtain br where br: "br_new (\<lambda>n. True) demo_config 16000 1 24 = Inr br" by (rule demo_recorder [OF b])
  note N = br_new_ok [OF br b n(1,2)]
  have inv: "br_inv [] 0 (br_start br)" by (rule br_start_inv [OF br b n])
  have w: "br_width r = 3" if "br_static r = br_static br" for r
    using br_static_width [OF that] by (simp add: N(1) bytes_of_bits_def)
  have L: "length (br_write_buffer br) = 131072" using N(5) by (simp add: second_bytes_def bytes_of_bits_def)
  have st: "br_static (br_start br) = br_static br" "br_recording (br_start br)"
    "\<not> br_file_open (br_start br)" "br_buffer_used (br_start br) = 0"
    using N(10,11,18) by (simp_all add: br_start_def br_static_def demo_config_def)
  have cap: "192000 \<le> unat (sr_capacity (br_ring (br_start br)))"
    using N(7) by (simp add: br_start_def second_bytes_def bytes_of_bits_def)
  let ?A = "replicate 131073 (0 :: u8)"
  obtain br1 where p: "br_push (br_start br) ?A 43691 = Inr (True, br1)" "br_inv ?A 0 br1"
    "br_static br1 = br_static br"
    using br_push_ok [OF inv, of ?A 43691] cap st(1,2) w [OF st(1)] by auto
  have br1: "\<not> br_file_open br1" "br_buffer_used br1 = 0"
    using p(1) st by (auto simp: br_push_def obind_Inr_iff)
  have L1: "length (br_write_buffer br1) = 131072" using p(3) L by (simp add: br_static_def)
  let ?lib = "reliable_lib\<lparr>lib_open := \<lambda>_ _ _. False\<rparr>"
  have "\<And>path info. \<not> lib_open ?lib (br_calls br1) path info" by simp
  from failed_open_can_split_a_frame [OF p(2) br1(1) this, of "\<lambda>calls. 0"] obtain br' R' where
    "br_drain_iter ?lib (\<lambda>calls. 0) br1 = Some (Inr (Dropped, br'))" "br_buffer_used br' = 0"
    "sr_holds ?A R' (br_ring br')" "3 dvd R' \<longleftrightarrow> 3 dvd (131072 :: nat)"
    by (auto simp: br1 L1 w [OF p(3)])
  moreover have "\<not> 3 dvd (131072 :: nat)" by (simp add: dvd_eq_mod_eq_0)
  ultimately show ?thesis using w [OF p(3)] br1(2) p(2) by blast
qed

end
