(* ===== verification/Recorder_Wakeups.thy ===== *)
theory Recorder_Wakeups
  imports Recorder_Properties
begin

text \<open>
  The condition variable of the block recorder. The capture thread and \<open>stop()\<close> change what
  the writer waits for and call \<open>writer_cv_.notify_one()\<close>, neither of them holding
  \<open>writer_mutex_\<close>; so the evaluation of the wait predicate, its two reads, and going to sleep
  are points of the writer that everything else can come between. A notification
  wakes the writer only if it is asleep. A schedule says whose turn it is; a turn of
  a thread that waits changes nothing.
\<close>

section \<open>Threads\<close>

datatype rw_writer_pc =
  W_Test_Ring | W_Test_Stop | W_Block | W_Asleep | W_Drain | W_Decide | W_Exited

datatype rw_push_pc = Push_Idle | Push_Notify

datatype rw_stop_pc = Stop_Idle | Stop_Notify | Stop_Join | Stop_Done

record rw_system =
  rw_rec :: recorder
  rw_writer :: rw_writer_pc
  rw_push :: rw_push_pc
  rw_stop :: rw_stop_pc
  rw_accepted :: "u8 list"

text \<open>After \<open>start()\<close> of an enabled recorder, with the thread of the writer at its first test.\<close>

definition rw_init :: "recorder \<Rightarrow> rw_system" where
  "rw_init br = \<lparr>rw_rec = br_start br, rw_writer = W_Test_Ring, rw_push = Push_Idle,
     rw_stop = Stop_Idle, rw_accepted = []\<rparr>"

definition notify_writer :: "rw_system \<Rightarrow> rw_system" where
  "notify_writer s =
     (if rw_writer s = W_Asleep then s\<lparr>rw_writer := W_Test_Ring\<rparr> else s)"

text \<open>
  \<open>writer_thread_func\<close>: the predicate reads the ring first and \<open>writer_running_\<close> only when
  there is too little in it; one iteration of the drain loop is one turn.
\<close>

definition rw_writer_turn ::
  "sf_lib \<Rightarrow> (sf_event list \<Rightarrow> u64) \<Rightarrow> rw_system \<Rightarrow> rw_system outcome option" where
  "rw_writer_turn lib clock s =
     (case rw_writer s of
        W_Test_Ring \<Rightarrow> Some (Inr (s\<lparr>rw_writer :=
          (if br_flush_threshold (rw_rec s) \<le> sr_filled (br_ring (rw_rec s)) then W_Drain
           else W_Test_Stop)\<rparr>))
      | W_Test_Stop \<Rightarrow> Some (Inr (s\<lparr>rw_writer :=
          (if br_writer_running (rw_rec s) then W_Block else W_Drain)\<rparr>))
      | W_Block \<Rightarrow> Some (Inr (s\<lparr>rw_writer := W_Asleep\<rparr>))
      | W_Asleep \<Rightarrow> Some (Inr s)
      | W_Drain \<Rightarrow> pbind (br_drain_iter lib clock (rw_rec s)) (\<lambda>(res, br).
          Some (Inr (s\<lparr>rw_rec := br, rw_writer := (if res = Go_On then W_Drain else W_Decide)\<rparr>)))
      | W_Decide \<Rightarrow> Some (Inr
          (if br_exit (rw_rec s)
           then s\<lparr>rw_rec := br_close_current_file (rw_rec s), rw_writer := W_Exited\<rparr>
           else s\<lparr>rw_writer := W_Test_Ring\<rparr>))
      | W_Exited \<Rightarrow> Some (Inr s))"

text \<open>\<open>push()\<close>: the copy, and, when the period was taken, the notification.\<close>

definition rw_push_turn :: "u8 list \<Rightarrow> u64 \<Rightarrow> rw_system \<Rightarrow> rw_system outcome option" where
  "rw_push_turn data frames s =
     (if rw_push s = Push_Notify then Some (Inr s)
      else pbind (Some (br_push (rw_rec s) data frames)) (\<lambda>(taken, br).
        Some (Inr (if taken
          then s\<lparr>rw_rec := br, rw_push := Push_Notify, rw_accepted := rw_accepted s @ data\<rparr>
          else s\<lparr>rw_rec := br\<rparr>))))"

definition rw_push_notify :: "rw_system \<Rightarrow> rw_system" where
  "rw_push_notify s =
     (if rw_push s = Push_Notify then (notify_writer s)\<lparr>rw_push := Push_Idle\<rparr> else s)"

text \<open>
  \<open>stop()\<close>: the flags, the notification, \<open>join()\<close>. The two flags are cleared in one turn:
  \<open>push()\<close> reads only the first, the writer only the second.
\<close>

definition rw_stop_turn :: "rw_system \<Rightarrow> rw_system" where
  "rw_stop_turn s =
     (case rw_stop s of
        Stop_Idle \<Rightarrow> s\<lparr>rw_rec := br_stop_flags (rw_rec s),
          rw_stop := (if br_writer_running (rw_rec s) then Stop_Notify else Stop_Done)\<rparr>
      | Stop_Notify \<Rightarrow> (notify_writer s)\<lparr>rw_stop := Stop_Join\<rparr>
      | Stop_Join \<Rightarrow> if rw_writer s = W_Exited then s\<lparr>rw_stop := Stop_Done\<rparr> else s
      | Stop_Done \<Rightarrow> s)"

datatype rw_actor = Writer | Pusher "u8 list" u64 | Push_Notifier | Stopper | Spurious

fun rw_turn ::
  "sf_lib \<Rightarrow> (sf_event list \<Rightarrow> u64) \<Rightarrow> rw_actor \<Rightarrow> rw_system \<Rightarrow> rw_system outcome option" where
  "rw_turn lib clock Writer s = rw_writer_turn lib clock s"
| "rw_turn lib clock (Pusher data frames) s = rw_push_turn data frames s"
| "rw_turn lib clock Push_Notifier s = Some (Inr (rw_push_notify s))"
| "rw_turn lib clock Stopper s = Some (Inr (rw_stop_turn s))"
| "rw_turn lib clock Spurious s = Some (Inr (notify_writer s))"

fun rw_run ::
  "sf_lib \<Rightarrow> (sf_event list \<Rightarrow> u64) \<Rightarrow> rw_actor list \<Rightarrow> rw_system \<Rightarrow> rw_system outcome option" where
  "rw_run lib clock [] s = Some (Inr s)"
| "rw_run lib clock (a # as) s = pbind (rw_turn lib clock a s) (rw_run lib clock as)"

text \<open>Periods hold whole frames.\<close>

fun actor_ok :: "nat \<Rightarrow> rw_actor \<Rightarrow> bool" where
  "actor_ok width (Pusher data frames) \<longleftrightarrow> length data = unat frames * width \<and> length data < 2 ^ 63"
| "actor_ok width a \<longleftrightarrow> True"

lemma rw_run_append:
  "rw_run lib clock (as @ bs) = (\<lambda>s. pbind (rw_run lib clock as s) (rw_run lib clock bs))"
  by (induction as) (rule ext, simp add: pbind_assoc)+

section \<open>The recorder without its condition variable\<close>

text \<open>
  Forgetting where the writer is between two drains gives the recorder of
  \<open>Recorder_System\<close>, for which waiting is its predicate: every turn is a step of it or none.
\<close>

fun rw_abs_pc :: "rw_writer_pc \<Rightarrow> writer_pc" where
  "rw_abs_pc W_Drain = Draining"
| "rw_abs_pc W_Decide = Deciding"
| "rw_abs_pc W_Exited = Exited"
| "rw_abs_pc _ = Waiting"

definition rw_abs :: "rw_system \<Rightarrow> rec_system" where
  "rw_abs s = \<lparr>rs_rec = rw_rec s, rs_pc = rw_abs_pc (rw_writer s), rs_accepted = rw_accepted s\<rparr>"

lemma rw_abs_sel [simp]:
  "rs_rec (rw_abs s) = rw_rec s" "rs_pc (rw_abs s) = rw_abs_pc (rw_writer s)"
  "rs_accepted (rw_abs s) = rw_accepted s"
  by (simp_all add: rw_abs_def)

lemma rw_abs_init: "rw_abs (rw_init br) = rs_init br"
  by (simp add: rw_abs_def rw_init_def rs_init_def)

lemma rw_abs_notify [simp]: "rw_abs (notify_writer s) = rw_abs s"
  by (simp add: rw_abs_def notify_writer_def)

lemma rw_notify_sel [simp]:
  "rw_rec (notify_writer s) = rw_rec s" "rw_push (notify_writer s) = rw_push s"
  "rw_stop (notify_writer s) = rw_stop s" "rw_accepted (notify_writer s) = rw_accepted s"
  by (simp_all add: notify_writer_def)

lemma rw_turn_simulated:
  assumes turn: "rw_turn lib clock a s = Some (Inr t)" and a: "actor_ok (br_width (rw_rec s)) a"
  shows "rw_abs t = rw_abs s \<or> rec_step lib clock (rw_abs s) (rw_abs t)"
proof (cases a)
  case Writer
  show ?thesis
  proof (cases "rw_writer s")
    case W_Drain
    with turn Writer obtain res br where it: "br_drain_iter lib clock (rw_rec s) = Some (Inr (res, br))"
      and t: "t = s\<lparr>rw_rec := br, rw_writer := (if res = Go_On then W_Drain else W_Decide)\<rparr>"
      by (auto simp: rw_writer_turn_def pbind_Inr_iff)
    have "rec_step lib clock (rw_abs s) ((rw_abs s)\<lparr>rs_rec := br,
        rs_pc := (if res = Go_On then Draining else Deciding)\<rparr>)"
      by (rule rec_step.drain) (simp_all add: W_Drain it)
    then show ?thesis by (cases "res = Go_On") (simp_all add: t rw_abs_def)
  next
    case W_Decide
    show ?thesis
    proof (cases "br_exit (rw_rec s)")
      case True
      with W_Decide rec_step.exit [of "rw_abs s" lib clock] turn Writer
      show ?thesis by (auto simp: rw_writer_turn_def rw_abs_def)
    next
      case False
      with W_Decide rec_step.again [of "rw_abs s" lib clock] turn Writer
      show ?thesis by (auto simp: rw_writer_turn_def rw_abs_def)
    qed
  next
    case W_Test_Ring
    with rec_step.wake [of "rw_abs s" lib clock] turn Writer show ?thesis
      by (auto simp: rw_writer_turn_def rw_abs_def br_wake_def split: if_splits)
  next
    case W_Test_Stop
    with rec_step.wake [of "rw_abs s" lib clock] turn Writer show ?thesis
      by (auto simp: rw_writer_turn_def rw_abs_def br_wake_def split: if_splits)
  qed (use turn Writer in \<open>auto simp: rw_writer_turn_def rw_abs_def\<close>)
next
  case (Pusher data frames)
  show ?thesis
  proof (cases "rw_push s")
    case Push_Idle
    with turn Pusher obtain taken br where p: "br_push (rw_rec s) data frames = Inr (taken, br)"
      and t: "t = (if taken
          then s\<lparr>rw_rec := br, rw_push := Push_Notify, rw_accepted := rw_accepted s @ data\<rparr>
          else s\<lparr>rw_rec := br\<rparr>)"
      by (auto simp: rw_push_turn_def pbind_Inr_iff)
    have "rec_step lib clock (rw_abs s) ((rw_abs s)\<lparr>rs_rec := br,
        rs_accepted := rs_accepted (rw_abs s) @ (if taken then data else [])\<rparr>)"
      by (rule rec_step.push) (use a Pusher p in simp_all)
    then show ?thesis by (cases taken) (simp_all add: t rw_abs_def)
  qed (use turn Pusher in \<open>simp add: rw_push_turn_def\<close>)
next
  case Push_Notifier
  then show ?thesis using turn by (auto simp: rw_push_notify_def) (simp add: rw_abs_def notify_writer_def)
next
  case Stopper
  have flags: "rw_abs (s\<lparr>rw_rec := br_stop_flags (rw_rec s), rw_stop := p\<rparr>) =
      (rw_abs s)\<lparr>rs_rec := br_stop_flags (rs_rec (rw_abs s))\<rparr>" for p
    by (simp add: rw_abs_def)
  show ?thesis
    using turn Stopper rec_step.stop [of lib clock "rw_abs s"]
    by (cases "rw_stop s") (auto simp: rw_stop_turn_def flags, auto simp: rw_abs_def notify_writer_def)
next
  case Spurious
  then show ?thesis using turn by auto
qed

section \<open>No turn faults\<close>

lemma rw_static_width: "rs_ok br0 (rw_abs s) \<Longrightarrow> br_width (rw_rec s) = br_width br0"
  using br_static_width [of "rw_rec s" br0] by (simp add: rs_ok_def)

lemma rw_drain_ok:
  assumes "opens_succeed lib" and "rs_ok br0 (rw_abs s)" and "rw_writer s = W_Drain"
  obtains res br where "br_drain_iter lib clock (rw_rec s) = Some (Inr (res, br))"
    and "br_writer_running br = br_writer_running (rw_rec s)"
    and "if sr_filled (br_ring (rw_rec s)) = 0 then res = Ring_Empty \<and> br = rw_rec s
         else res = Go_On \<and> unat (sr_filled (br_ring br)) < unat (sr_filled (br_ring (rw_rec s)))"
proof -
  let ?A = "rw_accepted s"
  obtain R where inv: "br_inv ?A R (rw_rec s)" using assms(2,3) by (auto simp: rs_ok_def)
  have filled: "unat (sr_filled (br_ring r)) = length ?A - R'" "R' \<le> length ?A"
    if "br_inv ?A R' r" for R' r
    using that sr_holdsD(4,8) [of ?A R' "br_ring r"] by (simp_all add: br_inv_def)
  show thesis
  proof (cases "R = length ?A")
    case True
    then have "sr_filled (br_ring (rw_rec s)) = 0" using filled(1) [OF inv] by (simp add: unat_eq_0)
    then show thesis using that [OF br_drain_iter_empty [OF inv True]] by simp
  next
    case False
    obtain br R' where it: "br_drain_iter lib clock (rw_rec s) = Some (Inr (Go_On, br))"
      and inv': "br_inv ?A R' br" "R < R'" "br_params br = br_params (rw_rec s)"
      using br_drain_iter_ok [OF assms(1) inv False] by blast
    have "unat (sr_filled (br_ring br)) < unat (sr_filled (br_ring (rw_rec s)))"
      using filled [OF inv] filled [OF inv'(1)] inv'(2) by simp
    then show thesis using br_params_static [OF inv'(3)] by (intro that [OF it]) auto
  qed
qed

lemma rw_push_cases:
  assumes "rs_ok br0 (rw_abs s)" and "actor_ok (br_width br0) (Pusher data n)"
  obtains (refused) "br_push (rw_rec s) data n = Inr (False, rw_rec s)"
  | (accepted) br where "br_push (rw_rec s) data n = Inr (True, br)"
proof (cases "br_recording (rw_rec s)")
  case False
  then show thesis by (intro refused) (simp add: br_push_def)
next
  case True
  then obtain R where inv: "br_inv (rw_accepted s) R (rw_rec s)"
    using assms(1) by (auto simp: rs_ok_def split: if_splits)
  have "length data = unat n * br_width (rw_rec s)" "length data < 2 ^ 63"
    using assms(2) by (simp_all add: rw_static_width [OF assms(1)])
  from br_push_ok [OF inv this] obtain taken br where p: "br_push (rw_rec s) data n = Inr (taken, br)"
    by blast
  have "br = rw_rec s" if "\<not> taken"
  proof -
    have "sr_push (br_ring (rw_rec s)) data (n * br_bytes_per_frame (rw_rec s)) = Inr (False, br_ring br) \<and>
        br = (rw_rec s)\<lparr>br_ring := br_ring br\<rparr>"
      using p that True by (auto simp: br_push_def obind_Inr_iff)
    moreover from this have "br_ring br = br_ring (rw_rec s)"
      by (auto simp: sr_push_def Let_def obind_Inr_iff split: if_splits)
    ultimately show ?thesis by simp
  qed
  then show thesis using refused accepted p by (cases taken) auto
qed

lemma rw_turn_ok:
  assumes opens: "opens_succeed lib" and ok: "rs_ok br0 (rw_abs s)" and a: "actor_ok (br_width br0) a"
  obtains t where "rw_turn lib clock a s = Some (Inr t)" and "rs_ok br0 (rw_abs t)"
proof -
  have "\<exists>t. rw_turn lib clock a s = Some (Inr t)"
  proof (cases a)
    case Writer
    show ?thesis
    proof (cases "rw_writer s = W_Drain")
      case True
      obtain res br where "br_drain_iter lib clock (rw_rec s) = Some (Inr (res, br))"
        by (rule rw_drain_ok [OF opens ok True])
      then show ?thesis by (simp add: Writer True rw_writer_turn_def)
    qed (cases "rw_writer s"; simp add: Writer rw_writer_turn_def)
  next
    case (Pusher data n)
    have "actor_ok (br_width br0) (Pusher data n)" using a Pusher by simp
    from rw_push_cases [OF ok this] obtain taken br where
      "br_push (rw_rec s) data n = Inr (taken, br)" by metis
    then show ?thesis by (cases "rw_push s") (simp_all add: Pusher rw_push_turn_def)
  qed simp_all
  then obtain t where t: "rw_turn lib clock a s = Some (Inr t)" ..
  have "actor_ok (br_width (rw_rec s)) a" using a by (simp add: rw_static_width [OF ok])
  from rw_turn_simulated [OF t this] have "rs_ok br0 (rw_abs t)"
    using ok rs_ok_step [OF opens ok] by auto
  with t show thesis by (rule that)
qed

lemma rw_run_ok:
  assumes opens: "opens_succeed lib"
  shows "\<lbrakk>rs_ok br0 (rw_abs s); \<forall>a \<in> set as. actor_ok (br_width br0) a\<rbrakk> \<Longrightarrow>
    \<exists>t. rw_run lib clock as s = Some (Inr t) \<and> rs_ok br0 (rw_abs t)"
proof (induction as arbitrary: s)
  case (Cons a as)
  have "actor_ok (br_width br0) a" using Cons.prems(2) by simp
  from rw_turn_ok [OF opens Cons.prems(1) this] obtain u where
    "rw_turn lib clock a s = Some (Inr u)" "rs_ok br0 (rw_abs u)" .
  with Cons.IH [of u] Cons.prems(2) show ?case by simp
qed simp

section \<open>Stopping\<close>

lemma rw_push_refused:
  assumes "\<not> br_recording (rw_rec s)"
  shows "rw_push_turn data n s = Some (Inr s)"
  using assms by (cases "rw_push s") (simp_all add: rw_push_turn_def br_push_def)

text \<open>Once \<open>stop()\<close> is past its first turn \<open>writer_running_\<close> is off.\<close>

definition rw_reached :: "recorder \<Rightarrow> rw_system \<Rightarrow> bool" where
  "rw_reached br0 s \<longleftrightarrow>
     rs_ok br0 (rw_abs s) \<and> (rw_stop s \<noteq> Stop_Idle \<longrightarrow> \<not> br_writer_running (rw_rec s))"

lemma rw_reached_init:
  assumes "br_new mem_ok config rate channels bits = Inr br" and "bc_enabled config"
    and "supported_bits bits" and "channels \<noteq> 0" and "rate \<noteq> 0"
    and "bc_block_duration_seconds config \<noteq> 0"
  shows "rw_reached br (rw_init br)"
proof -
  note N = br_new_ok [OF assms(1,3-5)]
  have "rs_ok br (rw_abs (rw_init br))"
    using br_start_inv [OF assms(1,3-6)] N(16,17)
    unfolding rw_abs_init by (auto simp: rs_ok_def rs_init_def br_start_def br_static_def)
  then show ?thesis by (simp add: rw_reached_def rw_init_def)
qed

lemma rw_reached_turn:
  assumes opens: "opens_succeed lib" and r: "rw_reached br0 s" and a: "actor_ok (br_width br0) a"
  obtains t where "rw_turn lib clock a s = Some (Inr t)" and "rw_reached br0 t"
proof -
  have ok: "rs_ok br0 (rw_abs s)" using r by (simp add: rw_reached_def)
  obtain t where t: "rw_turn lib clock a s = Some (Inr t)" "rs_ok br0 (rw_abs t)"
    by (rule rw_turn_ok [OF opens ok a])
  have "\<not> br_writer_running (rw_rec t)" if stop: "rw_stop t \<noteq> Stop_Idle"
  proof (cases "a = Stopper")
    case True
    then show ?thesis using t(1) stop r
      by (auto simp: rw_reached_def rw_stop_turn_def br_stop_flags_def split: rw_stop_pc.splits if_splits)
  next
    case False
    have "rw_stop t = rw_stop s"
      using t(1) False by (cases a) (auto simp: rw_writer_turn_def rw_push_turn_def rw_push_notify_def
          pbind_Inr_iff split: rw_writer_pc.splits if_splits prod.splits)
    then have off: "\<not> br_writer_running (rw_rec s)" using r stop by (simp add: rw_reached_def)
    moreover have "br_recording (rw_rec s) = br_writer_running (rw_rec s)"
      using ok by (simp add: rs_ok_def)
    ultimately have push: "rw_push_turn data n s = Some (Inr s)" for data n
      by (intro rw_push_refused) simp
    show ?thesis
    proof (cases "a = Writer \<and> rw_writer s = W_Drain")
      case True
      obtain res br where "br_drain_iter lib clock (rw_rec s) = Some (Inr (res, br))"
        "br_writer_running br = br_writer_running (rw_rec s)"
        by (rule rw_drain_ok [OF opens ok]) (use True in simp_all)
      then show ?thesis using t(1) True off by (auto simp: rw_writer_turn_def)
    next
      case False
      then show ?thesis using t(1) off \<open>a \<noteq> Stopper\<close> push
        by (cases a) (auto simp: rw_writer_turn_def rw_push_notify_def br_close_current_file_def
            split: rw_writer_pc.splits if_splits)
    qed
  qed
  with t show thesis by (intro that [of t]) (simp_all add: rw_reached_def)
qed

lemma rw_reached_run:
  assumes opens: "opens_succeed lib"
  shows "\<lbrakk>rw_reached br0 s; \<forall>a \<in> set as. actor_ok (br_width br0) a;
    rw_run lib clock as s = Some (Inr t)\<rbrakk> \<Longrightarrow> rw_reached br0 t"
proof (induction as arbitrary: s)
  case (Cons a as)
  have "actor_ok (br_width br0) a" using Cons.prems(2) by simp
  from rw_reached_turn [OF opens Cons.prems(1) this] obtain u where
    "rw_turn lib clock a s = Some (Inr u)" "rw_reached br0 u" .
  with Cons.IH [of u] Cons.prems(2,3) show ?case by simp
qed simp

text \<open>
  \<open>stop()\<close> has reached \<open>join()\<close> and the writer is neither asleep nor past its last look at
  \<open>writer_running_\<close> before going to sleep.
\<close>

definition rw_joining :: "recorder \<Rightarrow> u8 list \<Rightarrow> rw_system \<Rightarrow> bool" where
  "rw_joining br0 A s \<longleftrightarrow>
     rs_ok br0 (rw_abs s) \<and> \<not> br_writer_running (rw_rec s) \<and> rw_accepted s = A \<and>
     rw_writer s \<notin> {W_Block, W_Asleep} \<and> rw_stop s \<in> {Stop_Join, Stop_Done}"

lemma rw_joiningD:
  assumes "rw_joining br0 A s"
  shows "rs_ok br0 (rw_abs s)" and "\<not> br_writer_running (rw_rec s)" and "\<not> br_recording (rw_rec s)"
    and "rw_accepted s = A" and "rw_writer s \<noteq> W_Block" and "rw_writer s \<noteq> W_Asleep"
    and "rw_stop s = Stop_Join \<or> rw_stop s = Stop_Done"
  using assms by (auto simp: rw_joining_def rs_ok_def)

text \<open>How many turns the writer still needs.\<close>

definition stop_work :: "rw_system \<Rightarrow> nat" where
  "stop_work s =
     (let k = unat (sr_filled (br_ring (rw_rec s))) in
      case rw_writer s of
        W_Exited \<Rightarrow> 0
      | W_Decide \<Rightarrow> if k = 0 then 1 else k + 5
      | W_Drain \<Rightarrow> k + 2
      | W_Test_Stop \<Rightarrow> k + 3
      | _ \<Rightarrow> k + 4)"

lemma stop_work_le: "stop_work s \<le> unat (sr_filled (br_ring (rw_rec s))) + 5"
  by (simp add: stop_work_def Let_def split: rw_writer_pc.split)

lemma rw_joining_writer:
  assumes opens: "opens_succeed lib" and j: "rw_joining br0 A s"
  obtains t where "rw_turn lib clock Writer s = Some (Inr t)" and "rw_joining br0 A t"
    and "stop_work t \<le> stop_work s - 1"
proof -
  note J = rw_joiningD [OF j]
  obtain t where t: "rw_turn lib clock Writer s = Some (Inr t)" "rs_ok br0 (rw_abs t)"
    by (rule rw_turn_ok [OF opens J(1), of Writer]) simp_all
  have "\<not> br_writer_running (rw_rec t) \<and> rw_accepted t = A \<and> rw_writer t \<notin> {W_Block, W_Asleep} \<and>
      rw_stop t = rw_stop s \<and> stop_work t \<le> stop_work s - 1"
  proof (cases "rw_writer s")
    case W_Drain
    obtain res br where "br_drain_iter lib clock (rw_rec s) = Some (Inr (res, br))"
      "br_writer_running br = br_writer_running (rw_rec s)"
      "if sr_filled (br_ring (rw_rec s)) = 0 then res = Ring_Empty \<and> br = rw_rec s
       else res = Go_On \<and> unat (sr_filled (br_ring br)) < unat (sr_filled (br_ring (rw_rec s)))"
      by (rule rw_drain_ok [OF opens J(1) W_Drain])
    with t(1) W_Drain J(2,4) show ?thesis
      by (cases "sr_filled (br_ring (rw_rec s)) = 0")
        (auto simp: rw_writer_turn_def stop_work_def Let_def)
  next
    case W_Decide
    have "br_exit (rw_rec s) \<longleftrightarrow> unat (sr_filled (br_ring (rw_rec s))) = 0"
      using J(2) by (simp add: br_exit_def sr_filled_def unat_eq_0)
    with t(1) W_Decide J(2,4) show ?thesis
      by (auto simp: rw_writer_turn_def stop_work_def Let_def br_close_current_file_def split: if_splits)
  qed (use t(1) J in \<open>auto simp: rw_writer_turn_def stop_work_def Let_def split: if_splits\<close>)
  then have "rw_joining br0 A t" "stop_work t \<le> stop_work s - 1"
    using t(2) J(7) by (auto simp: rw_joining_def)
  with t(1) show thesis by (rule that)
qed

lemma rw_joining_turn:
  assumes opens: "opens_succeed lib" and j: "rw_joining br0 A s" and a: "actor_ok (br_width br0) a"
  obtains t where "rw_turn lib clock a s = Some (Inr t)" and "rw_joining br0 A t"
    and "stop_work t \<le> stop_work s - (if a = Writer then 1 else 0)"
proof (cases "a = Writer")
  case True
  with rw_joining_writer [OF opens j] that show thesis by auto
next
  case False
  note J = rw_joiningD [OF j]
  note push = rw_push_refused [OF J(3)]
  obtain t where t: "rw_turn lib clock a s = Some (Inr t)" "rs_ok br0 (rw_abs t)"
    by (rule rw_turn_ok [OF opens J(1) a])
  from t(1) False J have "rw_rec t = rw_rec s \<and> rw_accepted t = A \<and> rw_writer t = rw_writer s \<and>
      rw_stop t \<in> {Stop_Join, Stop_Done}"
    by (cases a) (auto simp: push rw_push_notify_def rw_stop_turn_def notify_writer_def split: if_splits)
  then have "rw_joining br0 A t" "stop_work t = stop_work s"
    using t(2) J by (auto simp: rw_joining_def stop_work_def)
  with t(1) show thesis by (intro that [of t]) (use False in auto)
qed

lemma rw_joining_run:
  assumes opens: "opens_succeed lib"
  shows "\<lbrakk>rw_joining br0 A s; \<forall>a \<in> set as. actor_ok (br_width br0) a\<rbrakk> \<Longrightarrow>
    \<exists>t. rw_run lib clock as s = Some (Inr t) \<and> rw_joining br0 A t \<and>
        stop_work t \<le> stop_work s - count_list as Writer"
proof (induction as arbitrary: s)
  case (Cons a as)
  have "actor_ok (br_width br0) a" using Cons.prems(2) by simp
  from rw_joining_turn [OF opens Cons.prems(1) this] obtain u where
    u: "rw_turn lib clock a s = Some (Inr u)" "rw_joining br0 A u"
    "stop_work u \<le> stop_work s - (if a = Writer then 1 else 0)" .
  with Cons.IH [of u] Cons.prems(2) show ?case by (force split: if_splits)
qed simp

lemma blocks_shape_closed: "blocks_shape B w True fs \<Longrightarrow> \<forall>f \<in> set fs. snd (snd f)"
  unfolding blocks_shape_def by (fastforce simp: full_block_def)

lemma rw_joining_done:
  assumes opens: "opens_succeed lib" and j: "rw_joining br0 A s"
    and more: "\<forall>a \<in> set as. actor_ok (br_width br0) a" "stop_work s \<le> count_list as Writer"
  shows "\<exists>t. rw_run lib clock (as @ [Stopper]) s = Some (Inr t) \<and> rw_stop t = Stop_Done \<and>
     recorded (files_of (rw_rec t)) = A \<and> (\<forall>f \<in> set (files_of (rw_rec t)). snd (snd f))"
proof -
  obtain t where t: "rw_run lib clock as s = Some (Inr t)" "rw_joining br0 A t" "stop_work t = 0"
    using rw_joining_run [OF opens j more(1), of clock] more(2) by auto
  then have ex: "rw_writer t = W_Exited"
    by (auto simp: stop_work_def Let_def split: rw_writer_pc.splits if_splits)
  note J = rw_joiningD [OF t(2)]
  have "recorded (files_of (rw_rec t)) = A"
    "blocks_shape (br_block br0) (br_width br0) True (files_of (rw_rec t))"
    using J(1,4) ex by (simp_all add: rs_ok_def)
  moreover note blocks_shape_closed [OF this(2)]
  moreover have "rw_stop (rw_stop_turn t) = Stop_Done" "rw_rec (rw_stop_turn t) = rw_rec t"
    using J(7) ex by (auto simp: rw_stop_turn_def)
  ultimately show ?thesis by (simp add: rw_run_append t(1))
qed

text \<open>
  C9: \<open>stop()\<close> returns, with everything flushed. If \<open>stop()\<close> has reached \<open>join()\<close> and
  the writer is neither asleep nor about to block, then whatever the threads do next in whatever order
  (later periods and spurious wakeups included), once the writer has had five turns more than there
  are bytes in the ring \<open>stop()\<close> returns, every accepted byte is in a file, and all
  files are closed.
\<close>

theorem recorder_stop_returns:
  assumes "br_new mem_ok config rate channels bits = Inr br" and "bc_enabled config"
    and "supported_bits bits" and "channels \<noteq> 0" and "rate \<noteq> 0"
    and "bc_block_duration_seconds config \<noteq> 0" and "opens_succeed lib"
    and "\<forall>a \<in> set before. actor_ok (unat channels * bytes_of_bits bits) a"
    and "rw_run lib clock before (rw_init br) = Some (Inr s)"
    and "rw_stop s = Stop_Join" and "rw_writer s \<notin> {W_Block, W_Asleep}"
    and "\<forall>a \<in> set after. actor_ok (unat channels * bytes_of_bits bits) a"
    and "unat (sr_filled (br_ring (rw_rec s))) + 5 \<le> count_list after Writer"
  shows "\<exists>t. rw_run lib clock (after @ [Stopper]) s = Some (Inr t) \<and> rw_stop t = Stop_Done \<and>
     recorded (files_of (rw_rec t)) = rw_accepted s \<and>
     (\<forall>f \<in> set (files_of (rw_rec t)). snd (snd f))"
proof -
  note N = br_new_ok [OF assms(1,3-5)]
  have "rw_reached br s"
    by (rule rw_reached_run [OF assms(7) rw_reached_init [OF assms(1-6)] _ assms(9)])
      (use assms(8) in \<open>simp add: N(1)\<close>)
  then have "rw_joining br (rw_accepted s) s"
    using assms(10,11) by (auto simp: rw_reached_def rw_joining_def)
  from rw_joining_done [OF assms(7) this] show ?thesis
    using assms(12,13) stop_work_le [of s] by (simp add: N(1))
qed

theorem recorder_stop_returns_witness:
  "\<exists>br s t. br_new (\<lambda>n. True) demo_config 16000 1 16 = Inr br \<and>
     rw_run reliable_lib (\<lambda>calls. 0) [Pusher [1, 2] 1, Push_Notifier, Stopper, Stopper] (rw_init br) =
       Some (Inr s) \<and>
     rw_run reliable_lib (\<lambda>calls. 0) (replicate 7 Writer @ [Stopper]) s = Some (Inr t) \<and>
     rw_stop t = Stop_Done \<and> recorded (files_of (rw_rec t)) = [1, 2]"
proof -
  have b: "supported_bits 16" by (simp add: supported_bits_def)
  have n: "(1 :: u16) \<noteq> 0" "(16000 :: u32) \<noteq> 0" "bc_block_duration_seconds demo_config \<noteq> 0"
    "bc_enabled demo_config" by (simp_all add: demo_config_def)
  obtain br where br: "br_new (\<lambda>n. True) demo_config 16000 1 16 = Inr br" by (rule demo_recorder [OF b])
  note N = br_new_ok [OF br b n(1,2)]
  have inv: "br_inv [] 0 (br_start br)" by (rule br_start_inv [OF br b n(1-3)])
  have w: "br_width (br_start br) = 2"
    using N(1) by (simp add: br_start_def br_width_def bytes_of_bits_def)
  have st: "br_recording (br_start br)" "br_writer_running (br_start br)"
    "br_ring (br_start br) = br_ring br"
    by (simp_all add: br_start_def N(18) n(4))
  have "128000 \<le> unat (sr_capacity (br_ring br))"
    using N(7) by (simp add: second_bytes_def bytes_of_bits_def)
  with br_push_ok [OF inv, of "[1, 2]" 1] obtain br' where
    p: "br_push (br_start br) [1, 2] 1 = Inr (True, br')" "br_inv [1, 2] 0 br'" "br_writer_running br'"
    using w st by auto
  let ?s = "\<lparr>rw_rec = br_stop_flags br', rw_writer = W_Test_Ring, rw_push = Push_Idle,
      rw_stop = Stop_Join, rw_accepted = [1, 2]\<rparr>"
  have run: "rw_run reliable_lib (\<lambda>calls. 0) [Pusher [1, 2] 1, Push_Notifier, Stopper, Stopper] (rw_init br) =
      Some (Inr ?s)"
    using p(1,3) by (simp add: rw_init_def rw_push_turn_def rw_push_notify_def rw_stop_turn_def notify_writer_def)
  have "unat (sr_filled (br_ring (br_stop_flags br'))) = 2"
    using p(2) sr_holdsD(8) [of "[1, 2]" 0 "br_ring br'"] by (simp add: br_inv_def br_stop_flags_def)
  moreover have "count_list (replicate k Writer) Writer = k" for k by (induction k) auto
  ultimately have turns: "unat (sr_filled (br_ring (rw_rec ?s))) + 5 \<le> count_list (replicate 7 Writer) Writer"
    by simp
  have "\<exists>t. rw_run reliable_lib (\<lambda>calls. 0) (replicate 7 Writer @ [Stopper]) ?s = Some (Inr t) \<and>
      rw_stop t = Stop_Done \<and> recorded (files_of (rw_rec t)) = rw_accepted ?s \<and>
      (\<forall>f \<in> set (files_of (rw_rec t)). snd (snd f))"
    by (rule recorder_stop_returns [OF br n(4) b n(1-3) demo_opens _ run _ _ _ turns])
      (simp_all add: bytes_of_bits_def in_set_replicate)
  then obtain t where t: "rw_run reliable_lib (\<lambda>calls. 0) (replicate 7 Writer @ [Stopper]) ?s = Some (Inr t)"
    "rw_stop t = Stop_Done" "recorded (files_of (rw_rec t)) = [1, 2]"
    unfolding rw_system.simps by blast
  with br run show ?thesis by blast
qed

section \<open>Lost wakeups\<close>

text \<open>The writer is asleep or about to be, and no notification is on its way.\<close>

definition rw_hung :: "rw_system \<Rightarrow> bool" where
  "rw_hung s \<longleftrightarrow> rw_writer s \<in> {W_Block, W_Asleep} \<and> rw_push s = Push_Idle \<and>
     rw_stop s = Stop_Join \<and> \<not> br_recording (rw_rec s)"

lemma rw_hung_run:
  "\<lbrakk>rw_hung s; Spurious \<notin> set as\<rbrakk> \<Longrightarrow> \<exists>t. rw_run lib clock as s = Some (Inr t) \<and> rw_hung t"
proof (induction as arbitrary: s)
  case (Cons a as)
  have h: "\<not> br_recording (rw_rec s)" "rw_writer s = W_Block \<or> rw_writer s = W_Asleep"
    "rw_push s = Push_Idle" "rw_stop s = Stop_Join"
    using Cons.prems(1) by (auto simp: rw_hung_def)
  have "\<exists>u. rw_turn lib clock a s = Some (Inr u) \<and> rw_hung u"
    using Cons.prems h
    by (cases a) (auto simp: rw_hung_def rw_writer_turn_def rw_push_refused [OF h(1)]
        rw_push_notify_def rw_stop_turn_def)
  with Cons.IH Cons.prems(2) show ?case by auto
qed simp

lemma rw_first_looks:
  assumes "br_new mem_ok config rate channels bits = Inr br" and "bc_enabled config"
    and "supported_bits bits" and "channels \<noteq> 0" and "rate \<noteq> 0"
  shows "rw_run lib clock [Writer, Writer] (rw_init br) = Some (Inr ((rw_init br)\<lparr>rw_writer := W_Block\<rparr>))"
proof -
  note N = br_new_ok [OF assms(1,3-5)]
  have "unat (sr_filled (br_ring br)) = 0" using sr_holdsD(8) [OF N(6)] by simp
  moreover have "0 < unat (br_flush_threshold br)" by (simp add: N(4))
  ultimately have "\<not> br_flush_threshold br \<le> sr_filled (br_ring br)" by (simp add: word_le_nat_alt)
  then show ?thesis
    by (simp add: rw_init_def rw_writer_turn_def br_start_def N(18) assms(2))
qed

text \<open>
  C15: \<open>stop()\<close> can hang. If the writer has found too little in the ring and the recorder running
  when \<open>stop()\<close> clears the flags and notifies, it is not asleep yet and the notification is lost:
  unless there is a spurious wakeup, it goes to sleep and \<open>join()\<close> never returns, whatever
  the threads do. So it is for every recorder, right after \<open>start()\<close>.
\<close>

theorem recorder_stop_can_hang:
  assumes "br_new mem_ok config rate channels bits = Inr br" and "bc_enabled config"
    and "supported_bits bits" and "channels \<noteq> 0" and "rate \<noteq> 0"
    and "Spurious \<notin> set after"
  shows "\<exists>t. rw_run lib clock ([Writer, Writer, Stopper, Stopper] @ after) (rw_init br) = Some (Inr t) \<and>
     rw_stop t = Stop_Join \<and> rw_writer t \<noteq> W_Exited"
proof -
  let ?s = "(rw_init br)\<lparr>rw_writer := W_Block\<rparr>"
  have run: "br_writer_running (rw_rec ?s)"
    using br_new_ok(18) [OF assms(1,3-5)] assms(2) by (simp add: rw_init_def br_start_def)
  let ?h = "rw_stop_turn (rw_stop_turn ?s)"
  have "rw_hung ?h"
    using run by (simp add: rw_hung_def rw_stop_turn_def rw_init_def notify_writer_def br_stop_flags_def)
  from rw_hung_run [OF this assms(6)] obtain t where
    t: "rw_run lib clock after ?h = Some (Inr t)" "rw_hung t" by blast
  have "rw_run lib clock ([Writer, Writer] @ Stopper # Stopper # after) (rw_init br) = Some (Inr t)"
    unfolding rw_run_append rw_first_looks [OF assms(1-5)] by (simp add: t(1))
  with t(2) show ?thesis by (auto simp: rw_hung_def)
qed

theorem recorder_stop_can_hang_witness:
  "\<exists>br t. br_new (\<lambda>n. True) demo_config 16000 1 16 = Inr br \<and>
     rw_run reliable_lib (\<lambda>calls. 0)
       ([Writer, Writer, Stopper, Stopper] @ replicate 1000000 Writer @ [Stopper]) (rw_init br) = Some (Inr t) \<and>
     rw_stop t = Stop_Join \<and> rw_writer t \<noteq> W_Exited"
proof -
  have b: "supported_bits 16" by (simp add: supported_bits_def)
  have n: "bc_enabled demo_config" "(1 :: u16) \<noteq> 0" "(16000 :: u32) \<noteq> 0"
    by (simp_all add: demo_config_def)
  obtain br where br: "br_new (\<lambda>n. True) demo_config 16000 1 16 = Inr br" by (rule demo_recorder [OF b])
  have "Spurious \<notin> set (replicate 1000000 Writer @ [Stopper])"
    by (simp add: in_set_replicate)
  from recorder_stop_can_hang [OF br n(1) b n(2,3) this] br show ?thesis by blast
qed

section \<open>A recording that stalls\<close>

lemma rw_fill:
  fixes n :: u64
  assumes N: "br_inv [] 0 (br_start br)" "br_recording (br_start br)" "br_calls (br_start br) = []"
    and d: "length data = unat n * br_width br" "length data < 2 ^ 63"
  shows "k * length data \<le> unat (sr_capacity (br_ring br)) \<Longrightarrow>
    \<exists>s. rw_run lib clock (concat (replicate k [Pusher data n, Push_Notifier]))
          ((rw_init br)\<lparr>rw_writer := W_Block\<rparr>) = Some (Inr s) \<and>
        length (rw_accepted s) = k * length data \<and> br_inv (rw_accepted s) 0 (rw_rec s) \<and>
        br_static (rw_rec s) = br_static br \<and> br_recording (rw_rec s) \<and> br_calls (rw_rec s) = [] \<and>
        rw_writer s = W_Block \<and> rw_push s = Push_Idle \<and> rw_stop s = Stop_Idle"
proof (induction k)
  case 0
  then show ?case using N by (simp add: rw_init_def br_start_def br_static_def)
next
  case (Suc k)
  then obtain s where s: "rw_run lib clock (concat (replicate k [Pusher data n, Push_Notifier]))
        ((rw_init br)\<lparr>rw_writer := W_Block\<rparr>) = Some (Inr s)"
    and S: "length (rw_accepted s) = k * length data" "br_inv (rw_accepted s) 0 (rw_rec s)"
      "br_static (rw_rec s) = br_static br" "br_recording (rw_rec s)" "br_calls (rw_rec s) = []"
      "rw_writer s = W_Block" "rw_push s = Push_Idle" "rw_stop s = Stop_Idle" by auto
  have w: "length data = unat n * br_width (rw_rec s)" using d(1) br_static_width [OF S(3)] by simp
  have "length (rw_accepted s) - 0 + length data \<le> unat (sr_capacity (br_ring (rw_rec s)))"
    using S(1,3) Suc.prems by (simp add: br_static_def)
  with br_push_ok [OF S(2) w d(2)] S(4) obtain br' where
    p: "br_push (rw_rec s) data n = Inr (True, br')" "br_inv (rw_accepted s @ data) 0 br'"
      "br_static br' = br_static br" "br_recording br'" using S(3) by auto
  have c: "br_calls br' = []" using p(1) S(5) by (auto simp: br_push_def obind_Inr_iff split: if_splits)
  let ?t = "s\<lparr>rw_rec := br', rw_accepted := rw_accepted s @ data\<rparr>"
  have "rw_run lib clock [Pusher data n, Push_Notifier] s = Some (Inr ?t)"
    by (simp add: rw_push_turn_def S p(1) rw_push_notify_def notify_writer_def)
  moreover have "concat (replicate (Suc k) [Pusher data n, Push_Notifier]) =
      concat (replicate k [Pusher data n, Push_Notifier]) @ [Pusher data n, Push_Notifier]"
    by (simp add: replicate_append_same [symmetric])
  ultimately have "rw_run lib clock (concat (replicate (Suc k) [Pusher data n, Push_Notifier]))
      ((rw_init br)\<lparr>rw_writer := W_Block\<rparr>) = Some (Inr ?t)"
    by (simp only: rw_run_append s pbind_simps)
  then show ?case by (intro exI [of _ ?t]) (simp add: S p c)
qed



end
