(* ===== verification/Sample_Publisher.thy ===== *)
theory Sample_Publisher
  imports Prelude
begin

text \<open>
  \<open>SamplePublisher\<close> (include/audio_daemon/sample_publisher.hpp,
  src/sharing/sample_publisher.cpp) and the way its clients read the shared segment
  (examples/audio_consumer.cpp, examples/audiod-mon.cpp). The segment is the list of its
  bytes; POSIX shared memory is the parameter \<open>px\<close>.
\<close>

section \<open>Little-endian words\<close>

definition le_store :: "nat \<Rightarrow> 'a::len word \<Rightarrow> u8 list" where
  "le_store n w = map (\<lambda>k. ucast (drop_bit (8 * k) w)) [0..<n]"

fun le_load :: "u8 list \<Rightarrow> 'a::len word" where
  "le_load [] = 0"
| "le_load (b # bs) = ucast b OR push_bit 8 (le_load bs)"

lemma length_le_store [simp]: "length (le_store n w) = n"
  by (simp add: le_store_def)

lemma byte_bits: "8 \<le> n \<Longrightarrow> \<not> bit (x :: u8) n"
  by (auto dest: bit_imp_le_length)

lemma bit_le_load:
  "bit (le_load bs :: 'a::len word) i \<longleftrightarrow>
     i < LENGTH('a) \<and> i div 8 < length bs \<and> bit (bs ! (i div 8)) (i mod 8)"
proof (induction bs arbitrary: i)
  case Nil
  then show ?case by simp
next
  case (Cons b bs)
  show ?case
  proof (cases "i < 8")
    case True
    then show ?thesis by (simp add: bit_simps not_le)
  next
    case False
    then obtain j where j: "i = j + 8" by (metis add.commute le_Suc_ex not_less)
    have "(j + 8) div 8 = Suc (j div 8)" by simp
    then show ?thesis
      using Cons.IH [of j] by (auto simp: j bit_simps byte_bits simp del: div_add_self2)
  qed
qed

lemma le_load_store:
  assumes "LENGTH('a) \<le> 8 * n"
  shows "le_load (le_store n (w :: 'a::len word)) = w"
proof (rule bit_word_eqI)
  fix i assume "i < LENGTH('a)"
  then have "i div 8 < n" using assms by linarith
  moreover have "8 * (i div 8) + i mod 8 = i" by simp
  ultimately show "bit (le_load (le_store n w) :: 'a word) i = bit w i"
    using \<open>i < LENGTH('a)\<close> by (simp add: bit_le_load le_store_def bit_simps)
qed

section \<open>The publisher\<close>

definition shm_header_size :: u64 where "shm_header_size = 64"
definition shm_magic :: u32 where "shm_magic = 0x41554449"

record publisher =
  sp_shm_name :: string
  sp_sample_rate :: u32
  sp_channels :: u16
  sp_bits_per_sample :: u16
  sp_period_frames :: u32
  sp_shm_fd :: int
  sp_shm_ptr :: "u8 list option"
  sp_shm_size :: u64
  sp_write_counter :: u64

text \<open>\<open>shm_open\<close>, \<open>ftruncate\<close> and \<open>mmap\<close> (\<open>None\<close> is \<open>MAP_FAILED\<close>).\<close>

record posix_shm =
  px_open :: "string \<Rightarrow> int"
  px_ftruncate :: "int \<Rightarrow> u64 \<Rightarrow> int"
  px_mmap :: "int \<Rightarrow> u64 \<Rightarrow> u8 list option"

definition sp_new :: "string \<Rightarrow> u32 \<Rightarrow> u16 \<Rightarrow> u16 \<Rightarrow> u32 \<Rightarrow> publisher" where
  "sp_new shm_name rate channels bits period =
     \<lparr>sp_shm_name = shm_name, sp_sample_rate = rate, sp_channels = channels,
      sp_bits_per_sample = bits, sp_period_frames = period, sp_shm_fd = -1,
      sp_shm_ptr = None, sp_shm_size = 0, sp_write_counter = 0\<rparr>"

text \<open>A sequence of stores at byte offsets.\<close>

fun store_all :: "u8 list \<Rightarrow> (nat \<times> u8 list) list \<Rightarrow> u8 list outcome" where
  "store_all mem [] = Inr mem"
| "store_all mem ((off, bs) # sts) = obind (store_range mem off bs) (\<lambda>mem'. store_all mem' sts)"

definition sp_header_stores :: "publisher \<Rightarrow> (nat \<times> u8 list) list" where
  "sp_header_stores sp =
     [(0, replicate (unat shm_header_size) 0),
      (0, le_store 4 shm_magic),
      (4, le_store 4 (sp_sample_rate sp)),
      (8, le_store 2 (sp_channels sp)),
      (10, le_store 2 (sp_bits_per_sample sp)),
      (12, le_store 4 (sp_period_frames sp))]"

definition sp_initialize :: "posix_shm \<Rightarrow> publisher \<Rightarrow> (bool \<times> publisher) outcome" where
  "sp_initialize px sp =
     (let data_size = ucast (sp_period_frames sp) * ucast (sp_channels sp) *
                      of_nat (unat (sp_bits_per_sample sp) div 8);
          sp1 = sp\<lparr>sp_shm_size := shm_header_size + data_size,
                   sp_shm_fd := px_open px (sp_shm_name sp)\<rparr>
      in if sp_shm_fd sp1 < 0 then Inr (False, sp1)
         else if px_ftruncate px (sp_shm_fd sp1) (sp_shm_size sp1) < 0
         then Inr (False, sp1\<lparr>sp_shm_fd := -1\<rparr>)
         else case px_mmap px (sp_shm_fd sp1) (sp_shm_size sp1) of
                None \<Rightarrow> Inr (False, sp1\<lparr>sp_shm_fd := -1, sp_shm_ptr := None\<rparr>)
              | Some mem \<Rightarrow> obind (store_all mem (sp_header_stores sp))
                  (\<lambda>mem'. Inr (True, sp1\<lparr>sp_shm_ptr := Some mem'\<rparr>)))"

text \<open>
  \<open>publish\<close>: time stamp, samples, and last the counter. \<open>data\<close> is the memory behind the
  source pointer.
\<close>

definition sp_publish_bytes :: "publisher \<Rightarrow> u64 \<Rightarrow> u64" where
  "sp_publish_bytes sp frame_count =
     (let bytes = frame_count * ucast (sp_channels sp) * of_nat (unat (sp_bits_per_sample sp) div 8);
          max_bytes = sp_shm_size sp - shm_header_size
      in if bytes > max_bytes then max_bytes else bytes)"

definition sp_publish_stores :: "publisher \<Rightarrow> u8 list \<Rightarrow> u64 \<Rightarrow> (nat \<times> u8 list) list" where
  "sp_publish_stores sp samples timestamp_us =
     [(24, le_store 8 timestamp_us),
      (unat shm_header_size, samples),
      (16, le_store 8 (sp_write_counter sp + 1))]"

definition sp_publish :: "publisher \<Rightarrow> u8 list \<Rightarrow> u64 \<Rightarrow> u64 \<Rightarrow> publisher outcome" where
  "sp_publish sp data frame_count timestamp_us =
     (case sp_shm_ptr sp of
        None \<Rightarrow> Inr sp
      | Some mem \<Rightarrow>
          obind (load_range data 0 (unat (sp_publish_bytes sp frame_count))) (\<lambda>samples.
          obind (store_all mem (sp_publish_stores sp samples timestamp_us)) (\<lambda>mem'.
          Inr (sp\<lparr>sp_shm_ptr := Some mem', sp_write_counter := sp_write_counter sp + 1\<rparr>))))"

definition sp_cleanup :: "publisher \<Rightarrow> publisher" where
  "sp_cleanup sp =
     (let sp1 = (if sp_shm_ptr sp \<noteq> None then sp\<lparr>sp_shm_ptr := None\<rparr> else sp)
      in if 0 \<le> sp_shm_fd sp1 then sp1\<lparr>sp_shm_fd := -1\<rparr> else sp1)"

section \<open>The client\<close>

text \<open>The parameters a client reads from the header; \<open>None\<close> is a wrong magic number.\<close>

record stream_info =
  si_sample_rate :: u32
  si_channels :: u16
  si_bits :: u16
  si_period_frames :: u32

definition shm_attach :: "u8 list \<Rightarrow> stream_info option outcome" where
  "shm_attach seg =
     obind (load_range seg 0 4) (\<lambda>magic.
     if le_load magic \<noteq> shm_magic then Inr None
     else obind (load_range seg 4 4) (\<lambda>rate.
          obind (load_range seg 8 2) (\<lambda>channels.
          obind (load_range seg 10 2) (\<lambda>bits.
          obind (load_range seg 12 4) (\<lambda>period.
          Inr (Some \<lparr>si_sample_rate = le_load rate, si_channels = le_load channels,
                     si_bits = le_load bits, si_period_frames = le_load period\<rparr>))))))"

definition shm_counter :: "u8 list \<Rightarrow> u64 outcome" where
  "shm_counter seg = obind (load_range seg 16 8) (\<lambda>c. Inr (le_load c))"

text \<open>The client's poll: a changed counter announces a new period.\<close>

definition shm_poll :: "u8 list \<Rightarrow> u64 \<Rightarrow> (bool \<times> u64) outcome" where
  "shm_poll seg last_counter =
     obind (shm_counter seg) (\<lambda>counter.
       Inr (if counter \<noteq> last_counter then (True, counter) else (False, last_counter)))"

text \<open>The samples a client takes from the segment: always a whole period.\<close>

definition shm_samples :: "stream_info \<Rightarrow> u8 list \<Rightarrow> u8 list outcome" where
  "shm_samples si seg =
     load_range seg (unat shm_header_size)
       (unat (si_period_frames si) * unat (si_channels si) * (unat (si_bits si) div 8))"

section \<open>Fields of a segment\<close>

text \<open>The interface: a field with an encoder and a decoder of fixed size.\<close>

locale wire_field =
  fixes enc :: "'v \<Rightarrow> u8 list" and dec :: "u8 list \<Rightarrow> 'v" and size :: nat
  assumes enc_size: "length (enc v) = size"
    and dec_enc: "dec (enc v) = v"
begin

lemma get_after_put:
  assumes "store_range mem off (enc v) = Inr mem'"
  shows "dec (region mem' off size) = v"
  using region_stored(1) [OF assms] by (simp add: enc_size dec_enc)

lemma get_elsewhere:
  assumes "store_range mem off (enc v) = Inr mem'" and "off' + n \<le> off \<or> off + size \<le> off'"
  shows "region mem' off' n = region mem off' n"
  using region_stored(3) [OF assms(1)] assms(2) by (simp add: enc_size)

lemma put_ok:
  assumes "off + size \<le> length mem"
  shows "\<exists>mem'. store_range mem off (enc v) = Inr mem' \<and> length mem' = length mem"
proof -
  have "off + length (enc v) \<le> length mem" using assms by (simp add: enc_size)
  then obtain mem' where "store_range mem off (enc v) = Inr mem'" by (simp add: store_range_def)
  with region_stored(2) [OF this] show ?thesis by blast
qed

end

interpretation f8: wire_field "le_store 8 :: u64 \<Rightarrow> u8 list" le_load 8
  by unfold_locales (simp_all add: le_load_store)

interpretation f4: wire_field "le_store 4 :: u32 \<Rightarrow> u8 list" le_load 4
  by unfold_locales (simp_all add: le_load_store)

interpretation f2: wire_field "le_store 2 :: u16 \<Rightarrow> u8 list" le_load 2
  by unfold_locales (simp_all add: le_load_store)

section \<open>Initialisation\<close>

text \<open>What the segment says, read at the offsets of the documented layout.\<close>

definition seg_info :: "u8 list \<Rightarrow> stream_info" where
  "seg_info seg = \<lparr>si_sample_rate = le_load (region seg 4 4), si_channels = le_load (region seg 8 2),
     si_bits = le_load (region seg 10 2), si_period_frames = le_load (region seg 12 4)\<rparr>"

lemma shm_attach_region:
  assumes "64 \<le> length seg"
  shows "shm_attach seg =
    Inr (if (le_load (region seg 0 4) :: u32) = shm_magic then Some (seg_info seg) else None)"
  using assms by (simp add: shm_attach_def load_region seg_info_def)

lemma shm_counter_region: "64 \<le> length seg \<Longrightarrow> shm_counter seg = Inr (le_load (region seg 16 8))"
  by (simp add: shm_counter_def load_region)

definition sp_info :: "publisher \<Rightarrow> stream_info" where
  "sp_info sp = \<lparr>si_sample_rate = sp_sample_rate sp, si_channels = sp_channels sp,
     si_bits = sp_bits_per_sample sp, si_period_frames = sp_period_frames sp\<rparr>"

definition sp_data_bytes :: "publisher \<Rightarrow> nat" where
  "sp_data_bytes sp = unat (sp_period_frames sp) * unat (sp_channels sp) * (unat (sp_bits_per_sample sp) div 8)"

lemma header_stored:
  assumes "64 \<le> length mem"
  shows "\<exists>seg. store_all mem (sp_header_stores sp) = Inr seg \<and> length seg = length mem \<and>
    (le_load (region seg 0 4) :: u32) = shm_magic \<and> seg_info seg = sp_info sp \<and>
    (le_load (region seg 16 8) :: u64) = 0"
proof -
  obtain m0 where m0: "store_range mem 0 (replicate 64 (0 :: u8)) = Inr m0"
    using assms by (simp add: store_range_def)
  have l0: "length m0 = length mem" and z: "region m0 0 64 = replicate 64 0"
    using region_stored(1,2) [OF m0] by simp_all
  obtain m1 where m1: "store_range m0 0 (le_store 4 shm_magic) = Inr m1" "length m1 = length mem"
    using f4.put_ok [of 0 m0 shm_magic] assms l0 by auto
  obtain m2 where m2: "store_range m1 4 (le_store 4 (sp_sample_rate sp)) = Inr m2" "length m2 = length mem"
    using f4.put_ok [of 4 m1 "sp_sample_rate sp"] assms m1(2) by auto
  obtain m3 where m3: "store_range m2 8 (le_store 2 (sp_channels sp)) = Inr m3" "length m3 = length mem"
    using f2.put_ok [of 8 m2 "sp_channels sp"] assms m2(2) by auto
  obtain m4 where m4: "store_range m3 10 (le_store 2 (sp_bits_per_sample sp)) = Inr m4" "length m4 = length mem"
    using f2.put_ok [of 10 m3 "sp_bits_per_sample sp"] assms m3(2) by auto
  obtain m5 where m5: "store_range m4 12 (le_store 4 (sp_period_frames sp)) = Inr m5" "length m5 = length mem"
    using f4.put_ok [of 12 m4 "sp_period_frames sp"] assms m4(2) by auto
  note keep = f4.get_elsewhere [OF m1(1)] f4.get_elsewhere [OF m2(1)] f2.get_elsewhere [OF m3(1)]
    f2.get_elsewhere [OF m4(1)] f4.get_elsewhere [OF m5(1)]
  have "region m5 0 4 = region m1 0 4" "region m5 4 4 = region m2 4 4" "region m5 8 2 = region m3 8 2"
    "region m5 10 2 = region m4 10 2" "region m5 16 8 = region m0 16 8"
    by (simp_all add: keep)
  moreover have "region m0 16 8 = take 8 (drop 16 (region m0 0 64))"
    by (simp add: region_def drop_take)
  then have "region m0 16 8 = replicate 8 0" by (simp add: z)
  then have "(le_load (region m0 16 8) :: u64) = 0" by (simp add: numeral_eq_Suc)
  ultimately have "(le_load (region m5 0 4) :: u32) = shm_magic \<and> seg_info m5 = sp_info sp \<and>
      (le_load (region m5 16 8) :: u64) = 0"
    using f4.get_after_put [OF m1(1)] f4.get_after_put [OF m2(1)] f2.get_after_put [OF m3(1)]
      f2.get_after_put [OF m4(1)] f4.get_after_put [OF m5(1)]
    by (simp add: seg_info_def sp_info_def)
  moreover have "store_all mem (sp_header_stores sp) = Inr m5"
    using m0 m1(1) m2(1) m3(1) m4(1) m5(1)
    by (simp add: sp_header_stores_def shm_header_size_def)
  ultimately show ?thesis using m5(2) by blast
qed

text \<open>The segment of a working publisher.\<close>

definition sp_ready :: "publisher \<Rightarrow> u8 list \<Rightarrow> bool" where
  "sp_ready sp seg \<longleftrightarrow>
     sp_shm_ptr sp = Some seg \<and> length seg = 64 + sp_data_bytes sp \<and>
     unat (sp_shm_size sp) = 64 + sp_data_bytes sp \<and>
     (le_load (region seg 0 4) :: u32) = shm_magic \<and> seg_info seg = sp_info sp \<and>
     (le_load (region seg 16 8) :: u64) = sp_write_counter sp"

lemma sp_data_bytes_lt: "sp_data_bytes sp < 2 ^ 61"
proof -
  have b: "unat (sp_bits_per_sample sp) div 8 < 2 ^ 13"
    using unat_lt_16 [of "sp_bits_per_sample sp"] by (simp add: less_mult_imp_div_less)
  have "unat (sp_period_frames sp) * unat (sp_channels sp) < 2 ^ 32 * 2 ^ 16"
    by (rule mult_strict_mono) (use unat_lt_32 [of "sp_period_frames sp"] unat_lt_16 [of "sp_channels sp"] in simp_all)
  then have "sp_data_bytes sp < 2 ^ 32 * 2 ^ 16 * 2 ^ 13"
    unfolding sp_data_bytes_def by (rule mult_strict_mono) (use b in simp_all)
  then show ?thesis by simp
qed

lemma unat_byte_product:
  fixes period :: u32 and channels bits :: u16 and n :: u64
  shows "unat n * unat channels * (unat bits div 8) < 2 ^ 64 \<Longrightarrow>
      unat (n * ucast channels * of_nat (unat bits div 8)) = unat n * unat channels * (unat bits div 8)"
proof -
  assume lt: "unat n * unat channels * (unat bits div 8) < 2 ^ 64"
  have ub: "unat (of_nat (unat bits div 8) :: u64) = unat bits div 8"
    using unat_lt_16 [of bits] by (intro unat_of_nat_64) simp
  show ?thesis
  proof (cases "unat bits div 8 = 0")
    case True
    then show ?thesis by simp
  next
    case False
    then have "unat n * unat channels \<le> unat n * unat channels * (unat bits div 8)" by simp
    then have "unat n * unat channels < 2 ^ 64" using lt by (rule le_less_trans)
    then have "unat (n * ucast channels) = unat n * unat channels"
      by (subst unat_mult_64) (simp_all add: unat_ucast_16)
    then show ?thesis using lt by (subst unat_mult_64) (simp_all add: ub)
  qed
qed

lemma unat_shm_size:
  "unat (shm_header_size + ucast (sp_period_frames sp) * ucast (sp_channels sp) *
     of_nat (unat (sp_bits_per_sample sp) div 8)) = 64 + sp_data_bytes sp"
proof -
  have "unat (ucast (sp_period_frames sp) * ucast (sp_channels sp) *
      of_nat (unat (sp_bits_per_sample sp) div 8) :: u64) = sp_data_bytes sp"
    using sp_data_bytes_lt [of sp]
    by (subst unat_byte_product) (simp_all add: sp_data_bytes_def unat_ucast_32)
  then show ?thesis
    using sp_data_bytes_lt [of sp] by (subst unat_add_64) (simp_all add: shm_header_size_def)
qed

text \<open>POSIX calls that succeed: a descriptor, and a mapping of the size asked for.\<close>

definition px_works :: "posix_shm \<Rightarrow> bool" where
  "px_works px \<longleftrightarrow> (\<forall>name. 0 \<le> px_open px name) \<and> (\<forall>fd n. 0 \<le> px_ftruncate px fd n) \<and>
     (\<forall>fd n. \<exists>mem. px_mmap px fd n = Some mem \<and> length mem = unat n)"

lemma sp_initialize_ready:
  assumes "px_works px"
  shows "\<exists>sp' seg. sp_initialize px (sp_new name rate channels bits period) = Inr (True, sp') \<and>
     sp_ready sp' seg \<and> sp_info sp' = sp_info (sp_new name rate channels bits period)"
proof -
  let ?sp = "sp_new name rate channels bits period"
  let ?size = "shm_header_size + ucast (sp_period_frames ?sp) * ucast (sp_channels ?sp) *
     of_nat (unat (sp_bits_per_sample ?sp) div 8) :: u64"
  obtain mem where mem: "px_mmap px (px_open px name) ?size = Some mem" "length mem = unat ?size"
    using assms unfolding px_works_def by blast
  have l: "length mem = 64 + sp_data_bytes ?sp" using mem(2) unat_shm_size [of ?sp] by simp
  then obtain seg where seg: "store_all mem (sp_header_stores ?sp) = Inr seg" "length seg = length mem"
    "(le_load (region seg 0 4) :: u32) = shm_magic" "seg_info seg = sp_info ?sp"
    "(le_load (region seg 16 8) :: u64) = 0"
    using header_stored [of mem ?sp] by auto
  have neg: "\<not> px_open px name < 0" "\<not> px_ftruncate px (px_open px name) ?size < 0"
    using assms by (simp_all add: px_works_def not_less)
  let ?sp' = "?sp\<lparr>sp_shm_size := ?size, sp_shm_fd := px_open px name, sp_shm_ptr := Some seg\<rparr>"
  have "sp_initialize px ?sp = Inr (True, ?sp')"
    using mem(1) seg(1) neg by (simp add: sp_initialize_def Let_def sp_new_def)
  moreover have "sp_ready ?sp' seg"
    using seg l unat_shm_size [of ?sp]
    by (simp add: sp_ready_def sp_data_bytes_def sp_info_def) (simp add: sp_new_def)
  ultimately show ?thesis by (intro exI conjI) (assumption, assumption, simp add: sp_info_def)
qed

section \<open>Publishing\<close>

text \<open>The frames of a period that fit, as bytes.\<close>

definition sp_count :: "publisher \<Rightarrow> u64 \<Rightarrow> nat" where
  "sp_count sp n = min (unat n * unat (sp_channels sp) * (unat (sp_bits_per_sample sp) div 8)) (sp_data_bytes sp)"

lemma unat_publish_bytes:
  assumes "sp_ready sp seg" and "unat n * unat (sp_channels sp) * (unat (sp_bits_per_sample sp) div 8) < 2 ^ 64"
  shows "unat (sp_publish_bytes sp n) = sp_count sp n"
proof -
  have "unat (sp_shm_size sp - shm_header_size) = sp_data_bytes sp"
    using assms(1) by (subst unat_sub_64) (simp_all add: sp_ready_def word_le_nat_alt shm_header_size_def)
  then show ?thesis
    using unat_byte_product [OF assms(2)]
    by (simp add: sp_publish_bytes_def Let_def sp_count_def word_less_nat_alt min_def)
qed

text \<open>The three stores of \<open>publish\<close>, with every state of the segment in between.\<close>

lemma publish_stored:
  assumes ready: "sp_ready sp seg" and fits: "length samples \<le> sp_data_bytes sp"
  shows "\<exists>m1 m2 m3. store_range seg 24 (le_store 8 ts) = Inr m1 \<and>
     store_range m1 64 samples = Inr m2 \<and>
     store_range m2 16 (le_store 8 (sp_write_counter sp + 1)) = Inr m3 \<and>
     shm_counter seg = Inr (sp_write_counter sp) \<and> shm_counter m1 = Inr (sp_write_counter sp) \<and>
     shm_counter m2 = Inr (sp_write_counter sp) \<and> shm_counter m3 = Inr (sp_write_counter sp + 1) \<and>
     region m3 64 (sp_data_bytes sp) = samples @ drop (length samples) (region seg 64 (sp_data_bytes sp)) \<and>
     (le_load (region m3 24 8) :: u64) = ts \<and> sp_ready (sp\<lparr>sp_shm_ptr := Some m3,
       sp_write_counter := sp_write_counter sp + 1\<rparr>) m3"
proof -
  have len: "length seg = 64 + sp_data_bytes sp" using ready by (simp add: sp_ready_def)
  obtain m1 where m1: "store_range seg 24 (le_store 8 ts) = Inr m1" "length m1 = length seg"
    using f8.put_ok [of 24 seg ts] len by auto
  have "64 + length samples \<le> length m1" using m1(2) len fits by simp
  then obtain m2 where m2': "store_range m1 64 samples = Inr m2" by (simp add: store_range_def)
  then have m2: "store_range m1 64 samples = Inr m2" "length m2 = length seg"
    using region_stored(2) [OF m2'] m1(2) by simp_all
  obtain m3 where m3: "store_range m2 16 (le_store 8 (sp_write_counter sp + 1)) = Inr m3" "length m3 = length seg"
    using f8.put_ok [of 16 m2 "sp_write_counter sp + 1"] len m2(2) by auto
  have big: "64 \<le> length seg" "64 \<le> length m1" "64 \<le> length m2" "64 \<le> length m3"
    using len m1(2) m2(2) m3(2) by simp_all
  note keep = f8.get_elsewhere [OF m1(1)] region_stored(3) [OF m2(1)] f8.get_elsewhere [OF m3(1)]
  have regs: "region m3 0 4 = region seg 0 4" "seg_info m3 = seg_info seg"
    "region m1 16 8 = region seg 16 8" "region m2 16 8 = region seg 16 8" "region m3 24 8 = region m1 24 8"
    by (simp_all add: keep seg_info_def)
  have m2_eq: "m2 = take 64 m1 @ samples @ drop (64 + length samples) m1"
    using m2(1) by (simp add: store_range_def split: if_splits)
  have tail: "region m1 (64 + length samples) (sp_data_bytes sp - length samples) =
      region seg (64 + length samples) (sp_data_bytes sp - length samples)"
    by (simp add: keep)
  have "region m3 64 (sp_data_bytes sp) = region m2 64 (sp_data_bytes sp)" by (simp add: keep)
  also have "\<dots> = samples @ region m1 (64 + length samples) (sp_data_bytes sp - length samples)"
    using big fits by (simp add: m2_eq region_def)
  also have "\<dots> = samples @ drop (length samples) (region seg 64 (sp_data_bytes sp))"
    unfolding tail by (simp add: region_def drop_take add.commute)
  finally have data: "region m3 64 (sp_data_bytes sp) =
      samples @ drop (length samples) (region seg 64 (sp_data_bytes sp))" .
  have c3: "(le_load (region m3 16 8) :: u64) = sp_write_counter sp + 1"
    by (rule f8.get_after_put [OF m3(1)])
  have "(le_load (region m3 24 8) :: u64) = ts" using f8.get_after_put [OF m1(1)] by (simp add: regs)
  moreover have "sp_ready (sp\<lparr>sp_shm_ptr := Some m3, sp_write_counter := sp_write_counter sp + 1\<rparr>) m3"
    using ready m3(2) c3 regs by (simp add: sp_ready_def sp_data_bytes_def sp_info_def)
  moreover have "(le_load (region seg 16 8) :: u64) = sp_write_counter sp"
    using ready by (simp add: sp_ready_def)
  then have "shm_counter seg = Inr (sp_write_counter sp)" "shm_counter m1 = Inr (sp_write_counter sp)"
    "shm_counter m2 = Inr (sp_write_counter sp)" "shm_counter m3 = Inr (sp_write_counter sp + 1)"
    using shm_counter_region [OF big(1)] shm_counter_region [OF big(2)] shm_counter_region [OF big(3)]
      shm_counter_region [OF big(4)] c3 by (simp_all only: regs(3,4))
  ultimately show ?thesis
    using m1(1) m2(1) m3(1) data by (intro exI [of _ m1] exI [of _ m2] exI [of _ m3] conjI)
qed

lemma sp_publish_ok:
  assumes ready: "sp_ready sp seg"
    and size: "unat n * unat (sp_channels sp) * (unat (sp_bits_per_sample sp) div 8) \<le> length data"
    and data: "length data < 2 ^ 64"
  shows "\<exists>seg'. sp_publish sp data n ts = Inr (sp\<lparr>sp_shm_ptr := Some seg',
       sp_write_counter := sp_write_counter sp + 1\<rparr>) \<and>
     sp_ready (sp\<lparr>sp_shm_ptr := Some seg', sp_write_counter := sp_write_counter sp + 1\<rparr>) seg' \<and>
     store_all seg (sp_publish_stores sp (take (sp_count sp n) data) ts) = Inr seg' \<and>
     region seg' 64 (sp_data_bytes sp) =
       take (sp_count sp n) data @ drop (sp_count sp n) (region seg 64 (sp_data_bytes sp))"
proof -
  have lt: "unat n * unat (sp_channels sp) * (unat (sp_bits_per_sample sp) div 8) < 2 ^ 64"
    using size data by linarith
  have count: "sp_count sp n \<le> length data" "sp_count sp n \<le> sp_data_bytes sp"
    using size by (simp_all add: sp_count_def)
  define samples where "samples = take (sp_count sp n) data"
  have len: "length samples = sp_count sp n" using count by (simp add: samples_def)
  then have "length samples \<le> sp_data_bytes sp" using count by simp
  from publish_stored [OF ready this, of ts] obtain m1 m2 m3 where
    m: "store_range seg 24 (le_store 8 ts) = Inr m1" "store_range m1 64 samples = Inr m2"
      "store_range m2 16 (le_store 8 (sp_write_counter sp + 1)) = Inr m3"
    and r: "region m3 64 (sp_data_bytes sp) = samples @ drop (length samples) (region seg 64 (sp_data_bytes sp))"
      "sp_ready (sp\<lparr>sp_shm_ptr := Some m3, sp_write_counter := sp_write_counter sp + 1\<rparr>) m3"
    by blast
  have stores: "store_all seg (sp_publish_stores sp samples ts) = Inr m3"
    using m by (simp add: sp_publish_stores_def shm_header_size_def)
  have "load_range data 0 (sp_count sp n) = Inr samples"
    using count by (simp add: load_range_def samples_def)
  then have "sp_publish sp data n ts = Inr (sp\<lparr>sp_shm_ptr := Some m3, sp_write_counter := sp_write_counter sp + 1\<rparr>)"
    using ready stores by (simp add: sp_publish_def sp_ready_def unat_publish_bytes [OF ready lt])
  with r stores len show ?thesis unfolding samples_def by auto
qed

section \<open>The properties\<close>

text \<open>
  The header round-trips. After a successful \<open>initialize()\<close> a client that maps the segment
  accepts its magic number and reads exactly the rate, channels, sample width and period the
  publisher was created with; the counter starts at 0. This holds whatever the segment held
  before.
\<close>

theorem shm_header_roundtrip:
  assumes "px_works px"
  shows "\<exists>sp seg. sp_initialize px (sp_new name rate channels bits period) = Inr (True, sp) \<and>
     sp_shm_ptr sp = Some seg \<and>
     shm_attach seg = Inr (Some \<lparr>si_sample_rate = rate, si_channels = channels, si_bits = bits,
       si_period_frames = period\<rparr>) \<and> shm_counter seg = Inr 0"
proof -
  let ?new = "sp_new name rate channels bits period"
  obtain sp seg where sp: "sp_initialize px ?new = Inr (True, sp)" "sp_ready sp seg" "sp_info sp = sp_info ?new"
    using sp_initialize_ready [OF assms] by blast
  have c: "sp_write_counter sp = 0"
    using sp(1) by (auto simp: sp_initialize_def Let_def sp_new_def obind_Inr_iff split: if_splits option.splits)
  have "64 \<le> length seg" using sp(2) by (simp add: sp_ready_def)
  from shm_attach_region [OF this] shm_counter_region [OF this]
  have "shm_attach seg = Inr (Some (sp_info ?new))" "shm_counter seg = Inr 0"
    using sp(2,3) c by (simp_all add: sp_ready_def)
  moreover have "sp_info ?new = \<lparr>si_sample_rate = rate, si_channels = channels, si_bits = bits,
      si_period_frames = period\<rparr>" by (simp add: sp_info_def sp_new_def)
  ultimately show ?thesis using sp(1,2) by (auto simp: sp_ready_def)
qed

text \<open>A shared memory that works and whose pages hold garbage before.\<close>

definition demo_px :: posix_shm where
  "demo_px = \<lparr>px_open = (\<lambda>name. 3), px_ftruncate = (\<lambda>fd n. 0),
     px_mmap = (\<lambda>fd n. Some (replicate (unat n) 0xFF))\<rparr>"

lemma demo_px_works: "px_works demo_px"
  by (simp add: px_works_def demo_px_def)

theorem shm_header_roundtrip_witness:
  "\<exists>sp seg. sp_initialize demo_px (sp_new ''/s'' 48000 2 24 480) = Inr (True, sp) \<and>
     sp_shm_ptr sp = Some seg \<and>
     shm_attach seg = Inr (Some \<lparr>si_sample_rate = 48000, si_channels = 2, si_bits = 24,
       si_period_frames = 480\<rparr>) \<and> shm_counter seg = Inr 0"
  by (rule shm_header_roundtrip [OF demo_px_works])


text \<open>
  The counter is published last, and that is all. Of the three stores of \<open>publish()\<close>, no
  prefix but the whole shows the new counter, so a client never sees a counter whose samples
  are not yet there. The converse fails: after the second store the samples are already those of
  the next period under the old counter, and the client does not look at the counter again.
\<close>

theorem publish_counter_is_last:
  assumes "sp_ready sp seg" and "length samples = sp_data_bytes sp"
  shows "\<exists>m1 m2 m3. store_all seg (take 1 (sp_publish_stores sp samples ts)) = Inr m1 \<and>
     store_all seg (take 2 (sp_publish_stores sp samples ts)) = Inr m2 \<and>
     store_all seg (sp_publish_stores sp samples ts) = Inr m3 \<and>
     shm_poll m1 (sp_write_counter sp) = Inr (False, sp_write_counter sp) \<and>
     shm_poll m2 (sp_write_counter sp) = Inr (False, sp_write_counter sp) \<and>
     shm_samples (sp_info sp) m2 = Inr samples \<and>
     shm_poll m3 (sp_write_counter sp) = Inr (True, sp_write_counter sp + 1) \<and>
     shm_samples (sp_info sp) m3 = Inr samples"
proof -
  from publish_stored [OF assms(1), of samples ts] assms(2) obtain m1 m2 m3 where
    m: "store_range seg 24 (le_store 8 ts) = Inr m1" "store_range m1 64 samples = Inr m2"
      "store_range m2 16 (le_store 8 (sp_write_counter sp + 1)) = Inr m3"
    and c: "shm_counter m1 = Inr (sp_write_counter sp)" "shm_counter m2 = Inr (sp_write_counter sp)"
      "shm_counter m3 = Inr (sp_write_counter sp + 1)" by auto
  have lens: "length m2 = 64 + sp_data_bytes sp" "length m3 = 64 + sp_data_bytes sp"
    using assms(1) region_stored(2) [OF m(1)] region_stored(2) [OF m(2)] region_stored(2) [OF m(3)]
    by (simp_all add: sp_ready_def)
  have r2: "region m2 64 (sp_data_bytes sp) = samples"
    using region_stored(1) [OF m(2)] assms(2) by simp
  have r3: "region m3 64 (sp_data_bytes sp) = region m2 64 (sp_data_bytes sp)"
    by (rule f8.get_elsewhere [OF m(3)]) simp
  have "shm_samples (sp_info sp) m = Inr (region m 64 (sp_data_bytes sp))"
    if "length m = 64 + sp_data_bytes sp" for m
    using that unfolding shm_samples_def shm_header_size_def
    by (simp add: load_region sp_info_def sp_data_bytes_def)
  with m c lens r2 r3 show ?thesis
    by (intro exI [of _ m1] exI [of _ m2] exI [of _ m3])
      (simp add: sp_publish_stores_def shm_header_size_def shm_poll_def)
qed

lemma demo_publisher:
  obtains sp seg where "sp_ready sp seg" and "sp_channels sp = 1" and "sp_bits_per_sample sp = 16"
    and "sp_data_bytes sp = 4"
proof -
  obtain sp seg where sp: "sp_ready sp seg" "sp_info sp = sp_info (sp_new ''/s'' 8000 1 16 2)"
    using sp_initialize_ready [OF demo_px_works] by blast
  then have "sp_channels sp = 1" "sp_bits_per_sample sp = 16" "sp_data_bytes sp = 4"
    by (simp_all add: sp_info_def sp_new_def sp_data_bytes_def)
  with sp(1) show thesis by (rule that)
qed


theorem publish_counter_is_last_witness:
  "\<exists>sp seg m2 m3. sp_ready sp seg \<and>
     store_all seg (take 2 (sp_publish_stores sp [1, 2, 3, 4] 99)) = Inr m2 \<and>
     store_all seg (sp_publish_stores sp [1, 2, 3, 4] 99) = Inr m3 \<and>
     shm_poll m2 (sp_write_counter sp) = Inr (False, sp_write_counter sp) \<and>
     shm_poll m3 (sp_write_counter sp) = Inr (True, sp_write_counter sp + 1)"
proof -
  obtain sp seg where sp: "sp_ready sp seg" "sp_data_bytes sp = 4" by (rule demo_publisher)
  then have "length [1, 2, 3, 4 :: u8] = sp_data_bytes sp" by simp
  from publish_counter_is_last [OF sp(1) this, of 99] sp(1) show ?thesis by blast
qed

end
