(* ===== verification/Text_Input.thy ===== *)
theory Text_Input
  imports Timestamps
begin

text \<open>
  Text the program reads: formatted extraction from a \<open>std::istringstream\<close>, the conversions
  \<open>std::stoul\<close> and \<open>std::stoi\<close>, and the lemmas that reading is the inverse of printing. Used
  by the control socket and the configuration.
\<close>

section \<open>Formatted input\<close>

definition is_space :: "char \<Rightarrow> bool" where
  "is_space c \<longleftrightarrow> (let n = (of_char c :: nat) in 9 \<le> n \<and> n \<le> 13 \<or> n = 32)"

definition to_upper :: "char \<Rightarrow> char" where
  "to_upper c = (let n = (of_char c :: nat) in if 97 \<le> n \<and> n \<le> 122 then char_of (n - 32) else c)"

definition to_lower :: "char \<Rightarrow> char" where
  "to_lower c = (let n = (of_char c :: nat) in if 65 \<le> n \<and> n \<le> 90 then char_of (n + 32) else c)"

text \<open>The unread characters and whether no extraction has failed yet.\<close>

type_synonym istream = "string \<times> bool"

definition read_word :: "istream \<Rightarrow> string \<Rightarrow> string \<times> istream" where
  "read_word is old =
     (let (rest, good) = is; r = dropWhile is_space rest
      in if \<not> good then (old, (rest, False))
         else if r = [] then (old, ([], False))
         else (takeWhile (\<lambda>c. \<not> is_space c) r, (dropWhile (\<lambda>c. \<not> is_space c) r, True)))"

text \<open>
  \<open>operator>>(int&)\<close>: a failure without digits stores 0, one out of range the nearest
  \<open>int\<close>; a stream that has failed before, or is at its end, leaves the variable alone.
\<close>

definition read_int :: "istream \<Rightarrow> int \<Rightarrow> int \<times> istream" where
  "read_int is old =
     (let (rest, good) = is; r = dropWhile is_space rest
      in if \<not> good then (old, (rest, False))
         else if r = [] then (old, ([], False))
         else let neg = (hd r = CHR ''-'');
                  body = (if hd r = CHR ''-'' \<or> hd r = CHR ''+'' then tl r else r);
                  digits = takeWhile is_digit body;
                  rest' = dropWhile is_digit body;
                  v = (if neg then - int (undec digits) else int (undec digits))
              in if digits = [] then (0, (rest', False))
                 else if v < - (2 ^ 31) then (- (2 ^ 31), (rest', False))
                 else if 2 ^ 31 - 1 < v then (2 ^ 31 - 1, (rest', False))
                 else (v, (rest', True)))"

section \<open>Conversions\<close>

text \<open>
  \<open>std::stoul\<close>: blanks, a sign, digits; what follows is ignored. A minus sign negates modulo
  \<open>2 ^ 64\<close>. \<open>std::stoi\<close> likewise, within the range of \<open>int\<close>.
\<close>

definition scan_number :: "string \<Rightarrow> bool \<times> string" where
  "scan_number s =
     (let r = dropWhile is_space s
      in if r \<noteq> [] \<and> (hd r = CHR ''-'' \<or> hd r = CHR ''+'')
         then (hd r = CHR ''-'', takeWhile is_digit (tl r))
         else (False, takeWhile is_digit r))"

definition stoul :: "string \<Rightarrow> u64 outcome" where
  "stoul s =
     (let (neg, digits) = scan_number s
      in if digits = [] then Inl Invalid_Argument
         else if 2 ^ 64 \<le> undec digits then Inl Range_Error
         else Inr (if neg then - of_nat (undec digits) else of_nat (undec digits)))"

definition stoi :: "string \<Rightarrow> int outcome" where
  "stoi s =
     (let (neg, digits) = scan_number s;
          v = (if neg then - int (undec digits) else int (undec digits))
      in if digits = [] then Inl Invalid_Argument
         else if v < - (2 ^ 31) \<or> 2 ^ 31 \<le> v then Inl Range_Error
         else Inr v)"

section \<open>Printing\<close>

definition to_string :: "int \<Rightarrow> string" where
  "to_string i = (if i < 0 then CHR ''-'' # dec (nat (- i)) else dec (nat i))"

section \<open>Reading back what was written\<close>

lemma digit_not_special: "is_digit c \<Longrightarrow> \<not> is_space c \<and> c \<noteq> CHR ''-'' \<and> c \<noteq> CHR ''+'' \<and> c \<noteq> CHR 0x00"
  by (auto simp: is_digit_def is_space_def Let_def)

lemma dec_hd: "is_digit (hd (dec n))"
  using dec_digits [of "hd (dec n)" n] by simp

definition no_digit_next :: "string \<Rightarrow> bool" where
  "no_digit_next rest \<longleftrightarrow> rest = [] \<or> \<not> is_digit (hd rest)"

lemma take_digits:
  assumes "no_digit_next rest"
  shows "takeWhile is_digit (dec n @ rest) = dec n" and "dropWhile is_digit (dec n @ rest) = rest"
proof -
  have all: "\<forall>c \<in> set (dec n). is_digit c" using dec_digits by blast
  show "takeWhile is_digit (dec n @ rest) = dec n" "dropWhile is_digit (dec n @ rest) = rest"
    using assms all by (cases rest; auto simp: no_digit_next_def takeWhile_append2 dropWhile_append2)+
qed

lemma space_is_space: "is_space (CHR '' '')"
  by (simp add: is_space_def)

text \<open>Printing an \<open>int\<close> and extracting it again.\<close>

lemma read_int_print:
  assumes "- (2 ^ 31) \<le> i" and "i < 2 ^ 31" and "no_digit_next rest"
  shows "read_int (CHR '' '' # to_string i @ rest, True) old = (i, (rest, True))"
proof (cases "i < 0")
  case True
  let ?d = "dec (nat (- i))"
  have r: "dropWhile is_space (CHR '' '' # to_string i @ rest) = CHR ''-'' # ?d @ rest"
    using True by (simp add: space_is_space to_string_def) (simp add: is_space_def)
  show ?thesis
    unfolding read_int_def Let_def prod.case r
    using True assms take_digits [OF assms(3)] by simp
next
  case False
  let ?d = "dec (nat i)"
  obtain c cs where d: "?d = c # cs" by (cases ?d) auto
  have c: "\<not> is_space c" "c \<noteq> CHR ''-''" "c \<noteq> CHR ''+''"
    using dec_hd [of "nat i"] digit_not_special [of c] by (simp_all add: d)
  have r: "dropWhile is_space (CHR '' '' # to_string i @ rest) = ?d @ rest"
    using False c by (simp add: space_is_space to_string_def d)
  have h: "hd (?d @ rest) = c" by (simp add: d)
  show ?thesis
    unfolding read_int_def Let_def prod.case r h
    using False assms take_digits [OF assms(3)] c by simp
qed

definition plain_word :: "string \<Rightarrow> bool" where
  "plain_word w \<longleftrightarrow> w \<noteq> [] \<and> (\<forall>c \<in> set w. \<not> is_space c \<and> c \<noteq> CHR 0x00)"

lemma read_word_print:
  assumes "plain_word w" and "rest = [] \<or> is_space (hd rest)"
  shows "read_word (CHR '' '' # w @ rest, True) old = (w, (rest, True))"
    and "read_word (w @ rest, True) old = (w, (rest, True))"
proof -
  obtain c cs where w: "w = c # cs" and c: "\<not> is_space c" "\<forall>x \<in> set cs. \<not> is_space x"
    using assms(1) by (cases w) (auto simp: plain_word_def)
  have r: "dropWhile is_space (CHR '' '' # w @ rest) = w @ rest" "dropWhile is_space (w @ rest) = w @ rest"
    using c by (simp_all add: space_is_space w)
  have t: "takeWhile (\<lambda>x. \<not> is_space x) (w @ rest) = w" "dropWhile (\<lambda>x. \<not> is_space x) (w @ rest) = rest"
    using c assms(2) by (cases rest; auto simp: w takeWhile_append2 dropWhile_append2)+
  show "read_word (CHR '' '' # w @ rest, True) old = (w, (rest, True))"
    and "read_word (w @ rest, True) old = (w, (rest, True))"
    unfolding read_word_def Let_def prod.case r t by (simp_all add: w)
qed

lemma read_word_end: "read_word ([], True) old = (old, ([], False))"
  by (simp add: read_word_def)

lemma to_string_plain: "plain_word (to_string i)"
proof -
  have "\<forall>c \<in> set (dec n). \<not> is_space c \<and> c \<noteq> CHR 0x00" for n
    using dec_digits digit_not_special by blast
  moreover have "\<not> is_space (CHR ''-'')" by (simp add: is_space_def)
  ultimately show ?thesis by (simp add: plain_word_def to_string_def)
qed

lemma length_to_string: "- (2 ^ 31) \<le> i \<Longrightarrow> i < 2 ^ 31 \<Longrightarrow> length (to_string i) \<le> 11"
  using length_dec [of "nat (- i)" 10] length_dec [of "nat i" 10]
  by (auto simp: to_string_def nat_less_iff)

lemma scan_number_dec:
  "scan_number (dec n) = (False, dec n)" "scan_number (CHR ''-'' # dec n) = (True, dec n)"
proof -
  obtain c cs where d: "dec n = c # cs" by (cases "dec n") auto
  have c: "\<not> is_space c" "c \<noteq> CHR ''-''" "c \<noteq> CHR ''+''"
    using dec_hd [of n] digit_not_special [of c] by (simp_all add: d)
  have t: "takeWhile is_digit (dec n) = dec n"
    using take_digits(1) [of "[]" n] by (simp add: no_digit_next_def)
  show "scan_number (dec n) = (False, dec n)" using c t by (simp add: scan_number_def d)
  have "\<not> is_space (CHR ''-'')" by (simp add: is_space_def)
  then show "scan_number (CHR ''-'' # dec n) = (True, dec n)" using t by (simp add: scan_number_def)
qed

lemma stoul_dec: "n < 2 ^ 64 \<Longrightarrow> stoul (dec n) = Inr (of_nat n)"
  by (simp add: stoul_def scan_number_dec)

lemma stoul_minus: "n < 2 ^ 64 \<Longrightarrow> stoul (CHR ''-'' # dec n) = Inr (- of_nat n)"
  by (simp add: stoul_def scan_number_dec)

lemma stoi_to_string:
  assumes "- (2 ^ 31) \<le> i" and "i < 2 ^ 31"
  shows "stoi (to_string i) = Inr i"
  using assms by (cases "i < 0") (simp_all add: stoi_def to_string_def scan_number_dec)

end
