(* ===== verification/Control_Socket.thy ===== *)
theory Control_Socket
  imports Text_Input
begin

text \<open>
  The control interface (include/audio_daemon/control_socket.hpp,
  src/utils/control_socket.cpp), the daemon's three handlers (src/main.cpp) and the messages
  its clients send (examples/clip_client.cpp, examples/audiod-mon.cpp). Formatted input from
  a \<open>std::istringstream\<close> is modelled with its failure state; the pipeline behind the handlers
  is the parameter \<open>pl\<close>.
\<close>

section \<open>Commands\<close>

datatype command_type = CLIP | SET | GET | UNKNOWN

record command =
  cmd_type :: command_type
  cmd_int_value :: int
  cmd_int_value2 :: int
  cmd_key :: string
  cmd_value :: string

definition empty_command :: command where
  "empty_command = \<lparr>cmd_type = UNKNOWN, cmd_int_value = 0, cmd_int_value2 = 0, cmd_key = [], cmd_value = []\<rparr>"

definition parse_command :: "string \<Rightarrow> command" where
  "parse_command line =
     (let (word0, is1) = read_word (line, True) [];
          word = map to_upper word0
      in if word = ''CLIP'' then
           let (v1, is2) = read_int is1 0;
               (v2, is3) = read_int is2 0;
               (fmt, is4) = read_word is3 []
           in empty_command\<lparr>cmd_type := CLIP, cmd_int_value := v1, cmd_int_value2 := v2,
                cmd_key := (if snd is4 then map to_lower fmt else [])\<rparr>
         else if word = ''SET'' then
           let (k, is2) = read_word is1 []; (v, is3) = read_word is2 []
           in empty_command\<lparr>cmd_type := SET, cmd_key := k, cmd_value := v\<rparr>
         else if word = ''GET'' then
           let (k, is2) = read_word is1 []
           in empty_command\<lparr>cmd_type := GET, cmd_key := map to_upper k\<rparr>
         else empty_command)"

section \<open>Responses\<close>

definition resp_ok :: string where
  "resp_ok = ''{\"ok\":true}''"

definition resp_ok_path :: "string \<Rightarrow> string" where
  "resp_ok_path p = ''{\"ok\":true,\"path\":\"'' @ p @ ''\"}''"

definition resp_ok_data :: "string \<Rightarrow> string" where
  "resp_ok_data json = ''{\"ok\":true,\"data\":'' @ json @ ''}''"

definition resp_error :: "string \<Rightarrow> string" where
  "resp_error msg = ''{\"ok\":false,\"error\":\"'' @ msg @ ''\"}''"

section \<open>Serving a client\<close>

text \<open>Handlers may be unset; they work on the state \<open>'s\<close> of the daemon and may throw.\<close>

type_synonym 's handler = "command \<Rightarrow> 's \<Rightarrow> (string \<times> 's) outcome"

record 's control_socket =
  cs_clip_handler :: "'s handler option"
  cs_set_handler :: "'s handler option"
  cs_get_handler :: "'s handler option"

definition is_eol :: "char \<Rightarrow> bool" where
  "is_eol c \<longleftrightarrow> c = CHR 0x0A \<or> c = CHR 0x0D"

text \<open>\<open>std::string line(buf)\<close> ends at the first NUL; then the line ends are popped off.\<close>

definition client_line :: "string \<Rightarrow> string" where
  "client_line buf = rev (dropWhile is_eol (rev (takeWhile (\<lambda>c. c \<noteq> CHR 0x00) buf)))"

definition run_handler :: "'s handler option \<Rightarrow> string \<Rightarrow> command \<Rightarrow> 's \<Rightarrow> (string \<times> 's) outcome" where
  "run_handler h missing cmd st =
     (case h of None \<Rightarrow> Inr (resp_error missing, st) | Some f \<Rightarrow> f cmd st)"

text \<open>
  \<open>handle_client\<close>: \<open>received\<close> is what \<open>recv\<close> delivered (at most 1023 bytes are kept); the
  result is the message sent back, if any.
\<close>

definition handle_client ::
  "'s control_socket \<Rightarrow> string \<Rightarrow> 's \<Rightarrow> (string option \<times> 's) outcome" where
  "handle_client sock received st =
     (let buf = take 1023 received
      in if buf = [] then Inr (None, st)
         else let cmd = parse_command (client_line buf)
              in obind (case cmd_type cmd of
                     CLIP \<Rightarrow> run_handler (cs_clip_handler sock) ''No clip handler'' cmd st
                   | SET \<Rightarrow> run_handler (cs_set_handler sock) ''No set handler'' cmd st
                   | GET \<Rightarrow> run_handler (cs_get_handler sock) ''No get handler'' cmd st
                   | UNKNOWN \<Rightarrow> Inr (resp_error ''Invalid command'', st))
                 (\<lambda>(json, st'). Inr (Some (json @ [CHR 0x0A]), st')))"

section \<open>The daemon's handlers\<close>

record 's pipeline_ops =
  pl_capture_clip :: "int \<Rightarrow> int \<Rightarrow> string \<Rightarrow> 's \<Rightarrow> (string \<times> 's) outcome"
  pl_set_parameter :: "string \<Rightarrow> string \<Rightarrow> 's \<Rightarrow> (bool \<times> 's) outcome"
  pl_status_json :: "'s \<Rightarrow> string outcome"
  pl_levels_json :: "'s \<Rightarrow> string outcome"

definition handle_clip_command :: "'s pipeline_ops \<Rightarrow> 's handler" where
  "handle_clip_command pl cmd st =
     obind (pl_capture_clip pl (cmd_int_value cmd) (cmd_int_value2 cmd) (cmd_key cmd) st)
       (\<lambda>(path, st'). Inr (if path = [] then resp_error ''Clip extraction failed''
                           else resp_ok_path path, st'))"

definition handle_set_command :: "'s pipeline_ops \<Rightarrow> 's handler" where
  "handle_set_command pl cmd st =
     obind (pl_set_parameter pl (cmd_key cmd) (cmd_value cmd) st)
       (\<lambda>(done, st'). Inr (if done then resp_ok else resp_error ''Failed to set parameter'', st'))"

definition handle_get_command :: "'s pipeline_ops \<Rightarrow> 's handler" where
  "handle_get_command pl cmd st =
     obind (if cmd_key cmd = ''STATUS'' then obind (pl_status_json pl st) (\<lambda>j. Inr (resp_ok_data j))
            else if cmd_key cmd = ''LEVEL'' \<or> cmd_key cmd = ''LEVELS''
            then obind (pl_levels_json pl st) (\<lambda>j. Inr (resp_ok_data j))
            else Inr (resp_error (''Unknown key: '' @ cmd_key cmd)))
       (\<lambda>json. Inr (json, st))"

definition daemon_socket :: "'s pipeline_ops \<Rightarrow> 's control_socket" where
  "daemon_socket pl =
     \<lparr>cs_clip_handler = Some (handle_clip_command pl), cs_set_handler = Some (handle_set_command pl),
      cs_get_handler = Some (handle_get_command pl)\<rparr>"

section \<open>Messages of the clients\<close>

text \<open>The message of \<open>clip_client\<close>.\<close>

definition clip_message :: "int \<Rightarrow> int \<Rightarrow> string \<Rightarrow> string" where
  "clip_message s e format = ''CLIP '' @ to_string s @ '' '' @ to_string e @
     (if format \<noteq> [] then '' '' @ format else []) @ [CHR 0x0A]"

text \<open>The messages of the monitor: two words after \<open>SET\<close>, one after \<open>GET\<close>.\<close>

definition set_message :: "string \<Rightarrow> string \<Rightarrow> string" where
  "set_message k v = ''SET '' @ k @ '' '' @ v @ [CHR 0x0A]"

definition get_message :: "string \<Rightarrow> string" where
  "get_message k = ''GET '' @ k @ [CHR 0x0A]"

section \<open>Lines\<close>

text \<open>A line without NUL or line ends arrives as it was, the final newline removed.\<close>

lemma client_line_message:
  assumes "\<forall>c \<in> set body. c \<noteq> CHR 0x00" and "body \<noteq> []" and "\<not> is_eol (last body)"
  shows "client_line (body @ [CHR 0x0A]) = body"
proof -
  have "takeWhile (\<lambda>c. c \<noteq> CHR 0x00) (body @ [CHR 0x0A]) = body @ [CHR 0x0A]"
    using assms(1) by (simp add: takeWhile_append2)
  moreover obtain cs c where b: "body = cs @ [c]" using assms(2) by (cases body rule: rev_cases) auto
  ultimately show ?thesis using assms(3) by (simp add: client_line_def is_eol_def)
qed

lemma eol_is_space: "is_eol c \<Longrightarrow> is_space c"
  by (auto simp: is_eol_def is_space_def)

lemma plain_last: "plain_word w \<Longrightarrow> \<not> is_eol (last w)"
  using eol_is_space last_in_set unfolding plain_word_def by blast

section \<open>The protocol\<close>

definition int32_range :: "int \<Rightarrow> bool" where
  "int32_range i \<longleftrightarrow> - (2 ^ 31) \<le> i \<and> i < 2 ^ 31"

lemma verbs_plain: "plain_word ''CLIP''" "plain_word ''SET''" "plain_word ''GET''"
  by (simp_all add: plain_word_def is_space_def)

lemma no_digit_space: "no_digit_next (CHR '' '' # s)" "no_digit_next []"
  by (simp_all add: no_digit_next_def is_digit_def)

lemma space_head: "CHR '' '' # s = [] \<or> is_space (hd (CHR '' '' # s))"
  by (simp add: space_is_space)

lemma parse_clip:
  assumes s: "int32_range s" and e: "int32_range e" and f: "f = [] \<or> plain_word f"
  shows "parse_command (''CLIP'' @ CHR '' '' # to_string s @ CHR '' '' # to_string e @
      (if f \<noteq> [] then CHR '' '' # f else [])) =
    empty_command\<lparr>cmd_type := CLIP, cmd_int_value := s, cmd_int_value2 := e, cmd_key := map to_lower f\<rparr>"
proof -
  let ?tail = "if f \<noteq> [] then CHR '' '' # f else []"
  let ?r1 = "CHR '' '' # to_string s @ CHR '' '' # to_string e @ ?tail"
  have w: "read_word (''CLIP'' @ ?r1, True) [] = (''CLIP'', (?r1, True))"
    by (rule read_word_print(2) [OF verbs_plain(1) space_head])
  have i1: "read_int (?r1, True) 0 = (s, (CHR '' '' # to_string e @ ?tail, True))"
    using s by (intro read_int_print) (simp_all add: int32_range_def no_digit_space)
  have i2: "read_int (CHR '' '' # to_string e @ ?tail, True) 0 = (e, (?tail, True))"
    using e by (intro read_int_print) (simp_all add: int32_range_def no_digit_space)
  have k: "(case read_word (?tail, True) [] of (fmt, is4) \<Rightarrow> if snd is4 then map to_lower fmt else []) = map to_lower f"
    using f read_word_print(1) [of f "[]" "[]"] by (cases "f = []") (simp_all add: read_word_end)
  have up: "map to_upper ''CLIP'' = ''CLIP''" by (simp add: to_upper_def)
  show ?thesis
    unfolding parse_command_def Let_def w prod.case up i1 i2
    using k by (simp add: case_prod_beta)
qed

lemma reply_line:
  "obind (obind x (\<lambda>(a, b). Inr (f a, b))) (\<lambda>(json, st'). Inr (Some (json @ nl), st')) =
   obind x (\<lambda>(a, b). Inr (Some (f a @ nl), b))"
  by (cases x) auto

lemma handle_client_body:
  assumes "length body \<le> 1022" and "\<forall>c \<in> set body. c \<noteq> CHR 0x00" and "body \<noteq> []" and "\<not> is_eol (last body)"
    and "parse_command body = cmd"
  shows "handle_client sock (body @ [CHR 0x0A]) st =
    obind (case cmd_type cmd of
        CLIP \<Rightarrow> run_handler (cs_clip_handler sock) ''No clip handler'' cmd st
      | SET \<Rightarrow> run_handler (cs_set_handler sock) ''No set handler'' cmd st
      | GET \<Rightarrow> run_handler (cs_get_handler sock) ''No get handler'' cmd st
      | UNKNOWN \<Rightarrow> Inr (resp_error ''Invalid command'', st))
    (\<lambda>(json, st'). Inr (Some (json @ [CHR 0x0A]), st'))"
proof -
  have recv: "take 1023 (body @ [CHR 0x0A]) = body @ [CHR 0x0A]" using assms(1) by simp
  have line: "client_line (body @ [CHR 0x0A]) = body" using assms(2-4) by (rule client_line_message)
  show ?thesis unfolding handle_client_def Let_def recv line assms(5) by simp
qed

text \<open>
  The \<open>CLIP\<close> protocol, end to end. The message \<open>clip_client\<close> sends for any two 32-bit
  offsets and any format word makes the daemon extract the clip for exactly these offsets and
  the format in lower case, and the client gets one line: the path, or the failure.
\<close>

lemma handle_clip_message:
  assumes "int32_range s" and "int32_range e" and "f = [] \<or> plain_word f" and "length f \<le> 900"
  shows "handle_client (daemon_socket pl) (clip_message s e f) st =
    obind (pl_capture_clip pl s e (map to_lower f) st) (\<lambda>(path, st').
      Inr (Some ((if path = [] then resp_error ''Clip extraction failed'' else resp_ok_path path) @
                 [CHR 0x0A]), st'))"
proof -
  let ?body = "''CLIP'' @ CHR '' '' # to_string s @ CHR '' '' # to_string e @
    (if f \<noteq> [] then CHR '' '' # f else [])"
  have "length ?body \<le> 1022"
    using assms(4) length_to_string [of s] length_to_string [of e] assms(1,2) by (simp add: int32_range_def)
  moreover have "\<forall>c \<in> set ?body. c \<noteq> CHR 0x00"
    using to_string_plain [of s] to_string_plain [of e] assms(3) by (auto simp: plain_word_def)
  moreover have "\<not> is_eol (last ?body)"
    using plain_last [OF to_string_plain [of e]] plain_last [of f] to_string_plain [of e] assms(3)
    by (auto simp: plain_word_def)
  ultimately have "handle_client (daemon_socket pl) (?body @ [CHR 0x0A]) st =
    obind (pl_capture_clip pl s e (map to_lower f) st) (\<lambda>(path, st').
      Inr (Some ((if path = [] then resp_error ''Clip extraction failed'' else resp_ok_path path) @
                 [CHR 0x0A]), st'))"
    by (subst handle_client_body [OF _ _ _ _ parse_clip [OF assms(1-3)]],
        simp_all add: daemon_socket_def run_handler_def handle_clip_command_def reply_line)
  moreover have "clip_message s e f = ?body @ [CHR 0x0A]" by (simp add: clip_message_def)
  ultimately show ?thesis by (simp only:)
qed

text \<open>A pipeline that answers every clip with a fixed path, as a concrete instance.\<close>

definition demo_pipeline :: "nat pipeline_ops" where
  "demo_pipeline = \<lparr>pl_capture_clip = (\<lambda>s e f st. Inr (if s < e then ''/c'' @ f else [], st + 1)),
     pl_set_parameter = (\<lambda>k v st. if v = ''x'' then Inl Invalid_Argument else Inr (k = ''gain_db'', st)),
     pl_status_json = (\<lambda>st. Inr ''{}''), pl_levels_json = (\<lambda>st. Inr ''{}'')\<rparr>"

lemma handle_set_message:
  assumes "plain_word k" and "plain_word v" and "length k + length v \<le> 900"
  shows "handle_client (daemon_socket pl) (set_message k v) st =
    obind (pl_set_parameter pl k v st) (\<lambda>(done, st').
      Inr (Some ((if done then resp_ok else resp_error ''Failed to set parameter'') @ [CHR 0x0A]), st'))"
proof -
  let ?body = "''SET'' @ CHR '' '' # k @ CHR '' '' # v"
  have w: "read_word (?body, True) [] = (''SET'', (CHR '' '' # k @ CHR '' '' # v, True))"
    by (rule read_word_print(2) [OF verbs_plain(2) space_head])
  have k: "read_word (CHR '' '' # k @ CHR '' '' # v, True) [] = (k, (CHR '' '' # v, True))"
    by (rule read_word_print(1) [OF assms(1) space_head])
  have v: "read_word (CHR '' '' # v, True) [] = (v, ([], True))"
    using read_word_print(1) [OF assms(2), of "[]" "[]"] by simp
  have up: "map to_upper ''SET'' = ''SET''" by (simp add: to_upper_def)
  have cmd: "parse_command ?body = empty_command\<lparr>cmd_type := SET, cmd_key := k, cmd_value := v\<rparr>"
    unfolding parse_command_def Let_def w prod.case up k v by simp
  have "\<forall>c \<in> set ?body. c \<noteq> CHR 0x00" using assms(1,2) by (auto simp: plain_word_def)
  moreover have "\<not> is_eol (last ?body)" using plain_last [OF assms(2)] assms(2) by (simp add: plain_word_def)
  moreover have "length ?body \<le> 1022" "?body \<noteq> []" using assms(3) by simp_all
  ultimately have "handle_client (daemon_socket pl) (?body @ [CHR 0x0A]) st =
      obind (pl_set_parameter pl k v st) (\<lambda>(done, st').
        Inr (Some ((if done then resp_ok else resp_error ''Failed to set parameter'') @ [CHR 0x0A]), st'))"
    by (subst handle_client_body [OF _ _ _ _ cmd],
        simp_all add: daemon_socket_def run_handler_def handle_set_command_def reply_line)
  then show ?thesis by (simp add: set_message_def)
qed

lemma handle_get_message:
  assumes "plain_word k" and "length k \<le> 900"
  shows "handle_client (daemon_socket pl) (get_message k) st =
    obind (handle_get_command pl (empty_command\<lparr>cmd_type := GET, cmd_key := map to_upper k\<rparr>) st)
      (\<lambda>(json, st'). Inr (Some (json @ [CHR 0x0A]), st'))"
proof -
  let ?body = "''GET'' @ CHR '' '' # k"
  have w: "read_word (?body, True) [] = (''GET'', (CHR '' '' # k, True))"
    by (rule read_word_print(2) [OF verbs_plain(3) space_head])
  have k: "read_word (CHR '' '' # k, True) [] = (k, ([], True))"
    using read_word_print(1) [OF assms(1), of "[]" "[]"] by simp
  have up: "map to_upper ''GET'' = ''GET''" by (simp add: to_upper_def)
  have cmd: "parse_command ?body = empty_command\<lparr>cmd_type := GET, cmd_key := map to_upper k\<rparr>"
    unfolding parse_command_def Let_def w prod.case up k by simp
  have "\<forall>c \<in> set ?body. c \<noteq> CHR 0x00" using assms(1) by (auto simp: plain_word_def)
  moreover have "\<not> is_eol (last ?body)" using plain_last [OF assms(1)] assms(1) by (simp add: plain_word_def)
  moreover have "length ?body \<le> 1022" "?body \<noteq> []" using assms(2) by simp_all
  ultimately have "handle_client (daemon_socket pl) (?body @ [CHR 0x0A]) st =
      obind (handle_get_command pl (empty_command\<lparr>cmd_type := GET, cmd_key := map to_upper k\<rparr>) st)
        (\<lambda>(json, st'). Inr (Some (json @ [CHR 0x0A]), st'))"
    by (subst handle_client_body [OF _ _ _ _ cmd]) (simp_all add: daemon_socket_def run_handler_def)
  then show ?thesis by (simp add: get_message_def)
qed

text \<open>
  C34: \<open>SET\<close> passes its words through unchanged, and does not contain failures. For a key and a
  value without blanks the pipeline sees exactly these; when setting the parameter throws (a
  \<open>gain_db\<close> that is no number), the exception leaves \<open>handle_client\<close>, and with it the accept
  thread.
\<close>

theorem set_protocol_end_to_end:
  assumes "plain_word k" and "plain_word v" and "length k + length v \<le> 900"
  shows "handle_client (daemon_socket pl) (set_message k v) st =
    (case pl_set_parameter pl k v st of
       Inl e \<Rightarrow> Inl e
     | Inr (done, st') \<Rightarrow>
         Inr (Some ((if done then resp_ok else resp_error ''Failed to set parameter'') @ [CHR 0x0A]), st'))"
  unfolding handle_set_message [OF assms] by (auto split: sum.splits)

theorem set_protocol_end_to_end_witness:
  "handle_client (daemon_socket demo_pipeline) (set_message ''gain_db'' ''6'') 4 =
     Inr (Some (resp_ok @ [CHR 0x0A]), 4) \<and>
   handle_client (daemon_socket demo_pipeline) (set_message ''gain_db'' ''x'') 4 =
     Inl Invalid_Argument"
proof -
  have p: "plain_word ''gain_db''" "plain_word ''6''" "plain_word ''x''"
    by (simp_all add: plain_word_def is_space_def)
  have l: "length ''gain_db'' + length ''6'' \<le> 900" "length ''gain_db'' + length ''x'' \<le> 900" by simp_all
  show ?thesis
    using set_protocol_end_to_end [OF p(1,2) l(1), of demo_pipeline 4]
      set_protocol_end_to_end [OF p(1,3) l(2), of demo_pipeline 4]
    by (simp add: demo_pipeline_def)
qed

end
