(* ===== verification/Config.thy ===== *)
theory Config
  imports Text_Input Block_Recorder
begin

text \<open>
  The configuration (include/audio_daemon/common.hpp, src/utils/config.cpp): the defaults, the
  configuration file, and the command line that overrides it. The file is its contents
  (\<open>None\<close> when it cannot be opened), the command line the sequence of options \<open>getopt_long\<close>
  delivers. Gains are of an arbitrary type \<open>'f\<close>; \<open>std::stof\<close> is the parameter \<open>stof\<close>.
\<close>

section \<open>State and defaults\<close>

record 'f audio_config =
  ac_device :: string
  ac_sample_rate :: u32
  ac_channels :: u16
  ac_bits_per_sample :: u16
  ac_period_size :: u32
  ac_buffer_periods :: u32
  ac_gain_db :: 'f
  ac_dc_remove :: bool
  ac_cpu_affinity :: int
  ac_downmix_mono :: bool

record 'f daemon_config =
  dc_socket_path :: string
  dc_clips_dir :: string
  dc_shm_name :: string
  dc_ring_buffer_seconds :: u32
  dc_enable_sample_sharing :: bool
  dc_audio :: "'f audio_config"
  dc_block_recorder :: block_config

definition default_config :: "'f::zero daemon_config" where
  "default_config =
     \<lparr>dc_socket_path = ''/run/ws-audiod/control.sock'', dc_clips_dir = ''/var/ws/audiod/clips'',
      dc_shm_name = ''/ws_audiod_samples'', dc_ring_buffer_seconds = 60,
      dc_enable_sample_sharing = False,
      dc_audio = \<lparr>ac_device = ''default'', ac_sample_rate = 48000, ac_channels = 1,
        ac_bits_per_sample = 16, ac_period_size = 1024, ac_buffer_periods = 4, ac_gain_db = 0,
        ac_dc_remove = False, ac_cpu_affinity = -1, ac_downmix_mono = False\<rparr>,
      dc_block_recorder = \<lparr>bc_enabled = False, bc_output_dir = ''/var/ws/audiod/blocks'',
        bc_block_duration_seconds = 300, bc_format = ''wav'', bc_max_blocks = 0\<rparr>\<rparr>"

abbreviation upd_audio where
  "upd_audio f c \<equiv> c\<lparr>dc_audio := f (dc_audio c)\<rparr>"

abbreviation upd_rec where
  "upd_rec f c \<equiv> c\<lparr>dc_block_recorder := f (dc_block_recorder c)\<rparr>"

section \<open>The file\<close>

definition is_blank :: "char \<Rightarrow> bool" where
  "is_blank c \<longleftrightarrow> c = CHR '' '' \<or> c = CHR 0x09 \<or> c = CHR 0x0D \<or> c = CHR 0x0A"

definition trim :: "string \<Rightarrow> string" where
  "trim s = rev (dropWhile is_blank (rev (dropWhile is_blank s)))"

definition parse_line :: "string \<Rightarrow> string \<times> string" where
  "parse_line line =
     (if CHR ''='' \<notin> set line then ([], [])
      else (trim (takeWhile (\<lambda>c. c \<noteq> CHR ''='') line),
            trim (tl (dropWhile (\<lambda>c. c \<noteq> CHR ''='') line))))"

definition is_true :: "string \<Rightarrow> bool" where
  "is_true v \<longleftrightarrow> v = ''true'' \<or> v = ''1''"

definition set_daemon_key ::
  "string \<Rightarrow> string \<Rightarrow> 'f daemon_config \<Rightarrow> 'f daemon_config outcome" where
  "set_daemon_key key v c =
     (if key = ''socket_path'' then Inr (c\<lparr>dc_socket_path := v\<rparr>)
      else if key = ''clips_dir'' then Inr (c\<lparr>dc_clips_dir := v\<rparr>)
      else if key = ''shm_name'' then Inr (c\<lparr>dc_shm_name := v\<rparr>)
      else if key = ''ring_buffer_seconds'' then
        obind (stoul v) (\<lambda>n. Inr (c\<lparr>dc_ring_buffer_seconds := ucast n\<rparr>))
      else if key = ''enable_sample_sharing'' then Inr (c\<lparr>dc_enable_sample_sharing := is_true v\<rparr>)
      else Inr c)"

definition set_audio_key ::
  "(string \<Rightarrow> 'f outcome) \<Rightarrow> string \<Rightarrow> string \<Rightarrow> 'f daemon_config \<Rightarrow> 'f daemon_config outcome" where
  "set_audio_key stof key v c =
     (if key = ''device'' then Inr (upd_audio (ac_device_update (\<lambda>_. v)) c)
      else if key = ''rate'' then
        obind (stoul v) (\<lambda>n. Inr (upd_audio (ac_sample_rate_update (\<lambda>_. ucast n)) c))
      else if key = ''channels'' then
        obind (stoul v) (\<lambda>n. Inr (upd_audio (ac_channels_update (\<lambda>_. ucast n)) c))
      else if key = ''bits'' \<or> key = ''bits_per_sample'' then
        obind (stoul v) (\<lambda>n. Inr (upd_audio (ac_bits_per_sample_update (\<lambda>_. ucast n)) c))
      else if key = ''period_size'' then
        obind (stoul v) (\<lambda>n. Inr (upd_audio (ac_period_size_update (\<lambda>_. ucast n)) c))
      else if key = ''buffer_periods'' then
        obind (stoul v) (\<lambda>n. Inr (upd_audio (ac_buffer_periods_update (\<lambda>_. ucast n)) c))
      else if key = ''gain_db'' then
        obind (stof v) (\<lambda>g. Inr (upd_audio (ac_gain_db_update (\<lambda>_. g)) c))
      else if key = ''dc_remove'' then Inr (upd_audio (ac_dc_remove_update (\<lambda>_. is_true v)) c)
      else if key = ''cpu_affinity'' then
        obind (stoi v) (\<lambda>n. Inr (upd_audio (ac_cpu_affinity_update (\<lambda>_. n)) c))
      else if key = ''downmix_mono'' then Inr (upd_audio (ac_downmix_mono_update (\<lambda>_. is_true v)) c)
      else Inr c)"

definition set_recorder_key ::
  "string \<Rightarrow> string \<Rightarrow> 'f daemon_config \<Rightarrow> 'f daemon_config outcome" where
  "set_recorder_key key v c =
     (if key = ''enabled'' then Inr (upd_rec (bc_enabled_update (\<lambda>_. is_true v)) c)
      else if key = ''output_dir'' then Inr (upd_rec (bc_output_dir_update (\<lambda>_. v)) c)
      else if key = ''block_duration_seconds'' \<or> key = ''duration'' then
        obind (stoul v) (\<lambda>n. Inr (upd_rec (bc_block_duration_seconds_update (\<lambda>_. ucast n)) c))
      else if key = ''format'' then Inr (upd_rec (bc_format_update (\<lambda>_. v)) c)
      else if key = ''max_blocks'' then
        obind (stoul v) (\<lambda>n. Inr (upd_rec (bc_max_blocks_update (\<lambda>_. ucast n)) c))
      else Inr c)"

definition set_key ::
  "(string \<Rightarrow> 'f outcome) \<Rightarrow> string \<Rightarrow> string \<Rightarrow> string \<Rightarrow> 'f daemon_config \<Rightarrow> 'f daemon_config outcome" where
  "set_key stof sect key v c =
     (if sect = ''daemon'' \<or> sect = [] then set_daemon_key key v c
      else if sect = ''audio'' then set_audio_key stof key v c
      else if sect = ''block_recorder'' then set_recorder_key key v c
      else Inr c)"

text \<open>The body of the loop over the lines; the state is the current section and the configuration.\<close>

definition config_line ::
  "(string \<Rightarrow> 'f outcome) \<Rightarrow> string \<Rightarrow> string \<times> 'f daemon_config \<Rightarrow>
   (string \<times> 'f daemon_config) outcome" where
  "config_line stof line0 st =
     (let (sect, c) = st; line = trim line0
      in if line = [] \<or> hd line = CHR ''#'' \<or> hd line = CHR '';'' then Inr (sect, c)
         else if hd line = CHR ''['' \<and> last line = CHR '']''
         then Inr (take (length line - 2) (drop 1 line), c)
         else let (key, v) = parse_line line
              in if key = [] then Inr (sect, c)
                 else obind (set_key stof sect key v c) (\<lambda>c'. Inr (sect, c')))"

fun config_lines ::
  "(string \<Rightarrow> 'f outcome) \<Rightarrow> string list \<Rightarrow> string \<times> 'f daemon_config \<Rightarrow>
   (string \<times> 'f daemon_config) outcome" where
  "config_lines stof [] st = Inr st"
| "config_lines stof (l # ls) st = obind (config_line stof l st) (config_lines stof ls)"

text \<open>\<open>std::getline\<close> until the end of the file: a last line need not be terminated.\<close>

fun get_lines :: "string \<Rightarrow> string list" where
  "get_lines [] = []"
| "get_lines (c # cs) =
     (if c = CHR 0x0A then [] # get_lines cs
      else case get_lines cs of [] \<Rightarrow> [[c]] | l # ls \<Rightarrow> (c # l) # ls)"

definition load_config ::
  "(string \<Rightarrow> 'f::zero outcome) \<Rightarrow> string option \<Rightarrow> 'f daemon_config outcome" where
  "load_config stof file =
     (case file of
        None \<Rightarrow> Inr default_config
      | Some content \<Rightarrow>
          obind (config_lines stof (get_lines content) ([], default_config)) (\<lambda>(sect, c). Inr c))"

section \<open>The command line\<close>

text \<open>Options as \<open>getopt_long\<close> delivers them: the option character and its argument.\<close>

type_synonym cli_opt = "char \<times> string"

definition apply_opt ::
  "(string \<Rightarrow> 'f outcome) \<Rightarrow> cli_opt \<Rightarrow> 'f daemon_config \<Rightarrow> 'f daemon_config outcome" where
  "apply_opt stof opt c =
     (let (ch, arg) = opt in
      if ch = CHR ''s'' then Inr (c\<lparr>dc_socket_path := arg\<rparr>)
      else if ch = CHR ''D'' then Inr (upd_audio (ac_device_update (\<lambda>_. arg)) c)
      else if ch = CHR ''r'' then
        obind (stoul arg) (\<lambda>n. Inr (upd_audio (ac_sample_rate_update (\<lambda>_. ucast n)) c))
      else if ch = CHR ''C'' then
        obind (stoul arg) (\<lambda>n. Inr (upd_audio (ac_channels_update (\<lambda>_. ucast n)) c))
      else if ch = CHR ''b'' then
        obind (stoul arg) (\<lambda>n. Inr (upd_audio (ac_bits_per_sample_update (\<lambda>_. ucast n)) c))
      else if ch = CHR ''g'' then
        obind (stof arg) (\<lambda>g. Inr (upd_audio (ac_gain_db_update (\<lambda>_. g)) c))
      else if ch = CHR ''p'' then
        obind (stoul arg) (\<lambda>n. Inr (upd_audio (ac_period_size_update (\<lambda>_. ucast n)) c))
      else if ch = CHR ''B'' then
        obind (stoul arg) (\<lambda>n. Inr (upd_rec (\<lambda>r. r\<lparr>bc_enabled := True,
          bc_block_duration_seconds := ucast n\<rparr>) c))
      else if ch = CHR ''S'' then Inr (c\<lparr>dc_enable_sample_sharing := True\<rparr>)
      else Inr c)"

fun apply_opts ::
  "(string \<Rightarrow> 'f outcome) \<Rightarrow> cli_opt list \<Rightarrow> 'f daemon_config \<Rightarrow> 'f daemon_config outcome" where
  "apply_opts stof [] c = Inr c"
| "apply_opts stof (opt # opts) c = obind (apply_opt stof opt c) (apply_opts stof opts)"

text \<open>
  The first pass: it also notes the configuration path and the log level, and ends the
  program on \<open>-h\<close>, \<open>-v\<close> and unknown options (\<open>Exit\<close> with the status).
\<close>

datatype 'a program = Exit int | Run 'a

definition known_opt :: "char \<Rightarrow> bool" where
  "known_opt ch \<longleftrightarrow> ch \<in> set ''csDrCbgpBSd''"

fun first_pass ::
  "(string \<Rightarrow> 'f outcome) \<Rightarrow> cli_opt list \<Rightarrow> 'f daemon_config \<times> string \<times> bool \<Rightarrow>
   ('f daemon_config \<times> string \<times> bool) program outcome" where
  "first_pass stof [] st = Inr (Run st)"
| "first_pass stof ((ch, arg) # opts) (c, path, debug) =
     (if ch = CHR ''c'' then first_pass stof opts (c, arg, debug)
      else if ch = CHR ''d'' then first_pass stof opts (c, path, True)
      else if ch = CHR ''v'' \<or> ch = CHR ''h'' then Inr (Exit 0)
      else if \<not> known_opt ch then Inr (Exit 1)
      else obind (apply_opt stof (ch, arg) c) (\<lambda>c'. first_pass stof opts (c', path, debug)))"

definition parse_args ::
  "(string \<Rightarrow> 'f::zero outcome) \<Rightarrow> (string \<Rightarrow> string option) \<Rightarrow> cli_opt list \<Rightarrow>
   ('f daemon_config \<times> bool) program outcome" where
  "parse_args stof files opts =
     obind (first_pass stof opts (default_config, [], False)) (\<lambda>r. case r of
       Exit n \<Rightarrow> Inr (Exit n)
     | Run (c, path, debug) \<Rightarrow>
         if path = [] then Inr (Run (c, debug))
         else obind (load_config stof (files path)) (\<lambda>c0.
              obind (apply_opts stof opts c0) (\<lambda>c1. Inr (Run (c1, debug)))))"

section \<open>Lines that assign\<close>

text \<open>A value that survives trimming and stays on its line.\<close>

definition no_edge_blanks :: "string \<Rightarrow> bool" where
  "no_edge_blanks v \<longleftrightarrow> v = [] \<or> \<not> is_blank (hd v) \<and> \<not> is_blank (last v)"

definition clean_value :: "string \<Rightarrow> bool" where
  "clean_value v \<longleftrightarrow> no_edge_blanks v \<and> CHR 0x0A \<notin> set v"

definition key_word :: "string \<Rightarrow> bool" where
  "key_word k \<longleftrightarrow> k \<noteq> [] \<and> (\<forall>c \<in> set k. \<not> is_blank c \<and> c \<noteq> CHR ''='') \<and>
     hd k \<noteq> CHR ''#'' \<and> hd k \<noteq> CHR '';'' \<and> hd k \<noteq> CHR ''[''"

lemma drop_blanks: "\<forall>c \<in> set a. is_blank c \<Longrightarrow> dropWhile is_blank (a @ s) = dropWhile is_blank s"
  by (induction a) auto

lemma trim_pad:
  assumes "no_edge_blanks v" and "\<forall>c \<in> set a. is_blank c" and "\<forall>c \<in> set b. is_blank c"
  shows "trim (a @ v @ b) = v"
proof (cases "v = []")
  case True
  then show ?thesis
    using drop_blanks [OF assms(2), of b] drop_blanks [OF assms(3), of "[]"]
    by (auto simp: trim_def dest: set_dropWhileD intro!: assms(3) [THEN bspec])
next
  case False
  then obtain x xs where v: "v = x # xs" and x: "\<not> is_blank x"
    using assms(1) by (cases v) (auto simp: no_edge_blanks_def)
  then have "dropWhile is_blank (a @ v @ b) = v @ b" using drop_blanks [OF assms(2)] by simp
  moreover obtain ys y where r: "v = ys @ [y]" using False by (cases v rule: rev_cases) auto
  then have "\<not> is_blank y" using assms(1) False by (simp add: no_edge_blanks_def)
  moreover have "\<forall>c \<in> set (rev b). is_blank c" using assms(3) by simp
  ultimately show ?thesis using drop_blanks [of "rev b" "rev v"] by (simp add: trim_def r)
qed

lemma key_word_edges: "key_word k \<Longrightarrow> no_edge_blanks k"
  by (auto simp: key_word_def no_edge_blanks_def)

lemma blanks: "is_blank (CHR '' '')" "\<not> is_blank (CHR ''='')" "\<not> is_blank (CHR ''['')" "\<not> is_blank (CHR '']'')"
  by (simp_all add: is_blank_def)

lemma parse_assignment:
  assumes k: "key_word k" and v: "no_edge_blanks v" and b: "\<forall>c \<in> set b. is_blank c"
  shows "parse_line (k @ '' ='' @ b @ v) = (k, v)"
proof -
  let ?ne = "\<lambda>c. c \<noteq> CHR ''=''"
  have all: "\<forall>c \<in> set (k @ '' ''). ?ne c" using k by (auto simp: key_word_def)
  have line: "k @ '' ='' @ b @ v = (k @ '' '') @ CHR ''='' # b @ v" by simp
  have t: "takeWhile ?ne ((k @ '' '') @ CHR ''='' # b @ v) = k @ '' ''"
    "dropWhile ?ne ((k @ '' '') @ CHR ''='' # b @ v) = CHR ''='' # b @ v"
    using takeWhile_append2 [of "k @ '' ''" ?ne "CHR ''='' # b @ v"]
      dropWhile_append2 [of "k @ '' ''" ?ne "CHR ''='' # b @ v"] all by auto
  have "trim ([] @ k @ '' '') = k" "trim (b @ v @ []) = v"
    using k v b by (intro trim_pad; simp add: key_word_edges blanks)+
  then show ?thesis unfolding line parse_line_def t by simp
qed

lemma config_line_assign:
  assumes k: "key_word k" and v: "no_edge_blanks v"
  shows "config_line stof (k @ '' = '' @ v) (sect, c) =
    obind (set_key stof sect k v c) (\<lambda>c'. Inr (sect, c'))"
proof -
  obtain x xs where kx: "k = x # xs" and x: "\<not> is_blank x" "x \<noteq> CHR ''#''" "x \<noteq> CHR '';''" "x \<noteq> CHR ''[''"
    using k by (cases k) (auto simp: key_word_def)
  define core where "core = (if v = [] then k @ '' ='' else k @ '' = '' @ v)"
  have "no_edge_blanks core"
    using x v by (auto simp: core_def no_edge_blanks_def kx blanks)
  then have "trim ([] @ core @ (if v = [] then '' '' else [])) = core"
    by (intro trim_pad) (simp_all add: blanks)
  moreover have "[] @ core @ (if v = [] then '' '' else []) = k @ '' = '' @ v" by (simp add: core_def)
  ultimately have trimmed: "trim (k @ '' = '' @ v) = core" by simp
  have parsed: "parse_line core = (k, v)"
    using parse_assignment [OF k v, of "[]"] parse_assignment [OF k v, of "'' ''"]
    by (auto simp: core_def blanks)
  have core: "core \<noteq> []" "hd core = x" by (simp_all add: core_def kx)
  show ?thesis
    unfolding config_line_def Let_def prod.case trimmed parsed core(2)
    using core(1) x by (simp add: kx)
qed

lemma config_line_section:
  assumes "CHR 0x0A \<notin> set name"
  shows "config_line stof (CHR ''['' # name @ '']'') (sect, c) = Inr (name, c)"
proof -
  have "no_edge_blanks (CHR ''['' # name @ '']'')" by (simp add: no_edge_blanks_def blanks)
  from trim_pad [OF this, of "[]" "[]"] have "trim (CHR ''['' # name @ '']'') = CHR ''['' # name @ '']''" by simp
  then show ?thesis by (simp add: config_line_def Let_def)
qed

lemma get_lines_concat:
  assumes "\<forall>l \<in> set ls. CHR 0x0A \<notin> set l"
  shows "get_lines (concat (map (\<lambda>l. l @ [CHR 0x0A]) ls)) = ls"
proof -
  have one: "get_lines (l @ CHR 0x0A # r) = l # get_lines r" if "CHR 0x0A \<notin> set l" for l r
    using that by (induction l) auto
  show ?thesis using assms by (induction ls) (simp_all add: one)
qed

lemma config_lines_append:
  "config_lines stof (xs @ ys) st = obind (config_lines stof xs st) (config_lines stof ys)"
proof (induction xs arbitrary: st)
  case (Cons l xs)
  then show ?case by (cases "config_line stof l st") simp_all
qed simp

section \<open>Printing a configuration\<close>

definition show_bool :: "bool \<Rightarrow> string" where
  "show_bool b = (if b then ''true'' else ''false'')"

definition show_word :: "'a::len word \<Rightarrow> string" where
  "show_word w = dec (unat w)"

definition config_printable :: "('f \<Rightarrow> string) \<Rightarrow> 'f daemon_config \<Rightarrow> bool" where
  "config_printable showf c \<longleftrightarrow>
     (\<forall>v \<in> {dc_socket_path c, dc_clips_dir c, dc_shm_name c, ac_device (dc_audio c),
            showf (ac_gain_db (dc_audio c)), bc_output_dir (dc_block_recorder c),
            bc_format (dc_block_recorder c)}. clean_value v) \<and>
     - (2 ^ 31) \<le> ac_cpu_affinity (dc_audio c) \<and> ac_cpu_affinity (dc_audio c) < 2 ^ 31"

lemma digit_not_blank: "is_digit c \<Longrightarrow> \<not> is_blank c"
  by (auto simp: is_digit_def is_blank_def)

lemma digits_clean: "v \<noteq> [] \<Longrightarrow> \<forall>c \<in> set v. \<not> is_blank c \<Longrightarrow> clean_value v"
  by (auto simp: clean_value_def no_edge_blanks_def is_blank_def)

lemma dec_not_blank: "\<forall>c \<in> set (dec n). \<not> is_blank c"
  using dec_digits digit_not_blank by blast

lemma printed_clean [simp]:
  "clean_value (show_word w)" "clean_value (show_bool b)" "clean_value (to_string i)"
proof -
  show "clean_value (show_word w)" unfolding show_word_def by (rule digits_clean) (simp, rule dec_not_blank)
  show "clean_value (show_bool b)" by (simp add: show_bool_def clean_value_def no_edge_blanks_def is_blank_def)
  have "\<not> is_blank (CHR ''-'')" by (simp add: is_blank_def)
  then show "clean_value (to_string i)"
    using dec_not_blank by (intro digits_clean) (simp_all add: to_string_def)
qed

lemma is_true_show_bool [simp]: "is_true (show_bool b) = b"
  by (simp add: is_true_def show_bool_def)

lemma stoul_show_word:
  fixes n :: "'a::len word"
  assumes "LENGTH('a) \<le> 64"
  shows "stoul (show_word n) = Inr (ucast n)" and "ucast (ucast n :: u64) = n"
proof -
  have "unat n < 2 ^ LENGTH('a)" by (rule unsigned_less)
  also have "\<dots> \<le> (2::nat) ^ 64" using assms by (intro power_increasing) simp_all
  finally have lt: "unat n < 2 ^ 64" .
  then show "stoul (show_word n) = Inr (ucast n)" using stoul_dec [OF lt] by (simp add: show_word_def)
  define m where "m = (ucast n :: u64)"
  have "unat m = unat n" using lt by (simp add: m_def unsigned_ucast_eq take_bit_nat_eq_self)
  then have "unat (ucast m :: 'a word) = unat n"
    by (simp add: unsigned_ucast_eq take_bit_nat_eq_self)
  then show "ucast (ucast n :: u64) = n" by (simp add: word_unat_eq_iff m_def)
qed

lemma read_words:
  "stoul (show_word (n :: u32)) = Inr (ucast n)" "ucast (ucast n :: u64) = n"
  "stoul (show_word (k :: u16)) = Inr (ucast k)" "ucast (ucast k :: u64) = k"
  by (rule stoul_show_word; simp)+

text \<open>Assignments one after the other.\<close>

fun set_keys ::
  "(string \<Rightarrow> 'f outcome) \<Rightarrow> string \<Rightarrow> (string \<times> string) list \<Rightarrow> 'f daemon_config \<Rightarrow> 'f daemon_config outcome" where
  "set_keys stof sect [] c = Inr c"
| "set_keys stof sect ((k, v) # kvs) c = obind (set_key stof sect k v c) (set_keys stof sect kvs)"

lemma printed_lines:
  assumes "\<forall>(k, v) \<in> set kvs. key_word k \<and> clean_value v"
  shows "config_lines stof (map (\<lambda>(k, v). k @ '' = '' @ v) kvs) (sect, c) =
    obind (set_keys stof sect kvs c) (\<lambda>c'. Inr (sect, c'))"
  using assms
proof (induction kvs arbitrary: c)
  case (Cons kv kvs)
  obtain k v where kv: "kv = (k, v)" by (cases kv)
  have "config_line stof (k @ '' = '' @ v) (sect, c) = obind (set_key stof sect k v c) (\<lambda>c'. Inr (sect, c'))"
    using config_line_assign [of k v stof sect c] Cons.prems by (simp add: kv clean_value_def)
  then show ?case using Cons by (cases "set_key stof sect k v c") (simp_all add: kv)
qed simp

text \<open>A printed section: its header and its assignments.\<close>

definition section_lines :: "string \<Rightarrow> (string \<times> string) list \<Rightarrow> string list" where
  "section_lines name kvs = (CHR ''['' # name @ '']'') # map (\<lambda>(k, v). k @ '' = '' @ v) kvs"

lemma section_lines_read:
  assumes "CHR 0x0A \<notin> set name" and "\<forall>(k, v) \<in> set kvs. key_word k \<and> clean_value v"
  shows "config_lines stof (section_lines name kvs) (sect, c) =
    obind (set_keys stof name kvs c) (\<lambda>c'. Inr (name, c'))"
  using printed_lines [OF assms(2)] by (simp add: section_lines_def config_line_section [OF assms(1)])

definition daemon_keys :: "'f daemon_config \<Rightarrow> (string \<times> string) list" where
  "daemon_keys c = [(''socket_path'', dc_socket_path c), (''clips_dir'', dc_clips_dir c),
     (''shm_name'', dc_shm_name c), (''ring_buffer_seconds'', show_word (dc_ring_buffer_seconds c)),
     (''enable_sample_sharing'', show_bool (dc_enable_sample_sharing c))]"

definition audio_keys :: "('f \<Rightarrow> string) \<Rightarrow> 'f audio_config \<Rightarrow> (string \<times> string) list" where
  "audio_keys showf a = [(''device'', ac_device a), (''rate'', show_word (ac_sample_rate a)),
     (''channels'', show_word (ac_channels a)), (''bits_per_sample'', show_word (ac_bits_per_sample a)),
     (''period_size'', show_word (ac_period_size a)), (''buffer_periods'', show_word (ac_buffer_periods a)),
     (''gain_db'', showf (ac_gain_db a)), (''dc_remove'', show_bool (ac_dc_remove a)),
     (''cpu_affinity'', to_string (ac_cpu_affinity a)), (''downmix_mono'', show_bool (ac_downmix_mono a))]"

definition recorder_keys :: "block_config \<Rightarrow> (string \<times> string) list" where
  "recorder_keys r = [(''enabled'', show_bool (bc_enabled r)), (''output_dir'', bc_output_dir r),
     (''block_duration_seconds'', show_word (bc_block_duration_seconds r)),
     (''format'', bc_format r), (''max_blocks'', show_word (bc_max_blocks r))]"

definition show_config :: "('f \<Rightarrow> string) \<Rightarrow> 'f daemon_config \<Rightarrow> string" where
  "show_config showf c = concat (map (\<lambda>l. l @ [CHR 0x0A])
     (section_lines ''daemon'' (daemon_keys c) @ section_lines ''audio'' (audio_keys showf (dc_audio c)) @
      section_lines ''block_recorder'' (recorder_keys (dc_block_recorder c))))"

lemma daemon_keys_read:
  "set_keys stof ''daemon'' (daemon_keys c) c0 = Inr (c0\<lparr>dc_socket_path := dc_socket_path c,
     dc_clips_dir := dc_clips_dir c, dc_shm_name := dc_shm_name c,
     dc_ring_buffer_seconds := dc_ring_buffer_seconds c,
     dc_enable_sample_sharing := dc_enable_sample_sharing c\<rparr>)"
  by (simp add: daemon_keys_def set_key_def set_daemon_key_def read_words)

lemma audio_keys_read:
  assumes "stof (showf (ac_gain_db a)) = Inr (ac_gain_db a)"
    and "- (2 ^ 31) \<le> ac_cpu_affinity a" and "ac_cpu_affinity a < 2 ^ 31"
  shows "set_keys stof ''audio'' (audio_keys showf a) c0 = Inr (c0\<lparr>dc_audio := a\<rparr>)"
  using assms stoi_to_string [OF assms(2,3)]
  by (simp add: audio_keys_def set_key_def set_audio_key_def read_words)

lemma recorder_keys_read:
  "set_keys stof ''block_recorder'' (recorder_keys r) c0 = Inr (c0\<lparr>dc_block_recorder := r\<rparr>)"
  by (simp add: recorder_keys_def set_key_def set_recorder_key_def read_words)

lemma keys_ok:
  assumes "config_printable showf c"
  shows "\<forall>(k, v) \<in> set (daemon_keys c). key_word k \<and> clean_value v"
    and "\<forall>(k, v) \<in> set (audio_keys showf (dc_audio c)). key_word k \<and> clean_value v"
    and "\<forall>(k, v) \<in> set (recorder_keys (dc_block_recorder c)). key_word k \<and> clean_value v"
  using assms
  by (simp_all add: config_printable_def daemon_keys_def audio_keys_def recorder_keys_def key_word_def is_blank_def)

lemma section_lines_plain:
  assumes "CHR 0x0A \<notin> set name" and "\<forall>(k, v) \<in> set kvs. key_word k \<and> clean_value v"
  shows "\<forall>l \<in> set (section_lines name kvs). CHR 0x0A \<notin> set l"
  using assms by (fastforce simp: section_lines_def key_word_def clean_value_def is_blank_def)

section \<open>The interface: a field the command line can set\<close>

text \<open>The argument of the last occurrence of an option.\<close>

fun last_arg :: "char \<Rightarrow> cli_opt list \<Rightarrow> string option" where
  "last_arg l [] = None"
| "last_arg l (opt # opts) =
     (case last_arg l opts of Some a \<Rightarrow> Some a
      | None \<Rightarrow> if fst opt = l then Some (snd opt) else None)"

locale cli_field =
  fixes stof :: "string \<Rightarrow> 'f outcome" and letter :: char
    and get :: "'f daemon_config \<Rightarrow> 'v" and conv :: "string \<Rightarrow> 'v outcome"
  assumes hit: "apply_opt stof (letter, arg) c = Inr c' \<Longrightarrow> conv arg = Inr (get c')"
    and miss: "ch \<noteq> letter \<Longrightarrow> apply_opt stof (ch, arg) c = Inr c' \<Longrightarrow> get c' = get c"
begin

lemma apply_opts_last:
  "apply_opts stof opts c = Inr c' \<Longrightarrow>
   (case last_arg letter opts of None \<Rightarrow> get c' = get c | Some arg \<Rightarrow> conv arg = Inr (get c'))"
proof (induction opts arbitrary: c)
  case Nil
  then show ?case by simp
next
  case (Cons opt opts)
  obtain ch arg where opt: "opt = (ch, arg)" by (cases opt)
  obtain c1 where c1: "apply_opt stof (ch, arg) c = Inr c1" "apply_opts stof opts c1 = Inr c'"
    using Cons.prems by (auto simp: opt obind_Inr_iff)
  from Cons.IH [OF c1(2)] show ?case
    using hit miss c1(1) by (cases "ch = letter") (auto simp: opt split: option.splits)
qed

end

lemmas opt_split = apply_opt_def Let_def obind_Inr_iff

interpretation cli_rate: cli_field stof "CHR ''r''" "\<lambda>c. ac_sample_rate (dc_audio c)"
    "\<lambda>a. obind (stoul a) (\<lambda>n. Inr (ucast n))" for stof
  by unfold_locales (auto simp: opt_split split: if_splits)

interpretation cli_channels: cli_field stof "CHR ''C''" "\<lambda>c. ac_channels (dc_audio c)"
    "\<lambda>a. obind (stoul a) (\<lambda>n. Inr (ucast n))" for stof
  by unfold_locales (auto simp: opt_split split: if_splits)

interpretation cli_bits: cli_field stof "CHR ''b''" "\<lambda>c. ac_bits_per_sample (dc_audio c)"
    "\<lambda>a. obind (stoul a) (\<lambda>n. Inr (ucast n))" for stof
  by unfold_locales (auto simp: opt_split split: if_splits)

interpretation cli_device: cli_field stof "CHR ''D''" "\<lambda>c. ac_device (dc_audio c)" Inr for stof
  by unfold_locales (auto simp: opt_split split: if_splits)

interpretation cli_socket: cli_field stof "CHR ''s''" dc_socket_path Inr for stof
  by unfold_locales (auto simp: opt_split split: if_splits)

interpretation cli_block: cli_field stof "CHR ''B''"
    "\<lambda>c. (bc_enabled (dc_block_recorder c), bc_block_duration_seconds (dc_block_recorder c))"
    "\<lambda>a. obind (stoul a) (\<lambda>n. Inr (True, ucast n))" for stof
  by unfold_locales (auto simp: opt_split split: if_splits)

text \<open>No option names these fields.\<close>

lemma apply_opts_frame:
  "apply_opts stof opts c = Inr c' \<Longrightarrow> dc_clips_dir c' = dc_clips_dir c \<and>
     dc_shm_name c' = dc_shm_name c \<and> dc_ring_buffer_seconds c' = dc_ring_buffer_seconds c"
proof (induction opts arbitrary: c)
  case (Cons opt opts)
  then obtain c1 where c1: "apply_opt stof opt c = Inr c1" "apply_opts stof opts c1 = Inr c'"
    by (auto simp: obind_Inr_iff)
  have "dc_clips_dir c1 = dc_clips_dir c \<and> dc_shm_name c1 = dc_shm_name c \<and>
      dc_ring_buffer_seconds c1 = dc_ring_buffer_seconds c"
    using c1(1) by (cases opt) (auto simp: opt_split split: if_splits)
  with Cons.IH [OF c1(2)] show ?case by simp
qed simp

lemma first_pass_path:
  "first_pass stof opts (c, path, debug) = Inr (Run (c', path', debug')) \<Longrightarrow>
   path' = (case last_arg (CHR ''c'') opts of None \<Rightarrow> path | Some a \<Rightarrow> a)"
proof (induction opts arbitrary: c path debug)
  case (Cons opt opts)
  obtain ch arg where "opt = (ch, arg)" by (cases opt)
  with Cons show ?case
    by (auto simp: obind_Inr_iff split: if_splits option.splits)
qed simp

lemma load_shown:
  assumes "config_printable showf c" and "stof (showf (ac_gain_db (dc_audio c))) = Inr (ac_gain_db (dc_audio c))"
  shows "load_config stof (Some (show_config showf c)) = Inr c"
proof -
  let ?d = "section_lines ''daemon'' (daemon_keys c)"
    and ?a = "section_lines ''audio'' (audio_keys showf (dc_audio c))"
    and ?r = "section_lines ''block_recorder'' (recorder_keys (dc_block_recorder c))"
  have names: "CHR 0x0A \<notin> set ''daemon''" "CHR 0x0A \<notin> set ''audio''" "CHR 0x0A \<notin> set ''block_recorder''"
    by simp_all
  note K = keys_ok [OF assms(1)]
  have "\<forall>l \<in> set (?d @ ?a @ ?r). CHR 0x0A \<notin> set l"
    using section_lines_plain [OF names(1) K(1)] section_lines_plain [OF names(2) K(2)]
      section_lines_plain [OF names(3) K(3)] by auto
  then have "get_lines (show_config showf c) = ?d @ ?a @ ?r"
    unfolding show_config_def by (rule get_lines_concat)
  moreover have "config_lines stof (?d @ ?a @ ?r) ([], default_config) = Inr (''block_recorder'', c)"
    using assms
    by (simp add: config_lines_append section_lines_read [OF names(1) K(1)] section_lines_read [OF names(2) K(2)]
        section_lines_read [OF names(3) K(3)] daemon_keys_read audio_keys_read recorder_keys_read
        config_printable_def)
  ultimately show ?thesis by (simp add: load_config_def)
qed

section \<open>The properties\<close>

text \<open>
  C32: the configuration file says everything. Printing any configuration with one line per
  documented key and loading the text gives the configuration back: every key is recognised in
  its section, numbers of every width survive, and values keep inner blanks and equals signs.
\<close>

theorem config_file_roundtrip:
  assumes "config_printable showf c" and "stof (showf (ac_gain_db (dc_audio c))) = Inr (ac_gain_db (dc_audio c))"
  shows "load_config stof (Some (show_config showf c)) = Inr c"
  using assms by (rule load_shown)

text \<open>A concrete configuration, with gains that are whole numbers of decibels.\<close>

definition int_stof :: "string \<Rightarrow> int outcome" where
  "int_stof = stoi"

definition demo_daemon_config :: "int daemon_config" where
  "demo_daemon_config = default_config\<lparr>dc_clips_dir := ''/a = b/c d'',
     dc_audio := \<lparr>ac_device = ''hw:1,0'', ac_sample_rate = 96000, ac_channels = 2, ac_bits_per_sample = 24,
       ac_period_size = 2048, ac_buffer_periods = 4, ac_gain_db = 6, ac_dc_remove = True,
       ac_cpu_affinity = -1, ac_downmix_mono = True\<rparr>\<rparr>"

lemma demo_config_printable: "config_printable to_string demo_daemon_config"
proof -
  have "\<forall>v \<in> {''/run/ws-audiod/control.sock'', ''/a = b/c d'', ''/ws_audiod_samples'', ''hw:1,0'',
      ''/var/ws/audiod/blocks'', ''wav''}. clean_value v"
    by (simp add: clean_value_def no_edge_blanks_def is_blank_def)
  then show ?thesis by (simp add: config_printable_def demo_daemon_config_def default_config_def)
qed

lemma demo_config_gain:
  "int_stof (to_string (ac_gain_db (dc_audio demo_daemon_config))) = Inr (ac_gain_db (dc_audio demo_daemon_config))"
  unfolding int_stof_def by (rule stoi_to_string) (simp_all add: demo_daemon_config_def)

theorem config_file_roundtrip_witness:
  "load_config int_stof (Some (show_config to_string demo_daemon_config)) = Inr demo_daemon_config"
  using config_file_roundtrip [of to_string demo_daemon_config int_stof]
    demo_config_printable demo_config_gain by blast

text \<open>
  Numbers are not checked against the width of the field they go to. A channel count is
  taken modulo \<open>2 ^ 16\<close>, a sample rate modulo \<open>2 ^ 32\<close>, and a negative rate is accepted.
\<close>

theorem config_numbers_wrap:
  assumes "n < 2 ^ 64"
  shows "config_line stof (''channels'' @ '' = '' @ dec n) (''audio'', c) =
      Inr (''audio'', c\<lparr>dc_audio := (dc_audio c)\<lparr>ac_channels := of_nat n\<rparr>\<rparr>) \<and>
    config_line stof (''rate'' @ '' = '' @ dec n) (''audio'', c) =
      Inr (''audio'', c\<lparr>dc_audio := (dc_audio c)\<lparr>ac_sample_rate := of_nat n\<rparr>\<rparr>) \<and>
    config_line stof (''rate'' @ '' = '' @ CHR ''-'' # dec n) (''audio'', c) =
      Inr (''audio'', c\<lparr>dc_audio := (dc_audio c)\<lparr>ac_sample_rate := - of_nat n\<rparr>\<rparr>)"
proof -
  have k: "key_word ''channels''" "key_word ''rate''" by (simp_all add: key_word_def is_blank_def)
  have v: "no_edge_blanks (dec n)" "no_edge_blanks (CHR ''-'' # dec n)"
    using dec_not_blank [of n] by (auto simp: no_edge_blanks_def is_blank_def)
  have u: "ucast (of_nat n :: u64) = (of_nat n :: u16)" "ucast (of_nat n :: u64) = (of_nat n :: u32)"
    by (rule bit_word_eqI; simp add: bit_simps)+
  have "ucast (word_of_int (- int n) :: u64) = (word_of_int (- int n) :: u32)"
    by (rule bit_word_eqI) (simp add: bit_simps del: of_int_minus of_int_of_nat_eq)
  then have "ucast (- of_nat n :: u64) = (- of_nat n :: u32)" by simp
  note u = u this
  show ?thesis
    using stoul_dec [OF assms] stoul_minus [OF assms]
    by (simp only: config_line_assign [OF k(1) v(1)] config_line_assign [OF k(2) v(1)]
        config_line_assign [OF k(2) v(2)]) (simp add: set_key_def set_audio_key_def u)
qed

theorem config_numbers_wrap_witness:
  "config_line int_stof (''channels'' @ '' = '' @ dec 65537) (''audio'', demo_daemon_config) =
     Inr (''audio'', demo_daemon_config\<lparr>dc_audio := (dc_audio demo_daemon_config)\<lparr>ac_channels := 1\<rparr>\<rparr>)"
  using config_numbers_wrap [of 65537 int_stof demo_daemon_config] by simp



end
