(* ===== verification/Binary_Float.thy ===== *)
theory Binary_Float
  imports Complex_Main "HOL-Library.Log_Nat" Prelude
begin

text \<open>
  The arithmetic of \<open>float\<close> and \<open>double\<close>. Finite values are rationals, and every operation
  rounds its exact result. The interface \<open>float_rounding\<close> states what the signal path relies on;
  \<open>round_bin\<close> is IEEE round-to-nearest-even with a given precision and least exponent,
  without an upper limit of the exponent: values too large to convert to an integer are faults
  where they are converted. NaN and infinities are not represented.
\<close>

section \<open>Conversion to integers\<close>

definition trunc_rat :: "rat \<Rightarrow> int" where
  "trunc_rat x = (if 0 \<le> x then \<lfloor>x\<rfloor> else - \<lfloor>- x\<rfloor>)"

lemma trunc_rat_of_int [simp]: "trunc_rat (of_int n) = n"
proof -
  have "\<lfloor>- (of_int n :: rat)\<rfloor> = - n" using floor_of_int [of "- n", where 'a = rat] by simp
  then show ?thesis by (simp add: trunc_rat_def)
qed

lemma trunc_rat_mono: "x \<le> y \<Longrightarrow> trunc_rat x \<le> trunc_rat y"
proof -
  assume le: "x \<le> y"
  consider "0 \<le> x" | "x < 0" "0 \<le> y" | "y < 0" using le by linarith
  then show ?thesis
  proof cases
    case 1
    then show ?thesis using le floor_mono [OF le] by (simp add: trunc_rat_def)
  next
    case 2
    then have "0 \<le> \<lfloor>- x\<rfloor>" "0 \<le> \<lfloor>y\<rfloor>" by simp_all
    then have "- \<lfloor>- x\<rfloor> \<le> \<lfloor>y\<rfloor>" by linarith
    with 2 show ?thesis by (simp add: trunc_rat_def not_le [symmetric] del: neg_le_iff_le)
  next
    case 3
    then have "\<lfloor>- y\<rfloor> \<le> \<lfloor>- x\<rfloor>" using le by (intro floor_mono) simp
    with 3 le show ?thesis by (simp add: trunc_rat_def)
  qed
qed

lemma trunc_rat_between:
  "of_int a \<le> y \<Longrightarrow> y \<le> of_int b \<Longrightarrow> a \<le> trunc_rat y \<and> trunc_rat y \<le> b"
  using trunc_rat_mono [of "of_int a" y] trunc_rat_mono [of y "of_int b"] by simp

lemma trunc_rat_zero: "\<bar>y\<bar> < 1 \<Longrightarrow> trunc_rat y = 0"
  by (auto simp: trunc_rat_def abs_less_iff floor_eq_iff)

section \<open>The interface\<close>

locale float_rounding =
  fixes fl :: "rat \<Rightarrow> rat"
  assumes fl_mono: "x \<le> y \<Longrightarrow> fl x \<le> fl y"
    and fl_exact: "\<bar>m\<bar> < 2 ^ 24 \<Longrightarrow> fl (of_int m * 2 ^ j) = of_int m * 2 ^ j"
    and fl_err: "\<bar>x\<bar> < 2 ^ k \<Longrightarrow> \<bar>fl x - x\<bar> \<le> 2 ^ k / 2 ^ 25"
begin

lemma fl_int: "\<bar>n\<bar> < 2 ^ 24 \<Longrightarrow> fl (of_int n) = of_int n"
  using fl_exact [of n 0] by simp

lemma fl_zero: "fl 0 = 0"
  using fl_int [of 0] by simp

lemma fl_one: "fl 1 = 1"
  using fl_int [of 1] by simp

lemma fl_pow2: "fl (2 ^ j) = 2 ^ j" "fl (- (2 ^ j)) = - (2 ^ j)"
  using fl_exact [of 1 j] fl_exact [of "-1" j] by simp_all

text \<open>A value between two representable ones rounds between them, and converts between them.\<close>

lemma fl_ge: "a \<le> x \<Longrightarrow> fl a = a \<Longrightarrow> a \<le> fl x"
  using fl_mono [of a x] by simp

lemma fl_le: "x \<le> b \<Longrightarrow> fl b = b \<Longrightarrow> fl x \<le> b"
  using fl_mono [of x b] by simp

lemma fl_bound: "\<bar>x\<bar> \<le> 2 ^ j \<Longrightarrow> \<bar>fl x\<bar> \<le> 2 ^ j"
  using fl_ge [of "- (2 ^ j)" x] fl_le [of x "2 ^ j"] fl_pow2 [of j] by (simp add: abs_le_iff minus_le_iff)

lemma fl_trunc_mono: "x \<le> y \<Longrightarrow> trunc_rat (fl x) \<le> trunc_rat (fl y)"
  by (intro trunc_rat_mono fl_mono)

text \<open>The error relative to the value, where the value is not tiny.\<close>

lemma fl_err_rel: "\<bar>fl x - x\<bar> \<le> \<bar>x\<bar> / 2 ^ 24 + 1 / 2 ^ 25"
proof (cases "\<bar>x\<bar> < 1")
  case True
  then have "\<bar>fl x - x\<bar> \<le> 1 / 2 ^ 25" using fl_err [of x 0] by simp
  moreover have "0 \<le> \<bar>x\<bar> / 2 ^ 24" by simp
  ultimately show ?thesis by linarith
next
  case False
  obtain n where "\<bar>x\<bar> < of_nat n" using reals_Archimedean2 by blast
  moreover have "of_nat n < (2 ^ n :: rat)" by (rule of_nat_less_two_power)
  ultimately have n: "\<bar>x\<bar> < 2 ^ n" by linarith
  define k where "k = (LEAST n. \<bar>x\<bar> < 2 ^ n)"
  have k: "\<bar>x\<bar> < 2 ^ k" unfolding k_def by (rule LeastI [of _ n]) (rule n)
  then have "k \<noteq> 0" using False by (intro notI) simp
  then obtain j where j: "k = Suc j" by (cases k) auto
  then have "\<not> \<bar>x\<bar> < 2 ^ j" using not_less_Least [of j "\<lambda>n. \<bar>x\<bar> < 2 ^ n"] by (simp add: k_def)
  then have "2 ^ k / 2 ^ 25 \<le> \<bar>x\<bar> / (2 ^ 24 :: rat)" by (simp add: j field_simps)
  moreover have "(0::rat) \<le> 1 / 2 ^ 25" by simp
  ultimately show ?thesis using fl_err [OF k] by linarith
qed

end

section \<open>Round to nearest, ties to even\<close>

definition round_even :: "rat \<Rightarrow> int" where
  "round_even x =
     (let f = \<lfloor>x\<rfloor>; r = x - of_int f
      in if r < 1 / 2 \<or> r = 1 / 2 \<and> even f then f else f + 1)"

lemma round_even_of_int [simp]: "round_even (of_int n) = n"
  by (simp add: round_even_def)

lemma round_even_mono:
  assumes "x \<le> y"
  shows "round_even x \<le> round_even y"
proof (cases "\<lfloor>x\<rfloor> = \<lfloor>y\<rfloor>")
  case True
  then show ?thesis using assms by (auto simp: round_even_def Let_def)
next
  case False
  have up: "round_even x \<le> \<lfloor>x\<rfloor> + 1" by (auto simp: round_even_def Let_def)
  have "\<lfloor>x\<rfloor> + 1 \<le> \<lfloor>y\<rfloor>" using False floor_mono [OF assms] by simp
  moreover have "\<lfloor>y\<rfloor> \<le> round_even y" by (auto simp: round_even_def Let_def)
  ultimately show ?thesis using up by linarith
qed

text \<open>
  The exponent of the last place of \<open>x > 0\<close> with \<open>p\<close> significant bits.
\<close>

definition ulp_exp :: "nat \<Rightarrow> rat \<Rightarrow> int" where
  "ulp_exp p x =
     (let (a, b) = quotient_of x; e = bitlen a - bitlen b - int p
      in if x < 2 powi (e + int p) then e else e + 1)"

definition round_bin :: "nat \<Rightarrow> int \<Rightarrow> rat \<Rightarrow> rat" where
  "round_bin p emin x =
     (if x = 0 then 0
      else let e = max emin (ulp_exp p \<bar>x\<bar>)
           in sgn x * of_int (round_even (\<bar>x\<bar> / 2 powi e)) * 2 powi e)"

definition fl32 :: "rat \<Rightarrow> rat" where "fl32 = round_bin 24 (-149)"
definition fl64 :: "rat \<Rightarrow> rat" where "fl64 = round_bin 53 (-1074)"

lemma powi_pos: "(0::rat) < 2 powi k"
  by simp

lemma bitlen_powi:
  assumes "0 < a"
  shows "2 powi (bitlen a - 1) \<le> (of_int a :: rat)" and "(of_int a :: rat) < 2 powi bitlen a"
proof -
  have b: "0 < bitlen a" using bitlen_nonneg [of a] bitlen_eq_zero_iff [of a] assms by linarith
  have nn: "(2::rat) powi k = of_int (2 ^ nat k)" if "0 \<le> k" for k
    using that by (simp add: power_int_def)
  note B = bitlen_bounds [OF assms]
  show "2 powi (bitlen a - 1) \<le> (of_int a :: rat)"
    using B b unfolding nn [of "bitlen a - 1", simplified] by (simp add: nn)
  show "(of_int a :: rat) < 2 powi bitlen a"
    using B b by (simp add: nn)
qed

lemma ulp_exp_bounds:
  assumes "0 < x"
  shows "2 powi (ulp_exp p x + int p - 1) \<le> x" and "x < 2 powi (ulp_exp p x + int p)"
proof -
  obtain a b where q: "quotient_of x = (a, b)" by fastforce
  have b: "0 < b" using quotient_of_denom_pos [OF q] .
  have x: "x = of_int a / of_int b" using quotient_of_div [OF q] .
  have "0 < of_int a / (of_int b :: rat)" using assms by (simp add: x)
  then have a: "0 < a" using b by (simp add: zero_less_divide_iff)
  define e where "e = bitlen a - bitlen b - int p"
  have two: "(2::rat) \<noteq> 0" by simp
  have "2 powi (e + int p - 1) = 2 powi (bitlen a - 1) / (2 powi bitlen b :: rat)"
    unfolding e_def by (simp add: power_int_diff [OF disjI1, OF two] power_int_minus)
  also have "\<dots> \<le> of_int a / of_int b"
    by (rule frac_le) (use bitlen_powi [OF a] bitlen_powi [OF b] b a in simp_all)
  finally have lo: "2 powi (e + int p - 1) \<le> x" by (simp add: x)
  have "x < 2 powi bitlen a / (2 powi (bitlen b - 1))"
    unfolding x by (rule frac_less) (use bitlen_powi [OF a] bitlen_powi [OF b] b a in simp_all)
  also have "\<dots> = 2 powi (bitlen a - (bitlen b - 1))"
    by (rule power_int_diff [OF disjI1, OF two, symmetric])
  also have "bitlen a - (bitlen b - 1) = e + 1 + int p" by (simp add: e_def)
  finally have hi: "x < 2 powi (e + 1 + int p)" .
  have u: "ulp_exp p x = (if x < 2 powi (e + int p) then e else e + 1)"
    by (simp add: ulp_exp_def q Let_def e_def)
  show "2 powi (ulp_exp p x + int p - 1) \<le> x" "x < 2 powi (ulp_exp p x + int p)"
    using lo hi by (auto simp: u add.commute add.left_commute)
qed

text \<open>Rounding a positive value at the last place \<open>e\<close>.\<close>

definition round_at :: "int \<Rightarrow> rat \<Rightarrow> rat" where
  "round_at e x = of_int (round_even (x / 2 powi e)) * 2 powi e"

lemma round_bin_pos:
  "0 < x \<Longrightarrow> round_bin p emin x = round_at (max emin (ulp_exp p x)) x"
  by (simp add: round_bin_def round_at_def Let_def)

lemma round_bin_minus: "round_bin p emin (- x) = - round_bin p emin x"
  by (simp add: round_bin_def Let_def sgn_minus)

lemma round_at_mono: "x \<le> y \<Longrightarrow> round_at e x \<le> round_at e y"
  by (simp add: round_at_def round_even_mono divide_right_mono)

lemma powi_as_int: "0 \<le> k \<Longrightarrow> (2::rat) powi k = of_int (2 ^ nat k)"
  by (simp add: power_int_def)

text \<open>A multiple of the last place is not changed; powers of two bound what rounds below them.\<close>

lemma round_at_multiple: "round_at e (of_int k * 2 powi e) = of_int k * 2 powi e"
  by (simp add: round_at_def)

lemma round_at_powi:
  assumes "e \<le> k"
  shows "round_at e (2 powi k) = 2 powi k"
proof -
  have "(2::rat) powi k = 2 powi (k - e) * 2 powi e"
    using power_int_add [of "2::rat" "k - e" e] by simp
  then show ?thesis
    using round_at_multiple [of e "2 ^ nat (k - e)"] assms by (simp add: powi_as_int)
qed

lemma round_at_le_powi: "x \<le> 2 powi k \<Longrightarrow> e \<le> k \<Longrightarrow> round_at e x \<le> 2 powi k"
  using round_at_mono [of x "2 powi k" e] by (simp add: round_at_powi)

lemma round_at_ge_powi: "2 powi k \<le> x \<Longrightarrow> e \<le> k \<Longrightarrow> 2 powi k \<le> round_at e x"
  using round_at_mono [of "2 powi k" x e] by (simp add: round_at_powi)

lemma powi_less_iff: "(2::rat) powi j < 2 powi k \<longleftrightarrow> j < k"
  using power_int_strict_increasing [of j k "2::rat"] power_int_increasing [of k j "2::rat"]
  by (cases "j < k") auto

lemma ulp_exp_mono:
  assumes "0 < x" and "x \<le> y"
  shows "ulp_exp p x \<le> ulp_exp p y"
proof -
  have "2 powi (ulp_exp p x + int p - 1) < (2::rat) powi (ulp_exp p y + int p)"
    using ulp_exp_bounds [of x p] ulp_exp_bounds [of y p] assms by linarith
  then show ?thesis by (simp add: powi_less_iff)
qed

lemma round_bin_mono_pos:
  assumes "0 < x" and "x \<le> y" and "0 < p"
  shows "round_bin p emin x \<le> round_bin p emin y"
proof -
  let ?e = "\<lambda>z. max emin (ulp_exp p z)"
  have y: "0 < y" using assms by simp
  have le: "?e x \<le> ?e y" using ulp_exp_mono [OF assms(1,2), of p] by simp
  have "round_at (?e x) x \<le> round_at (?e y) y"
  proof (cases "?e x = ?e y")
    case True
    then show ?thesis using round_at_mono [OF assms(2)] by simp
  next
    case False
    then have u: "?e y = ulp_exp p y" "?e x < ulp_exp p y" using le by linarith+
    let ?k = "ulp_exp p y + int p - 1"
    have "x < 2 powi (ulp_exp p x + int p)" using ulp_exp_bounds [OF assms(1)] by simp
    also have "\<dots> \<le> 2 powi ?k"
      using u by (intro power_int_increasing) linarith+
    finally have "round_at (?e x) x \<le> 2 powi ?k"
      using u assms(3) by (intro round_at_le_powi) linarith+
    also have "\<dots> \<le> round_at (?e y) y"
      unfolding u(1) using ulp_exp_bounds(1) [OF y, of p] assms(3) by (intro round_at_ge_powi) linarith+
    finally show ?thesis .
  qed
  then show ?thesis using assms y by (simp add: round_bin_pos)
qed

lemma round_bin_nonneg:
  assumes "0 \<le> x"
  shows "0 \<le> round_bin p emin x"
proof -
  have "0 \<le> round_at e x" for e
    using round_at_mono [OF assms, of e] by (simp add: round_at_def [of e 0] round_even_def)
  then show ?thesis using assms by (cases "x = 0") (simp_all add: round_bin_pos, simp add: round_bin_def)
qed

lemma round_bin_mono:
  assumes "x \<le> y" and "0 < p"
  shows "round_bin p emin x \<le> round_bin p emin y"
proof -
  consider "0 < x" | "y < 0" | "x \<le> 0" "0 \<le> y" using assms(1) by linarith
  then show ?thesis
  proof cases
    case 1
    then show ?thesis using round_bin_mono_pos assms by blast
  next
    case 2
    then have "round_bin p emin (- y) \<le> round_bin p emin (- x)"
      using assms by (intro round_bin_mono_pos) simp_all
    then show ?thesis by (simp add: round_bin_minus)
  next
    case 3
    then have "0 \<le> round_bin p emin (- x)" "0 \<le> round_bin p emin y"
      using assms(2) by (simp_all add: round_bin_nonneg)
    then show ?thesis by (simp add: round_bin_minus)
  qed
qed

lemma round_bin_exact:
  assumes "\<bar>m\<bar> < 2 ^ p" and "emin \<le> 0"
  shows "round_bin p emin (of_int m * 2 ^ j) = of_int m * 2 ^ j"
proof -
  have pos: "round_bin p emin (of_int m * 2 ^ j) = of_int m * 2 ^ j" if m: "0 < m" "m < 2 ^ p" for m :: int
  proof -
    let ?x = "of_int m * 2 ^ j :: rat" and ?e = "max emin (ulp_exp p (of_int m * 2 ^ j))"
    have "of_int m < (2 :: rat) ^ p" using m(2) of_int_less_iff [of m "2 ^ p", where 'a = rat] by simp
    then have lt: "?x < 2 powi (int (p + j))" unfolding power_int_of_nat by (simp add: power_add)
    have "2 powi (ulp_exp p ?x + int p - 1) \<le> ?x"
      using m by (intro ulp_exp_bounds) simp
    with lt have "2 powi (ulp_exp p ?x + int p - 1) < (2::rat) powi (int (p + j))" by linarith
    then have "ulp_exp p ?x + int p - 1 < int (p + j)" by (simp only: powi_less_iff)
    then have e: "?e \<le> int j" using assms(2) by simp
    have "(2::rat) ^ j = 2 ^ nat (int j - ?e) * 2 powi ?e"
      using e power_int_add [of "2::rat" "int j - ?e" ?e] powi_as_int [of "int j - ?e"] by simp
    then have "?x = of_int (m * 2 ^ nat (int j - ?e)) * 2 powi ?e" by simp
    then have "round_at ?e ?x = ?x"
      using round_at_multiple [of ?e "m * 2 ^ nat (int j - ?e)"] by metis
    then show ?thesis using m by (simp add: round_bin_pos)
  qed
  consider "0 < m" | "m = 0" | "0 < - m" by linarith
  then show ?thesis
  proof cases
    case 3
    then have "round_bin p emin (of_int (- m) * 2 ^ j) = of_int (- m) * 2 ^ j" using assms pos [of "- m"] by simp
    then show ?thesis by (simp add: round_bin_minus)
  qed (use assms pos [of m] in \<open>simp_all add: round_bin_def\<close>)
qed

lemma round_even_err: "\<bar>of_int (round_even x) - x\<bar> \<le> 1 / 2"
proof -
  have "of_int \<lfloor>x\<rfloor> \<le> x" "x < of_int \<lfloor>x\<rfloor> + 1" by linarith+
  then show ?thesis by (auto simp: round_even_def Let_def abs_le_iff)
qed

lemma round_at_err: "\<bar>round_at e x - x\<bar> \<le> 2 powi e / 2"
proof -
  have "round_at e x - x = (of_int (round_even (x / 2 powi e)) - x / 2 powi e) * 2 powi e"
    by (simp add: round_at_def left_diff_distrib)
  then have "\<bar>round_at e x - x\<bar> = \<bar>of_int (round_even (x / 2 powi e)) - x / 2 powi e\<bar> * 2 powi e"
    by (simp add: abs_mult)
  also have "\<dots> \<le> 1 / 2 * 2 powi e"
    using round_even_err by (rule mult_right_mono) simp
  finally show ?thesis by simp
qed

lemma round_bin_err:
  assumes "\<bar>x\<bar> < 2 ^ k" and "emin \<le> int k - int p"
  shows "\<bar>round_bin p emin x - x\<bar> \<le> 2 powi (int k - int p) / 2"
proof -
  have pos: "\<bar>round_bin p emin y - y\<bar> \<le> 2 powi (int k - int p) / 2" if "0 < y" "y < 2 ^ k" for y
  proof -
    let ?e = "max emin (ulp_exp p y)"
    have "2 powi (ulp_exp p y + int p - 1) < (2::rat) powi (int k)"
      using ulp_exp_bounds(1) [OF that(1), of p] that(2) by simp
    then have "ulp_exp p y + int p - 1 < int k" by (simp only: powi_less_iff)
    then have "?e \<le> int k - int p" using assms(2) by simp
    then have "2 powi ?e \<le> (2::rat) powi (int k - int p)" by (intro power_int_increasing) simp_all
    then show ?thesis using round_at_err [of ?e y] that(1) by (simp add: round_bin_pos)
  qed
  consider "0 < x" | "x = 0" | "0 < - x" by linarith
  then show ?thesis
  proof cases
    case 3
    then have "\<bar>round_bin p emin (- x) - (- x)\<bar> \<le> 2 powi (int k - int p) / 2"
      using assms(1) by (intro pos) simp_all
    then show ?thesis by (simp add: round_bin_minus abs_minus_commute)
  qed (use assms pos [of x] in \<open>simp_all add: round_bin_def\<close>)
qed

lemma round_bin_rounding:
  assumes "24 \<le> p" and "emin \<le> - int p"
  shows "float_rounding (round_bin p emin)"
proof
  fix x y :: rat and m :: int and j k :: nat
  show "x \<le> y \<Longrightarrow> round_bin p emin x \<le> round_bin p emin y"
    using assms by (intro round_bin_mono) simp_all
  have "(2::int) ^ 24 \<le> 2 ^ p" using assms(1) by (intro power_increasing) simp_all
  then show "\<bar>m\<bar> < 2 ^ 24 \<Longrightarrow> round_bin p emin (of_int m * 2 ^ j) = of_int m * 2 ^ j"
    using assms by (intro round_bin_exact) simp_all
  assume x: "\<bar>x\<bar> < 2 ^ k"
  have "\<bar>round_bin p emin x - x\<bar> \<le> 2 powi (int k - int p) / 2"
    using x assms(2) by (intro round_bin_err) simp_all
  also have "\<dots> \<le> 2 powi (int k - 24) / 2"
    using assms(1) power_int_increasing [of "int k - int p" "int k - 24" "2::rat"] by simp
  also have "(2::rat) powi (int k - 24) / 2 = 2 ^ k / 2 ^ 25"
    by (simp add: power_int_diff power_int_numeral)
  finally show "\<bar>round_bin p emin x - x\<bar> \<le> 2 ^ k / 2 ^ 25" .
qed

interpretation single: float_rounding fl32
  unfolding fl32_def by (rule round_bin_rounding) simp_all

interpretation dbl: float_rounding fl64
  unfolding fl64_def by (rule round_bin_rounding) simp_all

end
