(* ===== verification/Signal.thy ===== *)
theory Signal
  imports Binary_Float Pcm_Samples
begin

text \<open>
  The signal path of the capture pipeline (src/pipeline/capture_pipeline.cpp): gain, the
  stereo-to-mono copy, DC offset removal and level metering, in the portable (scalar) form.
  The buffers are byte lists, every access is checked against their ends, and floating-point
  operations round with the parameter \<open>fl\<close>.
\<close>

section \<open>Operations\<close>

text \<open>\<open>static_cast\<close> of a float to a signed integer of \<open>w\<close> bits, and \<open>std::clamp\<close>.\<close>

definition float_to_int :: "nat \<Rightarrow> rat \<Rightarrow> int outcome" where
  "float_to_int w y =
     (let n = trunc_rat y
      in if - (2 ^ (w - 1)) \<le> n \<and> n < 2 ^ (w - 1) then Inr n else Inl Float_Cast)"

definition clamp :: "int \<Rightarrow> int \<Rightarrow> int \<Rightarrow> int" where
  "clamp v lo hi = (if v < lo then lo else if hi < v then hi else v)"

text \<open>
  One sample through \<open>apply_gain\<close>: conversion to float, product, cast to \<open>w\<close> bits, clamp.
\<close>

definition gain_value ::
  "(rat \<Rightarrow> rat) \<Rightarrow> nat \<Rightarrow> int \<Rightarrow> int \<Rightarrow> rat \<Rightarrow> 'a::len word \<Rightarrow> 'a word outcome" where
  "gain_value fl w lo hi gain v =
     obind (float_to_int w (fl (fl (of_int (sint v)) * gain)))
       (\<lambda>s. Inr (word_of_int (clamp s lo hi)))"

text \<open>A loop over samples of \<open>w\<close> bytes from \<open>src\<close> to \<open>dst\<close>, \<open>stride\<close> source samples per step.\<close>

definition sample_loop ::
  "nat \<Rightarrow> nat \<Rightarrow> (u8 list \<Rightarrow> u8 list outcome) \<Rightarrow> u8 list \<Rightarrow> u8 list \<Rightarrow> nat \<Rightarrow> u8 list outcome" where
  "sample_loop w stride f src dst n =
     for_each (\<lambda>i dst. obind (load_range src (i * stride * w) w)
                (\<lambda>p. obind (f p) (store_range dst (i * w)))) [0..<n] dst"

definition apply_gain ::
  "(rat \<Rightarrow> rat) \<Rightarrow> u8 list \<Rightarrow> u8 list \<Rightarrow> nat \<Rightarrow> u16 \<Rightarrow> rat \<Rightarrow> u8 list outcome" where
  "apply_gain fl src dst sample_count bits gain =
     (if bits = 16 then
        sample_loop 2 1 (\<lambda>p. obind (gain_value fl 32 (-32768) 32767 gain (i16_load p))
                             (\<lambda>v. Inr (i16_store v))) src dst sample_count
      else if bits = 24 then
        sample_loop 3 1 (\<lambda>p. obind (gain_value fl 32 (-8388608) 8388607 gain (s24_load p))
                             (\<lambda>v. Inr (s24_store v))) src dst sample_count
      else if bits = 32 then
        sample_loop 4 1 (\<lambda>p. obind (gain_value fl 64 (-2147483648) 2147483647 gain (i32_load p))
                             (\<lambda>v. Inr (i32_store v))) src dst sample_count
      else Inr dst)"

text \<open>\<open>apply_downmix\<close> copies every second sample, whatever the number of channels.\<close>

definition apply_downmix :: "u8 list \<Rightarrow> u8 list \<Rightarrow> nat \<Rightarrow> u16 \<Rightarrow> u8 list outcome" where
  "apply_downmix src dst frame_count bits =
     (if bits = 16 then sample_loop 2 2 Inr src dst frame_count
      else if bits = 24 then sample_loop 3 2 Inr src dst frame_count
      else if bits = 32 then sample_loop 4 2 Inr src dst frame_count
      else Inr dst)"

text \<open>
  DC removal, \<open>y[n] = x[n] - x[n-1] + alpha * y[n-1]\<close> per channel, in place. The state is the
  pair of vectors \<open>dc_prev_x_\<close>, \<open>dc_prev_y_\<close>.
\<close>

definition dc_alpha :: "(rat \<Rightarrow> rat) \<Rightarrow> rat" where
  "dc_alpha fl = fl (999 / 1000)"

definition dc_step :: "(rat \<Rightarrow> rat) \<Rightarrow> rat \<times> rat \<Rightarrow> rat \<Rightarrow> rat \<times> rat" where
  "dc_step fl st x = (x, fl (fl (x - fst st) + fl (dc_alpha fl * snd st)))"

definition dc_body ::
  "(rat \<Rightarrow> rat) \<Rightarrow> nat \<Rightarrow> (u8 list \<Rightarrow> 'a::len word) \<Rightarrow> ('a word \<Rightarrow> u8 list) \<Rightarrow> nat \<Rightarrow> int \<Rightarrow> int \<Rightarrow>
   nat \<Rightarrow> nat \<Rightarrow> nat \<Rightarrow> u8 list \<times> rat list \<times> rat list \<Rightarrow> (u8 list \<times> rat list \<times> rat list) outcome"
where
  "dc_body fl w ld st cast lo hi channels f ch state =
     (case state of (data, prev_x, prev_y) \<Rightarrow>
        let idx = (f * channels + ch) * w
        in obind (load_range data idx w) (\<lambda>p.
           if ch < length prev_x \<and> ch < length prev_y then
             let (x, y) = dc_step fl (prev_x ! ch, prev_y ! ch) (fl (of_int (sint (ld p))))
             in obind (float_to_int cast y) (\<lambda>out.
                obind (store_range data idx (st (word_of_int (clamp out lo hi)))) (\<lambda>data'.
                Inr (data', prev_x[ch := x], prev_y[ch := y])))
           else Inl Out_Of_Bounds))"

definition dc_loop ::
  "(rat \<Rightarrow> rat) \<Rightarrow> nat \<Rightarrow> (u8 list \<Rightarrow> 'a::len word) \<Rightarrow> ('a word \<Rightarrow> u8 list) \<Rightarrow> nat \<Rightarrow> int \<Rightarrow> int \<Rightarrow>
   nat \<Rightarrow> nat \<Rightarrow> u8 list \<times> rat list \<times> rat list \<Rightarrow> (u8 list \<times> rat list \<times> rat list) outcome"
where
  "dc_loop fl w ld st cast lo hi channels frames =
     for_each (\<lambda>f. for_each (\<lambda>ch. dc_body fl w ld st cast lo hi channels f ch) [0..<channels]) [0..<frames]"

definition apply_dc_remove ::
  "(rat \<Rightarrow> rat) \<Rightarrow> u8 list \<Rightarrow> nat \<Rightarrow> u16 \<Rightarrow> u16 \<Rightarrow> rat list \<times> rat list \<Rightarrow>
   (u8 list \<times> rat list \<times> rat list) outcome"
where
  "apply_dc_remove fl data sample_count channels bits prev =
     (if channels = 0 then Inl Div_By_Zero
      else let ch = unat channels; frames = sample_count div ch
           in if bits = 16 then dc_loop fl 2 i16_load i16_store 32 (-32768) 32767 ch frames (data, prev)
              else if bits = 24 then dc_loop fl 3 s24_load s24_store 32 (-8388608) 8388607 ch frames (data, prev)
              else if bits = 32 then
                dc_loop fl 4 i32_load i32_store 64 (-2147483648) 2147483647 ch frames (data, prev)
              else Inr (data, prev))"

text \<open>
  Metering: the peak of the absolute values, and the sum of squares in \<open>double\<close> (rounding
  \<open>fl\<close>). 32-bit samples are shifted to 16 bits first; 24-bit samples are not.
\<close>

definition meter_loop ::
  "(rat \<Rightarrow> rat) \<Rightarrow> nat \<Rightarrow> (u8 list \<Rightarrow> int) \<Rightarrow> u8 list \<Rightarrow> nat \<Rightarrow> (int \<times> rat) outcome" where
  "meter_loop fl w val data n =
     for_each (\<lambda>i (peak, sum_sq). obind (load_range data (i * w) w) (\<lambda>p.
         let s = val p; abs_s = \<bar>s\<bar>
         in Inr (if peak < abs_s then abs_s else peak,
                 fl (sum_sq + fl (fl (of_int s) * fl (of_int s)))))) [0..<n] (0, 0)"

definition meter :: "(rat \<Rightarrow> rat) \<Rightarrow> u8 list \<Rightarrow> nat \<Rightarrow> u16 \<Rightarrow> (int \<times> rat) outcome" where
  "meter fl data n bits =
     (if bits = 16 then meter_loop fl 2 (\<lambda>p. sint (i16_load p)) data n
      else if bits = 24 then meter_loop fl 3 (\<lambda>p. sint (s24_load p)) data n
      else if bits = 32 then meter_loop fl 4 (\<lambda>p. sint (signed_drop_bit 16 (i32_load p))) data n
      else Inr (0, 0))"

section \<open>Loops over samples\<close>

lemma frame_at_region: "frame_at w xs k = region xs (k * w) w"
  by (simp add: frame_at_def region_def)

lemma frames_apart: "k \<noteq> i \<Longrightarrow> k * w + w \<le> i * w \<or> i * w + w \<le> k * (w::nat)"
  using frame_fits [of k i w] frame_fits [of i k w] by (cases "k < i") auto

lemma drop_region: "length xs = n \<Longrightarrow> drop off xs = region xs off n"
  by (simp add: region_def)

lemma store_frame:
  assumes "i < n" and "n * w \<le> length dst" and "length q = w"
  shows "\<exists>dst'. store_range dst (i * w) q = Inr dst' \<and> length dst' = length dst \<and>
           frame_at w dst' i = q \<and> (\<forall>k. k \<noteq> i \<longrightarrow> frame_at w dst' k = frame_at w dst k) \<and>
           drop (n * w) dst' = drop (n * w) dst"
proof -
  have "i * w + w \<le> length dst" using frame_fits [OF assms(1), of w] assms(2) by simp
  then obtain dst' where st: "store_range dst (i * w) q = Inr dst'"
    using assms(3) by (simp add: store_range_def)
  note R = region_stored [OF st]
  have len: "length dst' = length dst" by (rule R(2))
  have "region dst' (n * w) (length dst) = region dst (n * w) (length dst)"
    using frame_fits [OF assms(1), of w] assms(3) by (intro R(3)) simp
  moreover have "frame_at w dst' k = frame_at w dst k" if "k \<noteq> i" for k
    unfolding frame_at_region using frames_apart [OF that, of w] assms(3) by (intro R(3)) simp
  moreover have "frame_at w dst' i = q" using R(1) assms(3) by (simp add: frame_at_region)
  ultimately show ?thesis
    using st len by (simp add: drop_region [of dst "length dst"] drop_region [OF len])
qed

lemma load_frame: "k * w + w \<le> length src \<Longrightarrow> load_range src (k * w) w = Inr (frame_at w src k)"
  by (simp add: frame_at_region load_region)

lemma sample_loop_ok:
  assumes f: "\<And>i. i < n \<Longrightarrow> \<exists>q. f (frame_at w src (i * stride)) = Inr q \<and> length q = w"
    and src: "\<And>i. i < n \<Longrightarrow> i * stride * w + w \<le> length src"
    and dst: "n * w \<le> length dst"
  shows "\<exists>dst'. sample_loop w stride f src dst n = Inr dst' \<and> length dst' = length dst \<and>
           (\<forall>i<n. f (frame_at w src (i * stride)) = Inr (frame_at w dst' i)) \<and>
           drop (n * w) dst' = drop (n * w) dst"
  unfolding sample_loop_def
proof (rule for_each_upto [where P = "\<lambda>i d. length d = length dst \<and>
      (\<forall>k<i. f (frame_at w src (k * stride)) = Inr (frame_at w d k)) \<and>
      drop (n * w) d = drop (n * w) dst"])
  fix i d
  assume i: "i < n" and P: "length d = length dst \<and>
      (\<forall>k<i. f (frame_at w src (k * stride)) = Inr (frame_at w d k)) \<and> drop (n * w) d = drop (n * w) dst"
  obtain q where q: "f (frame_at w src (i * stride)) = Inr q" "length q = w" using f [OF i] by blast
  have ld: "load_range src (i * stride * w) w = Inr (frame_at w src (i * stride))"
    by (rule load_frame [OF src [OF i]])
  obtain d' where "store_range d (i * w) q = Inr d'" "length d' = length d" "frame_at w d' i = q"
    "\<forall>k. k \<noteq> i \<longrightarrow> frame_at w d' k = frame_at w d k" "drop (n * w) d' = drop (n * w) d"
    using store_frame [OF i _ q(2), of d] dst P by auto
  then show "\<exists>d'. obind (load_range src (i * stride * w) w) (\<lambda>p. obind (f p) (store_range d (i * w))) = Inr d' \<and>
      length d' = length dst \<and>
      (\<forall>k<Suc i. f (frame_at w src (k * stride)) = Inr (frame_at w d' k)) \<and>
      drop (n * w) d' = drop (n * w) dst"
    using P q(1) by (simp add: ld less_Suc_eq)
qed simp

section \<open>What the operations compute, as integers\<close>

definition pcm_ints :: "nat \<Rightarrow> (u8 list \<Rightarrow> 'a::len word) \<Rightarrow> nat \<Rightarrow> u8 list \<Rightarrow> int list" where
  "pcm_ints w dec n bs = map sint (decode_all w dec n bs)"

text \<open>Samples of \<open>m + 1\<close> bits: gain, and the output of the filter after the inputs \<open>vs\<close>.\<close>

definition saturate :: "nat \<Rightarrow> int \<Rightarrow> int" where
  "saturate m v = clamp v (- (2 ^ m)) (2 ^ m - 1)"

definition gain_int :: "nat \<Rightarrow> rat \<Rightarrow> int \<Rightarrow> int" where
  "gain_int m g s = saturate m (trunc_rat (fl32 (fl32 (of_int s) * g)))"

definition gain_fits :: "nat \<Rightarrow> rat \<Rightarrow> int \<Rightarrow> bool" where
  "gain_fits cast g s \<longleftrightarrow> (let y = trunc_rat (fl32 (fl32 (of_int s) * g))
                         in - (2 ^ (cast - 1)) \<le> y \<and> y < 2 ^ (cast - 1))"

definition dc_state :: "rat \<times> rat \<Rightarrow> int list \<Rightarrow> rat \<times> rat" where
  "dc_state st vs = foldl (dc_step fl32) st (map (\<lambda>v. fl32 (of_int v)) vs)"

definition dc_out :: "nat \<Rightarrow> rat \<times> rat \<Rightarrow> int list \<Rightarrow> int" where
  "dc_out m st vs = saturate m (trunc_rat (snd (dc_state st vs)))"

text \<open>The samples of channel \<open>c\<close> among the first \<open>k\<close> samples of interleaved audio.\<close>

definition chan_samples :: "nat \<Rightarrow> nat \<Rightarrow> nat \<Rightarrow> int list \<Rightarrow> int list" where
  "chan_samples channels c k xs = map ((!) xs) (filter (\<lambda>j. j mod channels = c) [0..<k])"

definition dc_sane :: "nat \<Rightarrow> rat \<times> rat \<Rightarrow> bool" where
  "dc_sane m st \<longleftrightarrow> \<bar>fst st\<bar> \<le> 2 ^ m \<and> \<bar>fst st - snd st\<bar> \<le> 3 * 2 ^ m / 2"

text \<open>The gain keeps order and silence.\<close>

lemma gain_int_mono: "0 \<le> g \<Longrightarrow> s \<le> t \<Longrightarrow> gain_int m g s \<le> gain_int m g t"
proof -
  assume "0 \<le> g" "s \<le> t"
  then have "fl32 (of_int s) * g \<le> fl32 (of_int t) * g"
    by (intro mult_right_mono single.fl_mono) simp_all
  from single.fl_trunc_mono [OF this] show ?thesis by (auto simp: gain_int_def saturate_def clamp_def)
qed

lemma gain_int_zero: "gain_int m g 0 = 0"
proof -
  have "\<not> 2 ^ m < (1::int)" by (simp add: not_less)
  then show ?thesis using trunc_rat_of_int [of 0] by (simp add: gain_int_def saturate_def single.fl_zero clamp_def)
qed

lemma dc_state_snoc: "dc_state st (vs @ [v]) = dc_step fl32 (dc_state st vs) (fl32 (of_int v))"
  by (simp add: dc_state_def)

lemma chan_samples_Suc:
  "chan_samples C c (Suc k) xs = chan_samples C c k xs @ (if k mod C = c then [xs ! k] else [])"
  by (simp add: chan_samples_def)

text \<open>The loop faults exactly when some sample does.\<close>

lemma sample_loop_fault_iff:
  assumes f: "\<And>i. i < n \<Longrightarrow> f (frame_at w src (i * stride)) = Inl e \<or>
      (\<exists>q. f (frame_at w src (i * stride)) = Inr q \<and> length q = w)"
    and src: "\<And>i. i < n \<Longrightarrow> i * stride * w + w \<le> length src"
    and dst: "n * w \<le> length dst"
  shows "sample_loop w stride f src dst n = Inl e \<longleftrightarrow> (\<exists>i<n. f (frame_at w src (i * stride)) = Inl e)"
proof (cases "\<exists>i<n. f (frame_at w src (i * stride)) = Inl e")
  case True
  define i where "i = (LEAST i. i < n \<and> f (frame_at w src (i * stride)) = Inl e)"
  have i: "i < n" "f (frame_at w src (i * stride)) = Inl e"
    using True LeastI_ex [of "\<lambda>i. i < n \<and> f (frame_at w src (i * stride)) = Inl e"]
    by (auto simp: i_def)
  have before: "f (frame_at w src (j * stride)) \<noteq> Inl e" if "j < i" for j
    using not_less_Least [of j "\<lambda>i. i < n \<and> f (frame_at w src (i * stride)) = Inl e"] that i(1)
    by (auto simp: i_def)
  have "\<exists>d. sample_loop w stride f src dst i = Inr d \<and> length d = length dst \<and>
      (\<forall>j<i. f (frame_at w src (j * stride)) = Inr (frame_at w d j)) \<and> drop (i * w) d = drop (i * w) dst"
  proof (rule sample_loop_ok)
    have "i * w \<le> n * w" using i(1) by simp
    then show "i * w \<le> length dst" using dst by (rule le_trans)
  qed (use f src before i(1) less_trans in blast)+
  then obtain d where "sample_loop w stride f src dst i = Inr d" by blast
  then have "sample_loop w stride f src dst n = Inl e"
    unfolding sample_loop_def using i
    by (intro for_each_fault [of i]) (simp_all add: load_frame src [OF i(1)])
  with True show ?thesis by blast
next
  case False
  then have "\<exists>d. sample_loop w stride f src dst n = Inr d \<and> length d = length dst \<and>
      (\<forall>i<n. f (frame_at w src (i * stride)) = Inr (frame_at w d i)) \<and> drop (n * w) d = drop (n * w) dst"
    using f src dst by (intro sample_loop_ok) blast+
  with False show ?thesis by auto
qed

section \<open>The interface: a signed sample format\<close>

text \<open>
  A sample format whose values are the integers of \<open>m + 1\<close> bits, the products of which are
  cast to \<open>cast\<close> bits. \<open>room\<close> bounds the exponent of gains for which the cast is defined.
\<close>

locale signed_format = sample_codec width dec enc valid
  for width :: nat and dec :: "u8 list \<Rightarrow> 'a::len word" and enc and valid +
  fixes m :: nat and cast :: nat and room :: nat
  assumes valid_iff: "valid v \<longleftrightarrow> - (2 ^ m) \<le> sint v \<and> sint v < 2 ^ m"
    and sint_of: "- (2 ^ m) \<le> i \<Longrightarrow> i < 2 ^ m \<Longrightarrow> sint (word_of_int i :: 'a word) = i"
    and m_small: "m \<le> 31" and cast_wide: "m + 3 \<le> cast"
    and room: "m \<le> 23 \<and> m + room < cast \<or> m + room + 1 < cast"
begin

lemma length_ints [simp]: "length (pcm_ints width dec n bs) = n"
  by (simp add: pcm_ints_def decode_all_def)

lemma nth_ints: "i < n \<Longrightarrow> pcm_ints width dec n bs ! i = sint (dec (frame_at width bs i))"
  by (simp add: pcm_ints_def decode_all_def)

lemma dec_bounds: "- (2 ^ m) \<le> sint (dec p)" "sint (dec p) < 2 ^ m"
  using valid_dec [of p] by (simp_all add: valid_iff)

lemma clamped_bounds: "- (2 ^ m) \<le> clamp v (- (2 ^ m)) (2 ^ m - 1)" "clamp v (- (2 ^ m)) (2 ^ m - 1) < 2 ^ m"
  by (auto simp: clamp_def)

lemma sint_clamped:
  "sint (word_of_int (clamp v (- (2 ^ m)) (2 ^ m - 1)) :: 'a word) = clamp v (- (2 ^ m)) (2 ^ m - 1)"
  by (rule sint_of [OF clamped_bounds])

lemma sint_dec_clamped:
  "sint (dec (enc (word_of_int (clamp v (- (2 ^ m)) (2 ^ m - 1))))) = clamp v (- (2 ^ m)) (2 ^ m - 1)"
  by (subst dec_enc) (simp_all add: valid_iff sint_clamped clamped_bounds)

lemma cast_room: "(2::int) ^ (m + 2) \<le> 2 ^ (cast - 1)"
  using cast_wide by (intro power_increasing) simp_all

lemma cast_ok: "\<bar>y\<bar> \<le> 3 * 2 ^ m \<Longrightarrow> float_to_int cast y = Inr (trunc_rat y)"
proof -
  assume "\<bar>y\<bar> \<le> 3 * 2 ^ m"
  then have "of_int (- (3 * 2 ^ m)) \<le> y" "y \<le> of_int (3 * 2 ^ m)" by (simp_all add: abs_le_iff)
  from trunc_rat_between [OF this] have "- (3 * 2 ^ m) \<le> trunc_rat y" "trunc_rat y \<le> 3 * 2 ^ m"
    by simp_all
  moreover have "(4::int) * 2 ^ m \<le> 2 ^ (cast - 1)" using cast_room by (simp add: power_add)
  moreover have "(0::int) < 2 ^ m" by simp
  ultimately have "- (2 ^ (cast - 1)) \<le> trunc_rat y \<and> trunc_rat y < 2 ^ (cast - 1)" by linarith
  then show ?thesis by (simp add: float_to_int_def Let_def)
qed

lemma gain_product_le:
  assumes "s < 2 ^ m" and "0 \<le> g" and "g \<le> 2 ^ room"
  shows "trunc_rat (fl32 (fl32 (of_int s) * g)) < 2 ^ (cast - 1)"
proof -
  let ?x = "fl32 (of_int s)"
  have up: "trunc_rat (fl32 (?x * g)) \<le> c * 2 ^ room"
    if c: "?x \<le> of_int c" "0 \<le> c" "fl32 (of_int c * 2 ^ room) = of_int c * 2 ^ room" for c
  proof -
    have "?x * g \<le> of_int c * 2 ^ room"
      using c(1,2) assms(2,3) by (intro mult_mono) simp_all
    then have "fl32 (?x * g) \<le> of_int (c * 2 ^ room)" using single.fl_le [OF _ c(3)] by simp
    from trunc_rat_mono [OF this] show ?thesis unfolding trunc_rat_of_int .
  qed
  show ?thesis
  proof (cases "m \<le> 23 \<and> m + room < cast")
    case True
    have "(2::int) ^ m \<le> 2 ^ 23" using True by (intro power_increasing) simp_all
    then have ex: "\<bar>(2::int) ^ m - 1\<bar> < 2 ^ 24" by simp
    have "?x \<le> of_int (2 ^ m - 1)"
      using assms(1) by (intro single.fl_le single.fl_int ex) (simp only: of_int_le_iff)
    then have "trunc_rat (fl32 (?x * g)) \<le> (2 ^ m - 1) * 2 ^ room"
      by (intro up single.fl_exact ex) simp_all
    also have "\<dots> < 2 ^ (m + room)" by (simp add: power_add left_diff_distrib)
    also have "\<dots> \<le> 2 ^ (cast - 1)" by (rule power_increasing) (use True in arith, simp)
    finally show ?thesis .
  next
    case False
    have "of_int s \<le> (of_int (2 ^ m) :: rat)" using assms(1) by (simp only: of_int_le_iff)
    then have "?x \<le> of_int (2 ^ m)" by (intro single.fl_le) (simp_all add: single.fl_pow2)
    then have "trunc_rat (fl32 (?x * g)) \<le> 2 ^ m * 2 ^ room"
      using single.fl_pow2(1) [of "m + room"] by (intro up) (simp_all add: power_add)
    also have "\<dots> = 2 ^ (m + room)" by (simp add: power_add)
    also have "\<dots> < 2 ^ (cast - 1)" by (rule power_strict_increasing) (use False room in arith, simp)
    finally show ?thesis .
  qed
qed

lemma gain_product_ge:
  assumes "- (2 ^ m) \<le> s" and "0 \<le> g" and "g \<le> 2 ^ room"
  shows "- (2 ^ (cast - 1)) \<le> trunc_rat (fl32 (fl32 (of_int s) * g))"
proof -
  let ?x = "fl32 (of_int s)"
  have "of_int (- (2 ^ m)) \<le> (of_int s :: rat)" using assms(1) by (simp only: of_int_le_iff)
  then have "- ?x \<le> 2 ^ m"
    using single.fl_ge [of "- (2 ^ m)" "of_int s"] by (simp add: single.fl_pow2 minus_le_iff)
  then have "- ?x * g \<le> 2 ^ m * 2 ^ room" using assms(2,3) by (intro mult_mono) simp_all
  then have "- (2 ^ (m + room)) \<le> ?x * g" by (simp add: power_add minus_le_iff)
  then have "of_int (- (2 ^ (m + room))) \<le> fl32 (?x * g)"
    using single.fl_ge [of "- (2 ^ (m + room))"] by (simp add: single.fl_pow2)
  from trunc_rat_mono [OF this] have "- (2 ^ (m + room)) \<le> trunc_rat (fl32 (?x * g))"
    unfolding trunc_rat_of_int .
  moreover have "(2::int) ^ (m + room) \<le> 2 ^ (cast - 1)" using room by (intro power_increasing) auto
  ultimately show ?thesis by linarith
qed

lemma gain_value_ok:
  assumes "0 \<le> g" and "g \<le> 2 ^ room"
  shows "gain_value fl32 cast (- (2 ^ m)) (2 ^ m - 1) g (dec p) = Inr (word_of_int (gain_int m g (sint (dec p))))"
proof -
  note b = gain_product_ge [OF dec_bounds(1) assms, of p] gain_product_le [OF dec_bounds(2) assms, of p]
  then show ?thesis by (simp add: gain_value_def float_to_int_def gain_int_def saturate_def Let_def)
qed

lemma gain_loop_ok:
  assumes "0 \<le> g" and "g \<le> 2 ^ room" and "n * width \<le> length src" and "n * width \<le> length dst"
  shows "\<exists>dst'. sample_loop width 1 (\<lambda>p. obind (gain_value fl32 cast (- (2 ^ m)) (2 ^ m - 1) g (dec p))
                  (\<lambda>v. Inr (enc v))) src dst n = Inr dst' \<and>
           length dst' = length dst \<and> pcm_ints width dec n dst' = map (gain_int m g) (pcm_ints width dec n src) \<and>
           drop (n * width) dst' = drop (n * width) dst"
proof -
  let ?f = "\<lambda>p. obind (gain_value fl32 cast (- (2 ^ m)) (2 ^ m - 1) g (dec p)) (\<lambda>v. Inr (enc v))"
  have f: "?f p = Inr (enc (word_of_int (gain_int m g (sint (dec p)))))" for p
    using gain_value_ok [OF assms(1,2)] by simp
  have src: "i * 1 * width + width \<le> length src" if "i < n" for i
    using frame_fits [OF that, of width] assms(3) by simp
  have "\<exists>dst'. sample_loop width 1 ?f src dst n = Inr dst' \<and> length dst' = length dst \<and>
      (\<forall>i<n. ?f (frame_at width src (i * 1)) = Inr (frame_at width dst' i)) \<and>
      drop (n * width) dst' = drop (n * width) dst"
    by (rule sample_loop_ok) (use f src assms(4) length_enc in auto)
  then obtain dst' where d: "sample_loop width 1 ?f src dst n = Inr dst'" "length dst' = length dst"
    "\<forall>i<n. ?f (frame_at width src (i * 1)) = Inr (frame_at width dst' i)"
    "drop (n * width) dst' = drop (n * width) dst" by blast
  have "pcm_ints width dec n dst' = map (gain_int m g) (pcm_ints width dec n src)"
  proof (rule nth_equalityI)
    fix i assume "i < length (pcm_ints width dec n dst')"
    then have i: "i < n" by simp
    with d(3) have "frame_at width dst' i = enc (word_of_int (gain_int m g (sint (dec (frame_at width src i)))))"
      using f by simp
    with i show "pcm_ints width dec n dst' ! i = map (gain_int m g) (pcm_ints width dec n src) ! i"
      by (simp add: nth_ints gain_int_def saturate_def sint_dec_clamped)
  qed simp
  with d show ?thesis by blast
qed

lemma gain_loop_fault_iff:
  assumes src: "n * width \<le> length src" and dst: "n * width \<le> length dst"
  shows "sample_loop width 1 (\<lambda>p. obind (gain_value fl32 cast (- (2 ^ m)) (2 ^ m - 1) g (dec p))
           (\<lambda>v. Inr (enc v))) src dst n = Inl Float_Cast \<longleftrightarrow>
         (\<exists>s \<in> set (pcm_ints width dec n src). \<not> gain_fits cast g s)"
proof -
  let ?f = "\<lambda>p. obind (gain_value fl32 cast (- (2 ^ m)) (2 ^ m - 1) g (dec p)) (\<lambda>v. Inr (enc v))"
  have f: "?f p = Inl Float_Cast \<longleftrightarrow> \<not> gain_fits cast g (sint (dec p))"
    and f': "?f p = Inl Float_Cast \<or> (\<exists>q. ?f p = Inr q \<and> length q = width)" for p
    by (simp_all add: gain_value_def float_to_int_def gain_fits_def Let_def length_enc)
  have s: "i * 1 * width + width \<le> length src" if "i < n" for i
    using frame_fits [OF that, of width] src by simp
  have "sample_loop width 1 ?f src dst n = Inl Float_Cast \<longleftrightarrow>
      (\<exists>i<n. ?f (frame_at width src (i * 1)) = Inl Float_Cast)"
    by (rule sample_loop_fault_iff [OF f' s dst])
  also have "\<dots> \<longleftrightarrow> (\<exists>i<n. \<not> gain_fits cast g (pcm_ints width dec n src ! i))"
    unfolding f by (auto simp: nth_ints)
  also have "\<dots> \<longleftrightarrow> (\<exists>s \<in> set (pcm_ints width dec n src). \<not> gain_fits cast g s)"
    by (metis in_set_conv_nth length_ints)
  finally show ?thesis .
qed

text \<open>
  DC removal. \<open>dc_sane\<close> bounds the filter state: the last input is in range, and the last
  output differs from it by at most one and a half times the full scale.
\<close>

lemma dc_sane_reset: "dc_sane m (0, 0)"
  by (simp add: dc_sane_def)

lemma dc_alpha_bounds: "9989 / 10000 \<le> dc_alpha fl32" "dc_alpha fl32 \<le> 9991 / 10000"
proof -
  have "\<bar>dc_alpha fl32 - 999 / 1000\<bar> \<le> 1 / 33554432"
    using single.fl_err [of "999 / 1000" 0] by (simp add: dc_alpha_def)
  then show "9989 / 10000 \<le> dc_alpha fl32" "dc_alpha fl32 \<le> 9991 / 10000"
    by linarith+
qed

lemma dc_step_sane:
  assumes st: "dc_sane m st" and x: "\<bar>x\<bar> \<le> 2 ^ m"
  shows "dc_sane m (dc_step fl32 st x)" and "\<bar>snd (dc_step fl32 st x)\<bar> \<le> 3 * 2 ^ m"
proof -
  obtain px py where p: "st = (px, py)" by (cases st)
  define M :: rat where "M = 2 ^ m"
  define a where "a = dc_alpha fl32"
  define d where "d = fl32 (x - px)"
  define b where "b = fl32 (a * py)"
  define y where "y = fl32 (d + b)"
  define E where "E = M * 4 / 2 ^ 25"
  have M: "1 \<le> M" by (simp add: M_def)
  have s: "\<bar>px\<bar> \<le> M" "\<bar>px - py\<bar> \<le> 3 * M / 2" "\<bar>x\<bar> \<le> M"
    using st x by (simp_all add: p dc_sane_def M_def)
  have a: "9989 / 10000 \<le> a" "a \<le> 9991 / 10000" using dc_alpha_bounds by (simp_all add: a_def)
  have py: "\<bar>py\<bar> \<le> 5 * M / 2" using s by linarith
  have err: "\<bar>fl32 v - v\<bar> \<le> E" if "\<bar>v\<bar> < 4 * M" for v
    using single.fl_err [of v "m + 2"] that by (simp add: M_def E_def power_add mult.commute)
  have e1: "\<bar>d - (x - px)\<bar> \<le> E" unfolding d_def by (rule err) (use s M in linarith)
  have apy: "\<bar>a * py\<bar> \<le> \<bar>py\<bar>"
    using a mult_right_mono [of a 1 "\<bar>py\<bar>"] by (simp add: abs_mult)
  have e2: "\<bar>b - a * py\<bar> \<le> E" unfolding b_def by (rule err) (use apy py M in linarith)
  have split: "x - px + a * py = x - (1 - a) * px - a * (px - py)" by (simp add: algebra_simps)
  have c1: "\<bar>(1 - a) * px\<bar> \<le> (1 - a) * M"
    using a s(1) by (simp add: abs_mult mult_left_mono)
  have c2: "\<bar>a * (px - py)\<bar> \<le> a * (3 * M / 2)"
    using a s(2) by (simp add: abs_mult mult_left_mono)
  have c3: "(1 - a) * M + a * (3 * M / 2) = M + a * M / 2" by (simp add: algebra_simps)
  have c4: "a * M \<le> 9991 / 10000 * M" using a M by (intro mult_right_mono) simp_all
  have E: "E \<le> M / 1000000" using M by (simp add: E_def)
  have z: "\<bar>x - (x - px + a * py)\<bar> \<le> M + 9991 / 20000 * M"
    using c1 c2 c3 c4 unfolding split by linarith
  have "\<bar>d + b - (x - px + a * py)\<bar> \<le> 2 * E" using e1 e2 by linarith
  moreover have e3: "\<bar>y - (d + b)\<bar> \<le> E"
    unfolding y_def by (rule err) (use calculation z s E M in linarith)
  ultimately have zy: "\<bar>x - y\<bar> \<le> 3 * M / 2" using z E M by linarith
  have step: "dc_step fl32 st x = (x, y)" by (simp add: dc_step_def p y_def d_def b_def a_def)
  show "dc_sane m (dc_step fl32 st x)" using s(3) zy by (simp add: step dc_sane_def M_def)
  show "\<bar>snd (dc_step fl32 st x)\<bar> \<le> 3 * 2 ^ m"
    unfolding step snd_conv M_def [symmetric] using s(3) zy M by linarith
qed

lemma fl32_sample: "\<bar>fl32 (of_int (sint (dec p)))\<bar> \<le> 2 ^ m"
proof (rule single.fl_bound)
  have "of_int (- (2 ^ m)) \<le> (of_int (sint (dec p)) :: rat)" "(of_int (sint (dec p)) :: rat) \<le> of_int (2 ^ m)"
    using dec_bounds [of p] by (simp_all only: of_int_le_iff)
  then show "\<bar>(of_int (sint (dec p)) :: rat)\<bar> \<le> 2 ^ m" by (simp add: abs_le_iff minus_le_iff)
qed

lemma dc_body_ok:
  assumes k: "f * C + ch < n" and len: "n * width \<le> length d"
    and ch: "ch < length qx" "ch < length qy" and sane: "dc_sane m (qx ! ch, qy ! ch)"
    and st: "st = dc_step fl32 (qx ! ch, qy ! ch) (fl32 (of_int (sint (dec (frame_at width d (f * C + ch))))))"
  shows "\<exists>d'. dc_body fl32 width dec enc cast (- (2 ^ m)) (2 ^ m - 1) C f ch (d, qx, qy) =
             Inr (d', qx[ch := fst st], qy[ch := snd st]) \<and>
           length d' = length d \<and> drop (n * width) d' = drop (n * width) d \<and>
           sint (dec (frame_at width d' (f * C + ch))) = saturate m (trunc_rat (snd st)) \<and>
           (\<forall>j. j \<noteq> f * C + ch \<longrightarrow> frame_at width d' j = frame_at width d j)"
proof -
  let ?k = "f * C + ch" and ?v = "saturate m (trunc_rat (snd st))"
  have ld: "load_range d (?k * width) width = Inr (frame_at width d ?k)"
    by (rule load_frame) (use frame_fits [OF k, of width] len in simp)
  have cast: "float_to_int cast (snd st) = Inr (trunc_rat (snd st))"
    unfolding st by (intro cast_ok dc_step_sane sane fl32_sample)
  obtain d' where d': "store_range d (?k * width) (enc (word_of_int ?v)) = Inr d'" "length d' = length d"
    "frame_at width d' ?k = enc (word_of_int ?v)" "\<forall>j. j \<noteq> ?k \<longrightarrow> frame_at width d' j = frame_at width d j"
    "drop (n * width) d' = drop (n * width) d"
    using store_frame [OF k len length_enc] by blast
  have "sint (dec (enc (word_of_int ?v))) = ?v" by (simp add: saturate_def sint_dec_clamped)
  moreover obtain x y where "st = (x, y)" by (cases st)
  ultimately show ?thesis
    using d' cast ch st by (simp add: dc_body_def ld Let_def saturate_def del: of_int_sint split: prod.split)
qed

text \<open>The loop invariant after \<open>i\<close> samples, for input \<open>data\<close> and initial state \<open>px\<close>, \<open>py\<close>.\<close>

definition dc_inv where
  "dc_inv C n data px py i s \<longleftrightarrow>
     (case s of (d, qx, qy) \<Rightarrow>
        length d = length data \<and> drop (n * width) d = drop (n * width) data \<and>
        length qx = length px \<and> length qy = length py \<and>
        (\<forall>c<C. dc_sane m (qx ! c, qy ! c) \<and>
           (qx ! c, qy ! c) = dc_state (px ! c, py ! c) (chan_samples C c i (pcm_ints width dec n data))) \<and>
        (\<forall>k<i. sint (dec (frame_at width d k)) =
           dc_out m (px ! (k mod C), py ! (k mod C)) (chan_samples C (k mod C) (Suc k) (pcm_ints width dec n data))) \<and>
        (\<forall>k\<ge>i. frame_at width d k = frame_at width data k))"

lemma dc_inv_step:
  assumes i: "i < n" and C: "0 < C" "C \<le> length px" "C \<le> length py" and data: "n * width \<le> length data"
    and inv: "dc_inv C n data px py i s"
  shows "\<exists>s'. dc_body fl32 width dec enc cast (- (2 ^ m)) (2 ^ m - 1) C (i div C) (i mod C) s = Inr s' \<and>
           dc_inv C n data px py (Suc i) s'"
proof -
  let ?xs = "pcm_ints width dec n data" and ?c = "i mod C"
  obtain d qx qy where s: "s = (d, qx, qy)" by (cases s)
  note I = inv [unfolded dc_inv_def s prod.case]
  have c: "?c < C" using C by simp
  define st where "st = dc_step fl32 (qx ! ?c, qy ! ?c) (fl32 (of_int (sint (dec (frame_at width d i)))))"
  have x: "sint (dec (frame_at width d i)) = ?xs ! i" using I i by (simp add: nth_ints)
  have st_eq: "st = dc_state (px ! ?c, py ! ?c) (chan_samples C ?c (Suc i) ?xs)"
    unfolding st_def x using I c by (simp add: chan_samples_Suc dc_state_snoc)
  have sane0: "dc_sane m (qx ! ?c, qy ! ?c)" using I c by blast
  then have sane: "dc_sane m st" unfolding st_def by (intro dc_step_sane fl32_sample)
  have fits: "?c < length qx" "?c < length qy" "n * width \<le> length d"
    using I data less_le_trans [OF c C(2)] less_le_trans [OF c C(3)] by simp_all
  obtain d' where d': "dc_body fl32 width dec enc cast (- (2 ^ m)) (2 ^ m - 1) C (i div C) ?c (d, qx, qy) =
      Inr (d', qx[?c := fst st], qy[?c := snd st])" "length d' = length d"
    "drop (n * width) d' = drop (n * width) d" "sint (dec (frame_at width d' i)) = saturate m (trunc_rat (snd st))"
    "\<forall>j. j \<noteq> i \<longrightarrow> frame_at width d' j = frame_at width d j"
    using dc_body_ok [of "i div C" C ?c n d qx qy, unfolded div_mult_mod_eq, OF i fits(3,1,2) sane0 st_def]
    by blast
  have chans: "\<forall>e<C. dc_sane m (qx[?c := fst st] ! e, qy[?c := snd st] ! e) \<and>
      (qx[?c := fst st] ! e, qy[?c := snd st] ! e) = dc_state (px ! e, py ! e) (chan_samples C e (Suc i) ?xs)"
  proof (intro allI impI)
    fix e assume "e < C"
    then show "dc_sane m (qx[?c := fst st] ! e, qy[?c := snd st] ! e) \<and>
      (qx[?c := fst st] ! e, qy[?c := snd st] ! e) = dc_state (px ! e, py ! e) (chan_samples C e (Suc i) ?xs)"
      using I C c sane st_eq by (cases "e = ?c") (auto simp: chan_samples_Suc)
  qed
  have "dc_inv C n data px py (Suc i) (d', qx[?c := fst st], qy[?c := snd st])"
    unfolding dc_inv_def prod.case
    using I chans d' st_eq by (auto simp: less_Suc_eq dc_out_def)
  with d'(1) show ?thesis by (auto simp: s)
qed

lemma dc_loop_ok:
  assumes C: "0 < C" "C \<le> length px" "C \<le> length py" and data: "n * C * width \<le> length data"
    and sane: "\<And>c. c < C \<Longrightarrow> dc_sane m (px ! c, py ! c)"
  shows "\<exists>s'. dc_loop fl32 width dec enc cast (- (2 ^ m)) (2 ^ m - 1) C n (data, px, py) = Inr s' \<and>
           dc_inv C (n * C) data px py (n * C) s'"
  unfolding dc_loop_def for_each_flatten [OF C(1)]
proof (rule for_each_upto [where P = "dc_inv C (n * C) data px py"])
  show "dc_inv C (n * C) data px py 0 (data, px, py)"
    using sane by (simp add: dc_inv_def chan_samples_def dc_state_def)
qed (use dc_inv_step C data in blast)

end

text \<open>The outcome of the loop, read off the invariant at its end.\<close>

definition dc_result ::
  "nat \<Rightarrow> nat \<Rightarrow> nat \<Rightarrow> (nat \<Rightarrow> u8 list \<Rightarrow> int list) \<Rightarrow> u8 list \<Rightarrow> rat list \<Rightarrow> rat list \<Rightarrow>
   u8 list \<times> rat list \<times> rat list \<Rightarrow> bool"
where
  "dc_result m C N ints data px py r \<longleftrightarrow>
     (case r of (data', px', py') \<Rightarrow>
        length data' = length data \<and> length px' = length px \<and> length py' = length py \<and>
        (\<forall>c<C. dc_sane m (px' ! c, py' ! c) \<and>
           (px' ! c, py' ! c) = dc_state (px ! c, py ! c) (chan_samples C c N (ints N data))) \<and>
        (\<forall>k<N. ints N data' ! k =
           dc_out m (px ! (k mod C), py ! (k mod C)) (chan_samples C (k mod C) (Suc k) (ints N data))))"

context signed_format
begin

lemma dc_loop_result:
  assumes "0 < C" "C \<le> length px" "C \<le> length py" and "n * C * width \<le> length data"
    and "\<And>c. c < C \<Longrightarrow> dc_sane m (px ! c, py ! c)"
  shows "\<exists>r. dc_loop fl32 width dec enc cast (- (2 ^ m)) (2 ^ m - 1) C n (data, px, py) = Inr r \<and>
           dc_result m C (n * C) (pcm_ints width dec) data px py r"
  using dc_loop_ok [OF assms] by (auto simp: dc_inv_def dc_result_def nth_ints)

end

interpretation f16: signed_format 2 i16_load i16_store "\<lambda>_. True" 15 32 16
proof unfold_locales
  show "True \<longleftrightarrow> - (2 ^ 15) \<le> sint v \<and> sint v < 2 ^ 15" for v :: i16
    using sint_ge [of v] sint_lt [of v] by simp
  show "sint (word_of_int i :: i16) = i" if "- (2 ^ 15) \<le> i" "i < 2 ^ 15" for i
    using that by (simp add: sint_sbintrunc' signed_take_bit_int_eq_self)
qed simp_all

interpretation f24: signed_format 3 s24_load s24_store s24_range 23 32 8
proof unfold_locales
  show "sint (word_of_int i :: i32) = i" if "- (2 ^ 23) \<le> i" "i < 2 ^ 23" for i
    using that by (simp add: sint_sbintrunc' signed_take_bit_int_eq_self)
qed (simp_all add: s24_range_def)

interpretation f32: signed_format 4 i32_load i32_store "\<lambda>_. True" 31 64 31
proof unfold_locales
  show "True \<longleftrightarrow> - (2 ^ 31) \<le> sint v \<and> sint v < 2 ^ 31" for v :: i32
    using sint_ge [of v] sint_lt [of v] by simp
  show "sint (word_of_int i :: i32) = i" if "- (2 ^ 31) \<le> i" "i < 2 ^ 31" for i
    using that by (simp add: sint_sbintrunc' signed_take_bit_int_eq_self)
qed simp_all

end
