(* ===== verification/Signal_Properties.thy ===== *)
theory Signal_Properties
  imports Signal Sndfile
begin

text \<open>
  Properties of the signal path in IEEE single precision: what gain computes and where it is
  undefined, what DC removal outputs and that it removes a constant offset, and the peak.
\<close>

section \<open>The three sample formats together\<close>

definition scale_bits :: "u16 \<Rightarrow> nat" where
  "scale_bits bits = (if bits = 16 then 15 else if bits = 24 then 23 else 31)"

definition sample_ints :: "u16 \<Rightarrow> nat \<Rightarrow> u8 list \<Rightarrow> int list" where
  "sample_ints bits n bs =
     (if bits = 16 then pcm_ints 2 i16_load n bs
      else if bits = 24 then pcm_ints 3 s24_load n bs
      else pcm_ints 4 i32_load n bs)"

text \<open>The largest gain for which no product can leave the integer type it is cast to.\<close>

definition gain_room :: "u16 \<Rightarrow> rat" where
  "gain_room bits = (if bits = 16 then 2 ^ 16 else if bits = 24 then 2 ^ 8 else 2 ^ 31)"

definition cast_bits :: "u16 \<Rightarrow> nat" where
  "cast_bits bits = (if bits = 32 then 64 else 32)"

lemmas format_defs = scale_bits_def bytes_of_bits_def sample_ints_def gain_room_def cast_bits_def

lemma length_sample_ints [simp]: "length (sample_ints bits n bs) = n"
  by (simp add: sample_ints_def pcm_ints_def decode_all_def)

section \<open>Decay of a constant offset\<close>

definition dc_quiet :: "rat \<Rightarrow> rat" where
  "dc_quiet y = fl32 (fl32 0 + fl32 (dc_alpha fl32 * y))"

lemma dc_quiet_shrinks: "\<bar>dc_quiet y\<bar> \<le> 9992 / 10000 * \<bar>y\<bar> + 1 / 8000000"
proof -
  define a where "a = dc_alpha fl32"
  define b where "b = fl32 (a * y)"
  have a: "0 \<le> a" "a \<le> 9991 / 10000" using f16.dc_alpha_bounds unfolding a_def by linarith+
  have ay: "\<bar>a * y\<bar> \<le> 9991 / 10000 * \<bar>y\<bar>"
    unfolding abs_mult using a by (intro mult_right_mono) simp_all
  have e1: "\<bar>b - a * y\<bar> \<le> \<bar>a * y\<bar> / 16777216 + 1 / 33554432"
    using single.fl_err_rel [of "a * y"] by (simp add: b_def)
  have e2: "\<bar>fl32 b - b\<bar> \<le> \<bar>b\<bar> / 16777216 + 1 / 33554432"
    using single.fl_err_rel [of b] by simp
  have "dc_quiet y = fl32 b" by (simp add: dc_quiet_def single.fl_zero b_def a_def)
  then show ?thesis using ay e1 e2 by linarith
qed

lemma dc_quiet_decay: "\<bar>(dc_quiet ^^ n) y\<bar> \<le> (9992 / 10000) ^ n * \<bar>y\<bar> + 1 / 2"
proof (induction n)
  case (Suc n)
  have "\<bar>(dc_quiet ^^ Suc n) y\<bar> \<le> 9992 / 10000 * \<bar>(dc_quiet ^^ n) y\<bar> + 1 / 8000000"
    using dc_quiet_shrinks by simp
  also have "\<dots> \<le> 9992 / 10000 * ((9992 / 10000) ^ n * \<bar>y\<bar> + 1 / 2) + 1 / 8000000"
    using Suc by (intro add_mono mult_left_mono) simp_all
  also have "\<dots> \<le> (9992 / 10000) ^ Suc n * \<bar>y\<bar> + 1 / 2"
    unfolding power_Suc distrib_left mult.assoc [symmetric] by simp
  finally show ?case .
qed simp

lemma power_step: "0 \<le> q \<Longrightarrow> q ^ i \<le> p \<Longrightarrow> q ^ (i * k) \<le> (p::rat) ^ k"
  by (simp add: power_mult power_mono)

lemma small_power: "(9992 / 10000 :: rat) ^ 32768 \<le> 1 / 10 ^ 11"
proof -
  let ?q = "9992 / 10000 :: rat"
  have "?q ^ 16 \<le> 9874 / 10000" by (simp add: power_divide)
  from power_step [OF _ this, of 16] have "?q ^ 256 \<le> (9874 / 10000) ^ 16" by simp
  also have "\<dots> \<le> (8166 / 10000 :: rat)" by (simp add: power_divide)
  finally have "?q ^ (256 * 16) \<le> (8166 / 10000) ^ 16" by (intro power_step) simp_all
  also have "\<dots> \<le> (4 / 100 :: rat)" by (simp add: power_divide)
  finally have "?q ^ (4096 * 8) \<le> (4 / 100) ^ 8" by (intro power_step) simp_all
  also have "\<dots> \<le> (1 / 10 ^ 11 :: rat)" by (simp add: power_divide)
  finally show ?thesis by simp
qed

lemma dc_quiet_silent:
  assumes "\<bar>y\<bar> \<le> 3 * 2 ^ 31" and "32768 \<le> n"
  shows "trunc_rat ((dc_quiet ^^ n) y) = 0"
proof (rule trunc_rat_zero)
  have "(9992 / 10000 :: rat) ^ n \<le> (9992 / 10000) ^ 32768"
    using assms(2) by (intro power_decreasing) simp_all
  also note small_power
  finally have "(9992 / 10000) ^ n * \<bar>y\<bar> \<le> 1 / 10 ^ 11 * (3 * 2 ^ 31)"
    using assms(1) by (rule mult_mono) simp_all
  then show "\<bar>(dc_quiet ^^ n) y\<bar> < 1" using dc_quiet_decay [of n y] by simp
qed

lemma dc_state_replicate:
  "snd (dc_state st (replicate (Suc n) v)) = (dc_quiet ^^ n) (snd (dc_step fl32 st (fl32 (of_int v)))) \<and>
   fst (dc_state st (replicate (Suc n) v)) = fl32 (of_int v)"
proof (induction n)
  case 0
  then show ?case by (simp add: dc_state_def dc_step_def)
next
  case (Suc n)
  have "replicate (Suc (Suc n)) v = replicate (Suc n) v @ [v]" by (simp add: replicate_append_same)
  then show ?case using Suc by (simp only: dc_state_snoc) (simp add: dc_step_def dc_quiet_def)
qed

context signed_format
begin

lemma dc_out_silent:
  assumes "dc_sane m st" and "\<bar>fl32 (of_int v)\<bar> \<le> 2 ^ m" and "32768 \<le> n"
  shows "dc_out m st (replicate (Suc n) v) = 0"
proof -
  have "\<bar>snd (dc_step fl32 st (fl32 (of_int v)))\<bar> \<le> 3 * 2 ^ m"
    by (rule dc_step_sane(2) [OF assms(1,2)])
  also have "\<dots> \<le> 3 * (2 ^ 31 :: rat)"
    using m_small by (intro mult_left_mono power_increasing) simp_all
  finally have "trunc_rat ((dc_quiet ^^ n) (snd (dc_step fl32 st (fl32 (of_int v))))) = 0"
    using assms(3) by (rule dc_quiet_silent)
  then show ?thesis
    using dc_state_replicate [of st n v] by (simp add: dc_out_def saturate_def clamp_def not_less)
qed

end

section \<open>Gain\<close>

lemma apply_gain_ok:
  assumes "supported_bits bits" and "0 \<le> g" and "g \<le> gain_room bits"
    and "n * bytes_of_bits bits \<le> length src" and "n * bytes_of_bits bits \<le> length dst"
  shows "\<exists>dst'. apply_gain fl32 src dst n bits g = Inr dst' \<and> length dst' = length dst \<and>
           sample_ints bits n dst' = map (gain_int (scale_bits bits) g) (sample_ints bits n src) \<and>
           drop (n * bytes_of_bits bits) dst' = drop (n * bytes_of_bits bits) dst"
  using assms(1)
proof (cases rule: supported_bits_cases)
  case 1
  then show ?thesis using f16.gain_loop_ok [of g n src dst] assms(2-) by (simp add: apply_gain_def format_defs)
next
  case 2
  then show ?thesis using f24.gain_loop_ok [of g n src dst] assms(2-) by (simp add: apply_gain_def format_defs)
next
  case 3
  then show ?thesis using f32.gain_loop_ok [of g n src dst] assms(2-) by (simp add: apply_gain_def format_defs)
qed

lemma scale_bits_small: "scale_bits bits \<le> 31"
  by (simp add: scale_bits_def)

section \<open>DC removal\<close>

lemma apply_dc_remove_ok:
  assumes "supported_bits bits" and "channels \<noteq> 0" and "unat channels \<le> length px" and "unat channels \<le> length py"
    and "n * unat channels * bytes_of_bits bits \<le> length data"
    and "\<And>c. c < unat channels \<Longrightarrow> dc_sane (scale_bits bits) (px ! c, py ! c)"
  shows "\<exists>r. apply_dc_remove fl32 data (n * unat channels) channels bits (px, py) = Inr r \<and>
           dc_result (scale_bits bits) (unat channels) (n * unat channels) (sample_ints bits) data px py r"
proof -
  have C: "0 < unat channels" using assms(2) by (simp add: unat_gt_0)
  have frames: "n * unat channels div unat channels = n" using C by simp
  show ?thesis using assms(1)
  proof (cases rule: supported_bits_cases)
    case 1
    moreover have "sample_ints 16 = pcm_ints 2 i16_load" by (intro ext) (simp add: sample_ints_def)
    ultimately show ?thesis using f16.dc_loop_result [of "unat channels" px py n data] C frames assms(2-)
      by (simp add: apply_dc_remove_def scale_bits_def bytes_of_bits_def)
  next
    case 2
    moreover have "sample_ints 24 = pcm_ints 3 s24_load" by (intro ext) (simp add: sample_ints_def)
    ultimately show ?thesis using f24.dc_loop_result [of "unat channels" px py n data] C frames assms(2-)
      by (simp add: apply_dc_remove_def scale_bits_def bytes_of_bits_def)
  next
    case 3
    moreover have "sample_ints 32 = pcm_ints 4 i32_load" by (intro ext) (simp add: sample_ints_def)
    ultimately show ?thesis using f32.dc_loop_result [of "unat channels" px py n data] C frames assms(2-)
      by (simp add: apply_dc_remove_def scale_bits_def bytes_of_bits_def)
  qed
qed

text \<open>The samples of a channel are those at its offset in every frame.\<close>

lemma chan_samples_frames:
  assumes "c < C"
  shows "chan_samples C c (n * C) xs = map (\<lambda>f. xs ! (f * C + c)) [0..<n]"
proof (induction n)
  case (Suc n)
  have "[j \<leftarrow> [0..<C]. (n * C + j) mod C = c] = [c]"
  proof -
    have "[j \<leftarrow> [0..<C]. (n * C + j) mod C = c] = [j \<leftarrow> [0..<C]. j = c]"
      by (rule filter_cong) simp_all
    also have "\<dots> = [c]" using assms
      by (induction C) (auto simp: less_Suc_eq)
    finally show ?thesis .
  qed
  moreover have "[0..<Suc n * C] = [0..<n * C] @ map (\<lambda>j. n * C + j) [0..<C]"
    using upt_add_eq_append [of 0 "n * C" C] map_add_upt [of "n * C" C] by (simp add: add.commute)
  ultimately show ?case
    using Suc by (simp add: chan_samples_def filter_map comp_def)
qed (simp add: chan_samples_def)

lemma chan_samples_upto:
  assumes "c < C"
  shows "chan_samples C c (Suc (n * C + c)) xs = map (\<lambda>f. xs ! (f * C + c)) [0..<Suc n]"
proof -
  have "chan_samples C c (n * C + j) xs = chan_samples C c (n * C) xs" if "j \<le> c" for j
    using that assms by (induction j) (simp_all add: chan_samples_Suc)
  then show ?thesis using chan_samples_frames [OF assms, of n xs] assms by (simp add: chan_samples_Suc)
qed

section \<open>Properties\<close>

text \<open>
  C29: gain. For every gain up to \<open>gain_room\<close> (96 dB at 16 bits, 48 dB at 24 bits, 186 dB at 32
  bits), \<open>apply_gain\<close> returns, and every sample of the result is the truncated single precision
  product of the sample and the gain, saturated to the sample format; the rest of the target
  buffer keeps its contents. So louder samples stay louder or equal, and silence stays silence.
\<close>

theorem gain_applied:
  assumes "supported_bits bits" and "0 \<le> g" and "g \<le> gain_room bits"
    and "n * bytes_of_bits bits \<le> length src" and "n * bytes_of_bits bits \<le> length dst"
  shows "\<exists>dst'. apply_gain fl32 src dst n bits g = Inr dst' \<and> length dst' = length dst \<and>
           sample_ints bits n dst' = map (gain_int (scale_bits bits) g) (sample_ints bits n src) \<and>
           drop (n * bytes_of_bits bits) dst' = drop (n * bytes_of_bits bits) dst \<and>
           mono (gain_int (scale_bits bits) g) \<and> gain_int (scale_bits bits) g 0 = 0"
proof -
  have "mono (gain_int (scale_bits bits) g)" using gain_int_mono [OF assms(2)] by (auto intro: monoI)
  then show ?thesis using apply_gain_ok [OF assms] gain_int_zero by blast
qed

theorem gain_applied_witness:
  "\<exists>dst'. apply_gain fl32 [0x00, 0x40, 0x00, 0x80] [0, 0, 0, 0] 2 16 2 = Inr dst' \<and>
     length dst' = length [0, 0, 0, 0::u8] \<and>
     sample_ints 16 2 dst' = map (gain_int (scale_bits 16) 2) (sample_ints 16 2 [0x00, 0x40, 0x00, 0x80]) \<and>
     drop (2 * bytes_of_bits 16) dst' = drop (2 * bytes_of_bits 16) [0, 0, 0, 0] \<and>
     mono (gain_int (scale_bits 16) 2) \<and> gain_int (scale_bits 16) 2 0 = 0"
  by (rule gain_applied) (simp_all add: supported_bits_def gain_room_def bytes_of_bits_def)

text \<open>
  C30: the limit is sharp in kind: the range check comes after the cast, so the gain is undefined
  behaviour exactly when the product of some sample does not fit the integer it is cast to.
\<close>

theorem gain_undefined_iff:
  assumes "supported_bits bits" and "n * bytes_of_bits bits \<le> length src" and "n * bytes_of_bits bits \<le> length dst"
  shows "apply_gain fl32 src dst n bits g = Inl Float_Cast \<longleftrightarrow>
         (\<exists>s \<in> set (sample_ints bits n src). \<not> gain_fits (cast_bits bits) g s)"
  using assms(1)
proof (cases rule: supported_bits_cases)
  case 1
  then show ?thesis using f16.gain_loop_fault_iff [of n src dst g] assms(2-) by (simp add: apply_gain_def format_defs)
next
  case 2
  then show ?thesis using f24.gain_loop_fault_iff [of n src dst g] assms(2-) by (simp add: apply_gain_def format_defs)
next
  case 3
  then show ?thesis using f32.gain_loop_fault_iff [of n src dst g] assms(2-) by (simp add: apply_gain_def format_defs)
qed

text \<open>24-bit full scale times 512 (54 dB).\<close>

theorem gain_undefined_iff_witness:
  "apply_gain fl32 [0xFF, 0xFF, 0x7F] [0, 0, 0] 1 24 512 = Inl Float_Cast"
proof -
  have s: "sample_ints 24 1 [0xFF, 0xFF, 0x7F] = [8388607]" by code_simp
  have "fl32 (of_int 8388607) = of_int 8388607" by (rule single.fl_int) simp
  moreover have "fl32 (of_int 8388607 * 2 ^ 9) = of_int 8388607 * 2 ^ 9" by (rule single.fl_exact) simp
  ultimately have "\<not> gain_fits 32 512 8388607"
    using trunc_rat_of_int [of "8388607 * 512"] by (simp add: gain_fits_def)
  then have "\<exists>s \<in> set (sample_ints 24 1 [0xFF, 0xFF, 0x7F]). \<not> gain_fits (cast_bits 24) 512 s"
    unfolding s by (simp add: cast_bits_def)
  then show ?thesis
    by (subst gain_undefined_iff) (simp_all add: supported_bits_def bytes_of_bits_def)
qed

text \<open>
  C27: DC removal from a sane filter state (such as the reset one) never faults, leaves a sane
  state, and outputs per channel the truncated, saturated values of the recurrence
  \<open>y[n] = x[n] - x[n-1] + alpha * y[n-1]\<close> over that channel's samples only.
\<close>

theorem dc_filter_output:
  assumes "supported_bits bits" and "channels \<noteq> 0" and "unat channels \<le> length px" and "unat channels \<le> length py"
    and "n * unat channels * bytes_of_bits bits \<le> length data"
    and "\<And>c. c < unat channels \<Longrightarrow> dc_sane (scale_bits bits) (px ! c, py ! c)"
  shows "\<exists>r. apply_dc_remove fl32 data (n * unat channels) channels bits (px, py) = Inr r \<and>
           dc_result (scale_bits bits) (unat channels) (n * unat channels) (sample_ints bits) data px py r"
  by (rule apply_dc_remove_ok [OF assms])

theorem dc_filter_output_witness:
  "\<exists>r. apply_dc_remove fl32 [0x00, 0x40, 0x00, 0x80] (1 * unat (2 :: u16)) 2 16 ([0, 0], [0, 0]) = Inr r \<and>
     dc_result (scale_bits 16) (unat (2 :: u16)) (1 * unat (2 :: u16)) (sample_ints 16) [0x00, 0x40, 0x00, 0x80]
       [0, 0] [0, 0] r"
proof -
  have sane: "dc_sane (scale_bits 16) ([0, 0] ! c, [0, 0] ! c)" if "c < 2" for c
    using that by (cases c) (auto simp: dc_sane_def)
  show ?thesis by (rule dc_filter_output) (simp_all add: supported_bits_def bytes_of_bits_def sane)
qed

text \<open>
  C28: DC removal removes a constant offset: once a channel has been constant for 32768 frames
  (0.7 s at 48 kHz), its output is zero, whatever the constant and the filter state were.
\<close>

theorem dc_offset_removed:
  assumes "supported_bits bits" and "c < unat channels" and "unat channels \<le> length px" and "unat channels \<le> length py"
    and "n * unat channels * bytes_of_bits bits \<le> length data"
    and "\<And>c. c < unat channels \<Longrightarrow> dc_sane (scale_bits bits) (px ! c, py ! c)"
    and "\<And>f. f < n \<Longrightarrow> sample_ints bits (n * unat channels) data ! (f * unat channels + c) = v"
    and "32768 \<le> f" and "f < n"
  shows "\<exists>data' prev'. apply_dc_remove fl32 data (n * unat channels) channels bits (px, py) = Inr (data', prev') \<and>
           sample_ints bits (n * unat channels) data' ! (f * unat channels + c) = 0"
proof -
  let ?C = "unat channels" and ?xs = "sample_ints bits (n * unat channels) data"
  have ch: "channels \<noteq> 0" using assms(2) by auto
  obtain data' px' py' where r: "apply_dc_remove fl32 data (n * ?C) channels bits (px, py) = Inr (data', px', py')"
    "dc_result (scale_bits bits) ?C (n * ?C) (sample_ints bits) data px py (data', px', py')"
    using apply_dc_remove_ok [OF assms(1) ch assms(3-6)] by auto
  have k: "f * ?C + c < n * ?C" using frame_fits [OF assms(9), of ?C] assms(2) by simp
  have "chan_samples ?C c (Suc (f * ?C + c)) ?xs = replicate (Suc f) v"
    unfolding chan_samples_upto [OF assms(2)] using assms(7,9)
    by (intro nth_equalityI) (simp_all del: upt_Suc replicate_Suc)
  then have out: "sample_ints bits (n * ?C) data' ! (f * ?C + c) =
      dc_out (scale_bits bits) (px ! c, py ! c) (replicate (Suc f) v)"
    using r(2) k assms(2) by (simp add: dc_result_def)
  have sane: "dc_sane (scale_bits bits) (px ! c, py ! c)" by (rule assms(6) [OF assms(2)])
  have v: "v = ?xs ! c" using assms(7) [of 0] assms(9) by simp
  have N: "c < n * ?C" using k by simp
  have "dc_out (scale_bits bits) (px ! c, py ! c) (replicate (Suc f) v) = 0"
    using assms(1)
  proof (cases rule: supported_bits_cases)
    case 1
    then show ?thesis using f16.dc_out_silent [of _ v f] sane assms(8) v N f16.fl32_sample
      by (simp add: format_defs f16.nth_ints)
  next
    case 2
    then show ?thesis using f24.dc_out_silent [of _ v f] sane assms(8) v N f24.fl32_sample
      by (simp add: format_defs f24.nth_ints)
  next
    case 3
    then show ?thesis using f32.dc_out_silent [of _ v f] sane assms(8) v N f32.fl32_sample
      by (simp add: format_defs f32.nth_ints)
  qed
  with r(1) out show ?thesis by auto
qed

theorem dc_offset_removed_witness:
  defines "data \<equiv> concat (replicate 40000 [0x00, 0x40])"
  shows "\<exists>data' prev'. apply_dc_remove fl32 data (40000 * unat (1 :: u16)) 1 16 ([0], [0]) = Inr (data', prev') \<and>
           sample_ints 16 (40000 * unat (1 :: u16)) data' ! (39999 * unat (1 :: u16) + 0) = 0"
proof (rule dc_offset_removed)
  have "frames_of 2 (length (replicate 40000 [0x00, 0x40 :: u8])) data = replicate 40000 [0x00, 0x40]"
    unfolding data_def by (rule frames_of_concat) simp
  then have "sample_ints 16 40000 data = replicate 40000 (sint (i16_load [0x00, 0x40]))"
    by (simp add: sample_ints_def pcm_ints_def decode_all_def)
  then show "sample_ints 16 (40000 * unat (1 :: u16)) data ! (f * unat (1 :: u16) + 0) = sint (i16_load [0x00, 0x40])"
    if "f < 40000" for f
    using that by simp
  have "length data = 80000" unfolding data_def by (simp add: length_concat sum_list_replicate)
  then show "40000 * unat (1 :: u16) * bytes_of_bits 16 \<le> length data" by (simp add: bytes_of_bits_def)
qed (simp_all add: supported_bits_def dc_sane_def)

end
