(* ===== verification/Level_Meter.thy ===== *)
theory Level_Meter
  imports Signal_Properties
begin

text \<open>
  The level meter of \<open>on_audio_chunk\<close>: the peak is the largest magnitude, and the sum of squares,
  accumulated in double precision, is exact as long as a chunk is not unreasonably long. Samples
  of 32 bits are brought to the 16-bit scale first, samples of 24 bits are not.
\<close>

definition meter_bits :: "u16 \<Rightarrow> nat" where
  "meter_bits bits = (if bits = 24 then 23 else 15)"

definition meter_level :: "u16 \<Rightarrow> int \<Rightarrow> int" where
  "meter_level bits s = (if bits = 32 then s div 2 ^ 16 else s)"

definition levels :: "u16 \<Rightarrow> nat \<Rightarrow> u8 list \<Rightarrow> int list" where
  "levels bits n data = map (meter_level bits) (sample_ints bits n data)"

definition peak_of :: "int list \<Rightarrow> int" where
  "peak_of xs = foldl (\<lambda>p s. max p \<bar>s\<bar>) 0 xs"

definition square_sum :: "int list \<Rightarrow> int" where
  "square_sum xs = sum_list (map (\<lambda>s. s * s) xs)"

lemma peak_of_simps [simp]: "peak_of [] = 0" "peak_of (xs @ [s]) = max (peak_of xs) \<bar>s\<bar>"
  by (simp_all add: peak_of_def)

lemma peak_of_bounds:
  "s \<in> set xs \<Longrightarrow> \<bar>s\<bar> \<le> peak_of xs"
  "0 \<le> peak_of xs"
  "\<lbrakk>0 \<le> b; \<And>s. s \<in> set xs \<Longrightarrow> \<bar>s\<bar> \<le> b\<rbrakk> \<Longrightarrow> peak_of xs \<le> b"
  by (induction xs rule: rev_induct) (auto simp: max_def)

lemma peak_of_attained: "xs \<noteq> [] \<Longrightarrow> \<exists>s \<in> set xs. peak_of xs = \<bar>s\<bar>"
proof (induction xs rule: rev_induct)
  case (snoc s xs)
  then show ?case using peak_of_simps(2) [of "[]"] by (cases "xs = []") (auto simp: max_def)
qed simp

lemma square_sum_simps [simp]: "square_sum [] = 0" "square_sum (xs @ [s]) = square_sum xs + s * s"
  by (simp_all add: square_sum_def)

lemma square_bound: "\<bar>s\<bar> \<le> 2 ^ b \<Longrightarrow> s * s \<le> 2 ^ (2 * b)" for s :: int
  using mult_mono [of "\<bar>s\<bar>" "2 ^ b" "\<bar>s\<bar>" "2 ^ b"] by (simp add: power_add mult_2)

lemma square_sum_bound:
  assumes "\<And>s. s \<in> set xs \<Longrightarrow> \<bar>s\<bar> \<le> 2 ^ b"
  shows "0 \<le> square_sum xs \<and> square_sum xs \<le> int (length xs) * 2 ^ (2 * b)"
  using assms
proof (induction xs rule: rev_induct)
  case (snoc s xs)
  then have "s * s \<le> 2 ^ (2 * b)" "0 \<le> s * s" by (auto intro: square_bound)
  moreover have "0 \<le> square_sum xs \<and> square_sum xs \<le> int (length xs) * 2 ^ (2 * b)" using snoc by simp
  ultimately show ?case by (simp add: algebra_simps)
qed simp

text \<open>Doubles hold the integers below \<open>2 ^ 53\<close>.\<close>

lemma fl64_int: "\<bar>k\<bar> < 2 ^ 53 \<Longrightarrow> fl64 (of_int k) = of_int k"
  unfolding fl64_def using round_bin_exact [of k 53 "-1074" 0] by simp

lemma meter_step_exact:
  assumes "\<bar>s\<bar> \<le> 2 ^ 23" and "\<bar>t\<bar> + s * s < 2 ^ 53"
  shows "fl64 (of_int t + fl64 (fl64 (of_int s) * fl64 (of_int s))) = of_int (t + s * s)"
proof -
  have "\<bar>s\<bar> < 2 ^ 53" by (rule le_less_trans [OF assms(1)]) simp
  then have s: "fl64 (of_int s) = of_int s" by (rule fl64_int)
  have "0 \<le> s * s" by simp
  then have "\<bar>s * s\<bar> < 2 ^ 53" "\<bar>t + s * s\<bar> < 2 ^ 53" using assms(2) by linarith+
  from fl64_int [OF this(1)] fl64_int [OF this(2)] show ?thesis by (simp add: s)
qed

lemma meter_loop_ok:
  assumes data: "length xs * w \<le> length data"
    and val: "\<And>i. i < length xs \<Longrightarrow> val (frame_at w data i) = xs ! i"
    and xs: "\<And>s. s \<in> set xs \<Longrightarrow> \<bar>s\<bar> \<le> 2 ^ b" "b \<le> 23"
  shows "\<exists>sum. meter_loop fl64 w val data (length xs) = Inr (peak_of xs, sum) \<and>
           (int (length xs) * 2 ^ (2 * b) < 2 ^ 53 \<longrightarrow> sum = of_int (square_sum xs))"
proof -
  let ?small = "int (length xs) * 2 ^ (2 * b) < 2 ^ 53"
  let ?P = "\<lambda>i r. fst r = peak_of (take i xs) \<and> (?small \<longrightarrow> snd r = of_int (square_sum (take i xs)))"
  have "\<exists>r. meter_loop fl64 w val data (length xs) = Inr r \<and> ?P (length xs) r"
    unfolding meter_loop_def
  proof (rule for_each_upto [where P = ?P], goal_cases)
    case 1
    show ?case by simp
  next
    case (2 i r)
    have load: "load_range data (i * w) w = Inr (frame_at w data i)"
      using frame_fits [OF 2(1), of w] data by (simp add: load_range_def frame_at_def)
    have s: "\<bar>xs ! i\<bar> \<le> 2 ^ b" using 2(1) xs(1) by simp
    have "(2::int) ^ b \<le> 2 ^ 23" using xs(2) by (intro power_increasing) simp_all
    with s have s23: "\<bar>xs ! i\<bar> \<le> 2 ^ 23" by (rule order_trans)
    have next': "take (Suc i) xs = take i xs @ [xs ! i]" using 2(1) by (simp add: take_Suc_conv_app_nth)
    have sq: "fl64 (of_int (square_sum (take i xs)) + fl64 (fl64 (of_int (xs ! i)) * fl64 (of_int (xs ! i)))) =
        of_int (square_sum (take (Suc i) xs))" if small: ?small
    proof -
      have "0 \<le> square_sum (take i xs) \<and> square_sum (take i xs) + xs ! i * xs ! i = square_sum (take (Suc i) xs)"
        using square_sum_bound [of "take i xs" b] xs(1) by (auto simp: next' dest: in_set_takeD)
      moreover have "square_sum (take (Suc i) xs) \<le> int (length (take (Suc i) xs)) * 2 ^ (2 * b)"
        using square_sum_bound [of "take (Suc i) xs" b] xs(1) by (auto dest: in_set_takeD)
      moreover have "int (length (take (Suc i) xs)) * 2 ^ (2 * b) \<le> int (length xs) * 2 ^ (2 * b)"
        by (intro mult_right_mono) simp_all
      ultimately have "\<bar>square_sum (take i xs)\<bar> + xs ! i * xs ! i < 2 ^ 53" using small by linarith
      from meter_step_exact [OF s23 this] show ?thesis by (simp add: next')
    qed
    obtain p q where r: "r = (p, q)" by (cases r)
    show ?case
      using 2(2) sq by (auto simp: r load val [OF 2(1)] next' Let_def max_def)
  qed
  then show ?thesis by auto
qed

lemma sint_high_half: "sint (signed_drop_bit 16 (v :: i32)) = sint v div 2 ^ 16"
  by (simp add: sint_signed_drop_bit_eq drop_bit_eq_div)

lemma meter_ok:
  assumes bits: "supported_bits bits" and data: "n * bytes_of_bits bits \<le> length data"
  shows "\<exists>sum. meter fl64 data n bits = Inr (peak_of (levels bits n data), sum) \<and>
           (int n * 2 ^ (2 * meter_bits bits) < 2 ^ 53 \<longrightarrow> sum = of_int (square_sum (levels bits n data)))"
proof -
  let ?xs = "levels bits n data"
  have len: "length ?xs = n" by (simp add: levels_def)
  have bound: "\<bar>s\<bar> \<le> 2 ^ meter_bits bits" if mem: "s \<in> set ?xs" for s
  proof -
    obtain x where x: "x \<in> set (sample_ints bits n data)" "s = meter_level bits x"
      using mem unfolding levels_def set_map by blast
    then obtain i where "i < n" "sample_ints bits n data ! i = x" by (auto simp: in_set_conv_nth)
    with x(2) have i: "i < n" "s = meter_level bits (sample_ints bits n data ! i)" by simp_all
    show ?thesis
      using bits
    proof (cases rule: supported_bits_cases)
      case 1
      then show ?thesis
        using i sint_ge [of "i16_load (frame_at 2 data i)"] sint_lt [of "i16_load (frame_at 2 data i)"]
        by (simp add: sample_ints_def f16.nth_ints meter_level_def meter_bits_def abs_le_iff)
    next
      case 2
      then show ?thesis
        using i s24_load_range [of "frame_at 3 data i"]
        by (simp add: sample_ints_def f24.nth_ints meter_level_def meter_bits_def s24_range_def abs_le_iff)
    next
      case 3
      have "- (2 ^ 31) div 2 ^ 16 \<le> sint (i32_load (frame_at 4 data i)) div (2 ^ 16)"
        "sint (i32_load (frame_at 4 data i)) div 2 ^ 16 \<le> (2 ^ 31 - 1) div (2 ^ 16)"
        using sint_ge [of "i32_load (frame_at 4 data i)"] sint_lt [of "i32_load (frame_at 4 data i)"]
        by (intro zdiv_mono1; simp)+
      then show ?thesis
        using i 3 by (simp add: sample_ints_def f32.nth_ints meter_level_def meter_bits_def abs_le_iff)
    qed
  qed
  have b: "meter_bits bits \<le> 23" by (simp add: meter_bits_def)
  have loop: "\<exists>sum. meter_loop fl64 w val data n = Inr (peak_of ?xs, sum) \<and>
      (int n * 2 ^ (2 * meter_bits bits) < 2 ^ 53 \<longrightarrow> sum = of_int (square_sum ?xs))"
    if "n * w \<le> length data" "\<And>i. i < n \<Longrightarrow> val (frame_at w data i) = ?xs ! i" for w val
    using meter_loop_ok [of ?xs w data val "meter_bits bits"] that bound b by (simp add: len)
  show ?thesis
    using bits
  proof (cases rule: supported_bits_cases)
    case 1
    then show ?thesis
      using loop [of 2 "\<lambda>p. sint (i16_load p)"] data
      by (simp add: meter_def levels_def sample_ints_def f16.nth_ints meter_level_def)
  next
    case 2
    then show ?thesis
      using loop [of 3 "\<lambda>p. sint (s24_load p)"] data
      by (simp add: meter_def levels_def sample_ints_def f24.nth_ints meter_level_def)
  next
    case 3
    then show ?thesis
      using loop [of 4 "\<lambda>p. sint (signed_drop_bit 16 (i32_load p))"] data
      by (simp add: meter_def levels_def sample_ints_def f32.nth_ints meter_level_def sint_high_half)
  qed
qed

end
