(* ===== verification/Neon.thy ===== *)
theory Neon
  imports Signal_Properties
begin

text \<open>
  The ARM NEON form of the signal path (the \<open>__ARM_NEON\<close> branches of
  src/pipeline/capture_pipeline.cpp): whole vectors of samples first, then a scalar tail. The
  intrinsics are functions on the lanes of a vector.
\<close>

section \<open>Intrinsics, per lane\<close>

text \<open>Conversion of a float toward zero and the narrowing \<open>vqmovn\<close> saturate; \<open>vmovn\<close> does not.\<close>

definition vcvt_f32_s32 :: "(rat \<Rightarrow> rat) \<Rightarrow> i32 \<Rightarrow> rat" where
  "vcvt_f32_s32 fl v = fl (of_int (sint v))"

definition vmul_f32 :: "(rat \<Rightarrow> rat) \<Rightarrow> rat \<Rightarrow> rat \<Rightarrow> rat" where
  "vmul_f32 fl a b = fl (a * b)"

definition vcvt_s32_f32 :: "rat \<Rightarrow> i32" where
  "vcvt_s32_f32 x = word_of_int (saturate 31 (trunc_rat x))"

definition vqmovn_s32 :: "i32 \<Rightarrow> i16" where
  "vqmovn_s32 v = word_of_int (saturate 15 (sint v))"

definition vmull_s32 :: "i32 \<Rightarrow> i32 \<Rightarrow> 64 word" where
  "vmull_s32 a b = scast a * scast b"

definition vmovn_s64 :: "64 word \<Rightarrow> i32" where
  "vmovn_s64 v = ucast v"

section \<open>Loops\<close>

text \<open>\<open>n & ~7u\<close>: the mask is a 32-bit constant, widened.\<close>

definition neon_end :: "u64 \<Rightarrow> u32 \<Rightarrow> u64" where
  "neon_end n lanes = n AND ucast (NOT (lanes - 1))"

definition lane_loop ::
  "nat \<Rightarrow> nat \<Rightarrow> nat \<Rightarrow> (u8 list \<Rightarrow> u8 list) \<Rightarrow> u8 list \<Rightarrow> u8 list \<Rightarrow> nat \<Rightarrow> u8 list outcome" where
  "lane_loop w stride lanes f src dst n =
     for_each (\<lambda>j dst. obind (load_range src (j * lanes * stride * w) (lanes * stride * w)) (\<lambda>p.
                 store_range dst (j * lanes * w) (concat (map (\<lambda>l. f (frame_at w p (l * stride))) [0..<lanes]))))
       [0..<n div lanes] dst"

definition scalar_steps ::
  "nat \<Rightarrow> nat \<Rightarrow> (u8 list \<Rightarrow> u8 list outcome) \<Rightarrow> u8 list \<Rightarrow> nat \<Rightarrow> nat \<Rightarrow> u8 list \<Rightarrow> u8 list outcome" where
  "scalar_steps w stride f src a b dst =
     for_each (\<lambda>i dst. obind (load_range src (i * stride * w) w)
                (\<lambda>p. obind (f p) (store_range dst (i * w)))) [a..<b] dst"

definition neon_loop ::
  "nat \<Rightarrow> nat \<Rightarrow> nat \<Rightarrow> (u8 list \<Rightarrow> u8 list) \<Rightarrow> (u8 list \<Rightarrow> u8 list outcome) \<Rightarrow>
   u8 list \<Rightarrow> u8 list \<Rightarrow> u64 \<Rightarrow> u8 list outcome" where
  "neon_loop w stride lanes vec f src dst n =
     (let e = unat (neon_end n (of_nat lanes))
      in obind (lane_loop w stride lanes vec src dst e) (scalar_steps w stride f src e (unat n)))"

section \<open>Gain and downmix\<close>

definition neon_gain16 :: "(rat \<Rightarrow> rat) \<Rightarrow> rat \<Rightarrow> i16 \<Rightarrow> i16" where
  "neon_gain16 fl gain v = vqmovn_s32 (vcvt_s32_f32 (vmul_f32 fl (vcvt_f32_s32 fl (scast v)) gain))"

text \<open>Fixed point with 14 fractional bits; the narrowing of the product drops its high half.\<close>

definition gain_fixed :: "(rat \<Rightarrow> rat) \<Rightarrow> rat \<Rightarrow> i32" where
  "gain_fixed fld gain =
     word_of_int (trunc_rat (max (- 2147483648) (min 2147483647 (fld (gain * 16384)))))"

definition neon_gain32 :: "i32 \<Rightarrow> i32 \<Rightarrow> i32" where
  "neon_gain32 gain_fp v = vmovn_s64 (signed_drop_bit 14 (vmull_s32 v gain_fp))"

definition apply_gain_neon ::
  "(rat \<Rightarrow> rat) \<Rightarrow> (rat \<Rightarrow> rat) \<Rightarrow> u8 list \<Rightarrow> u8 list \<Rightarrow> u64 \<Rightarrow> u16 \<Rightarrow> rat \<Rightarrow> u8 list outcome" where
  "apply_gain_neon fl fld src dst sample_count bits gain =
     (if bits = 16 then
        neon_loop 2 1 8 (\<lambda>p. i16_store (neon_gain16 fl gain (i16_load p)))
          (\<lambda>p. obind (gain_value fl 32 (-32768) 32767 gain (i16_load p)) (\<lambda>v. Inr (i16_store v)))
          src dst sample_count
      else if bits = 32 then
        neon_loop 4 1 4 (\<lambda>p. i32_store (neon_gain32 (gain_fixed fld gain) (i32_load p)))
          (\<lambda>p. obind (gain_value fl 64 (-2147483648) 2147483647 gain (i32_load p)) (\<lambda>v. Inr (i32_store v)))
          src dst sample_count
      else apply_gain fl src dst (unat sample_count) bits gain)"

text \<open>\<open>vld2q\<close> takes apart pairs; the even elements are stored.\<close>

definition apply_downmix_neon :: "u8 list \<Rightarrow> u8 list \<Rightarrow> u64 \<Rightarrow> u16 \<Rightarrow> u8 list outcome" where
  "apply_downmix_neon src dst frame_count bits =
     (if bits = 16 then neon_loop 2 2 8 (\<lambda>p. p) Inr src dst frame_count
      else if bits = 32 then neon_loop 4 2 4 (\<lambda>p. p) Inr src dst frame_count
      else apply_downmix src dst (unat frame_count) bits)"

section \<open>A vector is so many scalar steps\<close>

lemma neon_end_props:
  assumes "lanes = 4 \<or> lanes = (8 :: nat)"
  shows "lanes dvd unat (neon_end n (of_nat lanes))" and "unat (neon_end n (of_nat lanes)) \<le> unat n"
proof -
  show "unat (neon_end n (of_nat lanes)) \<le> unat n"
    unfolding neon_end_def using word_and_le2 [of n] by (simp add: word_le_nat_alt)
  have low: "\<not> bit (neon_end n (of_nat lanes)) j" if "(2::nat) ^ j < lanes" for j
  proof -
    have "j < 3" using that assms by (auto intro: power_less_imp_less_exp [of "2::nat"])
    then have "j = 0 \<or> j = 1 \<or> j = 2" by arith
    then show ?thesis using that assms by (auto simp: neon_end_def bit_simps)
  qed
  have "take_bit k (neon_end n (of_nat lanes)) = 0" if "lanes = 2 ^ k" for k
    using low that by (intro bit_word_eqI) (auto simp: bit_simps)
  then have "take_bit k (unat (neon_end n (of_nat lanes))) = 0" if "lanes = 2 ^ k" for k
    using that by (metis unsigned_take_bit_eq unsigned_0)
  from this [of 2] this [of 3] assms show "lanes dvd unat (neon_end n (of_nat lanes))"
    by (auto simp: take_bit_eq_mod mod_eq_0_iff_dvd)
qed

lemma store_range_append:
  "store_range dst off (xs @ ys) = obind (store_range dst off xs) (\<lambda>d. store_range d (off + length xs) ys)"
  by (auto simp: store_range_def ac_simps)

lemma store_range_length: "store_range dst off xs = Inr d \<Longrightarrow> length d = length dst"
  by (auto simp: store_range_def split: if_splits)

text \<open>Samples whose scalar step does what the lane does.\<close>

definition lanes_agree ::
  "nat \<Rightarrow> nat \<Rightarrow> (u8 list \<Rightarrow> u8 list) \<Rightarrow> (u8 list \<Rightarrow> u8 list outcome) \<Rightarrow> u8 list \<Rightarrow> nat \<Rightarrow> bool" where
  "lanes_agree w stride vec f src n \<longleftrightarrow>
     (\<forall>i<n. length (vec (frame_at w src (i * stride))) = w \<and>
        (\<forall>q. f (frame_at w src (i * stride)) = Inr q \<longrightarrow> q = vec (frame_at w src (i * stride))))"

lemma scalar_steps_block:
  assumes "lanes_agree w stride vec f src n" and "scalar_steps w stride f src a (a + k) dst = Inr d"
    and "a + k \<le> n" and "n * w \<le> length dst" and "n * stride * w \<le> length src" and "0 < stride"
  shows "store_range dst (a * w) (concat (map (\<lambda>l. vec (frame_at w src ((a + l) * stride))) [0..<k])) = Inr d"
  using assms(2,3)
proof (induction k arbitrary: d)
  case 0
  have "a * w \<le> length dst" using 0 assms(4) le_trans [OF mult_le_mono1] by simp
  then show ?case using 0 by (simp add: scalar_steps_def store_range_def)
next
  case (Suc k)
  let ?vs = "map (\<lambda>l. vec (frame_at w src ((a + l) * stride))) [0..<k]"
  have split: "[a..<a + Suc k] = [a..<a + k] @ [a + k]" by simp
  from Suc.prems(1) obtain d0 where d0: "scalar_steps w stride f src a (a + k) dst = Inr d0"
    "obind (load_range src ((a + k) * stride * w) w) (\<lambda>p. obind (f p) (store_range d0 ((a + k) * w))) = Inr d"
    unfolding scalar_steps_def split for_each_append by (auto simp: obind_Inr_iff)
  have IH: "store_range dst (a * w) (concat ?vs) = Inr d0" using Suc.IH [OF d0(1)] Suc.prems(2) by simp
  have i: "a + k < n" using Suc.prems(2) by simp
  have "(a + k) * stride < n * stride" using i assms(6) by simp
  from frame_fits [OF this, of w] have "load_range src ((a + k) * stride * w) w = Inr (frame_at w src ((a + k) * stride))"
    using assms(5) by (simp add: load_range_def frame_at_def)
  then obtain q where q: "f (frame_at w src ((a + k) * stride)) = Inr q" "store_range d0 ((a + k) * w) q = Inr d"
    using d0(2) by (auto simp: obind_Inr_iff)
  have agree: "q = vec (frame_at w src ((a + k) * stride))" using assms(1) i q(1) by (auto simp: lanes_agree_def)
  have "length v = w" if "v \<in> set ?vs" for v using that assms(1) i by (auto simp: lanes_agree_def)
  then have "length (concat ?vs) = k * w" by (subst length_concat_const [of _ w]) simp_all
  then show ?case
    using IH q(2) by (simp add: agree store_range_append add_mult_distrib)
qed

lemma lane_loop_steps:
  assumes "lanes_agree w stride vec f src n" and "scalar_steps w stride f src 0 (m * lanes) dst = Inr d"
    and "m * lanes \<le> n" and "n * w \<le> length dst" and "n * stride * w \<le> length src" and "0 < stride" "0 < lanes"
  shows "lane_loop w stride lanes vec src dst (m * lanes) = Inr d \<and> length d = length dst"
  using assms(2,3)
proof (induction m arbitrary: d)
  case 0
  then show ?case by (simp add: scalar_steps_def lane_loop_def)
next
  case (Suc m)
  let ?a = "m * lanes" and ?p = "take (lanes * stride * w) (drop (m * lanes * stride * w) src)"
  have split: "[0..<Suc m * lanes] = [0..<?a] @ [?a..<?a + lanes]"
    using upt_add_eq_append [of 0 ?a lanes] by (simp add: add.commute)
  from Suc.prems(1) obtain d0 where d0: "scalar_steps w stride f src 0 ?a dst = Inr d0"
    "scalar_steps w stride f src ?a (?a + lanes) d0 = Inr d"
    unfolding scalar_steps_def split for_each_append by (auto simp: obind_Inr_iff)
  have IH: "lane_loop w stride lanes vec src dst ?a = Inr d0" "length d0 = length dst"
    using Suc.IH [OF d0(1)] Suc.prems(2) by simp_all
  have le: "?a + lanes \<le> n" using Suc.prems(2) by simp
  have st: "store_range d0 (?a * w) (concat (map (\<lambda>l. vec (frame_at w src ((?a + l) * stride))) [0..<lanes])) = Inr d"
    by (rule scalar_steps_block [OF assms(1) d0(2) le _ assms(5,6)]) (simp add: IH(2) assms(4))
  have "(?a + lanes) * stride * w \<le> n * stride * w" using le by (intro mult_le_mono1)
  then have "m * lanes * stride * w + lanes * stride * w \<le> length src"
    using assms(5) by (simp add: add_mult_distrib)
  then have ld: "load_range src (m * lanes * stride * w) (lanes * stride * w) = Inr ?p"
    by (simp add: load_range_def)
  have "frame_at w ?p (l * stride) = frame_at w src ((?a + l) * stride)" if "l < lanes" for l
    using that assms(6) by (simp add: frame_simps add_mult_distrib)
  then have vs: "map (\<lambda>l. vec (frame_at w ?p (l * stride))) [0..<lanes] =
      map (\<lambda>l. vec (frame_at w src ((?a + l) * stride))) [0..<lanes]"
    by simp
  have block: "obind (load_range src (m * lanes * stride * w) (lanes * stride * w)) (\<lambda>p.
      store_range d0 (m * lanes * w) (concat (map (\<lambda>l. vec (frame_at w p (l * stride))) [0..<lanes]))) = Inr d"
    unfolding ld obind_simps vs by (rule st)
  have "lane_loop w stride lanes vec src dst (Suc m * lanes) = Inr d"
    using IH(1) block assms(7) unfolding lane_loop_def by (simp add: for_each_append)
  then show ?case using store_range_length [OF st] IH(2) by simp
qed

lemma neon_loop_scalar:
  assumes "sample_loop w stride f src dst (unat n) = Inr d" and "lanes_agree w stride vec f src (unat n)"
    and "unat n * stride * w \<le> length src" and "unat n * w \<le> length dst" and "0 < stride"
    and "lanes = 4 \<or> lanes = 8"
  shows "neon_loop w stride lanes vec f src dst n = Inr d"
proof -
  let ?e = "unat (neon_end n (of_nat lanes))"
  note E = neon_end_props [OF assms(6), of n]
  obtain m where m: "?e = m * lanes" using E(1) by (auto simp: dvd_def mult.commute)
  have "[0..<unat n] = [0..<?e] @ [?e..<unat n]" using E(2) upt_add_eq_append [of 0 ?e "unat n - ?e"] by simp
  with assms(1) obtain d0 where d0: "scalar_steps w stride f src 0 ?e dst = Inr d0"
    "scalar_steps w stride f src ?e (unat n) d0 = Inr d"
    by (auto simp: sample_loop_def scalar_steps_def for_each_append obind_Inr_iff)
  have "lane_loop w stride lanes vec src dst (m * lanes) = Inr d0"
    using lane_loop_steps [OF assms(2) d0(1) [unfolded m] _ assms(4,3,5)] E(2) assms(6) m by auto
  then show ?thesis using d0(2) by (simp add: neon_loop_def Let_def m)
qed

section \<open>Gain and downmix against the scalar form\<close>

lemma sint_saturate:
  "sint (word_of_int (saturate 31 x) :: i32) = saturate 31 x"
  "sint (word_of_int (saturate 15 x) :: i16) = saturate 15 x"
  using f32.sint_clamped [of x] f16.sint_clamped [of x] by (simp_all add: saturate_def)

lemma neon_gain16_lane:
  assumes "gain_value fl32 32 (-32768) 32767 gain v = Inr r"
  shows "r = neon_gain16 fl32 gain v"
proof -
  let ?y = "trunc_rat (fl32 (fl32 (of_int (sint v)) * gain))"
  have y: "- (2 ^ 31) \<le> ?y" "?y < 2 ^ 31" "r = word_of_int (clamp ?y (-32768) 32767)"
    using assms by (auto simp: gain_value_def float_to_int_def obind_Inr_iff Let_def split: if_splits)
  have sat: "saturate 31 ?y = ?y" using y(1,2) by (simp add: saturate_def clamp_def)
  have wide: "sint (scast v :: i32) = sint v" by (rule sint_up_scast) (simp add: is_up)
  have i32: "vcvt_s32_f32 (vmul_f32 fl32 (vcvt_f32_s32 fl32 (scast v)) gain) = word_of_int ?y"
    unfolding vcvt_s32_f32_def vmul_f32_def vcvt_f32_s32_def wide sat by (rule refl)
  have again: "sint (word_of_int ?y :: i32) = ?y" using sint_saturate(1) [of ?y] by (simp only: sat)
  have "neon_gain16 fl32 gain v = word_of_int (saturate 15 ?y)"
    unfolding neon_gain16_def i32 vqmovn_s32_def again by (rule refl)
  then show ?thesis using y(3) by (simp add: saturate_def)
qed

text \<open>32 bits: the product is floored and reduced modulo \<open>2 ^ 32\<close>; there is no saturation.\<close>

lemma sint_neon_gain32: "sint (neon_gain32 fp v) = signed_take_bit 31 (sint v * sint fp div 2 ^ 14)"
proof -
  let ?p = "sint v * sint fp"
  have b: "\<bar>sint v\<bar> \<le> 2 ^ 31" "\<bar>sint fp\<bar> \<le> 2 ^ 31"
    using sint_ge [of v] sint_lt [of v] sint_ge [of fp] sint_lt [of fp] by (simp_all add: abs_le_iff)
  have "\<bar>?p\<bar> \<le> 2 ^ 31 * 2 ^ 31" unfolding abs_mult using b by (intro mult_mono) simp_all
  then have r: "- (2 ^ 63) \<le> ?p" "?p < 2 ^ 63" by (simp_all add: abs_le_iff)
  have "vmull_s32 v fp = (word_of_int ?p :: 64 word)"
    unfolding vmull_s32_def scast_eq by (simp only: of_int_mult)
  then have "sint (vmull_s32 v fp) = signed_take_bit 63 ?p"
    by (simp only: sint_sbintrunc') simp
  also have "\<dots> = ?p" using r by (intro signed_take_bit_int_eq_self) simp_all
  finally have p: "sint (vmull_s32 v fp) = ?p" .
  have "sint (signed_drop_bit 14 (vmull_s32 v fp)) = ?p div 2 ^ 14"
    unfolding sint_signed_drop_bit_eq p by (rule drop_bit_eq_div)
  moreover have "sint (ucast x :: i32) = signed_take_bit 31 (sint x)" for x :: "64 word"
  proof -
    have "sint (ucast x :: i32) = signed_take_bit 31 (uint x)"
      using signed_ucast_eq [of x, where 'c = 32] by simp
    also have "\<dots> = signed_take_bit 31 (signed_take_bit 63 (uint x))"
      by (simp add: signed_take_bit_eq_iff_take_bit_eq take_bit_signed_take_bit)
    finally show ?thesis by (simp only: sint_uint) simp
  qed
  ultimately show ?thesis by (simp only: neon_gain32_def vmovn_s64_def)
qed

section \<open>Properties\<close>

text \<open>
  C39: on ARM, 16-bit gain is the same function. Whenever the portable loop is defined, that is no
  product overflows the cast, the vector code computes the same bytes: eight samples at a time
  and a scalar tail, for every buffer and every number of samples.
\<close>

theorem neon_gain16_equals_scalar:
  assumes "apply_gain fl32 src dst (unat n) 16 gain = Inr dst'"
    and "unat n * 2 \<le> length src" and "unat n * 2 \<le> length dst"
  shows "apply_gain_neon fl32 fl64 src dst n 16 gain = Inr dst'"
proof -
  let ?f = "\<lambda>p. obind (gain_value fl32 32 (-32768) 32767 gain (i16_load p)) (\<lambda>v. Inr (i16_store v))"
  have "lanes_agree 2 1 (\<lambda>p. i16_store (neon_gain16 fl32 gain (i16_load p))) ?f src (unat n)"
    by (auto simp: lanes_agree_def obind_Inr_iff s16.length_enc dest: neon_gain16_lane)
  from neon_loop_scalar [OF _ this, of dst dst' 8] assms show ?thesis
    by (simp add: apply_gain_def apply_gain_neon_def)
qed

theorem neon_gain16_equals_scalar_witness:
  "\<exists>dst'. apply_gain fl32 (replicate 18 1) (replicate 18 0) (unat (9 :: u64)) 16 1 = Inr dst' \<and>
     apply_gain_neon fl32 fl64 (replicate 18 1) (replicate 18 0) 9 16 1 = Inr dst'"
proof -
  obtain dst' where "apply_gain fl32 (replicate 18 1) (replicate 18 0) (unat (9 :: u64)) 16 1 = Inr dst'"
    using apply_gain_ok [of 16 1 9 "replicate 18 1" "replicate 18 0"]
    by (auto simp: supported_bits_def gain_room_def bytes_of_bits_def)
  from this neon_gain16_equals_scalar [OF this] show ?thesis by simp
qed

text \<open>
  On ARM, the downmix is the same function, at every sample width: deinterleaving with
  \<open>vld2q\<close> and keeping the even elements copies what the scalar loop copies.
\<close>

theorem neon_downmix_equals_scalar:
  assumes "unat n * 2 * bytes_of_bits bits \<le> length src" and "unat n * bytes_of_bits bits \<le> length dst"
  shows "apply_downmix_neon src dst n bits = apply_downmix src dst (unat n) bits"
proof -
  have eq: "neon_loop w 2 lanes (\<lambda>p. p) Inr src dst n = sample_loop w 2 Inr src dst (unat n)"
    if w: "unat n * 2 * w \<le> length src" "unat n * w \<le> length dst" and l: "lanes = 4 \<or> lanes = 8" for w lanes
  proof -
    have fits: "i * 2 * w + w \<le> length src" if "i < unat n" for i
      using frame_fits [of "i * 2" "unat n * 2" w] that w(1) by simp
    have len: "length (frame_at w src (i * 2)) = w" if "i < unat n" for i
      using fits [OF that] by (simp add: frame_at_def)
    obtain d where "sample_loop w 2 Inr src dst (unat n) = Inr d"
      using sample_loop_ok [of "unat n" Inr w src 2 dst] fits len w(2) by auto
    moreover have "lanes_agree w 2 (\<lambda>p. p) Inr src (unat n)" using len by (simp add: lanes_agree_def)
    ultimately show ?thesis using neon_loop_scalar [of w 2 Inr src dst n d "\<lambda>p. p" lanes] w l by simp
  qed
  show ?thesis
    using assms eq [of 2 8] eq [of 4 4]
    by (auto simp: apply_downmix_neon_def apply_downmix_def bytes_of_bits_def)
qed

theorem neon_downmix_equals_scalar_witness:
  "apply_downmix_neon [1, 0, 2, 0, 3, 0, 4, 0] [0, 0, 0, 0] 2 16 = apply_downmix [1, 0, 2, 0, 3, 0, 4, 0] [0, 0, 0, 0] (unat (2 :: u64)) 16"
  by (rule neon_downmix_equals_scalar) (simp_all add: bytes_of_bits_def)

text \<open>
  On ARM, 32-bit gain does not saturate. The sample is multiplied by the gain in fixed point with
  14 fractional bits, floored, and reduced modulo \<open>2 ^ 32\<close>, because \<open>vmovn\<close> drops the high half of
  the product: at a gain of 2 the sample \<open>2 ^ 30\<close> comes out as \<open>- (2 ^ 31)\<close>.
\<close>

theorem neon_gain32_wraps:
  "sint (neon_gain32 fp v) = signed_take_bit 31 (sint v * sint fp div 2 ^ 14) \<and>
   sint (neon_gain32 32768 0x40000000) = - (2 ^ 31)"
proof -
  have "sint (0x40000000 :: i32) * sint (32768 :: i32) div 2 ^ 14 = 2 ^ 31" by simp
  then show ?thesis unfolding sint_neon_gain32 by simp
qed

end
