(* ===== verification/Neon_Meter.thy ===== *)
theory Neon_Meter
  imports Neon Level_Meter
begin

text \<open>
  The level meter in its ARM NEON form: peaks per lane and widened sums of squares over whole
  vectors, a reduction, and the scalar tail. One lemma covers both sample widths.
\<close>

section \<open>Intrinsics, per lane\<close>

text \<open>\<open>vabs\<close> wraps at the most negative value; \<open>vmull\<close>, \<open>vpadal\<close> and \<open>vmlal\<close> widen.\<close>

definition vabs :: "'a::len word \<Rightarrow> 'a word" where
  "vabs v = (if sint v < 0 then - v else v)"

definition vmax :: "'a::len word \<Rightarrow> 'a word \<Rightarrow> 'a word" where
  "vmax a b = (if sint a < sint b then b else a)"

definition vmull_s16 :: "i16 \<Rightarrow> i16 \<Rightarrow> i32" where
  "vmull_s16 a b = scast a * scast b"

definition vpadal_s32 :: "64 word \<Rightarrow> i32 \<Rightarrow> i32 \<Rightarrow> 64 word" where
  "vpadal_s32 acc a b = acc + (scast a + scast b)"

definition vmlal_s32 :: "64 word \<Rightarrow> i32 \<Rightarrow> i32 \<Rightarrow> 64 word" where
  "vmlal_s32 acc a b = acc + scast a * scast b"

section \<open>The loops\<close>

type_synonym 'a lanes_acc = "'a word list \<times> 64 word \<times> 64 word"

definition meter16_vector :: "16 lanes_acc \<Rightarrow> i16 list \<Rightarrow> 16 lanes_acc" where
  "meter16_vector acc v =
     (case acc of (vpeak, s0, s1) \<Rightarrow>
        let sq = map (\<lambda>x. vmull_s16 x x) v
        in (map2 vmax vpeak (map vabs v),
            vpadal_s32 (vpadal_s32 s0 (sq ! 0) (sq ! 1)) (sq ! 4) (sq ! 5),
            vpadal_s32 (vpadal_s32 s1 (sq ! 2) (sq ! 3)) (sq ! 6) (sq ! 7)))"

definition meter32_vector :: "32 lanes_acc \<Rightarrow> i32 list \<Rightarrow> 32 lanes_acc" where
  "meter32_vector acc v =
     (case acc of (vpeak, s0, s1) \<Rightarrow>
        let sh = map (signed_drop_bit 16) v
        in (map2 vmax vpeak (map vabs sh),
            vmlal_s32 (vmlal_s32 s0 (sh ! 0) (sh ! 0)) (sh ! 2) (sh ! 2),
            vmlal_s32 (vmlal_s32 s1 (sh ! 1) (sh ! 1)) (sh ! 3) (sh ! 3)))"

definition lanes_sum :: "(rat \<Rightarrow> rat) \<Rightarrow> 64 word \<Rightarrow> 64 word \<Rightarrow> rat" where
  "lanes_sum fld s0 s1 = fld (0 + fld (fld (of_int (sint s0)) + fld (of_int (sint s1))))"

definition meter16_reduce :: "(rat \<Rightarrow> rat) \<Rightarrow> 16 lanes_acc \<Rightarrow> int \<times> rat" where
  "meter16_reduce fld acc =
     (case acc of (vpeak, s0, s1) \<Rightarrow>
        (foldl (\<lambda>peak a. if peak < sint a then sint a else peak) 0
           (map2 vmax (take 4 vpeak) (drop 4 vpeak)), lanes_sum fld s0 s1))"

definition meter32_reduce :: "(rat \<Rightarrow> rat) \<Rightarrow> 32 lanes_acc \<Rightarrow> int \<times> rat" where
  "meter32_reduce fld acc =
     (case acc of (vpeak, s0, s1) \<Rightarrow>
        let pk = map2 vmax (take 2 vpeak) (drop 2 vpeak)
        in (max (sint (pk ! 0)) (sint (pk ! 1)), lanes_sum fld s0 s1))"

definition meter_vectors ::
  "nat \<Rightarrow> nat \<Rightarrow> (u8 list \<Rightarrow> 'v) \<Rightarrow> ('s \<Rightarrow> 'v list \<Rightarrow> 's) \<Rightarrow> u8 list \<Rightarrow> nat \<Rightarrow> 's \<Rightarrow> 's outcome" where
  "meter_vectors lanes w dec vec data m =
     for_each (\<lambda>j acc. obind (load_range data (j * lanes * w) (lanes * w))
       (\<lambda>p. Inr (vec acc (decode_all w dec lanes p)))) [0..<m]"

definition meter_steps ::
  "(rat \<Rightarrow> rat) \<Rightarrow> nat \<Rightarrow> (u8 list \<Rightarrow> int) \<Rightarrow> u8 list \<Rightarrow> nat \<Rightarrow> nat \<Rightarrow> int \<times> rat \<Rightarrow> (int \<times> rat) outcome" where
  "meter_steps fld w val data a b =
     for_each (\<lambda>i (peak, sum_sq). obind (load_range data (i * w) w) (\<lambda>p.
         let s = val p; abs_s = \<bar>s\<bar>
         in Inr (if peak < abs_s then abs_s else peak,
                 fld (sum_sq + fld (fld (of_int s) * fld (of_int s)))))) [a..<b]"

definition neon_meter16 :: "(rat \<Rightarrow> rat) \<Rightarrow> u8 list \<Rightarrow> u64 \<Rightarrow> (int \<times> rat) outcome" where
  "neon_meter16 fld data n =
     (let e = unat (neon_end n 8)
      in obind (meter_vectors 8 2 i16_load meter16_vector data (e div 8) (replicate 8 0, 0, 0))
           (\<lambda>acc. meter_steps fld 2 (\<lambda>p. sint (i16_load p)) data e (unat n) (meter16_reduce fld acc)))"

definition neon_meter32 :: "(rat \<Rightarrow> rat) \<Rightarrow> u8 list \<Rightarrow> u64 \<Rightarrow> (int \<times> rat) outcome" where
  "neon_meter32 fld data n =
     (let e = unat (neon_end n 4)
      in obind (meter_vectors 4 4 i32_load meter32_vector data (e div 4) (replicate 4 0, 0, 0))
           (\<lambda>acc. meter_steps fld 4 (\<lambda>p. sint (signed_drop_bit 16 (i32_load p))) data e (unat n)
                    (meter32_reduce fld acc)))"

section \<open>Vectors\<close>

text \<open>An invariant over the samples seen so far, kept by every vector.\<close>

lemma meter_vectors_inv:
  assumes "m * lanes \<le> n" and "n * w \<le> length data"
    and init: "Inv [] acc0"
    and step: "\<And>hist acc v. Inv hist acc \<Longrightarrow> length v = lanes \<Longrightarrow> Inv (hist @ v) (vec acc v)"
  shows "\<exists>acc. meter_vectors lanes w dec vec data m acc0 = Inr acc \<and> Inv (take (m * lanes) (decode_all w dec n data)) acc"
  unfolding meter_vectors_def
proof (rule for_each_upto [where P = "\<lambda>i acc. Inv (take (i * lanes) (decode_all w dec n data)) acc"], goal_cases)
  case 1
  show ?case using init by simp
next
  case (2 i acc)
  let ?xs = "decode_all w dec n data" and ?p = "take (lanes * w) (drop (i * lanes * w) data)"
  have "Suc i * lanes \<le> m * lanes" using 2(1) by (intro mult_le_mono1) simp
  then have le: "i * lanes + lanes \<le> n" using assms(1) by (simp add: add.commute)
  then have "(i * lanes + lanes) * w \<le> n * w" by (rule mult_le_mono1)
  then have load: "load_range data (i * lanes * w) (lanes * w) = Inr ?p"
    using assms(2) by (simp add: load_range_def add_mult_distrib)
  have "frame_at w ?p l = frame_at w data (i * lanes + l)" if "l < lanes" for l
    unfolding frame_at_take [OF that] by (rule frame_at_drop)
  then have block: "decode_all w dec lanes ?p = take lanes (drop (i * lanes) ?xs)"
    using le by (intro nth_equalityI) (simp_all add: decode_all_def frames_of_def)
  have next': "take (Suc i * lanes) ?xs = take (i * lanes) ?xs @ decode_all w dec lanes ?p"
    unfolding block using take_add [of "i * lanes" lanes ?xs] by (simp add: add.commute)
  have "Inv (take (Suc i * lanes) ?xs) (vec acc (decode_all w dec lanes ?p))"
    unfolding next' using 2(2) by (rule step) (simp add: decode_all_def)
  then show ?case by (simp add: load)
qed

section \<open>The tail\<close>

lemma meter_steps_ok:
  assumes "e \<le> length xs" and data: "length xs * w \<le> length data"
    and val: "\<And>i. i < length xs \<Longrightarrow> val (frame_at w data i) = xs ! i"
    and small: "\<And>s. s \<in> set xs \<Longrightarrow> \<bar>s\<bar> \<le> 2 ^ 15" and few: "int (length xs) * 2 ^ 30 < 2 ^ 53" and "0 \<le> pk"
  shows "meter_steps fl64 w val data e (length xs) (pk, of_int (square_sum (take e xs))) =
         Inr (max pk (peak_of (drop e xs)), of_int (square_sum xs))"
    (is "?lhs = _")
proof -
  let ?body = "\<lambda>i (peak, sum_sq). obind (load_range data (i * w) w) (\<lambda>p.
      let s = val p; abs_s = \<bar>s\<bar>
      in Inr (if peak < abs_s then abs_s else peak, fl64 (sum_sq + fl64 (fl64 (of_int s) * fl64 (of_int s)))))"
  let ?P = "\<lambda>i r. r = (max pk (peak_of (take i (drop e xs))), of_int (square_sum (take (e + i) xs)))"
  have "\<exists>r. for_each (\<lambda>i. ?body (e + i)) [0..<length xs - e] (pk, of_int (square_sum (take e xs))) = Inr r \<and>
      ?P (length xs - e) r"
  proof (rule for_each_upto [where P = ?P], goal_cases)
    case 1
    show ?case using assms(6) by (simp add: max_absorb1)
  next
    case (2 i r)
    let ?k = "e + i"
    have k: "?k < length xs" using 2(1) by simp
    have load: "load_range data (?k * w) w = Inr (frame_at w data ?k)"
      using frame_fits [OF k, of w] data by (simp add: load_range_def frame_at_def)
    have next': "take (Suc ?k) xs = take ?k xs @ [xs ! ?k]" "take (Suc i) (drop e xs) = take i (drop e xs) @ [xs ! ?k]"
      using k by (simp_all add: take_Suc_conv_app_nth)
    have bound: "0 \<le> square_sum (take j xs) \<and> square_sum (take j xs) \<le> int (length (take j xs)) * 2 ^ (2 * 15)" for j
      using small by (intro square_sum_bound) (auto dest: in_set_takeD)
    have "int (length (take (Suc ?k) xs)) * 2 ^ (2 * 15) \<le> int (length xs) * 2 ^ (2 * 15)"
      by (intro mult_right_mono) simp_all
    from order_trans [OF conjunct2 [OF bound [of "Suc ?k"]] this]
    have "square_sum (take (Suc ?k) xs) < 2 ^ 53" by (rule le_less_trans) (use few in simp)
    then have "\<bar>square_sum (take ?k xs)\<bar> + xs ! ?k * xs ! ?k < 2 ^ 53" using bound [of ?k] by (simp add: next')
    moreover have "\<bar>xs ! ?k\<bar> \<le> 2 ^ 23" using small [of "xs ! ?k"] k by simp
    ultimately have sq: "fl64 (of_int (square_sum (take ?k xs)) + fl64 (fl64 (of_int (xs ! ?k)) * fl64 (of_int (xs ! ?k)))) =
        of_int (square_sum (take (Suc ?k) xs))"
      using meter_step_exact [of "xs ! ?k" "square_sum (take ?k xs)"] by (simp add: next')
    have step: "?body ?k (a, of_int (square_sum (take ?k xs))) =
        Inr (max a \<bar>xs ! ?k\<bar>, of_int (square_sum (take (Suc ?k) xs)))" for a
      unfolding prod.case load obind_simps Let_def val [OF k] sq by (simp add: max_def)
    have pk: "max pk (peak_of (take (Suc i) (drop e xs))) = max (max pk (peak_of (take i (drop e xs)))) \<bar>xs ! ?k\<bar>"
      by (simp add: next'(2) max.assoc)
    show ?case
      by (rule exI, rule conjI, subst 2(2), rule step) (simp only: pk add_Suc_right)
  qed
  moreover have "map ((+) e) [0..<length xs - e] = [e..<length xs]"
  proof -
    have "(+) e = (\<lambda>i. i + e)" by (simp add: fun_eq_iff add.commute)
    then show ?thesis using map_add_upt [of e "length xs - e"] assms(1) by simp
  qed
  ultimately show ?thesis
    using assms(1) for_each_map [of ?body "(+) e" "[0..<length xs - e]"] by (simp add: meter_steps_def)
qed

section \<open>Peaks and sums of lanes\<close>

definition lane_max :: "'a::len word list \<Rightarrow> int" where
  "lane_max vs = foldl (\<lambda>p v. max p (sint v)) 0 vs"

lemma foldl_max: "foldl (\<lambda>p v. max p (f v)) (max a b) vs = max a (foldl (\<lambda>p v. max p (f v)) b vs)" for a b :: int
  by (induction vs arbitrary: b) (simp_all add: max.assoc)

lemma lane_max_Cons: "lane_max (v # vs) = max (max 0 (sint v)) (lane_max vs)"
  using foldl_max [of sint "sint v" 0 vs] foldl_max [of sint 0 "sint v" vs]
  by (simp add: lane_max_def max.commute max.left_commute)

lemma lane_max_nonneg: "0 \<le> lane_max vs"
  by (induction vs) (simp_all add: lane_max_Cons, simp add: lane_max_def)

lemma lane_max_append: "lane_max (vs @ ws) = max (lane_max vs) (lane_max ws)"
  by (induction vs) (simp_all add: lane_max_Cons max.assoc, simp add: lane_max_def max_absorb2 lane_max_nonneg [unfolded lane_max_def])

lemma lane_max_map2: "length vs = length ws \<Longrightarrow> lane_max (map2 vmax vs ws) = max (lane_max vs) (lane_max ws)"
proof (induction vs ws rule: list_induct2)
  case (Cons v vs w ws)
  have "max 0 (sint (vmax v w)) = max (max 0 (sint v)) (max 0 (sint w))" by (auto simp: vmax_def max_def)
  with Cons show ?case by (simp add: lane_max_Cons max.assoc max.left_commute)
qed (simp add: lane_max_def)

lemma peak_of_append: "peak_of (xs @ ys) = max (peak_of xs) (peak_of ys)"
proof (induction ys rule: rev_induct)
  case Nil
  show ?case using peak_of_bounds(2) [of xs] by (simp add: max_absorb1)
next
  case (snoc y ys)
  then show ?case using peak_of_simps(2) [of "xs @ ys" y] by (simp add: max.assoc)
qed

lemma square_sum_append: "square_sum (xs @ ys) = square_sum xs + square_sum ys"
  by (simp add: square_sum_def)

text \<open>In 16 bits \<open>vabs\<close> leaves -32768 as it is, so it never counts as a peak; in 32 bits it is exact.\<close>

lemma sint_vabs16: "sint (vabs (v :: i16)) = (if sint v = - 32768 then - 32768 else \<bar>sint v\<bar>)"
proof -
  have "sint (- v) = signed_take_bit 15 (- sint v)" by (simp only: sint_word_minus) simp
  moreover have "- 32768 \<le> sint v" "sint v < 32768" using sint_ge [of v] sint_lt [of v] by simp_all
  moreover have "signed_take_bit 15 (32768 :: int) = - 32768" by (simp add: signed_take_bit_numeral_bit1)
  moreover have "signed_take_bit 15 (- sint v) = - sint v" if "sint v \<noteq> - 32768" "sint v < 0"
    using that calculation(2) by (intro signed_take_bit_int_eq_self) simp_all
  ultimately show ?thesis by (cases "sint v = - 32768") (auto simp: vabs_def)
qed

lemma sint_vabs32: "\<bar>sint (v :: i32)\<bar> \<le> 2 ^ 15 \<Longrightarrow> sint (vabs v) = \<bar>sint v\<bar>"
proof -
  assume small: "\<bar>sint v\<bar> \<le> 2 ^ 15"
  have "sint (- v) = signed_take_bit 31 (- sint v)" by (simp only: sint_word_minus) simp
  also have "\<dots> = - sint v" using small by (intro signed_take_bit_int_eq_self) (simp_all add: abs_le_iff)
  finally show ?thesis by (simp add: vabs_def)
qed

lemma lane_max_vabs16: "lane_max (map vabs (vs :: i16 list)) = peak_of (filter (\<lambda>s. s \<noteq> - 32768) (map sint vs))"
proof (induction vs rule: rev_induct)
  case (snoc v vs)
  have "lane_max [vabs v] = (if sint v = - 32768 then 0 else \<bar>sint v\<bar>)"
    by (simp add: lane_max_def sint_vabs16)
  with snoc show ?case using peak_of_bounds(2) [of "filter (\<lambda>s. s \<noteq> - 32768) (map sint vs)"]
    by (simp add: lane_max_append)
qed (simp add: lane_max_def)

lemma lane_max_vabs32:
  "(\<And>v. v \<in> set vs \<Longrightarrow> \<bar>sint v\<bar> \<le> 2 ^ 15) \<Longrightarrow> lane_max (map vabs (vs :: i32 list)) = peak_of (map sint vs)"
proof (induction vs rule: rev_induct)
  case (snoc v vs)
  have "lane_max [vabs v] = \<bar>sint v\<bar>" using snoc.prems [of v] by (simp add: lane_max_def sint_vabs32)
  then show ?case using snoc by (simp add: lane_max_append)
qed (simp add: lane_max_def)

text \<open>The sums of the two lanes together are the sum of squares.\<close>

definition sums_hold :: "int \<Rightarrow> 64 word \<Rightarrow> 64 word \<Rightarrow> bool" where
  "sums_hold t s0 s1 \<longleftrightarrow> (\<exists>a b. 0 \<le> a \<and> 0 \<le> b \<and> a + b = t \<and> s0 = of_int a \<and> s1 = of_int b)"

lemma sums_hold_add:
  assumes "sums_hold t s0 s1" and "0 \<le> a" "0 \<le> b" "u = t + (a + b)"
  shows "sums_hold u (s0 + of_int a) (s1 + of_int b)"
proof -
  obtain c d where "0 \<le> c" "0 \<le> d" "c + d = t" "s0 = of_int c" "s1 = of_int d"
    using assms(1) by (auto simp: sums_hold_def)
  then show ?thesis using assms(2-4) unfolding sums_hold_def by (intro exI [of _ "c + a"] exI [of _ "d + b"]) simp
qed

lemma lanes_sum_ok:
  assumes "sums_hold t s0 s1" and "t < 2 ^ 53"
  shows "lanes_sum fl64 s0 s1 = of_int t"
proof -
  obtain a b where ab: "0 \<le> a" "0 \<le> b" "a + b = t" "s0 = of_int a" "s1 = of_int b"
    using assms(1) by (auto simp: sums_hold_def)
  have lt: "\<bar>a\<bar> < 2 ^ 53" "\<bar>b\<bar> < 2 ^ 53" "\<bar>t\<bar> < 2 ^ 53" using ab assms(2) by linarith+
  have "sint (of_int k :: 64 word) = k" if "0 \<le> k" "\<bar>k\<bar> < 2 ^ 53" for k
    using that by (simp add: sint_sbintrunc' signed_take_bit_int_eq_self)
  then have "sint s0 = a" "sint s1 = b" using ab lt by simp_all
  moreover have "(of_int a + of_int b :: rat) = of_int t" using ab(3) by simp
  ultimately show ?thesis
    by (simp add: lanes_sum_def fl64_int [OF lt(1)] fl64_int [OF lt(2)] fl64_int [OF lt(3)] del: of_int_sint)
qed

lemma scast_square: "(scast (vmull_s16 x x) :: 64 word) = of_int (sint x * sint x)"
proof -
  have "\<bar>sint x\<bar> \<le> 2 ^ 15" using sint_ge [of x] sint_lt [of x] by (simp add: abs_le_iff)
  then have b: "sint x * sint x \<le> 2 ^ (2 * 15)" using square_bound [of "sint x" 15] by simp_all
  have "vmull_s16 x x = word_of_int (sint x * sint x)"
    unfolding vmull_s16_def scast_eq by (simp only: of_int_mult)
  then have "sint (vmull_s16 x x) = signed_take_bit 31 (sint x * sint x)" by (simp only: sint_sbintrunc') simp
  also have "\<dots> = sint x * sint x"
  proof (rule signed_take_bit_int_eq_self)
    show "- (2 ^ 31) \<le> sint x * sint x" by (rule order_trans [of _ 0]) simp_all
    show "sint x * sint x < 2 ^ 31" using b(1) by simp
  qed
  finally show ?thesis unfolding scast_eq by (simp only:)
qed

section \<open>Sixteen bits\<close>

definition inv16 :: "i16 list \<Rightarrow> 16 lanes_acc \<Rightarrow> bool" where
  "inv16 hist acc \<longleftrightarrow>
     (case acc of (vpeak, s0, s1) \<Rightarrow>
        length vpeak = 8 \<and> lane_max vpeak = peak_of (filter (\<lambda>s. s \<noteq> - 32768) (map sint hist)) \<and>
        sums_hold (square_sum (map sint hist)) s0 s1)"

lemma inv16_step:
  assumes "inv16 hist acc" and "length v = 8"
  shows "inv16 (hist @ v) (meter16_vector acc v)"
proof -
  obtain vpeak s0 s1 where acc: "acc = (vpeak, s0, s1)" by (cases acc) auto
  note I = assms(1) [unfolded inv16_def acc prod.case]
  obtain v0 v1 v2 v3 v4 v5 v6 v7 where v: "v = [v0, v1, v2, v3, v4, v5, v6, v7]"
    using assms(2) by (auto simp: numeral_eq_Suc length_Suc_conv)
  define q where "q x = sint x * sint x" for x :: i16
  have q: "0 \<le> q x" "(scast (vmull_s16 x x) :: 64 word) = of_int (q x)" for x
    by (simp_all add: q_def scast_square)
  let ?a = "(q v0 + q v1) + (q v4 + q v5)" and ?b = "(q v2 + q v3) + (q v6 + q v7)"
  have m: "meter16_vector acc v = (map2 vmax vpeak (map vabs v), s0 + of_int ?a, s1 + of_int ?b)"
    by (simp add: meter16_vector_def acc v Let_def vpadal_s32_def q(2) algebra_simps)
  have "square_sum (map sint (hist @ v)) = square_sum (map sint hist) + (?a + ?b)"
    by (simp add: square_sum_def v q_def)
  with I have "sums_hold (square_sum (map sint (hist @ v))) (s0 + of_int ?a) (s1 + of_int ?b)"
    using q(1) by (intro sums_hold_add) simp_all
  moreover have "lane_max (map2 vmax vpeak (map vabs v)) = peak_of (filter (\<lambda>s. s \<noteq> - 32768) (map sint (hist @ v)))"
    using I assms(2) by (simp add: lane_max_map2 lane_max_vabs16 peak_of_append)
  ultimately show ?thesis unfolding m inv16_def using I assms(2) by simp
qed

lemma lane_max_zero: "lane_max (replicate k 0) = 0"
  by (induction k) (simp_all add: lane_max_Cons, simp add: lane_max_def)

lemma sums_hold_zero: "sums_hold 0 0 0"
  unfolding sums_hold_def by (intro exI [of _ 0]) simp

lemma reduce16:
  assumes "inv16 hist acc" and "square_sum (map sint hist) < 2 ^ 53"
  shows "meter16_reduce fl64 acc =
    (peak_of (filter (\<lambda>s. s \<noteq> - 32768) (map sint hist)), of_int (square_sum (map sint hist)))"
proof -
  obtain vpeak s0 s1 where acc: "acc = (vpeak, s0, s1)" by (cases acc) auto
  note I = assms(1) [unfolded inv16_def acc prod.case]
  have "lane_max (map2 vmax (take 4 vpeak) (drop 4 vpeak)) = lane_max vpeak"
    using I by (subst lane_max_map2) (simp_all flip: lane_max_append)
  moreover have "(\<lambda>peak a. if peak < sint a then sint a else peak) = (\<lambda>p v :: i16. max p (sint v))"
    by (auto simp: fun_eq_iff max_def)
  ultimately show ?thesis
    using I lanes_sum_ok [of "square_sum (map sint hist)" s0 s1] assms(2)
    by (simp add: meter16_reduce_def acc lane_max_def)
qed

section \<open>Thirty-two bits\<close>

definition high_half :: "i32 \<Rightarrow> int" where
  "high_half v = sint (signed_drop_bit 16 v)"

lemma high_half_small: "\<bar>high_half v\<bar> \<le> 2 ^ 15"
proof -
  have "- (2 ^ 31) div 2 ^ 16 \<le> sint v div 2 ^ 16" "sint v div 2 ^ 16 \<le> (2 ^ 31 - 1) div (2 ^ 16)"
    using sint_ge [of v] sint_lt [of v] by (intro zdiv_mono1; simp)+
  then show ?thesis by (simp add: high_half_def sint_high_half abs_le_iff)
qed

definition inv32 :: "i32 list \<Rightarrow> 32 lanes_acc \<Rightarrow> bool" where
  "inv32 hist acc \<longleftrightarrow>
     (case acc of (vpeak, s0, s1) \<Rightarrow>
        length vpeak = 4 \<and> (\<forall>x \<in> set vpeak. 0 \<le> sint x) \<and> lane_max vpeak = peak_of (map high_half hist) \<and>
        sums_hold (square_sum (map high_half hist)) s0 s1)"

lemma inv32_step:
  assumes "inv32 hist acc" and "length v = 4"
  shows "inv32 (hist @ v) (meter32_vector acc v)"
proof -
  obtain vpeak s0 s1 where acc: "acc = (vpeak, s0, s1)" by (cases acc) auto
  note I = assms(1) [unfolded inv32_def acc prod.case]
  obtain v0 v1 v2 v3 where v: "v = [v0, v1, v2, v3]"
    using assms(2) by (auto simp: numeral_eq_Suc length_Suc_conv)
  obtain p0 p1 p2 p3 where p: "vpeak = [p0, p1, p2, p3]"
    using I by (auto simp: numeral_eq_Suc length_Suc_conv)
  define q where "q x = high_half x * high_half x" for x
  have q: "0 \<le> q x" "(scast (signed_drop_bit 16 x) * scast (signed_drop_bit 16 x) :: 64 word) = of_int (q x)" for x
    unfolding q_def high_half_def scast_eq by (simp_all only: of_int_mult) simp
  let ?a = "q v0 + q v2" and ?b = "q v1 + q v3" and ?sh = "map (signed_drop_bit 16) v"
  have m: "meter32_vector acc v = (map2 vmax vpeak (map vabs ?sh), s0 + of_int ?a, s1 + of_int ?b)"
    by (simp add: meter32_vector_def acc v Let_def vmlal_s32_def q(2) algebra_simps)
  have "square_sum (map high_half (hist @ v)) = square_sum (map high_half hist) + (?a + ?b)"
    by (simp add: square_sum_def v q_def)
  with I have "sums_hold (square_sum (map high_half (hist @ v))) (s0 + of_int ?a) (s1 + of_int ?b)"
    using q(1) by (intro sums_hold_add) simp_all
  moreover have "lane_max (map vabs ?sh) = peak_of (map high_half v)"
    using lane_max_vabs32 [of ?sh] high_half_small by (auto simp: high_half_def [abs_def] comp_def)
  then have "lane_max (map2 vmax vpeak (map vabs ?sh)) = peak_of (map high_half (hist @ v))"
    using I assms(2) by (simp add: lane_max_map2 peak_of_append)
  moreover have "\<forall>x \<in> set (map2 vmax vpeak (map vabs ?sh)). 0 \<le> sint x"
    using I by (auto simp: p v vmax_def)
  ultimately show ?thesis unfolding m inv32_def using I assms(2) by simp
qed

lemma reduce32:
  assumes "inv32 hist acc" and "square_sum (map high_half hist) < 2 ^ 53"
  shows "meter32_reduce fl64 acc = (peak_of (map high_half hist), of_int (square_sum (map high_half hist)))"
proof -
  obtain vpeak s0 s1 where acc: "acc = (vpeak, s0, s1)" by (cases acc) auto
  note I = assms(1) [unfolded inv32_def acc prod.case]
  obtain p0 p1 p2 p3 where p: "vpeak = [p0, p1, p2, p3]"
    using I by (auto simp: numeral_eq_Suc length_Suc_conv)
  have "lane_max vpeak = max (sint (vmax p0 p2)) (sint (vmax p1 p3))"
    using I by (auto simp: p lane_max_def vmax_def max_def)
  then show ?thesis
    using I lanes_sum_ok [of "square_sum (map high_half hist)" s0 s1] assms(2)
    by (simp add: meter32_reduce_def acc p)
qed

section \<open>The whole meter\<close>

lemma few_samples:
  assumes "(n :: nat) \<le> 2 ^ 22"
  shows "int n * 2 ^ 30 < 2 ^ 53"
proof -
  have "int n \<le> int (2 ^ 22)" using assms by (simp only: of_nat_le_iff)
  then have "int n * 2 ^ 30 \<le> int (2 ^ 22) * 2 ^ 30" by (rule mult_right_mono) simp
  then show ?thesis by simp
qed

lemma few_square_sum:
  assumes "length xs \<le> 2 ^ 22" and "\<And>s. s \<in> set xs \<Longrightarrow> \<bar>s\<bar> \<le> 2 ^ 15"
  shows "square_sum xs < 2 ^ 53"
proof -
  have "square_sum xs \<le> int (length xs) * 2 ^ (2 * 15)" using square_sum_bound [of xs 15] assms(2) by blast
  then show ?thesis using few_samples [OF assms(1)] by simp
qed

lemma neon_meter16_ok:
  assumes data: "unat n * 2 \<le> length data" and few: "unat n \<le> 2 ^ 22"
  defines "xs \<equiv> sample_ints 16 (unat n) data" and "e \<equiv> unat (neon_end n 8)"
  shows "neon_meter16 fl64 data n =
    Inr (max (peak_of (filter (\<lambda>s. s \<noteq> - 32768) (take e xs))) (peak_of (drop e xs)), of_int (square_sum xs))"
proof -
  let ?vs = "decode_all 2 i16_load (unat n) data"
  have xs: "xs = map sint ?vs" by (simp add: xs_def sample_ints_def pcm_ints_def)
  have len: "length xs = unat n" by (simp add: xs_def)
  have E: "8 dvd e" "e \<le> unat n" using neon_end_props [of 8 n] by (simp_all add: e_def)
  then have m: "e div 8 * 8 = e" by simp
  have small: "\<bar>s\<bar> \<le> 2 ^ 15" if mem: "s \<in> set xs" for s
  proof -
    obtain v :: i16 where "s = sint v" using mem by (auto simp: xs)
    then show ?thesis using sint_ge [of v] sint_lt [of v] by (simp add: abs_le_iff)
  qed
  have "inv16 [] (replicate 8 0, 0, 0)" by (simp add: inv16_def lane_max_zero sums_hold_zero)
  then have "\<exists>acc. meter_vectors 8 2 i16_load meter16_vector data (e div 8) (replicate 8 0, 0, 0) = Inr acc \<and>
      inv16 (take (e div 8 * 8) ?vs) acc"
    by (intro meter_vectors_inv inv16_step) (use E(2) data m in simp_all)
  then obtain acc where acc: "meter_vectors 8 2 i16_load meter16_vector data (e div 8) (replicate 8 0, 0, 0) = Inr acc"
    "inv16 (take e ?vs) acc" unfolding m by blast
  have t: "square_sum (map sint (take e ?vs)) < 2 ^ 53"
    using small few len by (intro few_square_sum) (auto simp: xs take_map dest: in_set_takeD)
  have red: "meter16_reduce fl64 acc = (peak_of (filter (\<lambda>s. s \<noteq> - 32768) (take e xs)), of_int (square_sum (take e xs)))"
    using reduce16 [OF acc(2) t] by (simp add: xs take_map)
  have val: "sint (i16_load (frame_at 2 data i)) = xs ! i" if "i < length xs" for i
    using that by (simp add: xs decode_all_def)
  have "meter_steps fl64 2 (\<lambda>p. sint (i16_load p)) data e (length xs) (peak_of (filter (\<lambda>s. s \<noteq> - 32768) (take e xs)),
      of_int (square_sum (take e xs))) =
    Inr (max (peak_of (filter (\<lambda>s. s \<noteq> - 32768) (take e xs))) (peak_of (drop e xs)), of_int (square_sum xs))"
    by (rule meter_steps_ok) (use E(2) data len val small few_samples [OF few] peak_of_bounds(2) in auto)
  then show ?thesis
    unfolding neon_meter16_def Let_def e_def [symmetric] acc(1) obind_simps red len .
qed

lemma neon_meter32_ok:
  assumes data: "unat n * 4 \<le> length data" and few: "unat n \<le> 2 ^ 22"
  defines "xs \<equiv> levels 32 (unat n) data"
  shows "neon_meter32 fl64 data n = Inr (peak_of xs, of_int (square_sum xs))"
proof -
  let ?vs = "decode_all 4 i32_load (unat n) data"
  define e where "e = unat (neon_end n 4)"
  have xs: "xs = map high_half ?vs"
    by (simp add: xs_def levels_def sample_ints_def pcm_ints_def meter_level_def high_half_def sint_high_half)
  have len: "length xs = unat n" by (simp add: xs_def levels_def)
  have E: "4 dvd e" "e \<le> unat n" using neon_end_props [of 4 n] by (simp_all add: e_def)
  then have m: "e div 4 * 4 = e" by simp
  have small: "\<bar>s\<bar> \<le> 2 ^ 15" if "s \<in> set xs" for s
    using that high_half_small by (auto simp: xs)
  have "inv32 [] (replicate 4 0, 0, 0)" by (simp add: inv32_def lane_max_zero sums_hold_zero)
  then have "\<exists>acc. meter_vectors 4 4 i32_load meter32_vector data (e div 4) (replicate 4 0, 0, 0) = Inr acc \<and>
      inv32 (take (e div 4 * 4) ?vs) acc"
    by (intro meter_vectors_inv inv32_step) (use E(2) data m in simp_all)
  then obtain acc where acc: "meter_vectors 4 4 i32_load meter32_vector data (e div 4) (replicate 4 0, 0, 0) = Inr acc"
    "inv32 (take e ?vs) acc" unfolding m by blast
  have t: "square_sum (map high_half (take e ?vs)) < 2 ^ 53"
    using small few len by (intro few_square_sum) (auto simp: xs take_map dest: in_set_takeD)
  have red: "meter32_reduce fl64 acc = (peak_of (take e xs), of_int (square_sum (take e xs)))"
    using reduce32 [OF acc(2) t] by (simp add: xs take_map)
  have val: "sint (signed_drop_bit 16 (i32_load (frame_at 4 data i))) = xs ! i" if "i < length xs" for i
    using that by (simp add: xs decode_all_def high_half_def)
  have "meter_steps fl64 4 (\<lambda>p. sint (signed_drop_bit 16 (i32_load p))) data e (length xs) (peak_of (take e xs),
      of_int (square_sum (take e xs))) = Inr (max (peak_of (take e xs)) (peak_of (drop e xs)), of_int (square_sum xs))"
    by (rule meter_steps_ok) (use E(2) data len val small few_samples [OF few] peak_of_bounds(2) in auto)
  moreover have "max (peak_of (take e xs)) (peak_of (drop e xs)) = peak_of xs"
    using peak_of_append [of "take e xs" "drop e xs"] by simp
  ultimately show ?thesis
    unfolding neon_meter32_def Let_def e_def [symmetric] acc(1) obind_simps red len by simp
qed

section \<open>Properties\<close>

lemma scalar_meter:
  assumes "supported_bits bits" "bits \<noteq> 24" and "unat n * bytes_of_bits bits \<le> length data" and "unat n \<le> 2 ^ 22"
  shows "meter fl64 data (unat n) bits =
    Inr (peak_of (levels bits (unat n) data), of_int (square_sum (levels bits (unat n) data)))"
  using meter_ok [OF assms(1,3)] few_samples [OF assms(4)] assms(2) by (auto simp: meter_bits_def)

text \<open>
  C40: on ARM, the 16-bit meter overlooks full-scale negative samples. The sum of squares, and so
  the RMS value, is exact and the same; the peak is the same as long as no sample of a whole
  vector is -32768. Such a sample counts as 0, because \<open>vabs\<close> leaves it negative: a signal
  clipped at -32768 throughout has an RMS of full scale and a peak of 0.
\<close>

theorem neon_meter16_peak:
  assumes "unat n * 2 \<le> length data" and "unat n \<le> 2 ^ 22" and "e = unat (neon_end n 8)"
    and "xs = sample_ints 16 (unat n) data"
  shows "neon_meter16 fl64 data n =
      Inr (max (peak_of (filter (\<lambda>s. s \<noteq> - 32768) (take e xs))) (peak_of (drop e xs)), of_int (square_sum xs)) \<and>
    meter fl64 data (unat n) 16 = Inr (peak_of xs, of_int (square_sum xs)) \<and>
    (- 32768 \<notin> set (take e xs) \<longrightarrow> neon_meter16 fl64 data n = meter fl64 data (unat n) 16)"
proof -
  have "levels 16 (unat n) data = xs" by (simp add: levels_def meter_level_def assms(4) map_idI)
  then have scalar: "meter fl64 data (unat n) 16 = Inr (peak_of xs, of_int (square_sum xs))"
    using scalar_meter [of 16 n data] assms(1,2) by (simp add: supported_bits_def bytes_of_bits_def)
  have vec: "neon_meter16 fl64 data n =
      Inr (max (peak_of (filter (\<lambda>s. s \<noteq> - 32768) (take e xs))) (peak_of (drop e xs)), of_int (square_sum xs))"
    unfolding assms(3,4) by (rule neon_meter16_ok [OF assms(1,2)])
  have "max (peak_of (filter (\<lambda>s. s \<noteq> - 32768) (take e xs))) (peak_of (drop e xs)) = peak_of xs"
    if "- 32768 \<notin> set (take e xs)"
  proof -
    have "filter (\<lambda>s. s \<noteq> - 32768) (take e xs) = take e xs" using that by (intro filter_True) auto
    then show ?thesis using peak_of_append [of "take e xs" "drop e xs"] by simp
  qed
  with vec scalar show ?thesis by simp
qed

theorem neon_meter16_peak_witness:
  "\<exists>r. neon_meter16 fl64 (concat (replicate 8 [0, 0x80])) 8 = Inr (0, r) \<and>
     meter fl64 (concat (replicate 8 [0, 0x80])) (unat (8 :: u64)) 16 = Inr (32768, r)"
proof -
  let ?d = "concat (replicate 8 [0, 0x80 :: u8])"
  have "frames_of 2 8 ?d = replicate 8 [0, 0x80]"
    using frames_of_concat [of "replicate 8 [0, 0x80 :: u8]" 2] by simp
  moreover have "sint (i16_load [0, 0x80]) = - 32768" by (simp add: i16_load_def)
  ultimately have "sample_ints 16 8 ?d = replicate 8 (- 32768)"
    by (simp add: sample_ints_def pcm_ints_def decode_all_def)
  then have xs: "sample_ints 16 (unat (8 :: u64)) ?d = replicate 8 (- 32768)" by simp
  have e: "unat (neon_end 8 8) = 8" by (simp add: neon_end_def)
  have pos: "filter (\<lambda>s. s \<noteq> - 32768) (take 8 (replicate 8 (- 32768 :: int))) = []" by simp
  have peak: "peak_of (replicate 8 (- 32768)) = 32768"
    using peak_of_attained [of "replicate 8 (- 32768)"] by simp
  have "unat (8 :: u64) * 2 \<le> length ?d" "unat (8 :: u64) \<le> 2 ^ 22" by (simp_all add: length_concat sum_list_replicate)
  from neon_meter16_peak [OF this refl refl] show ?thesis
    unfolding xs e pos peak by (intro exI conjI) simp_all
qed

text \<open>At 32 bits the vector form of the meter is the scalar one.\<close>

theorem neon_meter32_equals_scalar:
  assumes "unat n * 4 \<le> length data" and "unat n \<le> 2 ^ 22"
  shows "neon_meter32 fl64 data n = meter fl64 data (unat n) 32"
  using neon_meter32_ok [OF assms] scalar_meter [of 32 n data] assms
  by (simp add: supported_bits_def bytes_of_bits_def)

end
