(* ===== verification/Alsa_Capture.thy ===== *)
theory Alsa_Capture
  imports Config Pcm_Samples
begin

text \<open>
  The capture device (src/capture/alsa_capture.cpp): configuration of the hardware and the
  capture loop. libasound is a parameter: \<open>alsa_lib\<close> gives the result of each configuring
  call, a \<open>device_read\<close> one turn of \<open>snd_pcm_readi\<close> with what it stored into the buffer.
  Scheduling priority and CPU pinning are asked for before the loop and have no effect on it.
\<close>

section \<open>State\<close>

datatype pcm_format = S16_LE | S24_LE | S32_LE

record alsa_lib =
  snd_open :: "string \<Rightarrow> int"
  snd_set_access :: int
  snd_set_format :: "pcm_format \<Rightarrow> int"
  snd_set_channels :: "u16 \<Rightarrow> int"
  snd_set_rate_near :: "u32 \<Rightarrow> int \<times> u32"
  snd_set_period_near :: "u64 \<Rightarrow> int \<times> u64"
  snd_set_buffer_near :: "u64 \<Rightarrow> int \<times> u64"
  snd_hw_params :: int
  snd_prepare :: int

record 'f alsa_capture =
  al_config :: "'f audio_config"
  al_pcm :: bool
  al_running :: bool
  al_callback :: bool
  al_actual_rate :: u32
  al_actual_period :: u32
  al_total_frames :: u64
  al_period_buffer :: "u8 list"

definition al_new :: "'f audio_config \<Rightarrow> 'f alsa_capture" where
  "al_new config =
     \<lparr>al_config = config, al_pcm = False, al_running = False, al_callback = False,
      al_actual_rate = 0, al_actual_period = 0, al_total_frames = 0, al_period_buffer = []\<rparr>"

text \<open>\<open>AudioChunkMeta\<close>, and what the callback is called with.\<close>

record chunk_meta =
  cm_timestamp_us :: u64
  cm_sample_rate :: u32
  cm_channels :: u16
  cm_bits_per_sample :: u16
  cm_frame_count :: u64
  cm_total_frames :: u64

type_synonym chunk = "chunk_meta \<times> u8 list \<times> u64"

section \<open>Operations\<close>

definition al_format :: "u16 \<Rightarrow> pcm_format" where
  "al_format bits = (if bits = 32 then S32_LE else if bits = 24 then S24_LE else S16_LE)"

text \<open>
  \<open>initialize()\<close>, one test per call. The period is kept in 32 bits, and the size of the
  period buffer is computed as \<open>uint32_t * uint16_t\<close> before it is widened.
\<close>

definition al_initialize ::
  "alsa_lib \<Rightarrow> (nat \<Rightarrow> bool) \<Rightarrow> 'f alsa_capture \<Rightarrow> (bool \<times> 'f alsa_capture) outcome" where
  "al_initialize lib mem_ok al =
     (let config = al_config al;
          (rate_err, rate) = snd_set_rate_near lib (ac_sample_rate config);
          al1 = al\<lparr>al_pcm := True\<rparr>;
          al2 = al1\<lparr>al_actual_rate := rate\<rparr>;
          (period_err, period) = snd_set_period_near lib (ucast (ac_period_size config));
          al3 = al2\<lparr>al_actual_period := ucast period\<rparr>
      in if snd_open lib (ac_device config) < 0 then Inr (False, al)
         else if snd_set_access lib < 0 then Inr (False, al1)
         else if snd_set_format lib (al_format (ac_bits_per_sample config)) < 0 then Inr (False, al1)
         else if snd_set_channels lib (ac_channels config) < 0 then Inr (False, al1)
         else if rate_err < 0 then Inr (False, al1)
         else if period_err < 0 then Inr (False, al2)
         else if fst (snd_set_buffer_near lib (period * ucast (ac_buffer_periods config))) < 0
         then Inr (False, al3)
         else if snd_hw_params lib < 0 then Inr (False, al3)
         else if snd_prepare lib < 0 then Inr (False, al3)
         else obind (new_zeroed mem_ok
                (unat (ucast (al_actual_period al3 * ucast (ac_channels config)) *
                       of_nat (unat (ac_bits_per_sample config) div 8) :: u64)))
              (\<lambda>buf. Inr (True, al3\<lparr>al_period_buffer := buf\<rparr>)))"

definition al_set_callback :: "'f alsa_capture \<Rightarrow> 'f alsa_capture" where
  "al_set_callback al = al\<lparr>al_callback := True\<rparr>"

definition al_start :: "'f alsa_capture \<Rightarrow> 'f alsa_capture" where
  "al_start al = (if al_running al then al else al\<lparr>al_running := True, al_total_frames := 0\<rparr>)"

definition al_stop :: "'f alsa_capture \<Rightarrow> 'f alsa_capture" where
  "al_stop al = al\<lparr>al_running := False, al_pcm := False\<rparr>"

text \<open>
  One turn of the capture loop: \<open>dr_frames\<close> is the result of \<open>snd_pcm_readi\<close>, \<open>dr_bytes\<close> what
  it stored from the start of the buffer, \<open>dr_recover\<close> the result of \<open>snd_pcm_recover\<close>
  should it be called. The result says whether the loop goes on and which chunk was delivered.
\<close>

record device_read =
  dr_frames :: int
  dr_bytes :: "u8 list"
  dr_recover :: int
  dr_now :: u64

definition epipe :: int where "epipe = 32"

definition al_turn ::
  "'f alsa_capture \<Rightarrow> device_read \<Rightarrow> (bool \<times> chunk option \<times> 'f alsa_capture) outcome" where
  "al_turn al r =
     obind (store_range (al_period_buffer al) 0 (dr_bytes r)) (\<lambda>buf.
       let al1 = al\<lparr>al_period_buffer := buf\<rparr>;
           config = al_config al;
           frames = (if dr_frames r < 0 then dr_recover r else dr_frames r)
       in if dr_frames r = - epipe then Inr (True, None, al1)
          else if dr_frames r < 0 \<and> frames < 0 then Inr (False, None, al1)
          else if 0 < frames \<and> al_callback al then
            let total = al_total_frames al + of_int frames;
                meta = \<lparr>cm_timestamp_us = dr_now r, cm_sample_rate = al_actual_rate al,
                        cm_channels = ac_channels config, cm_bits_per_sample = ac_bits_per_sample config,
                        cm_frame_count = of_int frames, cm_total_frames = total\<rparr>
            in Inr (True, Some (meta, buf, of_int frames * ucast (ac_channels config)),
                    al1\<lparr>al_total_frames := total\<rparr>)
          else Inr (True, None, al1))"

text \<open>
  The loop over the reads the device answers, with the callback run on every chunk. \<open>True\<close> in
  the result: still in the loop, waiting for the next read.
\<close>

fun capture_loop ::
  "(chunk \<Rightarrow> 's \<Rightarrow> 's outcome option) \<Rightarrow> device_read list \<Rightarrow> 'f alsa_capture \<Rightarrow> 's \<Rightarrow>
   (bool \<times> 'f alsa_capture \<times> 's) outcome option" where
  "capture_loop cb [] al s = Some (Inr (True, al, s))"
| "capture_loop cb (r # rs) al s =
     (if \<not> al_running al then Some (Inr (False, al, s))
      else case al_turn al r of
        Inl e \<Rightarrow> Some (Inl e)
      | Inr (go, None, al') \<Rightarrow> if go then capture_loop cb rs al' s else Some (Inr (False, al', s))
      | Inr (go, Some c, al') \<Rightarrow>
          (case cb c s of
             None \<Rightarrow> None
           | Some (Inl e) \<Rightarrow> Some (Inl e)
           | Some (Inr s') \<Rightarrow> if go then capture_loop cb rs al' s' else Some (Inr (False, al', s'))))"

section \<open>Scheduling of the thread\<close>

text \<open>
  What the thread asks for before its loop: real-time priority, and the configured CPU if there is
  one. \<open>CPU_SET\<close> leaves out a CPU beyond the 1024 of a \<open>cpu_set_t\<close>. Each call is paired with the
  message it leads to; the calls return an error number, the message prints \<open>errno\<close>.
\<close>

datatype thread_call = Set_Fifo int | Set_Affinity "nat set"

definition cpu_set :: "nat \<Rightarrow> nat set" where
  "cpu_set cpu = (if cpu < 1024 then {cpu} else {})"

definition thread_setup ::
  "(thread_call \<Rightarrow> int) \<Rightarrow> (int \<Rightarrow> string) \<Rightarrow> int \<Rightarrow> 'f audio_config \<Rightarrow> (thread_call \<times> string) list" where
  "thread_setup pthread strerror errno config =
     (let fifo = Set_Fifo 70; cpu = ac_cpu_affinity config; pin = Set_Affinity (cpu_set (nat cpu))
      in (fifo, if pthread fifo \<noteq> 0
                then ''Could not set SCHED_FIFO (need CAP_SYS_NICE): '' @ strerror errno
                else ''Capture thread: SCHED_FIFO priority '' @ to_string 70) #
         (if 0 \<le> cpu
          then [(pin, if pthread pin \<noteq> 0 then ''Could not pin to CPU '' @ to_string cpu @ '': '' @ strerror errno
                      else ''Capture thread pinned to CPU '' @ to_string cpu)]
          else []))"

text \<open>The reason of a failure never gets into the messages.\<close>

lemma setup_hides_reason:
  assumes "\<forall>c. pthread c = 0 \<longleftrightarrow> pthread' c = 0"
  shows "thread_setup pthread strerror errno config = thread_setup pthread' strerror errno config"
  using assms by (simp add: thread_setup_def Let_def)

section \<open>The documented behaviour of the device\<close>

text \<open>
  ALSA stores 24-bit samples of the format \<open>S24_LE\<close> in 4 bytes. A read stores as many frames as
  it returns, at most those asked for; \<open>snd_pcm_recover\<close> returns 0 or an error.
\<close>

fun physical_width :: "pcm_format \<Rightarrow> nat" where
  "physical_width S16_LE = 2"
| "physical_width S24_LE = 4"
| "physical_width S32_LE = 4"

definition device_ok :: "'f alsa_capture \<Rightarrow> device_read \<Rightarrow> bool" where
  "device_ok al r \<longleftrightarrow>
     dr_frames r \<le> int (unat (al_actual_period al)) \<and> dr_recover r \<le> 0 \<and>
     length (dr_bytes r) = nat (dr_frames r) * unat (ac_channels (al_config al)) *
       physical_width (al_format (ac_bits_per_sample (al_config al)))"

definition fatal_read :: "device_read \<Rightarrow> bool" where
  "fatal_read r \<longleftrightarrow> dr_frames r < 0 \<and> dr_frames r \<noteq> - epipe \<and> dr_recover r < 0"

text \<open>A capture that runs, with a buffer for one period.\<close>

definition al_frame_bytes :: "'f alsa_capture \<Rightarrow> nat" where
  "al_frame_bytes al = unat (ac_channels (al_config al)) * (unat (ac_bits_per_sample (al_config al)) div 8)"

definition al_ready :: "'f alsa_capture \<Rightarrow> bool" where
  "al_ready al \<longleftrightarrow> al_running al \<and> al_callback al \<and>
     length (al_period_buffer al) = unat (al_actual_period al) * al_frame_bytes al \<and>
     (ac_bits_per_sample (al_config al) = 16 \<or> ac_bits_per_sample (al_config al) = 32)"

section \<open>Turns of the loop\<close>

definition al_static where
  "al_static al = (al_config al, al_actual_rate al, al_actual_period al, al_running al, al_callback al)"

text \<open>What the callback may rely on.\<close>

definition chunk_ok :: "'f alsa_capture \<Rightarrow> chunk \<Rightarrow> bool" where
  "chunk_ok al c \<longleftrightarrow>
     (case c of (meta, buf, count) \<Rightarrow>
        cm_channels meta = ac_channels (al_config al) \<and>
        cm_bits_per_sample meta = ac_bits_per_sample (al_config al) \<and>
        0 < unat (cm_frame_count meta) \<and> unat (cm_frame_count meta) \<le> unat (al_actual_period al) \<and>
        unat count = unat (cm_frame_count meta) * unat (cm_channels meta) \<and>
        length buf = unat (al_actual_period al) * al_frame_bytes al)"

text \<open>The samples a chunk announces.\<close>

definition chunk_bytes :: "chunk \<Rightarrow> u8 list" where
  "chunk_bytes c = (case c of (meta, buf, count) \<Rightarrow> take (unat count * (unat (cm_bits_per_sample meta) div 8)) buf)"

lemma chunk_ok_static: "al_static al' = al_static al \<Longrightarrow> chunk_ok al' = chunk_ok al"
  by (rule ext) (simp add: al_static_def chunk_ok_def al_frame_bytes_def)

lemma device_ok_static: "al_static al' = al_static al \<Longrightarrow> device_ok al' = device_ok al"
  by (rule ext) (simp add: al_static_def device_ok_def)

lemma ready_width:
  assumes "al_ready al"
  shows "physical_width (al_format (ac_bits_per_sample (al_config al))) =
         unat (ac_bits_per_sample (al_config al)) div 8"
  using assms by (auto simp: al_ready_def al_format_def)

lemma device_frames: "device_ok al r \<Longrightarrow> nat (dr_frames r) \<le> unat (al_actual_period al)"
proof -
  assume "device_ok al r"
  then have "nat (dr_frames r) \<le> nat (int (unat (al_actual_period al)))"
    unfolding device_ok_def by (intro nat_mono) blast
  then show ?thesis by (simp only: nat_int)
qed

lemma read_stored:
  assumes ready: "al_ready al" and dev: "device_ok al r"
  shows "\<exists>buf. store_range (al_period_buffer al) 0 (dr_bytes r) = Inr buf \<and>
           length buf = length (al_period_buffer al) \<and> take (length (dr_bytes r)) buf = dr_bytes r"
proof -
  have "length (dr_bytes r) = nat (dr_frames r) * al_frame_bytes al"
    using dev ready_width [OF ready] by (simp add: device_ok_def al_frame_bytes_def)
  also have "\<dots> \<le> unat (al_actual_period al) * al_frame_bytes al"
    using device_frames [OF dev] by (rule mult_le_mono1)
  finally show ?thesis using ready by (simp add: store_range_def al_ready_def)
qed

lemma frames_word:
  assumes "0 \<le> f" and "nat f \<le> unat (period :: u32)"
  shows "unat (of_int f :: u64) = nat f" and "unat (of_int f * ucast (ch :: u16) :: u64) = nat f * unat ch"
proof -
  have f: "of_int f = (of_nat (nat f) :: u64)" using assms(1) by simp
  have lt: "nat f < 2 ^ 32" using assms(2) unat_lt_32 [of period] by simp
  show u: "unat (of_int f :: u64) = nat f" using lt by (simp only: f) (simp add: unat_of_nat_64)
  have "nat f * unat ch < 2 ^ 32 * 2 ^ 16" using lt unat_lt_16 [of ch] by (intro mult_strict_mono) simp_all
  then show "unat (of_int f * ucast ch :: u64) = nat f * unat ch"
    by (subst unat_mult_64) (simp_all add: u unat_ucast_16)
qed

text \<open>
  A turn: a fatal read ends the loop; a read of frames delivers a well-formed chunk with the
  bytes of the device; anything else delivers nothing and goes on.
\<close>

lemma al_turn_ok:
  assumes ready: "al_ready al" and dev: "device_ok al r"
  shows "\<exists>al'. al_static al' = al_static al \<and> al_ready al' \<and>
           (if fatal_read r then al_turn al r = Inr (False, None, al')
            else if 0 < dr_frames r then
              \<exists>c. al_turn al r = Inr (True, Some c, al') \<and> chunk_ok al c \<and> chunk_bytes c = dr_bytes r \<and>
                  cm_timestamp_us (fst c) = dr_now r
            else al_turn al r = Inr (True, None, al') \<and> dr_bytes r = [])"
proof -
  obtain buf where buf: "store_range (al_period_buffer al) 0 (dr_bytes r) = Inr buf"
    "length buf = length (al_period_buffer al)" "take (length (dr_bytes r)) buf = dr_bytes r"
    using read_stored [OF assms] by blast
  let ?al = "al\<lparr>al_period_buffer := buf\<rparr>"
  have al1: "al_static ?al = al_static al" "al_ready ?al"
    using ready buf(2) by (simp_all add: al_static_def al_ready_def al_frame_bytes_def)
  have cb: "al_callback al" using ready by (simp add: al_ready_def)
  have rec: "dr_recover r \<le> 0" using dev by (simp add: device_ok_def)
  have le: "nat (dr_frames r) \<le> unat (al_actual_period al)" using dev by (rule device_frames)
  have bytes: "length (dr_bytes r) = nat (dr_frames r) * al_frame_bytes al"
    using dev ready_width [OF ready] by (simp add: device_ok_def al_frame_bytes_def)
  show ?thesis
  proof (cases "0 < dr_frames r")
    case True
    let ?n = "of_int (dr_frames r) :: u64"
    let ?total = "al_total_frames al + ?n"
    let ?al2 = "?al\<lparr>al_total_frames := ?total\<rparr>"
    let ?c = "(\<lparr>cm_timestamp_us = dr_now r, cm_sample_rate = al_actual_rate al,
        cm_channels = ac_channels (al_config al), cm_bits_per_sample = ac_bits_per_sample (al_config al),
        cm_frame_count = ?n, cm_total_frames = ?total\<rparr>, buf, ?n * ucast (ac_channels (al_config al)))"
    note w = frames_word [OF less_imp_le [OF True] le]
    have "al_turn al r = Inr (True, Some ?c, ?al2)"
      using True cb by (simp add: al_turn_def buf(1) Let_def epipe_def)
    moreover have "chunk_ok al ?c" using True le buf(2) ready by (simp add: chunk_ok_def w al_ready_def)
    moreover have "chunk_bytes ?c = dr_bytes r"
      using buf(3) by (simp add: chunk_bytes_def w bytes al_frame_bytes_def mult.assoc)
    moreover have "al_static ?al2 = al_static al" "al_ready ?al2"
      using al1 by (simp_all add: al_static_def al_ready_def al_frame_bytes_def)
    moreover have "\<not> fatal_read r" using True by (simp add: fatal_read_def)
    ultimately show ?thesis using True by (intro exI [of _ ?al2]) auto
  next
    case False
    then have none: "dr_bytes r = []" using bytes by simp
    show ?thesis
      using False rec cb al1 none buf(1)
      by (intro exI [of _ ?al]) (auto simp: al_turn_def Let_def fatal_read_def epipe_def)
  qed
qed

text \<open>The callback that collects the chunks.\<close>

definition collect :: "chunk \<Rightarrow> chunk list \<Rightarrow> chunk list outcome option" where
  "collect c cs = Some (Inr (cs @ [c]))"

lemma capture_loop_collects:
  assumes "al_ready al" and "\<forall>r \<in> set reads. device_ok al r"
  shows "\<exists>go al' cs'. capture_loop collect reads al cs = Some (Inr (go, al', cs @ cs')) \<and>
     al_static al' = al_static al \<and> (go \<longleftrightarrow> \<not> (\<exists>r \<in> set reads. fatal_read r)) \<and>
     (\<forall>c \<in> set cs'. chunk_ok al c) \<and>
     concat (map chunk_bytes cs') = concat (map dr_bytes (takeWhile (\<lambda>r. \<not> fatal_read r) reads))"
  using assms
proof (induction reads arbitrary: al cs)
  case Nil
  then show ?case by (intro exI [of _ True] exI [of _ al] exI [of _ "[]"]) simp
next
  case (Cons r reads)
  have run: "al_running al" using Cons.prems by (simp add: al_ready_def)
  have dev: "device_ok al r" using Cons.prems by simp
  note T = al_turn_ok [OF Cons.prems(1) dev]
  then obtain al' where al': "al_static al' = al_static al" "al_ready al'" by blast
  have rest: "\<forall>r \<in> set reads. device_ok al' r" if "al_static al' = al_static al" for al'
    using Cons.prems device_ok_static [OF that] by simp
  show ?case
  proof (cases "fatal_read r")
    case True
    then show ?thesis using T run by auto
  next
    case live: False
    show ?thesis
    proof (cases "0 < dr_frames r")
      case True
      then obtain al' c where t: "al_turn al r = Inr (True, Some c, al')" "chunk_ok al c"
        "chunk_bytes c = dr_bytes r" "al_static al' = al_static al" "al_ready al'"
        using T live by auto
      from Cons.IH [OF t(5) rest [OF t(4)], of "cs @ [c]"] show ?thesis
        using run live t by (auto simp: collect_def chunk_ok_static [OF t(4)])
    next
      case False
      then obtain al' where t: "al_turn al r = Inr (True, None, al')" "dr_bytes r = []"
        "al_static al' = al_static al" "al_ready al'"
        using T live by auto
      from Cons.IH [OF t(4) rest [OF t(3)], of cs] show ?thesis
        using run live t by (auto simp: chunk_ok_static [OF t(3)])
    qed
  qed
qed

section \<open>After initialisation\<close>

lemma unat_buffer_size:
  assumes "unat (period :: u32) * unat (ch :: u16) < 2 ^ 32"
  shows "unat (ucast (period * ucast ch :: u32) * of_nat (unat (bits :: u16) div 8) :: u64) =
         unat period * (unat ch * (unat bits div 8))"
proof -
  have c: "unat (ucast ch :: u32) = unat ch"
    using unat_lt_16 [of ch] by (simp add: unsigned_ucast_eq take_bit_nat_eq_self)
  have p: "unat (period * ucast ch :: u32) = unat period * unat ch"
    using assms by (simp add: unat_word_ariths c)
  have b: "unat (of_nat (unat bits div 8) :: u64) = unat bits div 8"
    using unat_lt_16 [of bits] by (intro unat_of_nat_64) simp
  have "unat bits div 8 < 2 ^ 13" using unat_lt_16 [of bits] by (simp add: less_mult_imp_div_less)
  with assms have "unat period * unat ch * (unat bits div 8) < 2 ^ 32 * 2 ^ 13" by (rule mult_strict_mono) simp_all
  then show ?thesis by (subst unat_mult_64) (simp_all add: unat_ucast_32 p b)
qed

text \<open>The capture as the pipeline runs it: configured, its callback set, started.\<close>

lemma al_initialize_actual:
  assumes "al_initialize lib mem_ok (al_new config) = Inr (True, al)"
  shows "al_config al = config"
    and "al_actual_rate al = snd (snd_set_rate_near lib (ac_sample_rate config))"
    and "al_actual_period al = ucast (snd (snd_set_period_near lib (ucast (ac_period_size config))))"
  using assms
  by (auto simp: al_initialize_def al_new_def Let_def obind_Inr_iff split: if_splits prod.splits)

lemma al_initialize_ok:
  assumes "al_initialize lib mem_ok (al_new config) = Inr (True, al)"
    and "unat (al_actual_period al) * unat (ac_channels config) < 2 ^ 32"
  shows "al_config al = config" and "length (al_period_buffer al) = unat (al_actual_period al) * al_frame_bytes al"
proof -
  show c: "al_config al = config" using assms(1) by (rule al_initialize_actual)
  from assms(1) have "length (al_period_buffer al) =
      unat (ucast (al_actual_period al * ucast (ac_channels config) :: u32) *
        of_nat (unat (ac_bits_per_sample config) div 8) :: u64)"
    by (auto simp: al_initialize_def al_new_def Let_def obind_Inr_iff new_zeroed_def split: if_splits prod.splits)
  then show "length (al_period_buffer al) = unat (al_actual_period al) * al_frame_bytes al"
    by (simp only: unat_buffer_size [OF assms(2)] al_frame_bytes_def c)
qed

lemma al_started_ready:
  assumes "al_initialize lib mem_ok (al_new config) = Inr (True, al)"
    and "unat (al_actual_period al) * unat (ac_channels config) < 2 ^ 32"
    and "ac_bits_per_sample config = 16 \<or> ac_bits_per_sample config = 32"
  shows "al_ready (al_start (al_set_callback al))"
  using al_initialize_ok [OF assms(1,2)] assms(3)
  by (auto simp: al_ready_def al_start_def al_set_callback_def al_frame_bytes_def)

section \<open>Properties\<close>

text \<open>
  Every frame the device returns reaches the callback, once, in order and unchanged. From a
  successful \<open>initialize()\<close> at 16 or 32 bits, for any sequence of reads, overruns and recovered
  errors, the concatenated chunks are the bytes of the reads; the loop ends only on an error
  that cannot be recovered, and every chunk has the announced shape.
\<close>

theorem capture_delivers_every_read:
  assumes "al_initialize lib mem_ok (al_new config) = Inr (True, al)"
    and "unat (al_actual_period al) * unat (ac_channels config) < 2 ^ 32"
    and "ac_bits_per_sample config = 16 \<or> ac_bits_per_sample config = 32"
    and "al0 = al_start (al_set_callback al)" and "\<forall>r \<in> set reads. device_ok al0 r"
  shows "\<exists>go al' cs. capture_loop collect reads al0 [] = Some (Inr (go, al', cs)) \<and>
     (go \<longleftrightarrow> \<not> (\<exists>r \<in> set reads. fatal_read r)) \<and> (\<forall>c \<in> set cs. chunk_ok al0 c) \<and>
     concat (map chunk_bytes cs) = concat (map dr_bytes (takeWhile (\<lambda>r. \<not> fatal_read r) reads))"
  using capture_loop_collects [OF al_started_ready [OF assms(1-3), folded assms(4)] assms(5), of "[]"] by auto

text \<open>A device that takes every setting, with periods of two stereo frames.\<close>

definition demo_alsa :: alsa_lib where
  "demo_alsa = \<lparr>snd_open = (\<lambda>dev. 0), snd_set_access = 0, snd_set_format = (\<lambda>f. 0), snd_set_channels = (\<lambda>c. 0),
     snd_set_rate_near = (\<lambda>r. (0, r)), snd_set_period_near = (\<lambda>p. (0, 2)), snd_set_buffer_near = (\<lambda>b. (0, b)),
     snd_hw_params = 0, snd_prepare = 0\<rparr>"

definition demo_audio :: "u16 \<Rightarrow> int audio_config" where
  "demo_audio bits = (dc_audio default_config)\<lparr>ac_channels := 2, ac_bits_per_sample := bits\<rparr>"

definition demo_capture :: "u16 \<Rightarrow> int alsa_capture" where
  "demo_capture bits = (al_new (demo_audio bits))\<lparr>al_pcm := True, al_actual_rate := 48000, al_actual_period := 2,
     al_period_buffer := replicate (4 * (unat bits div 8)) 0\<rparr>"

lemma demo_initialize:
  assumes "bits = 16 \<or> bits = 24"
  shows "al_initialize demo_alsa (\<lambda>_. True) (al_new (demo_audio bits)) = Inr (True, demo_capture bits)"
  using assms
  by (auto simp: al_initialize_def demo_alsa_def demo_audio_def demo_capture_def default_config_def al_new_def
      new_zeroed_def)

theorem capture_delivers_every_read_witness:
  defines "al0 \<equiv> al_start (al_set_callback (demo_capture 16))"
    and "reads \<equiv> [\<lparr>dr_frames = 2, dr_bytes = [1, 0, 2, 0, 3, 0, 4, 0], dr_recover = 0, dr_now = 7\<rparr>,
      \<lparr>dr_frames = - epipe, dr_bytes = [], dr_recover = 0, dr_now = 8\<rparr>,
      \<lparr>dr_frames = 1, dr_bytes = [5, 0, 6, 0], dr_recover = 0, dr_now = 9\<rparr>]"
  shows "\<exists>go al' cs. capture_loop collect reads al0 [] = Some (Inr (go, al', cs)) \<and> go \<and>
     concat (map chunk_bytes cs) = [1, 0, 2, 0, 3, 0, 4, 0, 5, 0, 6, 0]"
proof -
  have "\<forall>r \<in> set reads. device_ok al0 r" "\<not> (\<exists>r \<in> set reads. fatal_read r)"
    by (auto simp: reads_def al0_def device_ok_def fatal_read_def al_start_def al_set_callback_def demo_capture_def
        al_new_def demo_audio_def default_config_def al_format_def epipe_def)
  moreover have "takeWhile (\<lambda>r. \<not> fatal_read r) reads = reads"
    using calculation(2) by (simp add: takeWhile_eq_all_conv)
  then have "concat (map dr_bytes (takeWhile (\<lambda>r. \<not> fatal_read r) reads)) = [1, 0, 2, 0, 3, 0, 4, 0, 5, 0, 6, 0]"
    by (simp only:) (simp add: reads_def)
  moreover have "unat (al_actual_period (demo_capture 16)) * unat (ac_channels (demo_audio 16)) < 2 ^ 32"
    "ac_bits_per_sample (demo_audio 16) = 16 \<or> ac_bits_per_sample (demo_audio 16) = 32"
    by (simp_all add: demo_capture_def demo_audio_def)
  moreover obtain go al' cs where "capture_loop collect reads al0 [] = Some (Inr (go, al', cs))"
    "go \<longleftrightarrow> \<not> (\<exists>r \<in> set reads. fatal_read r)"
    "concat (map chunk_bytes cs) = concat (map dr_bytes (takeWhile (\<lambda>r. \<not> fatal_read r) reads))"
    using capture_delivers_every_read [OF demo_initialize [of 16] calculation(4,5) meta_eq_to_obj_eq [OF al0_def] calculation(1)]
    by blast
  ultimately show ?thesis by (intro exI conjI) simp_all
qed

text \<open>
  C38: 24-bit capture writes past the period buffer. ALSA's \<open>S24_LE\<close> takes 4 bytes per sample, the
  buffer has 3: after a successful \<open>initialize()\<close> the first full period is stored out of bounds.
\<close>

theorem capture_24bit_overruns:
  assumes "al_initialize lib mem_ok (al_new config) = Inr (True, al)"
    and "unat (al_actual_period al) * unat (ac_channels config) < 2 ^ 32"
    and "ac_bits_per_sample config = 24" and "ac_channels config \<noteq> 0" and "al_actual_period al \<noteq> 0"
    and "al0 = al_start (al_set_callback al)" and "device_ok al0 r"
    and "dr_frames r = int (unat (al_actual_period al))"
  shows "capture_loop cb (r # reads) al0 s = Some (Inl Out_Of_Bounds)"
proof -
  note I = al_initialize_ok [OF assms(1,2)]
  let ?n = "unat (al_actual_period al) * unat (ac_channels config)"
  have pos: "0 < ?n" using assms(4,5) by (simp add: unat_gt_0)
  have buf: "length (al_period_buffer al0) = ?n * 3" and cfg: "al_config al0 = config"
    using I(1,2) assms(3) by (simp_all add: assms(6) al_frame_bytes_def al_start_def al_set_callback_def mult.assoc)
  have "length (dr_bytes r) = nat (int (unat (al_actual_period al))) * unat (ac_channels config) * 4"
    using assms(3,7,8) unfolding device_ok_def cfg by (simp add: al_format_def)
  then have len: "length (dr_bytes r) = ?n * 4" by (simp only: nat_int)
  have "\<not> length (dr_bytes r) \<le> length (al_period_buffer al0)" unfolding buf len using pos by simp
  then have "al_turn al0 r = Inl Out_Of_Bounds" by (simp add: al_turn_def store_range_def)
  moreover have "al_running al0" by (simp add: assms(6) al_start_def al_set_callback_def)
  ultimately show ?thesis by simp
qed

theorem capture_24bit_overruns_witness:
  "capture_loop collect [\<lparr>dr_frames = 2, dr_bytes = replicate 16 0, dr_recover = 0, dr_now = 7\<rparr>]
     (al_start (al_set_callback (demo_capture 24))) [] = Some (Inl Out_Of_Bounds)"
  by (rule capture_24bit_overruns [OF demo_initialize [of 24]])
    (simp_all add: demo_capture_def demo_audio_def device_ok_def al_start_def al_set_callback_def al_new_def
      al_format_def)

text \<open>
  A dead capture goes unnoticed. After an error that cannot be recovered the thread has left
  its loop for good, and the capture still says that it runs.
\<close>

theorem capture_error_unnoticed:
  assumes "al_ready al" and "\<forall>r \<in> set reads. device_ok al r" and "r \<in> set reads" and "fatal_read r"
  shows "\<exists>al' cs. capture_loop collect reads al [] = Some (Inr (False, al', cs)) \<and> al_running al' \<and>
     concat (map chunk_bytes cs) = concat (map dr_bytes (takeWhile (\<lambda>r. \<not> fatal_read r) reads))"
proof -
  obtain go al' cs where L: "capture_loop collect reads al [] = Some (Inr (go, al', cs))"
    "al_static al' = al_static al" "go \<longleftrightarrow> \<not> (\<exists>r \<in> set reads. fatal_read r)"
    "concat (map chunk_bytes cs) = concat (map dr_bytes (takeWhile (\<lambda>r. \<not> fatal_read r) reads))"
    using capture_loop_collects [OF assms(1,2), of "[]"] by auto
  have "al_running al'" using L(2) assms(1) by (simp add: al_static_def al_ready_def)
  then show ?thesis using L assms(3,4) by auto
qed

theorem capture_error_unnoticed_witness:
  "\<exists>al' cs. capture_loop collect [\<lparr>dr_frames = - 5, dr_bytes = [], dr_recover = - 5, dr_now = 7\<rparr>]
     (al_start (al_set_callback (demo_capture 16))) [] = Some (Inr (False, al', cs)) \<and> al_running al' \<and>
     concat (map chunk_bytes cs) =
       concat (map dr_bytes (takeWhile (\<lambda>r. \<not> fatal_read r) [\<lparr>dr_frames = - 5, dr_bytes = [], dr_recover = - 5, dr_now = 7\<rparr>]))"
proof (rule capture_error_unnoticed)
  show "al_ready (al_start (al_set_callback (demo_capture 16)))"
    by (rule al_started_ready [OF demo_initialize [of 16]]) (simp_all add: demo_capture_def demo_audio_def)
  have "- 5 \<le> uint (al_actual_period (al_start (al_set_callback (demo_capture 16))))"
    by (rule order_trans [of _ 0]) simp_all
  then show "\<forall>r \<in> set [\<lparr>dr_frames = - 5, dr_bytes = [], dr_recover = - 5, dr_now = 7\<rparr>].
      device_ok (al_start (al_set_callback (demo_capture 16))) r"
    unfolding device_ok_def by simp
qed (auto simp: fatal_read_def epipe_def)

end
