(* ===== verification/Pipeline.thy ===== *)
theory Pipeline
  imports Alsa_Capture Clip_Extractor Recorder_System Sample_Publisher Signal_Properties
begin

text \<open>
  The capture pipeline (src/pipeline/capture_pipeline.cpp): it owns the capture, the ring
  buffer, the clip extractor, the block recorder and the publisher, configures them alike, and
  in \<open>on_audio_chunk\<close> sends every captured chunk through the signal path to all of them.
  The mathematical library is the parameter \<open>math_lib\<close>; arithmetic is rounded as \<open>float\<close> and
  \<open>double\<close>.
\<close>

section \<open>State\<close>

record math_lib =
  ml_pow10 :: "rat \<Rightarrow> rat"
  ml_sqrt :: "rat \<Rightarrow> rat"
  ml_stod :: "string \<Rightarrow> rat outcome"

record pipeline_env =
  pe_alsa :: alsa_lib
  pe_shm :: posix_shm
  pe_mem_ok :: "nat \<Rightarrow> bool"
  pe_mkdir :: "string \<Rightarrow> bool"

record capture_pipeline =
  cp_config :: "rat daemon_config"
  cp_running :: bool
  cp_capture :: "rat alsa_capture option"
  cp_ring :: "ring_buffer option"
  cp_clip :: "clip_extractor option"
  cp_recorder :: "recorder option"
  cp_publisher :: "publisher option"
  cp_gain_linear :: rat
  cp_gain_db :: rat
  cp_gain_buffer :: "u8 list"
  cp_downmix_mono :: bool
  cp_mono_buffer :: "u8 list"
  cp_dc_remove :: bool
  cp_dc_prev :: "rat list \<times> rat list"
  cp_peak_level :: i16
  cp_rms_level :: "rat option"   \<comment> \<open>\<open>None\<close>: not a number\<close>
  cp_total_frames :: u64

section \<open>Construction and parameters\<close>

definition linear_gain :: "math_lib \<Rightarrow> rat \<Rightarrow> rat" where
  "linear_gain math db = fl32 (ml_pow10 math (fl64 (db / 20)))"

definition cp_new :: "math_lib \<Rightarrow> rat daemon_config \<Rightarrow> capture_pipeline" where
  "cp_new math config =
     (let audio = dc_audio config;
          out_ch = (if ac_downmix_mono audio then 1 else unat (ac_channels audio))
      in \<lparr>cp_config = config, cp_running = False, cp_capture = None, cp_ring = None, cp_clip = None,
          cp_recorder = None, cp_publisher = None,
          cp_gain_linear = linear_gain math (ac_gain_db audio), cp_gain_db = fl32 (ac_gain_db audio),
          cp_gain_buffer = [], cp_downmix_mono = ac_downmix_mono audio, cp_mono_buffer = [],
          cp_dc_remove = ac_dc_remove audio, cp_dc_prev = (replicate out_ch 0, replicate out_ch 0),
          cp_peak_level = 0, cp_rms_level = Some 0, cp_total_frames = 0\<rparr>)"

definition set_parameter ::
  "math_lib \<Rightarrow> string \<Rightarrow> string \<Rightarrow> capture_pipeline \<Rightarrow> (bool \<times> capture_pipeline) outcome" where
  "set_parameter math key val cp =
     (if key = ''gain_db'' \<or> key = ''gain'' then
        obind (ml_stod math val) (\<lambda>db.
          Inr (True, cp\<lparr>cp_gain_db := fl32 db, cp_gain_linear := linear_gain math db\<rparr>))
      else if key = ''dc_remove'' then
        let enabled = is_true val; cp1 = cp\<lparr>cp_dc_remove := enabled\<rparr>
        in Inr (True, if enabled then cp1
             else cp1\<lparr>cp_dc_prev := (replicate (length (fst (cp_dc_prev cp))) 0,
                                    replicate (length (snd (cp_dc_prev cp))) 0)\<rparr>)
      else Inr (False, cp))"

section \<open>Initialisation\<close>

definition out_channels :: "capture_pipeline \<Rightarrow> u16" where
  "out_channels cp =
     (let ch = ac_channels (dc_audio (cp_config cp)) in if cp_downmix_mono cp \<and> 2 \<le> ch then 1 else ch)"

definition bits_div8 :: "u16 \<Rightarrow> u16" where
  "bits_div8 bits = of_nat (unat bits div 8)"

text \<open>The constructor of the extractor creates its directory.\<close>

definition mkdir :: "pipeline_env \<Rightarrow> string \<Rightarrow> unit outcome" where
  "mkdir env dir = (if pe_mkdir env dir then Inr () else Inl Filesystem_Error)"

definition init_ring :: "pipeline_env \<Rightarrow> rat alsa_capture \<Rightarrow> capture_pipeline \<Rightarrow> capture_pipeline outcome" where
  "init_ring env al cp =
     (let config = cp_config cp; bps = ac_bits_per_sample (dc_audio config);
          rb_frames = ucast (dc_ring_buffer_seconds config) * ucast (al_actual_rate al)
      in obind (rb_new (pe_mem_ok env) rb_frames (out_channels cp) (bits_div8 bps)) (\<lambda>rb.
         obind (mkdir env (dc_clips_dir config)) (\<lambda>_.
         Inr (cp\<lparr>cp_ring := Some rb,
               cp_clip := Some (cx_new \<lparr>cc_output_dir = dc_clips_dir config, cc_format = ''wav''\<rparr>
                                  (al_actual_rate al) (out_channels cp) bps)\<rparr>))))"

definition init_recorder :: "pipeline_env \<Rightarrow> rat alsa_capture \<Rightarrow> capture_pipeline \<Rightarrow> capture_pipeline outcome" where
  "init_recorder env al cp =
     (let rec = dc_block_recorder (cp_config cp) in
      if bc_enabled rec then
        obind (br_new (pe_mem_ok env) rec (al_actual_rate al) (out_channels cp)
                 (ac_bits_per_sample (dc_audio (cp_config cp)))) (\<lambda>br.
        obind (br_initialize (pe_mkdir env) br) (\<lambda>_. Inr (cp\<lparr>cp_recorder := Some br\<rparr>)))
      else Inr cp)"

definition init_publisher ::
  "pipeline_env \<Rightarrow> rat alsa_capture \<Rightarrow> capture_pipeline \<Rightarrow> (bool \<times> capture_pipeline) outcome" where
  "init_publisher env al cp =
     (if dc_enable_sample_sharing (cp_config cp) then
        obind (sp_initialize (pe_shm env)
                 (sp_new (dc_shm_name (cp_config cp)) (al_actual_rate al) (out_channels cp)
                    (ac_bits_per_sample (dc_audio (cp_config cp))) (al_actual_period al)))
          (\<lambda>(ok, sp). Inr (ok, cp\<lparr>cp_publisher := Some sp\<rparr>))
      else Inr (True, cp))"

definition init_buffers :: "pipeline_env \<Rightarrow> rat alsa_capture \<Rightarrow> capture_pipeline \<Rightarrow> capture_pipeline outcome" where
  "init_buffers env al cp =
     (let audio = dc_audio (cp_config cp); ch = ac_channels audio;
          bps = of_nat (unat (ac_bits_per_sample audio) div 8) :: u64;
          max_chunk_bytes = ucast (al_actual_period al) * ucast ch * bps
      in obind (new_zeroed (pe_mem_ok env) (unat max_chunk_bytes)) (\<lambda>gb.
         if cp_downmix_mono cp \<and> 2 \<le> ch then
           obind (new_zeroed (pe_mem_ok env) (unat (ucast (al_actual_period al) * 1 * bps)))
             (\<lambda>mb. Inr (cp\<lparr>cp_gain_buffer := gb, cp_mono_buffer := mb\<rparr>))
         else Inr (cp\<lparr>cp_gain_buffer := gb\<rparr>)))"

definition cp_initialize :: "pipeline_env \<Rightarrow> capture_pipeline \<Rightarrow> (bool \<times> capture_pipeline) outcome" where
  "cp_initialize env cp =
     obind (al_initialize (pe_alsa env) (pe_mem_ok env) (al_new (dc_audio (cp_config cp)))) (\<lambda>(ok, al).
       if \<not> ok then Inr (False, cp\<lparr>cp_capture := Some al\<rparr>)
       else obind (init_ring env al (cp\<lparr>cp_capture := Some al\<rparr>)) (\<lambda>cp1.
            obind (init_recorder env al cp1) (\<lambda>cp2.
            obind (init_publisher env al cp2) (\<lambda>(ok, cp3).
              if \<not> ok then Inr (False, cp3)
              else obind (init_buffers env al cp3) (\<lambda>cp4.
                   Inr (True, cp4\<lparr>cp_capture := Some (al_set_callback al)\<rparr>))))))"

section \<open>Start and stop\<close>

definition cp_start :: "capture_pipeline \<Rightarrow> (bool \<times> capture_pipeline) outcome" where
  "cp_start cp =
     (if cp_running cp then Inr (True, cp)
      else obind (deref (cp_clip cp)) (\<lambda>cx.
           obind (deref (cp_capture cp)) (\<lambda>al.
           Inr (True, cp\<lparr>cp_clip := Some (cx_start cx),
                       cp_recorder := map_option br_start (cp_recorder cp),
                       cp_capture := Some (al_start al), cp_running := True\<rparr>))))"

text \<open>
  \<open>stop()\<close>: the capture thread is joined before the recorder is told to stop. The writer and
  the worker end in their own steps (\<open>rec_step\<close>, \<open>clip_step\<close>).
\<close>

definition cp_stop :: "capture_pipeline \<Rightarrow> capture_pipeline outcome" where
  "cp_stop cp =
     (if \<not> cp_running cp then Inr cp
      else obind (deref (cp_capture cp)) (\<lambda>al.
           obind (deref (cp_clip cp)) (\<lambda>cx.
           Inr (cp\<lparr>cp_running := False, cp_capture := Some (al_stop al),
                 cp_clip := Some (cx_stop_flag cx),
                 cp_recorder := map_option br_stop_flags (cp_recorder cp),
                 cp_publisher := map_option sp_cleanup (cp_publisher cp)\<rparr>))))"

section \<open>A chunk of audio\<close>

text \<open>
  The signal path of \<open>on_audio_chunk\<close>. A stage hands on the data, its channels and samples; the
  flag says whether the data are in \<open>gain_buffer_\<close> (the pointer comparison of the source).
\<close>

definition grow :: "u8 list \<Rightarrow> u64 \<Rightarrow> u8 list" where
  "grow buf n = (if length buf < unat n then vec_resize buf (unat n) else buf)"

definition stage_downmix ::
  "capture_pipeline \<Rightarrow> chunk_meta \<Rightarrow> u8 list \<Rightarrow> u64 \<Rightarrow> u64 \<Rightarrow>
   (u8 list \<times> u16 \<times> u64 \<times> capture_pipeline) outcome" where
  "stage_downmix cp meta data frame_count sample_count =
     (if cp_downmix_mono cp \<and> 2 \<le> cm_channels meta then
        obind (apply_downmix data (cp_mono_buffer cp) (unat frame_count) (cm_bits_per_sample meta))
          (\<lambda>mono. Inr (mono, 1, frame_count, cp\<lparr>cp_mono_buffer := mono\<rparr>))
      else Inr (data, cm_channels meta, sample_count, cp))"

definition stage_gain ::
  "capture_pipeline \<Rightarrow> u16 \<Rightarrow> u8 list \<Rightarrow> u64 \<Rightarrow> u64 \<Rightarrow> (bool \<times> capture_pipeline) outcome" where
  "stage_gain cp bits cur samples data_size =
     (if cp_gain_linear cp \<noteq> 1 then
        obind (apply_gain fl32 cur (grow (cp_gain_buffer cp) data_size) (unat samples) bits (cp_gain_linear cp))
          (\<lambda>gb. Inr (True, cp\<lparr>cp_gain_buffer := gb\<rparr>))
      else Inr (False, cp))"

definition stage_dc ::
  "capture_pipeline \<Rightarrow> u16 \<Rightarrow> bool \<Rightarrow> u8 list \<Rightarrow> u16 \<Rightarrow> u64 \<Rightarrow> u64 \<Rightarrow> (bool \<times> capture_pipeline) outcome" where
  "stage_dc cp bits copied cur channels samples data_size =
     (if cp_dc_remove cp then
        obind (if copied then Inr (cp_gain_buffer cp)
               else memcpy (grow (cp_gain_buffer cp) data_size) 0 cur 0 (unat data_size)) (\<lambda>gb.
        obind (apply_dc_remove fl32 gb (unat samples) channels bits (cp_dc_prev cp)) (\<lambda>(gb', prev).
        Inr (True, cp\<lparr>cp_gain_buffer := gb', cp_dc_prev := prev\<rparr>)))
      else Inr (copied, cp))"

definition cp_signal ::
  "capture_pipeline \<Rightarrow> chunk_meta \<Rightarrow> u8 list \<Rightarrow> u64 \<Rightarrow> u64 \<Rightarrow> (u8 list \<times> u64 \<times> capture_pipeline) outcome" where
  "cp_signal cp meta data frame_count sample_count =
     (let bits = cm_bits_per_sample meta; bytes_per_sample = of_nat (unat bits div 8) :: u64
      in obind (stage_downmix cp meta data frame_count sample_count) (\<lambda>(cur, channels, samples, cp1).
         obind (stage_gain cp1 bits cur samples (samples * bytes_per_sample)) (\<lambda>(copied, cp2).
         obind (stage_dc cp2 bits copied cur channels samples (samples * bytes_per_sample)) (\<lambda>(copied, cp3).
         Inr (if copied then cp_gain_buffer cp3 else cur, samples, cp3)))))"

text \<open>The consumers, in the order of the source.\<close>

definition feed_recorder :: "capture_pipeline \<Rightarrow> u8 list \<Rightarrow> u64 \<Rightarrow> capture_pipeline outcome" where
  "feed_recorder cp out frame_count =
     (case cp_recorder cp of
        None \<Rightarrow> Inr cp
      | Some br \<Rightarrow> obind (br_push br out frame_count) (\<lambda>(taken, br'). Inr (cp\<lparr>cp_recorder := Some br'\<rparr>)))"

definition feed_publisher :: "capture_pipeline \<Rightarrow> u8 list \<Rightarrow> u64 \<Rightarrow> u64 \<Rightarrow> capture_pipeline outcome" where
  "feed_publisher cp out frame_count timestamp_us =
     (case cp_publisher cp of
        None \<Rightarrow> Inr cp
      | Some sp \<Rightarrow> obind (sp_publish sp out frame_count timestamp_us) (\<lambda>sp'. Inr (cp\<lparr>cp_publisher := Some sp'\<rparr>)))"

text \<open>Level metering and the frame count.\<close>

definition rms_of :: "math_lib \<Rightarrow> rat \<Rightarrow> u64 \<Rightarrow> rat option" where
  "rms_of math sum_sq samples =
     (if samples = 0 then None
      else Some (fl32 (ml_sqrt math (fl64 (sum_sq / fl64 (of_nat (unat samples)))))))"

definition cp_meter ::
  "math_lib \<Rightarrow> capture_pipeline \<Rightarrow> u16 \<Rightarrow> u8 list \<Rightarrow> u64 \<Rightarrow> u64 \<Rightarrow> capture_pipeline outcome" where
  "cp_meter math cp bits out samples frame_count =
     obind (meter fl64 out (unat samples) bits) (\<lambda>(peak, sum_sq).
       Inr (cp\<lparr>cp_peak_level := word_of_int (min peak 32767), cp_rms_level := rms_of math sum_sq samples,
             cp_total_frames := cp_total_frames cp + frame_count\<rparr>))"

definition on_audio_chunk ::
  "math_lib \<Rightarrow> chunk \<Rightarrow> capture_pipeline \<Rightarrow> capture_pipeline outcome option" where
  "on_audio_chunk math c cp =
     (case c of (meta, data, sample_count) \<Rightarrow>
        if cm_channels meta = 0 then Some (Inl Div_By_Zero)
        else let frame_count = sample_count div ucast (cm_channels meta)
             in pbind (Some (cp_signal cp meta data frame_count sample_count)) (\<lambda>(out, samples, cp1).
                pbind (Some (deref (cp_ring cp1))) (\<lambda>rb.
                pbind (rb_write rb out frame_count) (\<lambda>rb'.
                Some (obind (feed_recorder (cp1\<lparr>cp_ring := Some rb'\<rparr>) out frame_count) (\<lambda>cp2.
                      obind (feed_publisher cp2 out frame_count (cm_timestamp_us meta)) (\<lambda>cp3.
                      cp_meter math cp3 (cm_bits_per_sample meta) out samples frame_count)))))))"

section \<open>Clips and statistics\<close>

record pipeline_stats =
  st_frames_captured :: u64
  st_ring_buffer_frames :: u64
  st_peak_level :: i16
  st_rms_level :: "rat option"

definition get_stats :: "capture_pipeline \<Rightarrow> pipeline_stats" where
  "get_stats cp =
     \<lparr>st_frames_captured = cp_total_frames cp,
      st_ring_buffer_frames = (case cp_ring cp of None \<Rightarrow> 0 | Some rb \<Rightarrow> rb_available_frames rb),
      st_peak_level = cp_peak_level cp, st_rms_level = cp_rms_level cp\<rparr>"

end
