(* ===== verification/Pipeline_Signal.thy ===== *)
theory Pipeline_Signal
  imports Pipeline
begin

text \<open>
  What \<open>on_audio_chunk\<close> makes of a chunk before it feeds the consumers: the three stages of the
  signal path, each without a fault, and their composition as a function on sample values.
\<close>

section \<open>The specification\<close>

abbreviation pipe_bits :: "capture_pipeline \<Rightarrow> u16" where
  "pipe_bits cp \<equiv> ac_bits_per_sample (dc_audio (cp_config cp))"

abbreviation pipe_channels :: "capture_pipeline \<Rightarrow> u16" where
  "pipe_channels cp \<equiv> ac_channels (dc_audio (cp_config cp))"

definition out_width :: "capture_pipeline \<Rightarrow> nat" where
  "out_width cp = unat (out_channels cp) * bytes_of_bits (pipe_bits cp)"

text \<open>Every second sample; for stereo the left channel.\<close>

definition even_samples :: "nat \<Rightarrow> int list \<Rightarrow> int list" where
  "even_samples n xs = map (\<lambda>f. xs ! (f * 2)) [0..<n]"

definition dc_filtered :: "nat \<Rightarrow> nat \<Rightarrow> rat list \<times> rat list \<Rightarrow> int list \<Rightarrow> int list" where
  "dc_filtered m C prev xs =
     map (\<lambda>k. dc_out m (fst prev ! (k mod C), snd prev ! (k mod C)) (chan_samples C (k mod C) (Suc k) xs))
       [0..<length xs]"

definition signal_spec :: "capture_pipeline \<Rightarrow> nat \<Rightarrow> int list \<Rightarrow> int list" where
  "signal_spec cp n xs =
     (let m = scale_bits (pipe_bits cp);
          mono = (if cp_downmix_mono cp \<and> 2 \<le> pipe_channels cp then even_samples n xs else xs);
          loud = (if cp_gain_linear cp \<noteq> 1 then map (gain_int m (cp_gain_linear cp)) mono else mono)
      in if cp_dc_remove cp then dc_filtered m (unat (out_channels cp)) (cp_dc_prev cp) loud else loud)"

text \<open>A pipeline whose signal path can take chunks of up to \<open>P\<close> frames.\<close>

definition signal_ok :: "nat \<Rightarrow> capture_pipeline \<Rightarrow> bool" where
  "signal_ok P cp \<longleftrightarrow>
     supported_bits (pipe_bits cp) \<and> pipe_channels cp \<noteq> 0 \<and>
     (cp_downmix_mono cp \<and> 2 \<le> pipe_channels cp \<longrightarrow> P * bytes_of_bits (pipe_bits cp) \<le> length (cp_mono_buffer cp)) \<and>
     unat (out_channels cp) \<le> length (fst (cp_dc_prev cp)) \<and> unat (out_channels cp) \<le> length (snd (cp_dc_prev cp)) \<and>
     (\<forall>c < unat (out_channels cp). dc_sane (scale_bits (pipe_bits cp)) (fst (cp_dc_prev cp) ! c, snd (cp_dc_prev cp) ! c)) \<and>
     0 \<le> cp_gain_linear cp \<and> cp_gain_linear cp \<le> gain_room (pipe_bits cp)"

text \<open>What the signal path does not touch.\<close>

definition cp_rest where
  "cp_rest cp = (cp_config cp, cp_running cp, cp_capture cp, cp_ring cp, cp_clip cp, cp_recorder cp,
     cp_publisher cp, cp_gain_linear cp, cp_gain_db cp, cp_downmix_mono cp, cp_dc_remove cp,
     cp_peak_level cp, cp_rms_level cp, cp_total_frames cp)"

lemma cp_rest_out: "cp_rest a = cp_rest b \<Longrightarrow> out_channels a = out_channels b \<and> out_width a = out_width b"
  by (simp add: cp_rest_def out_channels_def out_width_def)

section \<open>The stages\<close>

lemma sample_ints_copy:
  assumes "\<forall>i<n. frame_at (bytes_of_bits bits) dst i = frame_at (bytes_of_bits bits) src (h i)"
    and "supported_bits bits" and "\<And>i. i < n \<Longrightarrow> h i < N"
  shows "sample_ints bits n dst = map (\<lambda>i. sample_ints bits N src ! h i) [0..<n]"
  using assms(2)
proof (cases rule: supported_bits_cases)
  case 1
  then show ?thesis using assms(1,3)
    by (intro nth_equalityI) (simp_all add: sample_ints_def f16.nth_ints)
next
  case 2
  then show ?thesis using assms(1,3)
    by (intro nth_equalityI) (simp_all add: sample_ints_def f24.nth_ints)
next
  case 3
  then show ?thesis using assms(1,3)
    by (intro nth_equalityI) (simp_all add: sample_ints_def f32.nth_ints)
qed

lemma sample_ints_take:
  assumes "take (n * bytes_of_bits bits) a = take (n * bytes_of_bits bits) b" and "supported_bits bits"
  shows "sample_ints bits n a = sample_ints bits n b"
proof -
  have "frame_at (bytes_of_bits bits) a i = frame_at (bytes_of_bits bits) b i" if "i < n" for i
    using assms(1) frame_at_take [OF that, of "bytes_of_bits bits"] by metis
  then have "sample_ints bits n a = map (\<lambda>i. sample_ints bits n b ! i) [0..<n]"
    using assms(2) by (intro sample_ints_copy) auto
  also have "\<dots> = sample_ints bits n b" by (rule map_nth [of "sample_ints bits n b", simplified])
  finally show ?thesis .
qed

lemma apply_downmix_ok:
  assumes bits: "supported_bits bits" and C: "2 \<le> C"
    and src: "n * C * bytes_of_bits bits \<le> length src" and dst: "n * bytes_of_bits bits \<le> length dst"
  shows "\<exists>dst'. apply_downmix src dst n bits = Inr dst' \<and> length dst' = length dst \<and>
           sample_ints bits n dst' = even_samples n (sample_ints bits (n * C) src)"
proof -
  let ?w = "bytes_of_bits bits"
  have loop: "apply_downmix src dst n bits = sample_loop ?w 2 Inr src dst n"
    using bits by (auto simp: apply_downmix_def elim: supported_bits_cases)
  have fits: "i * 2 * ?w + ?w \<le> length src" if "i < n" for i
  proof -
    have "i * 2 < n * C" using that C mult_le_mono [of "Suc i" n 2 C] by simp
    from frame_fits [OF this, of ?w] show ?thesis using src by simp
  qed
  have width: "length (frame_at ?w src (i * 2)) = ?w" if "i < n" for i
    using fits [OF that] by (simp add: frame_at_def)
  have "\<exists>dst'. sample_loop ?w 2 Inr src dst n = Inr dst' \<and> length dst' = length dst \<and>
      (\<forall>i<n. Inr (frame_at ?w src (i * 2)) = (Inr (frame_at ?w dst' i) :: u8 list outcome)) \<and>
      drop (n * ?w) dst' = drop (n * ?w) dst"
    by (rule sample_loop_ok) (use fits dst width in auto)
  then obtain dst' where d: "sample_loop ?w 2 Inr src dst n = Inr dst'" "length dst' = length dst"
    "\<forall>i<n. frame_at ?w dst' i = frame_at ?w src (i * 2)" by auto
  have "i * 2 < n * C" if "i < n" for i using that C mult_le_mono [of "Suc i" n 2 C] by simp
  from sample_ints_copy [OF d(3) bits this] show ?thesis
    using d by (simp add: loop even_samples_def)
qed

lemma length_grow: "unat n \<le> length (grow buf n)"
  by (simp add: grow_def vec_resize_def)

lemma bytes_word:
  assumes "unat samples * bytes_of_bits bits < 2 ^ 64"
  shows "unat (samples * of_nat (unat bits div 8) :: u64) = unat samples * bytes_of_bits bits"
proof -
  have "unat (of_nat (unat bits div 8) :: u64) = bytes_of_bits bits"
    unfolding bytes_of_bits_def using unat_lt_16 [of bits] by (intro unat_of_nat_64) simp
  then show ?thesis using assms by (subst unat_mult_64) simp_all
qed

lemma stage_gain_ok:
  assumes ok: "signal_ok P cp" and bits: "bits = pipe_bits cp"
    and cur: "unat samples * bytes_of_bits bits \<le> length cur" "unat sz = unat samples * bytes_of_bits bits"
  shows "\<exists>copied cp'. stage_gain cp bits cur samples sz = Inr (copied, cp') \<and> cp_rest cp' = cp_rest cp \<and>
     cp_dc_prev cp' = cp_dc_prev cp \<and> cp_mono_buffer cp' = cp_mono_buffer cp \<and>
     (copied \<longrightarrow> unat sz \<le> length (cp_gain_buffer cp')) \<and> (copied \<longleftrightarrow> cp_gain_linear cp \<noteq> 1) \<and>
     sample_ints bits (unat samples) (if copied then cp_gain_buffer cp' else cur) =
       (if cp_gain_linear cp \<noteq> 1 then map (gain_int (scale_bits bits) (cp_gain_linear cp)) (sample_ints bits (unat samples) cur)
        else sample_ints bits (unat samples) cur)"
proof (cases "cp_gain_linear cp = 1")
  case True
  then show ?thesis by (intro exI [of _ False] exI [of _ cp]) (simp add: stage_gain_def)
next
  case False
  let ?gb = "grow (cp_gain_buffer cp) sz"
  obtain gb where "apply_gain fl32 cur ?gb (unat samples) bits (cp_gain_linear cp) = Inr gb" "length gb = length ?gb"
    "sample_ints bits (unat samples) gb = map (gain_int (scale_bits bits) (cp_gain_linear cp)) (sample_ints bits (unat samples) cur)"
    using apply_gain_ok [of bits "cp_gain_linear cp" "unat samples" cur ?gb] ok cur length_grow [of sz "cp_gain_buffer cp"]
    by (auto simp: signal_ok_def bits)
  with False show ?thesis
    using length_grow [of sz "cp_gain_buffer cp"]
    by (intro exI [of _ True] exI [of _ "cp\<lparr>cp_gain_buffer := gb\<rparr>"]) (simp add: stage_gain_def cp_rest_def)
qed

lemma stage_dc_ok:
  assumes ok: "signal_ok P cp" and bits: "bits = pipe_bits cp" and ch: "channels = out_channels cp"
    and src: "src = (if copied then cp_gain_buffer cp else cur)"
    and len: "unat sz \<le> length src" "unat sz = unat samples * bytes_of_bits bits"
    and n: "unat samples = n * unat channels"
  shows "\<exists>copied' cp'. stage_dc cp bits copied cur channels samples sz = Inr (copied', cp') \<and> cp_rest cp' = cp_rest cp \<and>
     cp_mono_buffer cp' = cp_mono_buffer cp \<and> signal_ok P cp' \<and>
     unat sz \<le> length (if copied' then cp_gain_buffer cp' else cur) \<and>
     (\<not> cp_dc_remove cp \<longrightarrow> copied' = copied \<and> cp' = cp) \<and>
     sample_ints bits (unat samples) (if copied' then cp_gain_buffer cp' else cur) =
       (if cp_dc_remove cp
        then dc_filtered (scale_bits bits) (unat channels) (cp_dc_prev cp) (sample_ints bits (unat samples) src)
        else sample_ints bits (unat samples) src)"
proof (cases "cp_dc_remove cp")
  case False
  then show ?thesis using ok len src by (intro exI [of _ copied] exI [of _ cp]) (auto simp: stage_dc_def)
next
  case True
  let ?prev = "cp_dc_prev cp" and ?C = "unat channels"
  have sup: "supported_bits bits" using ok by (simp add: signal_ok_def bits)
  have ch0: "channels \<noteq> 0" using ok by (auto simp: signal_ok_def ch out_channels_def Let_def)
  let ?gb0 = "grow (cp_gain_buffer cp) sz"
  obtain gb where gb: "(if copied then Inr (cp_gain_buffer cp) else memcpy ?gb0 0 cur 0 (unat sz)) = Inr gb"
    "take (unat sz) gb = take (unat sz) src" "unat sz \<le> length gb"
  proof (cases copied)
    case True
    then show ?thesis using that [of src] len src by simp
  next
    case False
    then have cur: "src = cur" "unat sz \<le> length cur" using len(1) src by simp_all
    have "memcpy ?gb0 0 cur 0 (unat sz) = Inr (take (unat sz) cur @ drop (unat sz) ?gb0)"
      using cur(2) length_grow [of sz "cp_gain_buffer cp"] by (simp add: memcpy_ok)
    with False cur show ?thesis
      by (intro that [of "take (unat sz) cur @ drop (unat sz) ?gb0"]) simp_all
  qed
  have same: "sample_ints bits (unat samples) gb = sample_ints bits (unat samples) src"
    using gb(2) sup by (intro sample_ints_take) (simp add: len(2))
  obtain gb' px py where r: "apply_dc_remove fl32 gb (n * ?C) channels bits (fst ?prev, snd ?prev) = Inr (gb', px, py)"
    "dc_result (scale_bits bits) ?C (n * ?C) (sample_ints bits) gb (fst ?prev) (snd ?prev) (gb', px, py)"
    using apply_dc_remove_ok [OF sup ch0, of "fst ?prev" "snd ?prev" n gb] ok gb(3) len(2) n
    by (auto simp: signal_ok_def bits ch)
  let ?cp = "cp\<lparr>cp_gain_buffer := gb', cp_dc_prev := (px, py)\<rparr>"
  have "stage_dc cp bits copied cur channels samples sz = Inr (True, ?cp)"
    using True gb(1) r(1) by (simp add: stage_dc_def n)
  moreover have "sample_ints bits (unat samples) gb' =
      dc_filtered (scale_bits bits) ?C ?prev (sample_ints bits (unat samples) src)"
    using r(2) same by (intro nth_equalityI) (simp_all add: dc_result_def dc_filtered_def n)
  moreover have rest: "cp_rest ?cp = cp_rest cp" by (simp add: cp_rest_def)
  moreover have "signal_ok P ?cp"
  proof -
    have "out_channels ?cp = out_channels cp" using rest by (rule cp_rest_out [THEN conjunct1])
    moreover have "\<forall>c<?C. dc_sane (scale_bits bits) (px ! c, py ! c)"
      "length px = length (fst ?prev)" "length py = length (snd ?prev)"
      using r(2) unfolding dc_result_def prod.case by blast+
    ultimately show ?thesis using ok by (simp add: signal_ok_def bits ch)
  qed
  moreover have "unat sz \<le> length gb'" using r(2) gb(3) by (simp add: dc_result_def)
  ultimately show ?thesis using True by (intro exI [of _ True] exI [of _ ?cp]) simp
qed

lemma stage_downmix_ok:
  assumes ok: "signal_ok P cp" and meta: "cm_channels meta = pipe_channels cp" "cm_bits_per_sample meta = pipe_bits cp"
    and n: "unat fc = n" "n \<le> P" "unat count = n * unat (pipe_channels cp)"
    and data: "n * unat (pipe_channels cp) * bytes_of_bits (pipe_bits cp) \<le> length data"
  shows "\<exists>cur samples cp'. stage_downmix cp meta data fc count = Inr (cur, out_channels cp, samples, cp') \<and>
     cp_rest cp' = cp_rest cp \<and> signal_ok P cp' \<and> cp_dc_prev cp' = cp_dc_prev cp \<and>
     unat samples = n * unat (out_channels cp) \<and> unat samples * bytes_of_bits (pipe_bits cp) \<le> length cur \<and>
     (\<not> cp_downmix_mono cp \<longrightarrow> cur = data) \<and>
     sample_ints (pipe_bits cp) (unat samples) cur =
       (let xs = sample_ints (pipe_bits cp) (n * unat (pipe_channels cp)) data
        in if cp_downmix_mono cp \<and> 2 \<le> pipe_channels cp then even_samples n xs else xs)"
proof (cases "cp_downmix_mono cp \<and> 2 \<le> pipe_channels cp")
  case False
  then show ?thesis using ok meta n data
    by (intro exI [of _ data] exI [of _ count] exI [of _ cp]) (auto simp: stage_downmix_def out_channels_def)
next
  case True
  have C: "2 \<le> unat (pipe_channels cp)" using True by (simp add: word_le_nat_alt)
  have mono: "n * bytes_of_bits (pipe_bits cp) \<le> length (cp_mono_buffer cp)"
    using ok True le_trans [OF mult_le_mono1 [OF n(2)]] unfolding signal_ok_def by blast
  have sup: "supported_bits (pipe_bits cp)" using ok by (simp add: signal_ok_def)
  obtain m where m: "apply_downmix data (cp_mono_buffer cp) n (pipe_bits cp) = Inr m"
    "length m = length (cp_mono_buffer cp)"
    "sample_ints (pipe_bits cp) n m = even_samples n (sample_ints (pipe_bits cp) (n * unat (pipe_channels cp)) data)"
    using apply_downmix_ok [OF sup C data mono] by blast
  let ?cp = "cp\<lparr>cp_mono_buffer := m\<rparr>"
  have "stage_downmix cp meta data fc count = Inr (m, out_channels cp, fc, ?cp)"
    using True m(1) meta n(1) by (simp add: stage_downmix_def out_channels_def)
  moreover have "signal_ok P ?cp" "cp_rest ?cp = cp_rest cp"
    using ok m(2) by (simp_all add: signal_ok_def cp_rest_def out_channels_def)
  moreover have "unat fc = n * unat (out_channels cp)" using True n(1) by (simp add: out_channels_def)
  ultimately show ?thesis using True m mono n(1)
    by (intro exI [of _ m] exI [of _ fc] exI [of _ ?cp]) (simp add: out_channels_def)
qed

section \<open>The signal path\<close>

lemma out_channels_le:
  "unat (out_channels cp) \<le> unat (pipe_channels cp)"
  by (auto simp: out_channels_def Let_def word_le_nat_alt)

lemma cp_signal_ok:
  assumes ok: "signal_ok P cp" and meta: "cm_channels meta = pipe_channels cp" "cm_bits_per_sample meta = pipe_bits cp"
    and n: "unat fc = n" "n \<le> P" "unat count = n * unat (pipe_channels cp)"
    and data: "n * unat (pipe_channels cp) * bytes_of_bits (pipe_bits cp) \<le> length data" "length data < 2 ^ 63"
  shows "\<exists>out samples cp'. cp_signal cp meta data fc count = Inr (out, samples, cp') \<and>
     cp_rest cp' = cp_rest cp \<and> signal_ok P cp' \<and> unat samples = n * unat (out_channels cp) \<and>
     n * out_width cp \<le> length out \<and>
     sample_ints (pipe_bits cp) (n * unat (out_channels cp)) out =
       signal_spec cp n (sample_ints (pipe_bits cp) (n * unat (pipe_channels cp)) data) \<and>
     (cp_gain_linear cp = 1 \<and> \<not> cp_dc_remove cp \<and> \<not> cp_downmix_mono cp \<longrightarrow> out = data)"
proof -
  let ?b = "pipe_bits cp"
  obtain cur samples cp1 where s1: "stage_downmix cp meta data fc count = Inr (cur, out_channels cp, samples, cp1)"
    "cp_rest cp1 = cp_rest cp" "signal_ok P cp1" "cp_dc_prev cp1 = cp_dc_prev cp"
    "unat samples = n * unat (out_channels cp)" "unat samples * bytes_of_bits ?b \<le> length cur"
    "\<not> cp_downmix_mono cp \<longrightarrow> cur = data"
    "sample_ints ?b (unat samples) cur =
       (let xs = sample_ints ?b (n * unat (pipe_channels cp)) data
        in if cp_downmix_mono cp \<and> 2 \<le> pipe_channels cp then even_samples n xs else xs)"
    using stage_downmix_ok [OF ok meta n data(1)] by blast
  define sz where "sz = samples * of_nat (unat ?b div 8)"
  have "unat samples * bytes_of_bits ?b \<le> n * unat (pipe_channels cp) * bytes_of_bits ?b"
    unfolding s1(5) using out_channels_le by (intro mult_le_mono1 mult_le_mono2)
  from le_trans [OF this data(1)] have "unat samples * bytes_of_bits ?b < 2 ^ 64"
    by (rule le_less_trans) (use data(2) in simp)
  then have sz: "unat sz = unat samples * bytes_of_bits ?b"
    unfolding sz_def by (rule bytes_word)
  have same1: "pipe_bits cp1 = ?b" "out_channels cp1 = out_channels cp" "cp_gain_linear cp1 = cp_gain_linear cp"
    using s1(2) by (simp_all add: cp_rest_def out_channels_def)
  obtain copied cp2 where s2: "stage_gain cp1 ?b cur samples sz = Inr (copied, cp2)" "cp_rest cp2 = cp_rest cp1"
    "cp_dc_prev cp2 = cp_dc_prev cp1" "cp_mono_buffer cp2 = cp_mono_buffer cp1"
    "copied \<longrightarrow> unat sz \<le> length (cp_gain_buffer cp2)" "copied \<longleftrightarrow> cp_gain_linear cp1 \<noteq> 1"
    "sample_ints ?b (unat samples) (if copied then cp_gain_buffer cp2 else cur) =
       (if cp_gain_linear cp1 \<noteq> 1 then map (gain_int (scale_bits ?b) (cp_gain_linear cp1)) (sample_ints ?b (unat samples) cur)
        else sample_ints ?b (unat samples) cur)"
    using stage_gain_ok [OF s1(3) same1(1) [symmetric] s1(6) sz] by blast
  have ok2: "signal_ok P cp2" using s1(3) s2(2-4) by (simp add: signal_ok_def cp_rest_def out_channels_def)
  have same2: "pipe_bits cp2 = ?b" "out_channels cp2 = out_channels cp" "cp_dc_remove cp2 = cp_dc_remove cp"
    using s1(2) s2(2) by (simp_all add: cp_rest_def out_channels_def)
  have len2: "unat sz \<le> length (if copied then cp_gain_buffer cp2 else cur)" using s2(5) s1(6) sz by simp
  obtain copied' cp3 where s3: "stage_dc cp2 ?b copied cur (out_channels cp) samples sz = Inr (copied', cp3)"
    "cp_rest cp3 = cp_rest cp2" "signal_ok P cp3" "unat sz \<le> length (if copied' then cp_gain_buffer cp3 else cur)"
    "\<not> cp_dc_remove cp2 \<longrightarrow> copied' = copied \<and> cp3 = cp2"
    "sample_ints ?b (unat samples) (if copied' then cp_gain_buffer cp3 else cur) =
       (if cp_dc_remove cp2
        then dc_filtered (scale_bits ?b) (unat (out_channels cp)) (cp_dc_prev cp2)
               (sample_ints ?b (unat samples) (if copied then cp_gain_buffer cp2 else cur))
        else sample_ints ?b (unat samples) (if copied then cp_gain_buffer cp2 else cur))"
    using stage_dc_ok [OF ok2 same2(1) [symmetric] same2(2) [symmetric] refl len2 sz s1(5)] by blast
  let ?out = "if copied' then cp_gain_buffer cp3 else cur"
  have "cp_signal cp meta data fc count = Inr (?out, samples, cp3)"
    using s1(1) s2(1) s3(1) by (simp add: cp_signal_def Let_def meta flip: sz_def)
  moreover have "sample_ints ?b (n * unat (out_channels cp)) ?out =
      signal_spec cp n (sample_ints ?b (n * unat (pipe_channels cp)) data)"
    unfolding s1(5) [symmetric] s3(6) s2(7) s1(8) same1 same2 s2(3) s1(4) signal_spec_def Let_def by simp
  moreover have "cp_gain_linear cp = 1 \<and> \<not> cp_dc_remove cp \<and> \<not> cp_downmix_mono cp \<longrightarrow> ?out = data"
    using s1(7) s2(6) s3(5) same1(3) same2(3) by auto
  moreover have "n * out_width cp \<le> length ?out" using s3(4) sz s1(5) by (simp add: out_width_def mult.assoc)
  moreover have "cp_rest cp3 = cp_rest cp" using s1(2) s2(2) s3(2) by simp
  ultimately show ?thesis using s1(5) s3(3) by blast
qed

end
