(* ===== verification/Pipeline_Chunk.thy ===== *)
theory Pipeline_Chunk
  imports Pipeline_Signal Level_Meter
begin

text \<open>
  \<open>on_audio_chunk\<close> as a whole: the invariant that ties the consumers of the pipeline to the one
  stream they are fed, and its preservation.
\<close>

section \<open>Reading no more than the period\<close>

lemma memcpy_take: "j + n \<le> k \<Longrightarrow> memcpy dst i (take k src) j n = memcpy dst i src j n"
  by (auto simp: memcpy_def load_range_def drop_take min_def)

lemma sr_push_take: "unat bytes \<le> k \<Longrightarrow> sr_push rg (take k data) bytes = sr_push rg data bytes"
proof -
  assume k: "unat bytes \<le> k"
  let ?first = "min bytes (sr_capacity rg - (sr_write rg AND sr_mask rg))"
  have "unat ?first \<le> k" using k by (simp add: unat_min)
  then have 1: "memcpy dst i (take k data) 0 (unat ?first) = memcpy dst i data 0 (unat ?first)" for dst i
    by (simp add: memcpy_take)
  have "unat ?first + unat (bytes - ?first) = unat bytes"
    by (subst unat_sub) (simp_all add: unat_min)
  then have 2: "memcpy dst 0 (take k data) (unat ?first) (unat (bytes - ?first)) =
      memcpy dst 0 data (unat ?first) (unat (bytes - ?first))" for dst
    using k by (intro memcpy_take) simp
  show "sr_push rg (take k data) bytes = sr_push rg data bytes"
    unfolding sr_push_def Let_def 1 2 by (rule refl)
qed

lemma br_push_take:
  "br_recording br \<longrightarrow> unat (n * br_bytes_per_frame br) \<le> k \<Longrightarrow> br_push br (take k data) n = br_push br data n"
  by (simp add: br_push_def sr_push_take)

lemma sp_publish_take:
  "unat (sp_publish_bytes sp n) \<le> k \<Longrightarrow> sp_publish sp (take k data) n ts = sp_publish sp data n ts"
  by (auto simp: sp_publish_def load_range_def min_def split: option.splits)

section \<open>The invariant\<close>

text \<open>
  \<open>H\<close> are the frames written so far, \<open>A\<close> the bytes the recorder has accepted, \<open>R\<close> of which its
  writer has taken. All consumers have frames of the same width.
\<close>

definition ring_ok :: "u8 list list \<Rightarrow> capture_pipeline \<Rightarrow> bool" where
  "ring_ok H cp \<longleftrightarrow> (\<exists>rb. cp_ring cp = Some rb \<and> rb_holds H rb \<and> rb_width rb = out_width cp)"

definition recorder_ok :: "u8 list \<Rightarrow> nat \<Rightarrow> capture_pipeline \<Rightarrow> bool" where
  "recorder_ok A R cp \<longleftrightarrow>
     (\<forall>br. cp_recorder cp = Some br \<longrightarrow> br_inv A R br \<and> br_width br = out_width cp)"

definition publisher_ok :: "capture_pipeline \<Rightarrow> bool" where
  "publisher_ok cp \<longleftrightarrow>
     (\<forall>sp. cp_publisher cp = Some sp \<longrightarrow>
        (\<exists>seg. sp_ready sp seg) \<and> sp_channels sp = out_channels cp \<and> sp_bits_per_sample sp = pipe_bits cp)"

definition pipe_inv :: "nat \<Rightarrow> u8 list list \<Rightarrow> u8 list \<Rightarrow> nat \<Rightarrow> capture_pipeline \<Rightarrow> bool" where
  "pipe_inv P H A R cp \<longleftrightarrow> signal_ok P cp \<and> ring_ok H cp \<and> recorder_ok A R cp \<and> publisher_ok cp"

text \<open>Whether the recorder takes a period of \<open>n\<close> frames.\<close>

definition recorder_takes :: "u8 list \<Rightarrow> nat \<Rightarrow> nat \<Rightarrow> capture_pipeline \<Rightarrow> bool" where
  "recorder_takes A R n cp \<longleftrightarrow>
     (\<exists>br. cp_recorder cp = Some br \<and> br_recording br \<and>
           length A - R + n * out_width cp \<le> unat (sr_capacity (br_ring br)))"

text \<open>What chunks do not change: the parameters, whether the recorder records, and how big its ring is.\<close>

definition recorder_key :: "capture_pipeline \<Rightarrow> (bool \<times> u64) option" where
  "recorder_key cp = map_option (\<lambda>br. (br_recording br, sr_capacity (br_ring br))) (cp_recorder cp)"

definition cp_params where
  "cp_params cp = (cp_config cp, cp_gain_linear cp, cp_downmix_mono cp, cp_dc_remove cp, recorder_key cp)"

lemma cp_params_out: "cp_params a = cp_params b \<Longrightarrow> out_channels a = out_channels b \<and> out_width a = out_width b"
  by (simp add: cp_params_def out_channels_def out_width_def)

lemma recorder_takes_key:
  "recorder_takes A R n cp \<longleftrightarrow>
     (\<exists>cap. recorder_key cp = Some (True, cap) \<and> length A - R + n * out_width cp \<le> unat cap)"
  by (auto simp: recorder_takes_def recorder_key_def)

text \<open>The newest period of the shared memory.\<close>

definition published :: "u8 list \<Rightarrow> u64 \<Rightarrow> nat \<Rightarrow> capture_pipeline \<Rightarrow> capture_pipeline \<Rightarrow> bool" where
  "published out ts n cp cp' \<longleftrightarrow>
     (\<forall>sp. cp_publisher cp = Some sp \<longrightarrow>
        (\<exists>sp' seg. cp_publisher cp' = Some sp' \<and> sp_ready sp' seg \<and>
           sp_write_counter sp' = sp_write_counter sp + 1 \<and>
           take (min (n * out_width cp) (sp_data_bytes sp)) (region seg 64 (sp_data_bytes sp)) =
             take (sp_data_bytes sp) out))"

text \<open>What the consumers do not touch.\<close>

lemma signal_ok_cong:
  assumes "cp_config a = cp_config b" "cp_downmix_mono a = cp_downmix_mono b" "cp_mono_buffer a = cp_mono_buffer b"
    "cp_dc_prev a = cp_dc_prev b" "cp_gain_linear a = cp_gain_linear b"
  shows "signal_ok P a = signal_ok P b" "out_channels a = out_channels b" "out_width a = out_width b"
  using assms by (simp_all add: signal_ok_def out_channels_def out_width_def)

lemma out_width_updates [simp]:
  "out_width (cp\<lparr>cp_ring := r\<rparr>) = out_width cp" "out_channels (cp\<lparr>cp_ring := r\<rparr>) = out_channels cp"
  "out_width (cp\<lparr>cp_recorder := b\<rparr>) = out_width cp" "out_channels (cp\<lparr>cp_recorder := b\<rparr>) = out_channels cp"
  "out_width (cp\<lparr>cp_publisher := p\<rparr>) = out_width cp" "out_channels (cp\<lparr>cp_publisher := p\<rparr>) = out_channels cp"
  "signal_ok P (cp\<lparr>cp_ring := r\<rparr>) = signal_ok P cp"
  "signal_ok P (cp\<lparr>cp_recorder := b\<rparr>) = signal_ok P cp"
  "signal_ok P (cp\<lparr>cp_publisher := p\<rparr>) = signal_ok P cp"
  by (rule signal_ok_cong; simp)+

section \<open>The consumers\<close>

lemma feed_recorder_ok:
  assumes rec: "recorder_ok A R cp" and n: "unat fc = n" and out: "n * out_width cp \<le> length out" "n * out_width cp < 2 ^ 63"
  shows "\<exists>br'. feed_recorder cp out fc = Inr (cp\<lparr>cp_recorder := br'\<rparr>) \<and>
     recorder_ok (A @ (if recorder_takes A R n cp then take (n * out_width cp) out else [])) R (cp\<lparr>cp_recorder := br'\<rparr>) \<and>
     recorder_key (cp\<lparr>cp_recorder := br'\<rparr>) = recorder_key cp"
proof (cases "cp_recorder cp")
  case None
  then have "cp\<lparr>cp_recorder := None\<rparr> = cp" by simp
  with None rec show ?thesis
    by (intro exI [of _ None]) (simp add: feed_recorder_def recorder_ok_def recorder_takes_def recorder_key_def)
next
  case (Some br)
  then have inv: "br_inv A R br" "br_width br = out_width cp" using rec by (simp_all add: recorder_ok_def)
  let ?data = "take (n * out_width cp) out"
  have bpf: "unat (br_bytes_per_frame br) = out_width cp" using inv by (simp add: br_inv_def br_sane_def)
  have len: "length ?data = unat fc * br_width br" using out by (simp add: inv n)
  have "n * out_width cp < 2 ^ 64" using out by simp
  then have bytes: "unat (fc * br_bytes_per_frame br) = n * out_width cp"
    by (subst unat_mult_64) (simp_all add: bpf n)
  have "length ?data < 2 ^ 63" using out by simp
  from br_push_ok [OF inv(1) len this] obtain taken br' where push: "br_push br ?data fc = Inr (taken, br')"
    "br_inv (A @ (if taken then ?data else [])) R br'" "br_static br' = br_static br"
    "br_recording br' = br_recording br" "taken \<longleftrightarrow> br_recording br \<and> length A - R + length ?data \<le> unat (sr_capacity (br_ring br))"
    by blast
  have "br_push br out fc = Inr (taken, br')"
    using push(1) br_push_take [of br fc "n * out_width cp" out] bytes by simp
  moreover have "taken \<longleftrightarrow> recorder_takes A R n cp"
    using push(5) out(1) by (simp add: recorder_takes_def Some min_absorb2)
  moreover have "br_width br' = out_width cp" using br_static_width [OF push(3)] inv(2) by simp
  ultimately show ?thesis
    using push(2-4) by (intro exI [of _ "Some br'"])
      (simp add: feed_recorder_def Some recorder_ok_def recorder_key_def br_static_def)
qed

lemma feed_publisher_ok:
  assumes pub: "publisher_ok cp" and n: "unat fc = n" and out: "n * out_width cp \<le> length out" "n * out_width cp < 2 ^ 63"
  shows "\<exists>sp'. feed_publisher cp out fc ts = Inr (cp\<lparr>cp_publisher := sp'\<rparr>) \<and> publisher_ok (cp\<lparr>cp_publisher := sp'\<rparr>) \<and>
     published (take (n * out_width cp) out) ts n cp (cp\<lparr>cp_publisher := sp'\<rparr>)"
proof (cases "cp_publisher cp")
  case None
  then have "cp\<lparr>cp_publisher := None\<rparr> = cp" by simp
  with None pub show ?thesis by (intro exI [of _ None]) (simp add: feed_publisher_def publisher_ok_def published_def)
next
  case (Some sp)
  then obtain seg where sp: "sp_ready sp seg" "sp_channels sp = out_channels cp" "sp_bits_per_sample sp = pipe_bits cp"
    using pub by (auto simp: publisher_ok_def)
  have w: "unat fc * unat (sp_channels sp) * (unat (sp_bits_per_sample sp) div 8) = n * out_width cp"
    by (simp add: sp n out_width_def bytes_of_bits_def)
  have count: "sp_count sp fc = min (n * out_width cp) (sp_data_bytes sp)" by (simp add: sp_count_def w)
  let ?data = "take (n * out_width cp) out"
  have len: "length ?data = n * out_width cp" "length ?data < 2 ^ 64" using out by simp_all
  have le: "unat fc * unat (sp_channels sp) * (unat (sp_bits_per_sample sp) div 8) \<le> length ?data"
    unfolding w len(1) by (rule order_refl)
  obtain seg' where
    pub': "sp_publish sp ?data fc ts = Inr (sp\<lparr>sp_shm_ptr := Some seg', sp_write_counter := sp_write_counter sp + 1\<rparr>)"
      "sp_ready (sp\<lparr>sp_shm_ptr := Some seg', sp_write_counter := sp_write_counter sp + 1\<rparr>) seg'"
      "region seg' 64 (sp_data_bytes sp) =
         take (sp_count sp fc) ?data @ drop (sp_count sp fc) (region seg 64 (sp_data_bytes sp))"
    using sp_publish_ok [OF sp(1) le len(2), of ts] by blast
  let ?sp = "sp\<lparr>sp_shm_ptr := Some seg', sp_write_counter := sp_write_counter sp + 1\<rparr>"
  have "unat (sp_publish_bytes sp fc) = sp_count sp fc"
    using unat_publish_bytes [OF sp(1), of fc] w out(2) by simp
  then have same: "sp_publish sp out fc ts = sp_publish sp ?data fc ts"
    by (subst sp_publish_take) (simp_all add: count)
  have newest: "take (min (n * out_width cp) (sp_data_bytes sp)) (region seg' 64 (sp_data_bytes sp)) =
      take (sp_data_bytes sp) ?data"
    unfolding pub'(3) count using len(1) by (simp add: min.commute)
  show ?thesis
    using same pub'(1,2) sp newest Some
    by (intro exI [of _ "Some ?sp"]) (auto simp: feed_publisher_def publisher_ok_def published_def)
qed

section \<open>A chunk\<close>

text \<open>A chunk of \<open>n\<close> frames as the capture delivers it: the announced format, and no more frames than a period.\<close>

definition chunk_fits :: "nat \<Rightarrow> nat \<Rightarrow> capture_pipeline \<Rightarrow> chunk \<Rightarrow> bool" where
  "chunk_fits P n cp c \<longleftrightarrow>
     (case c of (meta, data, count) \<Rightarrow>
        cm_channels meta = pipe_channels cp \<and> cm_bits_per_sample meta = pipe_bits cp \<and>
        unat count = n * unat (pipe_channels cp) \<and> n \<le> P \<and>
        n * unat (pipe_channels cp) * bytes_of_bits (pipe_bits cp) \<le> length data \<and> length data < 2 ^ 63)"

definition chunk_samples :: "nat \<Rightarrow> capture_pipeline \<Rightarrow> chunk \<Rightarrow> int list" where
  "chunk_samples n cp c = sample_ints (pipe_bits cp) (n * unat (pipe_channels cp)) (fst (snd c))"

text \<open>What the metering leaves alone.\<close>

lemma pipe_inv_meter [simp]:
  "pipe_inv P H A R (cp\<lparr>cp_peak_level := p, cp_rms_level := r, cp_total_frames := t\<rparr>) = pipe_inv P H A R cp"
  "published out ts n cp0 (cp\<lparr>cp_peak_level := p, cp_rms_level := r, cp_total_frames := t\<rparr>) = published out ts n cp0 cp"
  "cp_params (cp\<lparr>cp_peak_level := p, cp_rms_level := r, cp_total_frames := t\<rparr>) = cp_params cp"
  by (simp_all add: cp_params_def recorder_key_def pipe_inv_def ring_ok_def recorder_ok_def publisher_ok_def published_def
      signal_ok_def out_width_def out_channels_def)

text \<open>The parts of the invariant through the steps of \<open>on_audio_chunk\<close>.\<close>

lemma pipe_inv_rest:
  assumes "cp_rest a = cp_rest b"
  shows "ring_ok H a = ring_ok H b" "recorder_ok A R a = recorder_ok A R b" "publisher_ok a = publisher_ok b"
    "recorder_takes A R n a = recorder_takes A R n b" "published out ts n a c = published out ts n b c"
    "cp_ring a = cp_ring b" "out_width a = out_width b" "out_channels a = out_channels b" "cp_params a = cp_params b"
  using assms cp_rest_out [OF assms]
  by (simp_all add: cp_rest_def ring_ok_def recorder_ok_def publisher_ok_def recorder_takes_def published_def
      cp_params_def recorder_key_def)

lemma consumers_updates [simp]:
  "recorder_ok A R (cp\<lparr>cp_ring := r\<rparr>) = recorder_ok A R cp"
  "publisher_ok (cp\<lparr>cp_ring := r\<rparr>) = publisher_ok cp"
  "recorder_takes A R n (cp\<lparr>cp_ring := r\<rparr>) = recorder_takes A R n cp"
  "published out ts n (cp\<lparr>cp_ring := r\<rparr>) c = published out ts n cp c"
  "ring_ok H (cp\<lparr>cp_recorder := b\<rparr>) = ring_ok H cp"
  "publisher_ok (cp\<lparr>cp_recorder := b\<rparr>) = publisher_ok cp"
  "published out ts n (cp\<lparr>cp_recorder := b\<rparr>) c = published out ts n cp c"
  "ring_ok H (cp\<lparr>cp_publisher := p\<rparr>) = ring_ok H cp"
  "recorder_ok A R (cp\<lparr>cp_publisher := p\<rparr>) = recorder_ok A R cp"
  by (simp_all add: ring_ok_def recorder_ok_def publisher_ok_def recorder_takes_def published_def)

lemma feed_all_ok:
  assumes "ring_ok H cp" "recorder_ok A R cp" "publisher_ok cp" "signal_ok P cp"
    and n: "unat fc = n" and out: "n * out_width cp \<le> length out" "n * out_width cp < 2 ^ 63"
  shows "\<exists>rb rb' cp2 cp3. cp_ring cp = Some rb \<and> rb_write rb out fc = Some (Inr rb') \<and>
     feed_recorder (cp\<lparr>cp_ring := Some rb'\<rparr>) out fc = Inr cp2 \<and> feed_publisher cp2 out fc ts = Inr cp3 \<and>
     pipe_inv P (H @ frames_of (out_width cp) n out)
       (A @ (if recorder_takes A R n cp then take (n * out_width cp) out else [])) R cp3 \<and>
     published (take (n * out_width cp) out) ts n cp cp3 \<and> cp_params cp3 = cp_params cp \<and>
     cp_total_frames cp3 = cp_total_frames cp"
proof -
  obtain rb where rb: "cp_ring cp = Some rb" "rb_holds H rb" "rb_width rb = out_width cp"
    using assms(1) by (auto simp: ring_ok_def)
  obtain rb' where rb': "rb_write rb out fc = Some (Inr rb')"
    "rb_holds (H @ frames_of (out_width cp) n out) rb'" "rb_width rb' = out_width cp"
    using rb_write_refines [OF rb(2), of fc out] out(1) by (auto simp: rb(3) n)
  let ?cp1 = "cp\<lparr>cp_ring := Some rb'\<rparr>"
  have ring1: "ring_ok (H @ frames_of (out_width cp) n out) ?cp1" using rb'(2,3) by (simp add: ring_ok_def)
  obtain b where b: "feed_recorder ?cp1 out fc = Inr (?cp1\<lparr>cp_recorder := b\<rparr>)"
    "recorder_ok (A @ (if recorder_takes A R n cp then take (n * out_width cp) out else [])) R (?cp1\<lparr>cp_recorder := b\<rparr>)"
    "recorder_key (?cp1\<lparr>cp_recorder := b\<rparr>) = recorder_key ?cp1"
    using feed_recorder_ok [of A R ?cp1 fc n out, unfolded consumers_updates out_width_updates, OF assms(2) n out] by blast
  obtain p where p: "feed_publisher (?cp1\<lparr>cp_recorder := b\<rparr>) out fc ts = Inr (?cp1\<lparr>cp_recorder := b, cp_publisher := p\<rparr>)"
    "publisher_ok (?cp1\<lparr>cp_recorder := b, cp_publisher := p\<rparr>)"
    "published (take (n * out_width cp) out) ts n cp (?cp1\<lparr>cp_recorder := b, cp_publisher := p\<rparr>)"
    using feed_publisher_ok [of "?cp1\<lparr>cp_recorder := b\<rparr>" fc n out ts,
        unfolded consumers_updates out_width_updates, OF assms(3) n out] by blast
  have "pipe_inv P (H @ frames_of (out_width cp) n out)
      (A @ (if recorder_takes A R n cp then take (n * out_width cp) out else [])) R
      (?cp1\<lparr>cp_recorder := b, cp_publisher := p\<rparr>)"
    unfolding pipe_inv_def using assms(4) ring1 b(2) p(2) by simp
  moreover have "cp_params (?cp1\<lparr>cp_recorder := b, cp_publisher := p\<rparr>) = cp_params cp"
    using b(3) by (simp add: cp_params_def recorder_key_def)
  ultimately show ?thesis
    using rb(1) rb'(1) b(1) p(1,3) by (intro exI conjI) (assumption | simp)+
qed

lemma on_audio_chunk_ok:
  assumes inv: "pipe_inv P H A R cp" and fits: "chunk_fits P n cp c"
  shows "\<exists>cp' out. on_audio_chunk math c cp = Some (Inr cp') \<and> length out = n * out_width cp \<and>
     sample_ints (pipe_bits cp) (n * unat (out_channels cp)) out = signal_spec cp n (chunk_samples n cp c) \<and>
     (cp_gain_linear cp = 1 \<and> \<not> cp_dc_remove cp \<and> \<not> cp_downmix_mono cp \<longrightarrow> out = take (n * out_width cp) (fst (snd c))) \<and>
     pipe_inv P (H @ frames_of (out_width cp) n out) (A @ (if recorder_takes A R n cp then out else [])) R cp' \<and>
     published out (cm_timestamp_us (fst c)) n cp cp' \<and> cp_params cp' = cp_params cp \<and>
     cp_total_frames cp' = cp_total_frames cp + of_nat n \<and>
     cp_peak_level cp' =
       word_of_int (min (peak_of (levels (pipe_bits cp) (n * unat (out_channels cp)) out)) 32767)"
proof -
  obtain meta data count where c: "c = (meta, data, count)" by (cases c)
  note F = fits [unfolded chunk_fits_def c prod.case]
  have ok: "signal_ok P cp" using inv by (simp add: pipe_inv_def)
  have sup: "supported_bits (pipe_bits cp)" and ch: "0 < unat (pipe_channels cp)"
    using ok by (simp_all add: signal_ok_def unat_gt_0)
  define fc where "fc = count div ucast (pipe_channels cp)"
  have fc: "unat fc = n" using F ch by (simp add: fc_def unat_div unat_ucast_16)
  obtain raw samples cp1 where sig: "cp_signal cp meta data fc count = Inr (raw, samples, cp1)"
    "cp_rest cp1 = cp_rest cp" "signal_ok P cp1" "unat samples = n * unat (out_channels cp)"
    "n * out_width cp \<le> length raw"
    "sample_ints (pipe_bits cp) (n * unat (out_channels cp)) raw = signal_spec cp n (chunk_samples n cp c)"
    "cp_gain_linear cp = 1 \<and> \<not> cp_dc_remove cp \<and> \<not> cp_downmix_mono cp \<longrightarrow> raw = data"
    using cp_signal_ok [OF ok _ _ fc, of meta count data] F by (auto simp: chunk_samples_def c)
  note same = pipe_inv_rest [OF sig(2)]
  have "n * out_width cp \<le> n * unat (pipe_channels cp) * bytes_of_bits (pipe_bits cp)"
    unfolding out_width_def mult.assoc using out_channels_le by (intro mult_le_mono1 mult_le_mono2)
  then have lt: "n * out_width cp < 2 ^ 63" using F by linarith
  obtain rb rb' cp2 cp3 where fed: "cp_ring cp = Some rb" "rb_write rb raw fc = Some (Inr rb')"
    "feed_recorder (cp1\<lparr>cp_ring := Some rb'\<rparr>) raw fc = Inr cp2"
    "feed_publisher cp2 raw fc (cm_timestamp_us meta) = Inr cp3"
    "pipe_inv P (H @ frames_of (out_width cp) n raw)
       (A @ (if recorder_takes A R n cp then take (n * out_width cp) raw else [])) R cp3"
    "published (take (n * out_width cp) raw) (cm_timestamp_us meta) n cp cp3" "cp_params cp3 = cp_params cp"
    "cp_total_frames cp3 = cp_total_frames cp1"
    using feed_all_ok [of H cp1 A R P fc n raw "cm_timestamp_us meta", unfolded same, OF _ _ _ sig(3) fc sig(5) lt] inv
    unfolding pipe_inv_def by blast
  have "n * unat (out_channels cp) * bytes_of_bits (pipe_bits cp) \<le> length raw"
    using sig(5) by (simp add: out_width_def mult.assoc)
  from meter_ok [OF sup this] obtain sq where
    m: "meter fl64 raw (unat samples) (pipe_bits cp) = Inr (peak_of (levels (pipe_bits cp) (n * unat (out_channels cp)) raw), sq)"
    unfolding sig(4) by blast
  let ?out = "take (n * out_width cp) raw"
  let ?cp' = "cp3\<lparr>cp_peak_level := word_of_int (min (peak_of (levels (pipe_bits cp) (n * unat (out_channels cp)) raw)) 32767),
      cp_rms_level := rms_of math sq samples, cp_total_frames := cp_total_frames cp3 + fc\<rparr>"
  have "cm_channels meta \<noteq> 0" using F ch by auto
  then have "on_audio_chunk math c cp = Some (Inr ?cp')"
    using F sig(1) fed(1-4) m same(6) by (simp add: on_audio_chunk_def c Let_def cp_meter_def flip: fc_def)
  moreover have "sample_ints (pipe_bits cp) (n * unat (out_channels cp)) ?out =
      sample_ints (pipe_bits cp) (n * unat (out_channels cp)) raw"
    using sup by (intro sample_ints_take) (simp_all add: out_width_def mult.assoc)
  moreover have "frames_of (out_width cp) n ?out = frames_of (out_width cp) n raw" by (simp add: frames_of_take)
  moreover have "cp_total_frames cp1 + fc = cp_total_frames cp + of_nat n"
    using sig(2) by (simp add: cp_rest_def flip: fc)
  moreover have "length ?out = n * out_width cp" using sig(5) by simp
  ultimately show ?thesis
    using sig(6,7) fed(5-8) by (intro exI [of _ ?cp'] exI [of _ ?out]) (simp add: c levels_def)
qed

end
