(* ===== verification/Pipeline_Init.thy ===== *)
theory Pipeline_Init
  imports Pipeline_Chunk
begin

text \<open>
  From \<open>initialize()\<close> and \<open>start()\<close> to the invariant of the pipeline: which configurations and
  which answers of the environment make a pipeline that can take every chunk.
\<close>

section \<open>The parts\<close>

text \<open>A configuration whose sizes fit: format, ring size and gain.\<close>

definition config_ok :: "math_lib \<Rightarrow> u32 \<Rightarrow> u32 \<Rightarrow> rat daemon_config \<Rightarrow> bool" where
  "config_ok math rate period config \<longleftrightarrow>
     (let audio = dc_audio config; ch = ac_channels audio; bits = ac_bits_per_sample audio;
          frames = ucast (dc_ring_buffer_seconds config) * ucast rate :: u64
      in supported_bits bits \<and> ch \<noteq> 0 \<and> rate \<noteq> 0 \<and> unat period * unat ch < 2 ^ 32 \<and>
         unat frames \<le> 2 ^ 63 \<and> unat (next_power_of_2 frames) * (unat ch * bytes_of_bits bits) < 2 ^ 63 \<and>
         0 \<le> linear_gain math (ac_gain_db audio) \<and> linear_gain math (ac_gain_db audio) \<le> gain_room bits \<and>
         (bc_enabled (dc_block_recorder config) \<longrightarrow> bc_block_duration_seconds (dc_block_recorder config) \<noteq> 0))"

lemma unat_bits_div8 [simp]: "unat (bits_div8 bits) = bytes_of_bits bits"
proof -
  have "unat bits div 8 < 2 ^ 16" using unat_lt_16 [of bits] by simp
  then show ?thesis by (simp add: bits_div8_def bytes_of_bits_def take_bit_nat_eq_self unsigned_of_nat)
qed

lemma rb_new_any_memory:
  "rb_new mem_ok n ch bps = Inr rb \<Longrightarrow> rb_new (\<lambda>_. True) n ch bps = Inr rb"
  by (auto simp: rb_new_def Let_def obind_Inr_iff new_zeroed_def split: if_splits)

lemma init_ring_ok:
  assumes init: "init_ring env al cp = Inr cp'"
    and cfg: "config_ok math (al_actual_rate al) period (cp_config cp)"
  shows "\<exists>rb cx. cp' = cp\<lparr>cp_ring := Some rb, cp_clip := Some cx\<rparr> \<and> rb_holds [] rb \<and> rb_width rb = out_width cp"
proof -
  let ?n = "ucast (dc_ring_buffer_seconds (cp_config cp)) * ucast (al_actual_rate al) :: u64"
  note C = cfg [unfolded config_ok_def Let_def]
  obtain rb cx where rb: "rb_new (pe_mem_ok env) ?n (out_channels cp) (bits_div8 (pipe_bits cp)) = Inr rb"
    "cp' = cp\<lparr>cp_ring := Some rb, cp_clip := Some cx\<rparr>"
    using init by (auto simp: init_ring_def Let_def obind_Inr_iff)
  have "unat (next_power_of_2 ?n) * (unat (out_channels cp) * bytes_of_bits (pipe_bits cp)) \<le>
      unat (next_power_of_2 ?n) * (unat (pipe_channels cp) * bytes_of_bits (pipe_bits cp))"
    using out_channels_le by (intro mult_le_mono2 mult_le_mono1)
  then have "unat (next_power_of_2 ?n) * (unat (out_channels cp) * bytes_of_bits (pipe_bits cp)) < 2 ^ 63"
    using C by linarith
  then have "rb_holds [] rb \<and> rb_width rb = out_width cp"
    using rb_new_refines [of ?n "out_channels cp" "bits_div8 (pipe_bits cp)" "\<lambda>_. True"]
      rb_new_any_memory [OF rb(1)] C by (auto simp: out_width_def)
  with rb(2) show ?thesis by blast
qed

lemma init_recorder_ok:
  assumes init: "init_recorder env al cp = Inr cp'" and none: "cp_recorder cp = None"
    and cfg: "config_ok math (al_actual_rate al) period (cp_config cp)"
  shows "\<exists>b. cp' = cp\<lparr>cp_recorder := b\<rparr> \<and> recorder_ok [] 0 (cp\<lparr>cp_recorder := map_option br_start b\<rparr>)"
proof (cases "bc_enabled (dc_block_recorder (cp_config cp))")
  case False
  then have "cp' = cp\<lparr>cp_recorder := None\<rparr>" using init none by (simp add: init_recorder_def Let_def)
  then show ?thesis by (intro exI [of _ None]) (simp add: recorder_ok_def)
next
  case True
  note C = cfg [unfolded config_ok_def Let_def]
  obtain br where br: "br_new (pe_mem_ok env) (dc_block_recorder (cp_config cp)) (al_actual_rate al)
      (out_channels cp) (pipe_bits cp) = Inr br" "cp' = cp\<lparr>cp_recorder := Some br\<rparr>"
    using init True by (auto simp: init_recorder_def Let_def obind_Inr_iff)
  have ch: "out_channels cp \<noteq> 0" using C by (auto simp: out_channels_def Let_def)
  have dur: "bc_block_duration_seconds (dc_block_recorder (cp_config cp)) \<noteq> 0" using C True by simp
  have "br_inv [] 0 (br_start br)" using br_start_inv [OF br(1) _ ch _ dur] C by simp
  moreover have "br_width (br_start br) = out_width cp"
    using br_new_ok(1) [OF br(1) _ ch] C by (simp add: br_start_def br_width_def out_width_def)
  ultimately show ?thesis using br(2) by (intro exI [of _ "Some br"]) (simp add: recorder_ok_def)
qed

lemma init_publisher_ok:
  assumes init: "init_publisher env al cp = Inr (True, cp')" and none: "cp_publisher cp = None"
    and px: "px_works (pe_shm env)"
  shows "\<exists>p. cp' = cp\<lparr>cp_publisher := p\<rparr> \<and> publisher_ok cp'"
proof (cases "dc_enable_sample_sharing (cp_config cp)")
  case False
  then have "cp' = cp" using init by (simp add: init_publisher_def)
  then show ?thesis using none by (intro exI [of _ None]) (simp add: publisher_ok_def)
next
  case True
  let ?sp = "sp_new (dc_shm_name (cp_config cp)) (al_actual_rate al) (out_channels cp) (pipe_bits cp) (al_actual_period al)"
  obtain sp seg where sp: "sp_initialize (pe_shm env) ?sp = Inr (True, sp)" "sp_ready sp seg" "sp_info sp = sp_info ?sp"
    using sp_initialize_ready [OF px] by blast
  have "cp' = cp\<lparr>cp_publisher := Some sp\<rparr>" using init True sp(1) by (simp add: init_publisher_def)
  moreover have "sp_channels sp = out_channels cp" "sp_bits_per_sample sp = pipe_bits cp"
    using sp(3) by (simp_all add: sp_info_def sp_new_def)
  ultimately show ?thesis using sp(2) by (intro exI [of _ "Some sp"]) (auto simp: publisher_ok_def)
qed

lemma init_buffers_shape:
  assumes "init_buffers env al cp = Inr cp'"
  shows "\<exists>gb mb. cp' = cp\<lparr>cp_gain_buffer := gb, cp_mono_buffer := mb\<rparr>"
proof -
  have same: "cp\<lparr>cp_gain_buffer := gb\<rparr> = cp\<lparr>cp_gain_buffer := gb, cp_mono_buffer := cp_mono_buffer cp\<rparr>" for gb by simp
  obtain gb where "cp' = cp\<lparr>cp_gain_buffer := gb\<rparr> \<or> (\<exists>mb. cp' = cp\<lparr>cp_gain_buffer := gb, cp_mono_buffer := mb\<rparr>)"
    using assms by (auto simp: init_buffers_def Let_def obind_Inr_iff split: if_splits)
  then show ?thesis using same [of gb] by blast
qed

lemma init_buffers_ok:
  assumes init: "init_buffers env al cp = Inr cp'"
    and cfg: "config_ok math (al_actual_rate al) (al_actual_period al) (cp_config cp)"
    and new: "cp_gain_linear cp = linear_gain math (ac_gain_db (dc_audio (cp_config cp)))"
      "cp_dc_prev cp = (replicate k 0, replicate k 0)" "unat (out_channels cp) \<le> k"
  shows "\<exists>gb mb. cp' = cp\<lparr>cp_gain_buffer := gb, cp_mono_buffer := mb\<rparr> \<and>
           signal_ok (unat (al_actual_period al)) cp'"
proof -
  let ?P = "unat (al_actual_period al)" and ?bits = "pipe_bits cp"
  note C = cfg [unfolded config_ok_def Let_def]
  have b: "unat (of_nat (unat ?bits div 8) :: u64) = bytes_of_bits ?bits"
    using unat_lt_16 [of ?bits] unfolding bytes_of_bits_def by (intro unat_of_nat_64) simp
  have "bytes_of_bits ?bits \<le> 4" using C by (auto elim: supported_bits_cases)
  then have "?P * bytes_of_bits ?bits < 2 ^ 32 * 5"
    using unat_lt_32 [of "al_actual_period al"] by (intro mult_strict_mono) simp_all
  then have mono: "unat (ucast (al_actual_period al) * 1 * of_nat (unat ?bits div 8) :: u64) = ?P * bytes_of_bits ?bits"
    by (subst unat_mult_64) (simp_all add: b unat_ucast_32)
  have other: "signal_ok ?P (cp\<lparr>cp_gain_buffer := gb, cp_mono_buffer := mb\<rparr>)"
    if "cp_downmix_mono cp \<and> 2 \<le> pipe_channels cp \<longrightarrow> ?P * bytes_of_bits ?bits \<le> length mb" for gb mb
    using C new that by (simp add: signal_ok_def out_channels_def dc_sane_def)
  show ?thesis
  proof (cases "cp_downmix_mono cp \<and> 2 \<le> pipe_channels cp")
    case True
    then obtain gb mb where m: "cp' = cp\<lparr>cp_gain_buffer := gb, cp_mono_buffer := mb\<rparr>"
      "new_zeroed (pe_mem_ok env) (?P * bytes_of_bits ?bits) = Inr mb"
      using init mono by (auto simp: init_buffers_def Let_def obind_Inr_iff)
    have "length mb = ?P * bytes_of_bits ?bits" using m(2) by (auto simp: new_zeroed_def split: if_splits)
    then show ?thesis using other m(1) by auto
  next
    case False
    then show ?thesis using init_buffers_shape [OF init] other by blast
  qed
qed

section \<open>Initialised and started\<close>

text \<open>The rate and the period ALSA settles on.\<close>

definition actual_rate :: "pipeline_env \<Rightarrow> rat daemon_config \<Rightarrow> u32" where
  "actual_rate env config = snd (snd_set_rate_near (pe_alsa env) (ac_sample_rate (dc_audio config)))"

definition actual_period :: "pipeline_env \<Rightarrow> rat daemon_config \<Rightarrow> u32" where
  "actual_period env config =
     ucast (snd (snd_set_period_near (pe_alsa env) (ucast (ac_period_size (dc_audio config)))))"

lemma sp_initialize_info: "sp_initialize px sp = Inr (ok, sp') \<Longrightarrow> sp_info sp' = sp_info sp"
  by (auto simp: sp_initialize_def Let_def obind_Inr_iff sp_info_def split: if_splits option.splits)

text \<open>What each part was created with.\<close>

lemma cp_initialize_parts:
  assumes "cp_initialize env (cp_new math config) = Inr (True, cp)"
  shows "\<exists>al rb. al_initialize (pe_alsa env) (pe_mem_ok env) (al_new (dc_audio config)) = Inr (True, al) \<and>
     out_channels cp = out_channels (cp_new math config) \<and>
     cp_ring cp = Some rb \<and> rb_channels rb = out_channels cp \<and>
     rb_bytes_per_sample rb = bits_div8 (ac_bits_per_sample (dc_audio config)) \<and>
     cp_clip cp = Some (cx_new \<lparr>cc_output_dir = dc_clips_dir config, cc_format = ''wav''\<rparr>
       (al_actual_rate al) (out_channels cp) (ac_bits_per_sample (dc_audio config))) \<and>
     (\<forall>br. cp_recorder cp = Some br \<longrightarrow> bc_enabled (dc_block_recorder config) \<and>
        br_new (pe_mem_ok env) (dc_block_recorder config) (al_actual_rate al) (out_channels cp)
          (ac_bits_per_sample (dc_audio config)) = Inr br) \<and>
     (\<forall>sp. cp_publisher cp = Some sp \<longrightarrow>
        sp_info sp = sp_info (sp_new (dc_shm_name config) (al_actual_rate al) (out_channels cp)
          (ac_bits_per_sample (dc_audio config)) (al_actual_period al)))"
proof -
  let ?new = "cp_new math config"
  have new: "cp_config ?new = config" "cp_recorder ?new = None" "cp_publisher ?new = None"
    by (simp_all add: cp_new_def Let_def)
  obtain al cp1 cp2 cp3 cp4 where S:
    "al_initialize (pe_alsa env) (pe_mem_ok env) (al_new (dc_audio config)) = Inr (True, al)"
    "init_ring env al (?new\<lparr>cp_capture := Some al\<rparr>) = Inr cp1" "init_recorder env al cp1 = Inr cp2"
    "init_publisher env al cp2 = Inr (True, cp3)" "init_buffers env al cp3 = Inr cp4"
    "cp = cp4\<lparr>cp_capture := Some (al_set_callback al)\<rparr>"
    using assms by (auto simp: cp_initialize_def new obind_Inr_iff split: if_splits prod.splits)
  let ?ch = "out_channels ?new" and ?bits = "ac_bits_per_sample (dc_audio config)"
  let ?cx = "cx_new \<lparr>cc_output_dir = dc_clips_dir config, cc_format = ''wav''\<rparr> (al_actual_rate al) ?ch ?bits"
  obtain rb where r: "cp1 = ?new\<lparr>cp_capture := Some al, cp_ring := Some rb, cp_clip := Some ?cx\<rparr>"
    "rb_channels rb = ?ch" "rb_bytes_per_sample rb = bits_div8 ?bits"
    using S(2) by (auto simp: init_ring_def Let_def obind_Inr_iff rb_new_def new out_channels_def)
  obtain b where b: "cp2 = cp1\<lparr>cp_recorder := b\<rparr>"
    "\<forall>br. b = Some br \<longrightarrow> bc_enabled (dc_block_recorder config) \<and>
       br_new (pe_mem_ok env) (dc_block_recorder config) (al_actual_rate al) ?ch ?bits = Inr br"
  proof (cases "bc_enabled (dc_block_recorder config)")
    case True
    with S(3) that show ?thesis
      by (auto simp: init_recorder_def Let_def obind_Inr_iff r(1) new out_channels_def)
  next
    case False
    then have "cp2 = cp1" using S(3) by (simp add: init_recorder_def Let_def r(1) new)
    moreover have "cp_recorder cp1 = None" by (simp add: r(1) new)
    ultimately have "cp2 = cp1\<lparr>cp_recorder := None\<rparr>" by simp
    then show ?thesis by (rule that) simp
  qed
  obtain p where p: "cp3 = cp2\<lparr>cp_publisher := p\<rparr>"
    "\<forall>sp. p = Some sp \<longrightarrow> sp_info sp = sp_info (sp_new (dc_shm_name config) (al_actual_rate al) ?ch ?bits (al_actual_period al))"
  proof (cases "dc_enable_sample_sharing config")
    case True
    with S(4) that show ?thesis
      by (auto simp: init_publisher_def obind_Inr_iff r(1) b(1) new out_channels_def dest!: sp_initialize_info)
  next
    case False
    then have "cp3 = cp2" using S(4) by (simp add: init_publisher_def r(1) b(1) new)
    moreover have "cp_publisher cp2 = None" by (simp add: r(1) b(1) new)
    ultimately have "cp3 = cp2\<lparr>cp_publisher := None\<rparr>" by simp
    then show ?thesis by (rule that) simp
  qed
  obtain gb mb where g: "cp4 = cp3\<lparr>cp_gain_buffer := gb, cp_mono_buffer := mb\<rparr>"
    using init_buffers_shape [OF S(5)] by blast
  have out: "out_channels cp = ?ch" by (simp add: S(6) g p(1) b(1) r(1) out_channels_def)
  have "cp_ring cp = Some rb" "cp_clip cp = Some ?cx" "cp_recorder cp = b" "cp_publisher cp = p"
    by (simp_all add: S(6) g p(1) b(1) r(1))
  then show ?thesis using S(1) out r(2,3) b(2) p(2) unfolding out by blast
qed

lemma cp_initialize_ok:
  assumes init: "cp_initialize env (cp_new math config) = Inr (True, cp)" and px: "px_works (pe_shm env)"
    and cfg: "config_ok math (actual_rate env config) (actual_period env config) config"
  shows "\<exists>al cx b. al_initialize (pe_alsa env) (pe_mem_ok env) (al_new (dc_audio config)) = Inr (True, al) \<and>
     cp_capture cp = Some (al_set_callback al) \<and> cp_clip cp = Some cx \<and> cp_recorder cp = b \<and>
     \<not> cp_running cp \<and> cp_config cp = config \<and> cp_total_frames cp = 0 \<and>
     cp_downmix_mono cp = ac_downmix_mono (dc_audio config) \<and> cp_dc_remove cp = ac_dc_remove (dc_audio config) \<and>
     cp_gain_linear cp = linear_gain math (ac_gain_db (dc_audio config)) \<and>
     signal_ok (unat (actual_period env config)) cp \<and> ring_ok [] cp \<and> publisher_ok cp \<and>
     recorder_ok [] 0 (cp\<lparr>cp_recorder := map_option br_start b\<rparr>)"
proof -
  let ?new = "cp_new math config"
  have conf: "cp_config ?new = config" by (simp add: cp_new_def Let_def)
  obtain al cp1 cp2 cp3 cp4 where S:
    "al_initialize (pe_alsa env) (pe_mem_ok env) (al_new (dc_audio config)) = Inr (True, al)"
    "init_ring env al (?new\<lparr>cp_capture := Some al\<rparr>) = Inr cp1" "init_recorder env al cp1 = Inr cp2"
    "init_publisher env al cp2 = Inr (True, cp3)" "init_buffers env al cp3 = Inr cp4"
    "cp = cp4\<lparr>cp_capture := Some (al_set_callback al)\<rparr>"
    using init by (auto simp: cp_initialize_def conf obind_Inr_iff split: if_splits prod.splits)
  have act: "al_actual_rate al = actual_rate env config" "al_actual_period al = actual_period env config"
    using al_initialize_actual [OF S(1)] by (simp_all add: actual_rate_def actual_period_def)
  note cfg' = cfg [folded act]
  obtain rb cx where r: "cp1 = ?new\<lparr>cp_capture := Some al, cp_ring := Some rb, cp_clip := Some cx\<rparr>" "rb_holds [] rb"
    "rb_width rb = out_width (?new\<lparr>cp_capture := Some al\<rparr>)"
    using init_ring_ok [OF S(2), of math "al_actual_period al"] cfg' by (auto simp: conf)
  have "cp_recorder ?new = None" "cp_publisher ?new = None" by (simp_all add: cp_new_def Let_def)
  then have none: "cp_recorder cp1 = None" "cp_publisher cp1 = None" "cp_config cp1 = config"
    by (simp_all add: r(1) conf)
  obtain b where b: "cp2 = cp1\<lparr>cp_recorder := b\<rparr>" "recorder_ok [] 0 (cp1\<lparr>cp_recorder := map_option br_start b\<rparr>)"
    using init_recorder_ok [OF S(3) none(1), of math "al_actual_period al"] cfg' by (auto simp: none(3))
  obtain p where p: "cp3 = cp2\<lparr>cp_publisher := p\<rparr>" "publisher_ok cp3"
    using init_publisher_ok [OF S(4) _ px] none(2) by (auto simp: b(1))
  let ?k = "if ac_downmix_mono (dc_audio config) then 1 else unat (ac_channels (dc_audio config))"
  have ch: "ac_channels (dc_audio config) \<noteq> 0" using cfg by (simp add: config_ok_def Let_def)
  have new: "cp_gain_linear cp3 = linear_gain math (ac_gain_db (dc_audio (cp_config cp3)))"
    "cp_dc_prev cp3 = (replicate ?k 0, replicate ?k 0)" "unat (out_channels cp3) \<le> ?k" "cp_config cp3 = config"
    using ch by (auto simp: p(1) b(1) r(1) cp_new_def Let_def out_channels_def word_le_nat_alt unat_eq_0)
  obtain gb mb where g: "cp4 = cp3\<lparr>cp_gain_buffer := gb, cp_mono_buffer := mb\<rparr>"
    "signal_ok (unat (al_actual_period al)) cp4"
    using init_buffers_ok [OF S(5) _ new(1-3)] cfg' new(4) by auto
  have w: "out_width cp = out_width (?new\<lparr>cp_capture := Some al\<rparr>)"
    "out_width cp = out_width (cp1\<lparr>cp_recorder := map_option br_start b\<rparr>)" "out_channels cp = out_channels cp3"
    by (simp_all add: S(6) g(1) p(1) b(1) r(1) out_width_def out_channels_def)
  have "signal_ok (unat (actual_period env config)) cp"
    using g(2) unfolding act by (simp add: S(6) signal_ok_def out_channels_def)
  moreover have "ring_ok [] cp"
    using r(2,3) w(1) by (simp add: ring_ok_def) (simp add: S(6) g(1) p(1) b(1) r(1))
  moreover have "publisher_ok cp"
    using p(2) w(3) by (simp add: publisher_ok_def) (simp add: S(6) g(1) new(4))
  moreover have "recorder_ok [] 0 (cp\<lparr>cp_recorder := map_option br_start b\<rparr>)"
    using b(2) w(2) by (simp add: recorder_ok_def)
  moreover have "cp_capture cp = Some (al_set_callback al)" "cp_clip cp = Some cx" "cp_recorder cp = b"
    by (simp_all add: S(6) g(1) p(1) b(1) r(1))
  moreover have "\<not> cp_running cp" "cp_config cp = config" "cp_total_frames cp = 0"
    "cp_downmix_mono cp = ac_downmix_mono (dc_audio config)" "cp_dc_remove cp = ac_dc_remove (dc_audio config)"
    "cp_gain_linear cp = linear_gain math (ac_gain_db (dc_audio config))"
    by (simp_all add: S(6) g(1) p(1) b(1) r(1) cp_new_def Let_def)
  ultimately show ?thesis using S(1) by blast
qed

lemma cp_started_ok:
  assumes init: "cp_initialize env (cp_new math config) = Inr (True, cp)" and px: "px_works (pe_shm env)"
    and cfg: "config_ok math (actual_rate env config) (actual_period env config) config"
  shows "\<exists>al cp'. al_initialize (pe_alsa env) (pe_mem_ok env) (al_new (dc_audio config)) = Inr (True, al) \<and>
     cp_start cp = Inr (True, cp') \<and> cp_capture cp' = Some (al_start (al_set_callback al)) \<and>
     cp_config cp' = config \<and> cp_running cp' \<and> cp_total_frames cp' = 0 \<and>
     cp_downmix_mono cp' = ac_downmix_mono (dc_audio config) \<and> cp_dc_remove cp' = ac_dc_remove (dc_audio config) \<and>
     cp_gain_linear cp' = linear_gain math (ac_gain_db (dc_audio config)) \<and>
     pipe_inv (unat (actual_period env config)) [] [] 0 cp'"
proof -
  obtain al cx b where I: "al_initialize (pe_alsa env) (pe_mem_ok env) (al_new (dc_audio config)) = Inr (True, al)"
    "cp_capture cp = Some (al_set_callback al)" "cp_clip cp = Some cx" "cp_recorder cp = b"
    "\<not> cp_running cp" "cp_config cp = config" "cp_total_frames cp = 0"
    "cp_downmix_mono cp = ac_downmix_mono (dc_audio config)" "cp_dc_remove cp = ac_dc_remove (dc_audio config)"
    "cp_gain_linear cp = linear_gain math (ac_gain_db (dc_audio config))"
    "signal_ok (unat (actual_period env config)) cp" "ring_ok [] cp" "publisher_ok cp"
    "recorder_ok [] 0 (cp\<lparr>cp_recorder := map_option br_start b\<rparr>)"
    using cp_initialize_ok [OF assms] by blast
  let ?cp = "cp\<lparr>cp_clip := Some (cx_start cx), cp_recorder := map_option br_start b,
    cp_capture := Some (al_start (al_set_callback al)), cp_running := True\<rparr>"
  have "cp_start cp = Inr (True, ?cp)" using I(2-5) by (simp add: cp_start_def)
  moreover have "pipe_inv (unat (actual_period env config)) [] [] 0 ?cp"
    using I(11-14) by (simp add: pipe_inv_def signal_ok_def ring_ok_def recorder_ok_def publisher_ok_def
        out_width_def out_channels_def)
  ultimately show ?thesis using I(1,6-10) by (intro exI [of _ al] exI [of _ ?cp]) simp
qed

end
