(* ===== verification/Pipeline_Properties.thy ===== *)
theory Pipeline_Properties
  imports Pipeline_Init
begin

text \<open>
  Properties of the capture pipeline: what every consumer receives for a chunk, the whole path
  from the device to the consumers, and the behaviour of its parameters.
\<close>

section \<open>The capture loop on the pipeline\<close>

definition live_reads :: "device_read list \<Rightarrow> device_read list" where
  "live_reads reads = takeWhile (\<lambda>r. \<not> fatal_read r) reads"

definition frames_read :: "device_read list \<Rightarrow> nat" where
  "frames_read reads = sum_list (map (\<lambda>r. nat (dr_frames r)) (live_reads reads))"

definition transparent :: "capture_pipeline \<Rightarrow> bool" where
  "transparent cp \<longleftrightarrow> cp_gain_linear cp = 1 \<and> \<not> cp_dc_remove cp \<and> \<not> cp_downmix_mono cp"

lemma live_reads_simps [simp]:
  "live_reads [] = []"
  "live_reads (r # rs) = (if fatal_read r then [] else r # live_reads rs)"
  by (simp_all add: live_reads_def)

lemma frames_read_simps [simp]:
  "frames_read [] = 0"
  "frames_read (r # rs) = (if fatal_read r then 0 else nat (dr_frames r) + frames_read rs)"
  by (simp_all add: frames_read_def)

text \<open>A chunk the capture delivers is one the pipeline can take.\<close>

lemma chunk_of_read:
  assumes ready: "al_ready al" and dev: "device_ok al r" and c: "chunk_ok al c" "chunk_bytes c = dr_bytes r"
    and same: "al_config al = dc_audio (cp_config cp)" and ch: "pipe_channels cp \<noteq> 0"
  shows "chunk_fits (unat (al_actual_period al)) (nat (dr_frames r)) cp c"
    and "transparent cp \<Longrightarrow> take (nat (dr_frames r) * out_width cp) (fst (snd c)) = dr_bytes r"
proof -
  obtain meta buf count where cc: "c = (meta, buf, count)" by (cases c)
  let ?n = "unat (cm_frame_count meta)" and ?w = "unat (pipe_channels cp) * (unat (pipe_bits cp) div 8)"
  note C = c(1) [unfolded chunk_ok_def cc prod.case same]
  have w: "al_frame_bytes al = ?w" by (simp add: al_frame_bytes_def same)
  have "0 < unat (pipe_bits cp) div 8" using ready by (auto simp: al_ready_def same)
  then have pos: "0 < ?w" using ch by (simp add: unat_gt_0)
  have len: "length buf = unat (al_actual_period al) * ?w" using C w by simp
  have "?n * ?w \<le> length buf" unfolding len using C by (intro mult_le_mono1) simp
  then have "length (chunk_bytes c) = ?n * ?w" using C by (simp add: chunk_bytes_def cc mult.assoc)
  moreover have "length (dr_bytes r) = nat (dr_frames r) * ?w"
    using dev ready_width [OF ready] by (simp add: device_ok_def same)
  ultimately have n: "?n = nat (dr_frames r)" using c(2) pos by simp
  have "unat (al_actual_period al) * ?w < 2 ^ 32 * (2 ^ 16 * 2 ^ 13)"
    using unat_lt_32 [of "al_actual_period al"] unat_lt_16 [of "pipe_channels cp"] unat_lt_16 [of "pipe_bits cp"]
    by (intro mult_strict_mono) (simp_all add: less_mult_imp_div_less)
  then have lt: "length buf < 2 ^ 63" unfolding len by simp
  have le: "nat (dr_frames r) * unat (pipe_channels cp) * bytes_of_bits (pipe_bits cp) \<le> length buf"
    using \<open>?n * ?w \<le> length buf\<close> by (simp add: n bytes_of_bits_def mult.assoc)
  show "chunk_fits (unat (al_actual_period al)) (nat (dr_frames r)) cp c"
    unfolding chunk_fits_def cc prod.case using C n le lt by simp
  assume "transparent cp"
  then have "out_width cp = ?w"
    by (simp add: transparent_def out_width_def out_channels_def bytes_of_bits_def)
  then show "take (nat (dr_frames r) * out_width cp) (fst (snd c)) = dr_bytes r"
    using c(2) C n by (simp add: chunk_bytes_def cc mult.assoc)
qed

text \<open>What the loop makes of the pipeline: the bytes \<open>out\<close> are handed to every consumer.\<close>

definition loop_result ::
  "nat \<Rightarrow> u8 list list \<Rightarrow> u8 list \<Rightarrow> nat \<Rightarrow> device_read list \<Rightarrow> capture_pipeline \<Rightarrow> capture_pipeline \<Rightarrow> bool" where
  "loop_result P H A R reads cp cp' \<longleftrightarrow>
     (\<exists>out A'. length out = frames_read reads * out_width cp \<and>
        pipe_inv P (H @ frames_of (out_width cp) (frames_read reads) out) A' R cp' \<and>
        cp_total_frames cp' = cp_total_frames cp + of_nat (frames_read reads) \<and> cp_params cp' = cp_params cp \<and>
        (transparent cp \<longrightarrow> out = concat (map dr_bytes (live_reads reads))) \<and>
        (\<forall>cap. recorder_key cp = Some (True, cap) \<and> length A - R + length out \<le> unat cap \<longrightarrow> A' = A @ out))"

lemma loop_result_none:
  assumes "pipe_inv P H A R cp" and "frames_read reads = 0" and "concat (map dr_bytes (live_reads reads)) = []"
  shows "loop_result P H A R reads cp cp"
  unfolding loop_result_def
  by (rule exI [of _ "[]"], rule exI [of _ A]) (use assms in \<open>simp add: frames_of_def\<close>)

lemma transparent_params: "cp_params a = cp_params b \<Longrightarrow> transparent a = transparent b"
  by (simp add: transparent_def cp_params_def)

lemma pipeline_loop:
  assumes "al_ready al" and "\<forall>r \<in> set reads. device_ok al r" and "pipe_inv P H A R cp"
    and "P = unat (al_actual_period al)" and "al_config al = dc_audio (cp_config cp)" and "R \<le> length A"
  shows "\<exists>go al' cp'. capture_loop (on_audio_chunk math) reads al cp = Some (Inr (go, al', cp')) \<and>
     (go \<longleftrightarrow> \<not> (\<exists>r \<in> set reads. fatal_read r)) \<and> loop_result P H A R reads cp cp'"
  using assms
proof (induction reads arbitrary: al cp H A)
  case Nil
  then show ?case using loop_result_none [of P H A R cp "[]"] by auto
next
  case (Cons r reads)
  have run: "al_running al" using Cons.prems by (simp add: al_ready_def)
  have dev: "device_ok al r" using Cons.prems by simp
  note T = al_turn_ok [OF Cons.prems(1) dev]
  have rest: "\<forall>r \<in> set reads. device_ok al' r" if "al_static al' = al_static al" for al'
    using Cons.prems device_ok_static [OF that] by simp
  have stat: "P = unat (al_actual_period al')" "al_config al' = dc_audio (cp_config cp)"
    if "al_static al' = al_static al" for al'
    using Cons.prems(4,5) that by (simp_all add: al_static_def)
  consider (fatal) "fatal_read r" | (frames) "\<not> fatal_read r" "0 < dr_frames r" | (none) "\<not> fatal_read r" "\<not> 0 < dr_frames r"
    by blast
  then show ?case
  proof cases
    case fatal
    then obtain al' where "al_turn al r = Inr (False, None, al')" using T by auto
    then have "capture_loop (on_audio_chunk math) (r # reads) al cp = Some (Inr (False, al', cp))" using run by simp
    moreover have "loop_result P H A R (r # reads) cp cp"
      using Cons.prems(3) fatal by (intro loop_result_none) simp_all
    ultimately show ?thesis using fatal by auto
  next
    case none
    then obtain al' where t: "al_turn al r = Inr (True, None, al')" "dr_bytes r = []"
      "al_static al' = al_static al" "al_ready al'"
      using T by auto
    obtain go al'' cp' where L: "capture_loop (on_audio_chunk math) reads al' cp = Some (Inr (go, al'', cp'))"
      "go \<longleftrightarrow> \<not> (\<exists>r \<in> set reads. fatal_read r)" "loop_result P H A R reads cp cp'"
      using Cons.IH [OF t(4) rest [OF t(3)] Cons.prems(3) stat [OF t(3)] Cons.prems(6)] by blast
    have "loop_result P H A R (r # reads) cp cp'"
      using L(3) none t(2) by (simp add: loop_result_def)
    then show ?thesis using run t(1) L(1,2) none by auto
  next
    case frames
    let ?n = "nat (dr_frames r)" and ?w = "out_width cp"
    obtain al' c where t: "al_turn al r = Inr (True, Some c, al')" "chunk_ok al c"
      "chunk_bytes c = dr_bytes r" "al_static al' = al_static al" "al_ready al'"
      using T frames by auto
    have ch: "pipe_channels cp \<noteq> 0" using Cons.prems(3) by (simp add: pipe_inv_def signal_ok_def)
    note fits = chunk_of_read [OF Cons.prems(1) dev t(2,3) Cons.prems(5) ch]
    obtain cp1 out1 where s: "on_audio_chunk math c cp = Some (Inr cp1)" "length out1 = ?n * ?w"
      "cp_gain_linear cp = 1 \<and> \<not> cp_dc_remove cp \<and> \<not> cp_downmix_mono cp \<longrightarrow> out1 = take (?n * ?w) (fst (snd c))"
      "pipe_inv P (H @ frames_of ?w ?n out1) (A @ (if recorder_takes A R ?n cp then out1 else [])) R cp1"
      "cp_params cp1 = cp_params cp" "cp_total_frames cp1 = cp_total_frames cp + of_nat ?n"
      using on_audio_chunk_ok [OF Cons.prems(3) fits(1) [folded Cons.prems(4)], of math] by blast
    let ?A = "A @ (if recorder_takes A R ?n cp then out1 else [])"
    have cfg: "cp_config cp1 = cp_config cp" using s(5) by (simp add: cp_params_def)
    have w1: "out_width cp1 = ?w" using cp_params_out [OF s(5)] by simp
    obtain go al'' cp' where L: "capture_loop (on_audio_chunk math) reads al' cp1 = Some (Inr (go, al'', cp'))"
      "go \<longleftrightarrow> \<not> (\<exists>r \<in> set reads. fatal_read r)" "loop_result P (H @ frames_of ?w ?n out1) ?A R reads cp1 cp'"
      using Cons.IH [OF t(5) rest [OF t(4)] s(4) stat [OF t(4), folded cfg]] Cons.prems(6) by auto
    obtain out A' where o: "length out = frames_read reads * ?w"
      "pipe_inv P ((H @ frames_of ?w ?n out1) @ frames_of ?w (frames_read reads) out) A' R cp'"
      "cp_total_frames cp' = cp_total_frames cp1 + of_nat (frames_read reads)" "cp_params cp' = cp_params cp1"
      "transparent cp1 \<longrightarrow> out = concat (map dr_bytes (live_reads reads))"
      "\<forall>cap. recorder_key cp1 = Some (True, cap) \<and> length ?A - R + length out \<le> unat cap \<longrightarrow> A' = ?A @ out"
      using L(3) unfolding loop_result_def w1 by blast
    have "loop_result P H A R (r # reads) cp cp'"
      unfolding loop_result_def
    proof (rule exI [of _ "out1 @ out"], rule exI [of _ A'], intro conjI allI impI)
      show "length (out1 @ out) = frames_read (r # reads) * ?w"
        using s(2) o(1) frames by (simp add: add_mult_distrib)
      show "pipe_inv P (H @ frames_of ?w (frames_read (r # reads)) (out1 @ out)) A' R cp'"
        using o(2) frames frames_of_append [OF s(2)] by simp
      show "cp_total_frames cp' = cp_total_frames cp + of_nat (frames_read (r # reads))"
        using o(3) s(6) frames by simp
      show "cp_params cp' = cp_params cp" using o(4) s(5) by simp
      show "out1 @ out = concat (map dr_bytes (live_reads (r # reads)))" if "transparent cp"
        using that o(5) s(3) fits(2) transparent_params [OF s(5)] frames by (simp add: transparent_def)
      fix cap assume key: "recorder_key cp = Some (True, cap) \<and> length A - R + length (out1 @ out) \<le> unat cap"
      then have takes: "recorder_takes A R ?n cp" using s(2) by (simp add: recorder_takes_key)
      have "recorder_key cp1 = Some (True, cap)" using key s(5) by (simp add: cp_params_def)
      moreover have "length ?A - R + length out \<le> unat cap" using key takes Cons.prems(6) by (simp add: add.assoc)
      ultimately show "A' = A @ out1 @ out" using o(6) takes by simp
    qed
    then show ?thesis using run t(1) s(1) L(1,2) frames by auto
  qed
qed

section \<open>A concrete pipeline\<close>

text \<open>Stereo at 16 bits and 0 dB, everything switched on, on a machine where every call succeeds.\<close>

definition demo_math :: math_lib where
  "demo_math = \<lparr>ml_pow10 = (\<lambda>x. 1), ml_sqrt = (\<lambda>x. x), ml_stod = (\<lambda>s. Inr 0)\<rparr>"

definition demo_env :: pipeline_env where
  "demo_env = \<lparr>pe_alsa = demo_alsa, pe_shm = demo_px, pe_mem_ok = (\<lambda>n. True), pe_mkdir = (\<lambda>d. True)\<rparr>"

definition demo_pipe_config :: "rat daemon_config" where
  "demo_pipe_config = default_config\<lparr>dc_ring_buffer_seconds := 1, dc_enable_sample_sharing := True,
     dc_audio := (dc_audio default_config)\<lparr>ac_channels := 2, ac_sample_rate := 8\<rparr>,
     dc_block_recorder := demo_config\<rparr>"

lemma demo_actual: "actual_rate demo_env demo_pipe_config = 8" "actual_period demo_env demo_pipe_config = 2"
  by (simp_all add: actual_rate_def actual_period_def demo_env_def demo_alsa_def demo_pipe_config_def)

lemma demo_gain: "linear_gain demo_math x = 1"
  by (simp add: linear_gain_def demo_math_def single.fl_one)

lemma demo_ring_size: "next_power_of_2 8 = 8"
  by (simp add: next_power_of_2_def smear_right_def)

lemma demo_config_ok: "config_ok demo_math 8 2 demo_pipe_config"
  by (simp add: config_ok_def demo_pipe_config_def default_config_def demo_gain demo_ring_size supported_bits_def
      bytes_of_bits_def gain_room_def demo_config_def)

lemma demo_initialized: "\<exists>cp. cp_initialize demo_env (cp_new demo_math demo_pipe_config) = Inr (True, cp)"
proof -
  let ?audio = "dc_audio demo_pipe_config"
  let ?al = "(al_new ?audio)\<lparr>al_pcm := True, al_actual_rate := 8, al_actual_period := 2,
     al_period_buffer := replicate 8 0\<rparr>"
  have al: "al_initialize demo_alsa (\<lambda>n. True) (al_new ?audio) = Inr (True, ?al)"
    by (simp add: al_initialize_def demo_alsa_def demo_pipe_config_def default_config_def al_new_def new_zeroed_def)
  have ring: "\<exists>rb. rb_new (\<lambda>n. True) 8 2 (bits_div8 16) = Inr rb"
    by (simp add: rb_new_def new_zeroed_def demo_ring_size bits_div8_def)
  obtain br where br: "br_new (\<lambda>n. True) demo_config 8 2 16 = Inr br"
    by (rule demo_recorder [of 16]) (simp_all add: supported_bits_def)
  obtain sp where sp: "sp_initialize demo_px (sp_new ''/ws_audiod_samples'' 8 2 16 2) = Inr (True, sp)"
    using sp_initialize_ready [OF demo_px_works] by blast
  have "br_initialize (\<lambda>d. True) br = Inr True" by (simp add: br_initialize_def)
  then show ?thesis
    using al ring br sp
    by (auto simp: cp_initialize_def init_ring_def init_recorder_def init_publisher_def init_buffers_def cp_new_def
        demo_env_def demo_pipe_config_def default_config_def out_channels_def mkdir_def new_zeroed_def
        al_new_def demo_config_def Let_def)
qed

lemma demo_started:
  obtains cp where "pipe_inv 2 [] [] 0 cp" and "cp_config cp = demo_pipe_config" and "transparent cp"
    and "cp_total_frames cp = 0"
proof -
  obtain cp0 where init: "cp_initialize demo_env (cp_new demo_math demo_pipe_config) = Inr (True, cp0)"
    using demo_initialized by blast
  have px: "px_works (pe_shm demo_env)" by (simp add: demo_env_def demo_px_works)
  obtain cp where cp: "cp_config cp = demo_pipe_config" "cp_total_frames cp = 0"
    "cp_downmix_mono cp = ac_downmix_mono (dc_audio demo_pipe_config)"
    "cp_dc_remove cp = ac_dc_remove (dc_audio demo_pipe_config)"
    "cp_gain_linear cp = linear_gain demo_math (ac_gain_db (dc_audio demo_pipe_config))"
    "pipe_inv (unat (actual_period demo_env demo_pipe_config)) [] [] 0 cp"
    using cp_started_ok [OF init px] demo_config_ok unfolding demo_actual by blast
  have "transparent cp"
    using cp(3-5) by (simp add: transparent_def demo_gain) (simp add: demo_pipe_config_def default_config_def)
  with cp show thesis by (intro that [of cp]) (simp_all add: demo_actual)
qed

section \<open>Properties\<close>

text \<open>
  C10: one chunk through the pipeline. For every well-formed chunk of \<open>n\<close> frames, \<open>on_audio_chunk\<close>
  returns without a fault, and ring buffer, block recorder and shared memory are all given the
  same \<open>n\<close> frames \<open>out\<close>: the ring appends them to its history, the recorder accepts all of them or
  none (none exactly when it does not record or has no room), the newest period of the segment
  is \<open>out\<close>. The samples of \<open>out\<close> are those the signal path is specified to make (every second
  sample if downmixing, then gain with saturation, then DC removal); at 0 dB with nothing
  switched on they are the captured bytes. The peak is the largest magnitude, the counters
  advance, and the invariant of the pipeline is kept.
\<close>

theorem chunk_reaches_every_consumer:
  assumes "pipe_inv P H A R cp" and "chunk_fits P n cp c"
  shows "\<exists>cp' out. on_audio_chunk math c cp = Some (Inr cp') \<and> length out = n * out_width cp \<and>
     sample_ints (pipe_bits cp) (n * unat (out_channels cp)) out = signal_spec cp n (chunk_samples n cp c) \<and>
     (transparent cp \<longrightarrow> out = take (n * out_width cp) (fst (snd c))) \<and>
     pipe_inv P (H @ frames_of (out_width cp) n out) (A @ (if recorder_takes A R n cp then out else [])) R cp' \<and>
     published out (cm_timestamp_us (fst c)) n cp cp' \<and> cp_params cp' = cp_params cp \<and>
     cp_total_frames cp' = cp_total_frames cp + of_nat n \<and>
     cp_peak_level cp' =
       word_of_int (min (peak_of (levels (pipe_bits cp) (n * unat (out_channels cp)) out)) 32767)"
  using on_audio_chunk_ok [OF assms, of math] unfolding transparent_def by blast

definition demo_chunk :: chunk where
  "demo_chunk = (\<lparr>cm_timestamp_us = 7, cm_sample_rate = 8, cm_channels = 2, cm_bits_per_sample = 16,
     cm_frame_count = 1, cm_total_frames = 1\<rparr>, [1, 0, 2, 0, 9, 9, 9, 9], 2)"

theorem chunk_reaches_every_consumer_witness:
  "\<exists>cp cp'. on_audio_chunk demo_math demo_chunk cp = Some (Inr cp') \<and> pipe_inv 2 [] [] 0 cp \<and>
     ring_ok [[1, 0, 2, 0]] cp' \<and> published [1, 0, 2, 0] 7 1 cp cp'"
proof -
  obtain cp where cp: "pipe_inv 2 [] [] 0 cp" "cp_config cp = demo_pipe_config" "transparent cp"
    by (rule demo_started)
  have fmt: "pipe_channels cp = 2" "pipe_bits cp = 16" by (simp_all add: cp(2) demo_pipe_config_def default_config_def)
  have fits: "chunk_fits 2 1 cp demo_chunk" by (simp add: chunk_fits_def demo_chunk_def fmt bytes_of_bits_def)
  have w: "out_width cp = 4"
    using cp(3) by (simp add: out_width_def out_channels_def transparent_def fmt bytes_of_bits_def)
  obtain cp' out where r: "on_audio_chunk demo_math demo_chunk cp = Some (Inr cp')"
    "transparent cp \<longrightarrow> out = take (1 * out_width cp) (fst (snd demo_chunk))"
    "pipe_inv 2 ([] @ frames_of (out_width cp) 1 out) ([] @ (if recorder_takes [] 0 1 cp then out else [])) 0 cp'"
    "published out (cm_timestamp_us (fst demo_chunk)) 1 cp cp'"
    using chunk_reaches_every_consumer [OF cp(1) fits, of demo_math] by blast
  have out: "out = [1, 0, 2, 0]" using r(2) cp(3) by (simp add: w demo_chunk_def)
  have "ring_ok [[1, 0, 2, 0]] cp'" using r(3) by (simp add: pipe_inv_def w out frames_of_def frame_at_def)
  moreover have "published [1, 0, 2, 0] 7 1 cp cp'" using r(4) by (simp add: out demo_chunk_def)
  ultimately show ?thesis using r(1) cp(1) by blast
qed

text \<open>
  C11: the whole capture path, from \<open>initialize()\<close> and \<open>start()\<close> on. For a 16- or 32-bit
  configuration whose sizes fit and any sequence of answers of the device, the capture loop
  with the pipeline as its callback never faults and never hangs; the ring buffer, the frame
  count and (as far as its ring has room) the recorder have taken exactly the frames read before
  the first unrecoverable error; with 0 dB and nothing switched on, these are the bytes of the
  device, in order, without a gap.
\<close>

theorem started_pipeline_keeps_every_frame:
  assumes "cp_initialize env (cp_new math config) = Inr (True, cp)" and "px_works (pe_shm env)"
    and "config_ok math (actual_rate env config) (actual_period env config) config"
    and "ac_bits_per_sample (dc_audio config) = 16 \<or> ac_bits_per_sample (dc_audio config) = 32"
    and "\<And>al. cp_capture cp = Some al \<Longrightarrow> \<forall>r \<in> set reads. device_ok (al_start al) r"
  shows "\<exists>cp0 al. cp_start cp = Inr (True, cp0) \<and> cp_capture cp0 = Some al \<and>
     (\<exists>go al' cp' out A. capture_loop (on_audio_chunk math) reads al cp0 = Some (Inr (go, al', cp')) \<and>
        (go \<longleftrightarrow> \<not> (\<exists>r \<in> set reads. fatal_read r)) \<and>
        length out = frames_read reads * out_width cp0 \<and>
        pipe_inv (unat (actual_period env config)) (frames_of (out_width cp0) (frames_read reads) out) A 0 cp' \<and>
        cp_total_frames cp' = of_nat (frames_read reads) \<and>
        (\<forall>cap. recorder_key cp0 = Some (True, cap) \<and> length out \<le> unat cap \<longrightarrow> A = out) \<and>
        (transparent cp0 \<longrightarrow> out = concat (map dr_bytes (live_reads reads))))"
proof -
  obtain al cp0 where S: "al_initialize (pe_alsa env) (pe_mem_ok env) (al_new (dc_audio config)) = Inr (True, al)"
    "cp_start cp = Inr (True, cp0)" "cp_capture cp0 = Some (al_start (al_set_callback al))"
    "cp_config cp0 = config" "cp_total_frames cp0 = 0" "pipe_inv (unat (actual_period env config)) [] [] 0 cp0"
    using cp_started_ok [OF assms(1-3)] by blast
  let ?al = "al_start (al_set_callback al)"
  have act: "al_config al = dc_audio config" "al_actual_period al = actual_period env config"
    using al_initialize_actual [OF S(1)] by (simp_all add: actual_period_def)
  have size: "unat (al_actual_period al) * unat (ac_channels (dc_audio config)) < 2 ^ 32"
    using assms(3) unfolding act(2) by (simp add: config_ok_def Let_def)
  have ready: "al_ready ?al" by (rule al_started_ready [OF S(1) size assms(4)])
  have same: "unat (actual_period env config) = unat (al_actual_period ?al)" "al_config ?al = dc_audio (cp_config cp0)"
    using act S(4) by (simp_all add: al_start_def al_set_callback_def)
  have "cp_capture cp = Some (al_set_callback al)" using cp_initialize_ok [OF assms(1-3)] S(1) by auto
  from assms(5) [OF this] have dev: "\<forall>r \<in> set reads. device_ok ?al r" .
  obtain go al' cp' where L: "capture_loop (on_audio_chunk math) reads ?al cp0 = Some (Inr (go, al', cp'))"
    "go \<longleftrightarrow> \<not> (\<exists>r \<in> set reads. fatal_read r)"
    "loop_result (unat (actual_period env config)) [] [] 0 reads cp0 cp'"
    using pipeline_loop [OF ready dev S(6) same, of math] by auto
  obtain out A where "length out = frames_read reads * out_width cp0"
    "pipe_inv (unat (actual_period env config)) (frames_of (out_width cp0) (frames_read reads) out) A 0 cp'"
    "cp_total_frames cp' = of_nat (frames_read reads)"
    "transparent cp0 \<longrightarrow> out = concat (map dr_bytes (live_reads reads))"
    "\<forall>cap. recorder_key cp0 = Some (True, cap) \<and> length out \<le> unat cap \<longrightarrow> A = out"
    using L(3) [unfolded loop_result_def S(5) append_Nil list.size(3) diff_zero add_0] by blast
  with S(2,3) L(1,2) show ?thesis by blast
qed

theorem started_pipeline_keeps_every_frame_witness:
  "\<exists>cp cp0 al al' cp' A. cp_initialize demo_env (cp_new demo_math demo_pipe_config) = Inr (True, cp) \<and>
     cp_start cp = Inr (True, cp0) \<and> cp_capture cp0 = Some al \<and>
     capture_loop (on_audio_chunk demo_math)
       [\<lparr>dr_frames = 1, dr_bytes = [1, 0, 2, 0], dr_recover = 0, dr_now = 7\<rparr>] al cp0 = Some (Inr (True, al', cp')) \<and>
     (\<exists>out. pipe_inv 2 (frames_of (out_width cp0) 1 out) A 0 cp')"
proof -
  let ?reads = "[\<lparr>dr_frames = 1, dr_bytes = [1, 0, 2, 0], dr_recover = 0, dr_now = 7\<rparr>]"
  obtain cp where init: "cp_initialize demo_env (cp_new demo_math demo_pipe_config) = Inr (True, cp)"
    using demo_initialized by blast
  have px: "px_works (pe_shm demo_env)" by (simp add: demo_env_def demo_px_works)
  note ok = demo_config_ok [folded demo_actual]
  have bits: "ac_bits_per_sample (dc_audio demo_pipe_config) = 16 \<or> ac_bits_per_sample (dc_audio demo_pipe_config) = 32"
    by (simp add: demo_pipe_config_def default_config_def)
  have dev: "\<forall>r \<in> set ?reads. device_ok (al_start al) r" if c: "cp_capture cp = Some al" for al
  proof -
    obtain al' where al': "al_initialize (pe_alsa demo_env) (pe_mem_ok demo_env) (al_new (dc_audio demo_pipe_config)) =
        Inr (True, al')" "al = al_set_callback al'"
      using cp_initialize_ok [OF init px ok] c by auto
    have "al_actual_period al' = actual_period demo_env demo_pipe_config" "al_config al' = dc_audio demo_pipe_config"
      using al_initialize_actual [OF al'(1)] by (simp_all add: actual_period_def)
    then show ?thesis
      by (simp add: al'(2) device_ok_def al_start_def al_set_callback_def demo_actual al_format_def)
        (simp add: demo_pipe_config_def default_config_def)
  qed
  have frames: "frames_read ?reads = 1" "\<not> (\<exists>r \<in> set ?reads. fatal_read r)" by (simp_all add: fatal_read_def)
  obtain cp0 al go al' cp' out A where r: "cp_start cp = Inr (True, cp0)" "cp_capture cp0 = Some al"
    "capture_loop (on_audio_chunk demo_math) ?reads al cp0 = Some (Inr (go, al', cp'))"
    "go \<longleftrightarrow> \<not> (\<exists>r \<in> set ?reads. fatal_read r)" "pipe_inv (unat (2 :: u32)) (frames_of (out_width cp0) 1 out) A 0 cp'"
    using started_pipeline_keeps_every_frame [OF init px ok bits dev] unfolding frames(1) demo_actual by blast
  have "go = True" using r(4) frames(2) by simp
  then show ?thesis
    using init r(1-3,5) by (intro exI [of _ cp] exI [of _ cp0] exI [of _ al] exI [of _ al'] exI [of _ cp'] exI [of _ A]) auto
qed

text \<open>
  What the downmix keeps. \<open>apply_downmix\<close> steps over two samples per frame whatever the number
  of channels: output frame \<open>f\<close> is channel \<open>2 * f mod C\<close> of input frame \<open>2 * f div C\<close>. This is the
  left channel of frame \<open>f\<close>, for every \<open>f\<close>, exactly for stereo; with more channels, frames come
  out twice and the end of the chunk is lost.
\<close>

theorem downmix_takes_every_second_sample:
  assumes "supported_bits bits" and "2 \<le> C" and "n * C * bytes_of_bits bits \<le> length src"
    and "n * bytes_of_bits bits \<le> length dst"
  shows "\<exists>dst'. apply_downmix src dst n bits = Inr dst' \<and> length dst' = length dst \<and>
     (\<forall>f<n. sample_ints bits n dst' ! f = sample_ints bits (n * C) src ! (2 * f div C * C + 2 * f mod C)) \<and>
     (C = 2 \<longrightarrow> (\<forall>f<n. sample_ints bits n dst' ! f = sample_ints bits (n * C) src ! (f * C))) \<and>
     (2 < C \<and> 1 < n \<longrightarrow> 2 * (n - 1) div C < n - 1)"
proof -
  obtain dst' where d: "apply_downmix src dst n bits = Inr dst'" "length dst' = length dst"
    "sample_ints bits n dst' = even_samples n (sample_ints bits (n * C) src)"
    using apply_downmix_ok [OF assms] by blast
  have "2 * (n - 1) div C < n - 1" if "2 < C" "1 < n"
  proof -
    have "2 * (n - 1) < C * (n - 1)" using that by simp
    then show ?thesis by (simp add: less_mult_imp_div_less mult.commute)
  qed
  then show ?thesis using d by (auto simp: even_samples_def mult.commute)
qed

theorem downmix_takes_every_second_sample_witness:
  "\<exists>dst'. apply_downmix [1, 0, 2, 0, 3, 0, 4, 0, 5, 0, 6, 0, 7, 0, 8, 0] [0, 0, 0, 0] 2 16 = Inr dst' \<and>
     sample_ints 16 2 dst' ! 1 = sample_ints 16 8 [1, 0, 2, 0, 3, 0, 4, 0, 5, 0, 6, 0, 7, 0, 8, 0] ! 2"
proof -
  have "\<exists>dst'. apply_downmix [1, 0, 2, 0, 3, 0, 4, 0, 5, 0, 6, 0, 7, 0, 8, 0] [0, 0, 0, 0] 2 16 = Inr dst' \<and>
      length dst' = length [0, 0, 0, 0 :: u8] \<and>
      (\<forall>f<2. sample_ints 16 2 dst' ! f = sample_ints 16 (2 * 4) [1, 0, 2, 0, 3, 0, 4, 0, 5, 0, 6, 0, 7, 0, 8, 0] !
         (2 * f div 4 * 4 + 2 * f mod 4)) \<and>
      (4 = (2 :: nat) \<longrightarrow> (\<forall>f<2. sample_ints 16 2 dst' ! f =
         sample_ints 16 (2 * 4) [1, 0, 2, 0, 3, 0, 4, 0, 5, 0, 6, 0, 7, 0, 8, 0] ! (f * 4))) \<and>
      (2 < (4 :: nat) \<and> 1 < (2 :: nat) \<longrightarrow> 2 * (2 - 1) div 4 < (2 :: nat) - 1)"
    by (rule downmix_takes_every_second_sample) (simp_all add: supported_bits_def bytes_of_bits_def)
  then show ?thesis by fastforce
qed

text \<open>
  The level meter. The peak is the largest magnitude in the chunk, on the 16-bit scale for 16-
  and 32-bit audio, and the sum of squares behind the RMS value is exact for chunks of up to
  \<open>2 ^ 22\<close> samples. For 24-bit audio the samples are not scaled: any sample of magnitude
  32767 or more, that is anything above 1/256 of full scale, reads as a full-scale peak.
\<close>

theorem meter_reads_peak:
  assumes "supported_bits bits" and "unat samples * bytes_of_bits bits \<le> length out" and "unat samples \<le> 2 ^ 22"
    and "samples \<noteq> 0"
  shows "\<exists>cp'. cp_meter math cp bits out samples fc = Inr cp' \<and>
     cp_total_frames cp' = cp_total_frames cp + fc \<and>
     (bits \<noteq> 24 \<longrightarrow>
        sint (cp_peak_level cp') = min (peak_of (levels bits (unat samples) out)) 32767 \<and>
        cp_rms_level cp' = rms_of math (of_int (square_sum (levels bits (unat samples) out))) samples) \<and>
     (bits = 24 \<and> (\<exists>s \<in> set (sample_ints bits (unat samples) out). 32767 \<le> \<bar>s\<bar>) \<longrightarrow> cp_peak_level cp' = 32767)"
proof -
  let ?xs = "levels bits (unat samples) out"
  obtain sq where m: "meter fl64 out (unat samples) bits = Inr (peak_of ?xs, sq)"
    "int (unat samples) * 2 ^ (2 * meter_bits bits) < 2 ^ 53 \<longrightarrow> sq = of_int (square_sum ?xs)"
    using meter_ok [OF assms(1,2)] by blast
  have exact: "sq = of_int (square_sum ?xs)" if "bits \<noteq> 24"
  proof -
    have "int (unat samples) \<le> int (2 ^ 22)" using assms(3) by (simp only: of_nat_le_iff)
    then have "int (unat samples) * 2 ^ 30 \<le> int (2 ^ 22) * 2 ^ 30" by (rule mult_right_mono) simp
    then have "int (unat samples) * 2 ^ (2 * meter_bits bits) < 2 ^ 53"
      using that unfolding meter_bits_def by simp
    then show ?thesis using m(2) by blast
  qed
  have pk: "0 \<le> peak_of ?xs" by (rule peak_of_bounds)
  have word: "sint (word_of_int (min (peak_of ?xs) 32767) :: i16) = min (peak_of ?xs) 32767"
    using pk by (simp add: sint_sbintrunc' signed_take_bit_int_eq_self)
  have clip: "min (peak_of ?xs) 32767 = 32767"
    if "bits = 24" "s \<in> set (sample_ints bits (unat samples) out)" "32767 \<le> \<bar>s\<bar>" for s
  proof -
    have "s \<in> set ?xs" using that(1,2) by (simp add: levels_def meter_level_def)
    from peak_of_bounds(1) [OF this] show ?thesis using that(3) by simp
  qed
  show ?thesis
    unfolding cp_meter_def m(1) obind_simps prod.case using exact word clip by auto
qed

theorem meter_reads_peak_witness:
  "\<exists>cp'. cp_meter demo_math (cp_new demo_math demo_pipe_config) 24 [0, 0x80, 0] 1 1 = Inr cp' \<and>
     cp_total_frames cp' = cp_total_frames (cp_new demo_math demo_pipe_config) + 1 \<and> cp_peak_level cp' = 32767"
proof -
  have len: "unat (1 :: u64) * bytes_of_bits 24 \<le> length [0, 0x80, 0 :: u8]" by (simp add: bytes_of_bits_def)
  have "s24_load [0, 0x80, 0] = 32768" by (simp add: s24_load_def)
  then have "sample_ints 24 (unat (1 :: u64)) [0, 0x80, 0] = [32768]"
    by (simp add: sample_ints_def pcm_ints_def decode_all_def frames_of_def frame_at_def)
  then have "\<exists>s \<in> set (sample_ints 24 (unat (1 :: u64)) [0, 0x80, 0]). 32767 \<le> \<bar>s\<bar>" by simp
  moreover have "supported_bits 24" "unat (1 :: u64) \<le> 2 ^ 22" "(1 :: u64) \<noteq> 0" by (simp_all add: supported_bits_def)
  ultimately show ?thesis
    using meter_reads_peak [OF _ len, of demo_math "cp_new demo_math demo_pipe_config" 1] by blast
qed

text \<open>All parts of the pipeline with the same parameters.\<close>

definition formats_agree :: "u32 \<Rightarrow> u32 \<Rightarrow> u16 \<Rightarrow> u16 \<Rightarrow> capture_pipeline \<Rightarrow> bool" where
  "formats_agree rate period ch bits cp \<longleftrightarrow>
     (\<exists>rb cx. cp_ring cp = Some rb \<and> cp_clip cp = Some cx \<and>
        rb_channels rb = ch \<and> rb_bytes_per_sample rb = bits_div8 bits \<and>
        cx_channels cx = ch \<and> cx_bits_per_sample cx = bits \<and> cx_sample_rate cx = rate) \<and>
     (\<forall>br. cp_recorder cp = Some br \<longrightarrow>
        br_channels br = ch \<and> br_bits_per_sample br = bits \<and> br_sample_rate br = rate) \<and>
     (\<forall>sp. cp_publisher cp = Some sp \<longrightarrow>
        sp_channels sp = ch \<and> sp_bits_per_sample sp = bits \<and> sp_sample_rate sp = rate \<and> sp_period_frames sp = period)"

text \<open>
  C37: the parts of an initialised pipeline agree on the format of the audio. Whatever the
  configuration and the device, if \<open>initialize()\<close> returns true, then ring buffer, clip extractor,
  block recorder and publisher were all created with the sample width of the configuration, one
  channel if a multi-channel source is downmixed and the captured channels otherwise, and the
  rate and period the device settled on.
\<close>

theorem initialized_formats_agree:
  assumes "cp_initialize env (cp_new math config) = Inr (True, cp)"
  shows "formats_agree (actual_rate env config) (actual_period env config) (out_channels cp)
           (ac_bits_per_sample (dc_audio config)) cp \<and>
         (out_channels cp = (if ac_downmix_mono (dc_audio config) \<and> 2 \<le> ac_channels (dc_audio config) then 1
                             else ac_channels (dc_audio config)))"
proof -
  let ?bits = "ac_bits_per_sample (dc_audio config)"
  obtain al where I: "al_initialize (pe_alsa env) (pe_mem_ok env) (al_new (dc_audio config)) = Inr (True, al)"
    "out_channels cp = out_channels (cp_new math config)"
    "\<exists>rb. cp_ring cp = Some rb \<and> rb_channels rb = out_channels cp \<and> rb_bytes_per_sample rb = bits_div8 ?bits"
    "cp_clip cp = Some (cx_new \<lparr>cc_output_dir = dc_clips_dir config, cc_format = ''wav''\<rparr>
       (al_actual_rate al) (out_channels cp) ?bits)"
    "\<forall>br. cp_recorder cp = Some br \<longrightarrow>
       br_new (pe_mem_ok env) (dc_block_recorder config) (al_actual_rate al) (out_channels cp) ?bits = Inr br"
    "\<forall>sp. cp_publisher cp = Some sp \<longrightarrow>
       sp_info sp = sp_info (sp_new (dc_shm_name config) (al_actual_rate al) (out_channels cp) ?bits (al_actual_period al))"
    using cp_initialize_parts [OF assms] by blast
  have act: "actual_rate env config = al_actual_rate al" "actual_period env config = al_actual_period al"
    using al_initialize_actual [OF I(1)] by (simp_all add: actual_rate_def actual_period_def)
  have "br_channels br = out_channels cp \<and> br_bits_per_sample br = ?bits \<and> br_sample_rate br = al_actual_rate al"
    if "cp_recorder cp = Some br" for br
    using I(5) that by (auto simp: br_new_def Let_def obind_Inr_iff)
  then have "formats_agree (actual_rate env config) (actual_period env config) (out_channels cp) ?bits cp"
    using I(3,4,6) unfolding act
    by (auto simp: formats_agree_def cx_new_def sp_info_def sp_new_def)
  then show ?thesis unfolding I(2) by (simp add: out_channels_def cp_new_def Let_def)
qed

theorem initialized_formats_agree_witness:
  "\<exists>cp. cp_initialize demo_env (cp_new demo_math demo_pipe_config) = Inr (True, cp) \<and> formats_agree 8 2 2 16 cp"
proof -
  obtain cp where init: "cp_initialize demo_env (cp_new demo_math demo_pipe_config) = Inr (True, cp)"
    using demo_initialized by blast
  have "out_channels cp = 2" "ac_bits_per_sample (dc_audio demo_pipe_config) = 16"
    using initialized_formats_agree [OF init] by (simp_all add: demo_pipe_config_def default_config_def)
  with initialized_formats_agree [OF init] init show ?thesis by (auto simp: demo_actual)
qed

end
