(* ===== verification/Status_Json.thy ===== *)
theory Status_Json
  imports Pipeline Control_Socket
begin

text \<open>
  The status strings of the pipeline (\<open>get_status_json\<close> and \<open>get_levels_json\<close>,
  src/pipeline/capture_pipeline.cpp) and the daemon's socket handlers on the pipeline of
  Pipeline. How a stream prints a floating-point number and \<open>std::log10\<close> are the parameter
  \<open>number_text\<close>. A JSON string is scanned for its quotes: a text that ends inside a string is
  no JSON.
\<close>

section \<open>The strings\<close>

text \<open>
  \<open>nt_float\<close> is \<open>operator<<\<close> for \<open>float\<close>, \<open>nt_double\<close> for \<open>double\<close>, \<open>nt_nan\<close> what it prints for a
  value that is not a number, \<open>nt_fixed w\<close> the fixed notation with one decimal in a field of width \<open>w\<close>.
\<close>

record number_text =
  nt_float :: "rat \<Rightarrow> string"
  nt_double :: "rat \<Rightarrow> string"
  nt_nan :: string
  nt_fixed :: "nat \<Rightarrow> rat \<Rightarrow> string"
  nt_log10 :: "rat \<Rightarrow> rat"

definition json_bool :: "bool \<Rightarrow> string" where
  "json_bool b = (if b then ''true'' else ''false'')"

definition json_nat :: "'a::len word \<Rightarrow> string" where
  "json_nat n = dec (unat n)"

text \<open>The part about the capture, up to its closing brace.\<close>

definition capture_json :: "number_text \<Rightarrow> rat alsa_capture \<Rightarrow> capture_pipeline \<Rightarrow> string" where
  "capture_json nt al cp =
     (let stats = get_stats cp; audio = dc_audio (cp_config cp)
      in ''{\"running\":'' @ json_bool (cp_running cp) @
         '',\"capture\":{\"frames\":'' @ json_nat (st_frames_captured stats) @
         '',\"rate\":'' @ json_nat (al_actual_rate al) @
         '',\"channels\":'' @ (if cp_downmix_mono cp then dec 1 else json_nat (ac_channels audio)) @
         '',\"bits\":'' @ json_nat (ac_bits_per_sample audio) @
         '',\"device\":\"'' @ ac_device audio @ ''\"'' @
         '',\"gain_db\":'' @ nt_float nt (cp_gain_db cp) @
         '',\"dc_remove\":'' @ json_bool (cp_dc_remove cp) @
         '',\"ring_buffer_frames\":'' @ json_nat (st_ring_buffer_frames stats) @
         ''}'')"

text \<open>The part about the recorder: the text after the file name has a quote on both sides of its brace.\<close>

definition recorder_json :: "recorder_stats \<Rightarrow> string" where
  "recorder_json br =
     '',\"block_recorder\":{\"blocks_written\":'' @ json_nat (rt_blocks_written br) @
     '',\"total_frames\":'' @ json_nat (rt_total_frames_written br) @
     '',\"current_file\":\"'' @ rt_current_file br @ ''\"}\"''"

definition get_status_json :: "number_text \<Rightarrow> capture_pipeline \<Rightarrow> string outcome" where
  "get_status_json nt cp =
     obind (deref (cp_capture cp)) (\<lambda>al.
       Inr (capture_json nt al cp @
            (case cp_recorder cp of None \<Rightarrow> [] | Some br \<Rightarrow> recorder_json (br_get_stats br)) @ ''}''))"

text \<open>The levels in decibel; an RMS that is not a number fails the comparison.\<close>

definition level_db :: "number_text \<Rightarrow> rat \<Rightarrow> rat" where
  "level_db nt x =
     (if 0 < x then fl64 (20 * nt_log10 nt (fl64 (x / 32768))) else - 96)"

definition get_levels_json :: "number_text \<Rightarrow> capture_pipeline \<Rightarrow> string" where
  "get_levels_json nt cp =
     (let peak = sint (cp_peak_level cp); rms = cp_rms_level cp
      in ''{\"peak\":'' @ to_string peak @
         '',\"peak_db\":'' @ nt_double nt (level_db nt (of_int peak)) @
         '',\"rms\":'' @ (case rms of None \<Rightarrow> nt_nan nt | Some r \<Rightarrow> nt_float nt r) @
         '',\"rms_db\":'' @ nt_double nt (level_db nt (case rms of None \<Rightarrow> 0 | Some r \<Rightarrow> r)) @ ''}'')"

section \<open>The pipeline behind the socket\<close>

text \<open>\<open>clip\<close> is \<open>capture_clip\<close>, which waits for the worker of the extractor.\<close>

definition pipeline_socket ::
  "math_lib \<Rightarrow> number_text \<Rightarrow>
   (int \<Rightarrow> int \<Rightarrow> string \<Rightarrow> capture_pipeline \<Rightarrow> (string \<times> capture_pipeline) outcome) \<Rightarrow>
   capture_pipeline control_socket" where
  "pipeline_socket math nt clip =
     daemon_socket \<lparr>pl_capture_clip = clip, pl_set_parameter = set_parameter math,
       pl_status_json = get_status_json nt, pl_levels_json = (\<lambda>cp. Inr (get_levels_json nt cp))\<rparr>"

lemma set_on_pipeline:
  assumes "plain_word k" and "plain_word v" and "length k + length v \<le> 900"
  shows "handle_client (pipeline_socket math nt clip) (set_message k v) cp =
    obind (set_parameter math k v cp) (\<lambda>(done, cp').
      Inr (Some ((if done then resp_ok else resp_error ''Failed to set parameter'') @ [CHR 0x0A]), cp'))"
  unfolding pipeline_socket_def by (simp add: handle_set_message [OF assms])

lemma status_on_pipeline:
  "handle_client (pipeline_socket math nt clip) (get_message ''STATUS'') cp =
    obind (get_status_json nt cp) (\<lambda>j. Inr (Some (resp_ok_data j @ [CHR 0x0A]), cp))"
proof -
  have w: "plain_word ''STATUS''" "length ''STATUS'' \<le> 900" by (simp_all add: plain_word_def is_space_def)
  have up: "map to_upper ''STATUS'' = ''STATUS''" by (simp add: to_upper_def)
  show ?thesis
    unfolding pipeline_socket_def handle_get_message [OF w] up
    by (simp add: handle_get_command_def obind_assoc)
qed

section \<open>Quotes\<close>

text \<open>Whether a text that starts inside (or outside) a JSON string ends inside one.\<close>

fun in_string :: "bool \<Rightarrow> string \<Rightarrow> bool" where
  "in_string b [] = b"
| "in_string b (c # cs) =
     (if b \<and> c = CHR 0x5C then (case cs of [] \<Rightarrow> True | _ # cs' \<Rightarrow> in_string True cs')
      else in_string (if c = CHR 0x22 then \<not> b else b) cs)"

definition unquoted :: "string \<Rightarrow> bool" where
  "unquoted s \<longleftrightarrow> (\<forall>c \<in> set s. c \<noteq> CHR 0x22 \<and> c \<noteq> CHR 0x5C)"

lemma in_string_skip: "unquoted s \<Longrightarrow> in_string b (s @ rest) = in_string b rest"
  by (induction s) (auto simp: unquoted_def)

lemma unquoted_dec: "unquoted (dec n)"
proof -
  have "is_digit c \<Longrightarrow> c \<noteq> CHR 0x22 \<and> c \<noteq> CHR 0x5C" for c by (auto simp: is_digit_def)
  then show ?thesis using dec_digits unfolding unquoted_def by blast
qed

lemma unquoted_text: "unquoted (json_nat w)" "unquoted (json_bool b)" "unquoted (dec n)"
  by (simp_all add: json_nat_def unquoted_dec json_bool_def) (simp_all add: unquoted_def)

lemmas scan_text = in_string_skip [OF unquoted_text(1)] in_string_skip [OF unquoted_text(2)]
  in_string_skip [OF unquoted_text(3)]

lemma capture_json_closed:
  assumes "unquoted (ac_device (dc_audio (cp_config cp)))" and "unquoted (nt_float nt (cp_gain_db cp))"
  shows "in_string False (capture_json nt al cp @ rest) = in_string False rest"
  using in_string_skip [OF assms(1)] in_string_skip [OF assms(2)]
  by (simp add: capture_json_def Let_def scan_text)

lemma recorder_json_open:
  assumes "unquoted (br_stats_current_file br)"
  shows "in_string False (recorder_json (br_get_stats br) @ rest) = in_string True rest"
  using in_string_skip [OF assms] by (simp add: recorder_json_def br_get_stats_def scan_text)

section \<open>The reply to a status request\<close>

text \<open>
  C36: the status over the socket. A started daemon answers \<open>GET STATUS\<close> without changing its
  state. When the names it prints need no escaping, the reply ends outside every string exactly
  if there is no block recorder: with one, a stray quote makes every reply an unterminated
  string, so it is no JSON.
\<close>

theorem status_reply_unterminated:
  assumes "cp_capture cp = Some al"
    and "unquoted (ac_device (dc_audio (cp_config cp)))" and "unquoted (nt_float nt (cp_gain_db cp))"
    and "\<forall>br. cp_recorder cp = Some br \<longrightarrow> unquoted (br_stats_current_file br)"
  shows "\<exists>reply. handle_client (pipeline_socket math nt clip) (get_message ''STATUS'') cp = Inr (Some reply, cp) \<and>
    (in_string False reply \<longleftrightarrow> cp_recorder cp \<noteq> None)"
proof -
  let ?r = "case cp_recorder cp of None \<Rightarrow> [] | Some br \<Rightarrow> recorder_json (br_get_stats br)"
  have "get_status_json nt cp = Inr (capture_json nt al cp @ ?r @ ''}'')"
    using assms(1) by (simp add: get_status_json_def deref_def)
  then have "handle_client (pipeline_socket math nt clip) (get_message ''STATUS'') cp =
      Inr (Some (resp_ok_data (capture_json nt al cp @ ?r @ ''}'') @ [CHR 0x0A]), cp)"
    by (simp add: status_on_pipeline)
  moreover have "in_string False (?r @ rest) = in_string (cp_recorder cp \<noteq> None) rest" for rest
    using assms(4) by (cases "cp_recorder cp") (simp_all add: recorder_json_open)
  then have "in_string False (resp_ok_data (capture_json nt al cp @ ?r @ ''}'') @ [CHR 0x0A]) \<longleftrightarrow>
      cp_recorder cp \<noteq> None"
    using capture_json_closed [OF assms(2,3)] by (simp add: resp_ok_data_def)
  ultimately show ?thesis by blast
qed

definition demo_text :: number_text where
  "demo_text = \<lparr>nt_float = (\<lambda>x. to_string (trunc_rat x)), nt_double = (\<lambda>x. to_string (trunc_rat x)),
     nt_nan = ''nan'', nt_fixed = (\<lambda>w x. to_string (trunc_rat x)), nt_log10 = (\<lambda>x. 0)\<rparr>"

lemma unquoted_to_string: "unquoted (to_string i)"
  using unquoted_dec unfolding to_string_def unquoted_def by auto

theorem status_reply_unterminated_witness:
  "\<exists>cp br. cp_recorder cp = Some br \<and> br_new (\<lambda>n. True) demo_config 16000 1 16 = Inr br \<and>
    (\<forall>math clip. \<exists>reply.
      handle_client (pipeline_socket math demo_text clip) (get_message ''STATUS'') cp = Inr (Some reply, cp) \<and>
      in_string False reply)"
proof -
  have b: "supported_bits 16" by (simp add: supported_bits_def)
  obtain br where br: "br_new (\<lambda>n. True) demo_config 16000 1 16 = Inr br" by (rule demo_recorder [OF b(1)])
  then have f: "br_stats_current_file br = []"
    by (auto simp: br_new_def Let_def obind_def split: sum.splits if_splits)
  define math where "math = \<lparr>ml_pow10 = (\<lambda>x. 1), ml_sqrt = (\<lambda>x. x), ml_stod = (\<lambda>s. Inr 0)\<rparr>"
  define cp where "cp = (cp_new math default_config)
    \<lparr>cp_capture := Some (al_new (dc_audio default_config)), cp_recorder := Some br\<rparr>"
  have "cp_capture cp = Some (al_new (dc_audio default_config))" by (simp add: cp_def)
  moreover have "unquoted (ac_device (dc_audio (cp_config cp)))"
    by (simp add: cp_def cp_new_def Let_def default_config_def unquoted_def)
  moreover have "unquoted (nt_float demo_text (cp_gain_db cp))" by (simp add: demo_text_def unquoted_to_string)
  moreover have "\<forall>br. cp_recorder cp = Some br \<longrightarrow> unquoted (br_stats_current_file br)"
    by (simp add: cp_def f unquoted_def)
  ultimately have "\<exists>reply. handle_client (pipeline_socket m demo_text c) (get_message ''STATUS'') cp =
      Inr (Some reply, cp) \<and> in_string False reply" for m c
    using status_reply_unterminated [of cp _ demo_text m c] by (simp add: cp_def)
  then show ?thesis using br by (intro exI [of _ cp] exI [of _ br]) (simp add: cp_def)
qed

end
