(* ===== verification/Socket_Server.thy ===== *)
theory Socket_Server
  imports Control_Socket
begin

text \<open>
  Opening, serving and closing the control socket (\<open>start()\<close>, \<open>stop()\<close> and
  \<open>accept_thread_func()\<close>, src/utils/control_socket.cpp). The operating system is the parameter
  \<open>socket_calls\<close> over a state \<open>'w\<close> of the file system; \<open>socket_names\<close> states what POSIX says of
  \<open>unlink\<close> and \<open>bind\<close> about the names that exist.
\<close>

section \<open>State and operating system\<close>

record 'w socket_calls =
  sk_mkdirs :: "string \<Rightarrow> 'w \<Rightarrow> 'w option"   \<comment> \<open>directories of the path; \<open>None\<close> throws\<close>
  sk_unlink :: "string \<Rightarrow> 'w \<Rightarrow> 'w"
  sk_socket :: "'w \<Rightarrow> bool"
  sk_bind :: "string \<Rightarrow> 'w \<Rightarrow> bool \<times> 'w"
  sk_listen :: "'w \<Rightarrow> bool"

record server =
  sv_socket_path :: string
  sv_server_fd :: bool      \<comment> \<open>whether \<open>server_fd_\<close> is open\<close>
  sv_running :: bool
  sv_thread :: bool         \<comment> \<open>whether \<open>thread_\<close> is joinable\<close>

definition server_new :: "string \<Rightarrow> server" where
  "server_new path = \<lparr>sv_socket_path = path, sv_server_fd = False, sv_running = False, sv_thread = False\<rparr>"

section \<open>Start and stop\<close>

text \<open>\<open>sun_path\<close> has 108 bytes, of which \<open>strncpy\<close> fills at most 107.\<close>

definition sun_path :: "string \<Rightarrow> string" where
  "sun_path path = take 107 path"

definition server_start :: "'w socket_calls \<Rightarrow> server \<Rightarrow> 'w \<Rightarrow> (bool \<times> server \<times> 'w) outcome" where
  "server_start os sv w0 =
     (case sk_mkdirs os (sv_socket_path sv) w0 of
        None \<Rightarrow> Inl Filesystem_Error
      | Some w1 \<Rightarrow>
          let w2 = sk_unlink os (sv_socket_path sv) w1 in
          if \<not> sk_socket os w2 then Inr (False, sv\<lparr>sv_server_fd := False\<rparr>, w2)
          else let (bound, w3) = sk_bind os (sun_path (sv_socket_path sv)) w2 in
               if \<not> bound \<or> \<not> sk_listen os w3 then Inr (False, sv\<lparr>sv_server_fd := False\<rparr>, w3)
               else Inr (True, sv\<lparr>sv_server_fd := True, sv_running := True, sv_thread := True\<rparr>, w3))"

definition server_stop :: "'w socket_calls \<Rightarrow> server \<Rightarrow> 'w \<Rightarrow> server \<times> 'w" where
  "server_stop os sv w =
     (sv\<lparr>sv_running := False, sv_server_fd := False, sv_thread := False\<rparr>, sk_unlink os (sv_socket_path sv) w)"

section \<open>The accept loop\<close>

text \<open>
  What \<open>accept\<close> returns while the server runs: a failure, or a client and what \<open>recv\<close> delivers
  from it. An exception of a handler is not caught in the thread.
\<close>

datatype accepted = Accept_Fails | Client string

fun accept_thread ::
  "'s control_socket \<Rightarrow> accepted list \<Rightarrow> 's \<Rightarrow> (string option list \<times> 's) outcome" where
  "accept_thread sock [] st = Inr ([], st)"
| "accept_thread sock (Accept_Fails # rest) st = accept_thread sock rest st"
| "accept_thread sock (Client received # rest) st =
     obind (handle_client sock received st) (\<lambda>(reply, st').
     obind (accept_thread sock rest st') (\<lambda>(replies, st'').
     Inr (reply # replies, st'')))"

section \<open>Names\<close>

text \<open>
  \<open>names\<close> are the socket names that exist: \<open>unlink\<close> removes one, \<open>bind\<close> creates one and fails if
  it exists, and the directory of the socket can be created.
\<close>

definition socket_names :: "'w socket_calls \<Rightarrow> ('w \<Rightarrow> string set) \<Rightarrow> bool" where
  "socket_names os names \<longleftrightarrow>
     (\<forall>p w. \<exists>w'. sk_mkdirs os p w = Some w' \<and> names w' = names w) \<and>
     (\<forall>p w. names (sk_unlink os p w) = names w - {p}) \<and>
     (\<forall>p w. fst (sk_bind os p w) = (p \<notin> names w) \<and> names (snd (sk_bind os p w)) = insert p (names w)) \<and>
     (\<forall>w. sk_socket os w \<and> sk_listen os w)"

lemma socket_namesD:
  assumes "socket_names os names"
  shows "\<exists>w'. sk_mkdirs os p w = Some w' \<and> names w' = names w"
    and "names (sk_unlink os p w) = names w - {p}"
    and "fst (sk_bind os p w) = (p \<notin> names w)" and "names (snd (sk_bind os p w)) = insert p (names w)"
    and "sk_socket os w" and "sk_listen os w"
  using assms by (simp_all add: socket_names_def)

lemma server_start_names:
  assumes os: "socket_names os names"
  shows "\<exists>ok sv' w'. server_start os sv w = Inr (ok, sv', w') \<and>
    ok = (sun_path (sv_socket_path sv) \<notin> names w - {sv_socket_path sv}) \<and>
    names w' = insert (sun_path (sv_socket_path sv)) (names w - {sv_socket_path sv}) \<and>
    sv_socket_path sv' = sv_socket_path sv \<and> sv_server_fd sv' = ok \<and>
    sv_running sv' = (ok \<or> sv_running sv) \<and> sv_thread sv' = (ok \<or> sv_thread sv)"
proof -
  let ?p = "sv_socket_path sv"
  obtain w1 where w1: "sk_mkdirs os ?p w = Some w1" "names w1 = names w"
    using socket_namesD(1) [OF os, of ?p w] by blast
  let ?w2 = "sk_unlink os ?p w1"
  have w2: "names ?w2 = names w - {?p}" using socket_namesD(2) [OF os] w1(2) by simp
  obtain b w3 where w3: "sk_bind os (sun_path ?p) ?w2 = (b, w3)" by (cases "sk_bind os (sun_path ?p) ?w2")
  have b: "b = (sun_path ?p \<notin> names w - {?p})" "names w3 = insert (sun_path ?p) (names w - {?p})"
    using socket_namesD(3,4) [OF os, of "sun_path ?p" ?w2] w2 w3 by simp_all
  have "server_start os sv w =
      (if \<not> b then Inr (False, sv\<lparr>sv_server_fd := False\<rparr>, w3)
       else Inr (True, sv\<lparr>sv_server_fd := True, sv_running := True, sv_thread := True\<rparr>, w3))"
    unfolding server_start_def w1(1) option.case Let_def w3 prod.case using socket_namesD(5,6) [OF os] by simp
  then show ?thesis unfolding b(2) [symmetric] b(1) [symmetric] by (cases b) (simp_all add: ex_bool_eq)
qed

lemma server_stop_names:
  "socket_names os names \<Longrightarrow> names (snd (server_stop os sv w)) = names w - {sv_socket_path sv}"
  by (simp add: server_stop_def socket_namesD(2))

text \<open>
  C35: opening and closing the control socket leaves the file system as it was, unless the path is
  longer than the 107 bytes of a socket address. For a path that fits, \<open>start()\<close> succeeds even
  over a stale socket and \<open>stop()\<close> removes the name. A longer path is bound under its first 107
  bytes, which \<open>stop()\<close> and the next \<open>start()\<close> do not remove: from then on \<open>start()\<close> fails.
\<close>

theorem control_socket_restart:
  assumes os: "socket_names os names" and "server_start os (server_new path) w = Inr (ok, sv1, w1)"
    and "server_stop os sv1 w1 = (sv2, w2)" and "server_start os (server_new path) w2 = Inr (ok', sv3, w3)"
  shows "(length path \<le> 107 \<longrightarrow> ok \<and> ok' \<and> names w2 = names w - {path}) \<and>
    (107 < length path \<longrightarrow> ok = (take 107 path \<notin> names w) \<and> take 107 path \<in> names w2 \<and> \<not> ok')"
proof -
  have p: "sv_socket_path (server_new path) = path" by (simp add: server_new_def)
  note first = server_start_names [OF os, of "server_new path" w, unfolded p assms(2)]
  note second = server_start_names [OF os, of "server_new path" w2, unfolded p assms(4)]
  have "sv_socket_path sv1 = path" using first by auto
  then have w2: "names w2 = names w1 - {path}" using server_stop_names [OF os, of sv1 w1] assms(3) by simp
  have "ok \<and> ok' \<and> names w2 = names w - {path}" if "length path \<le> 107"
    using that first second w2 by (auto simp: sun_path_def)
  moreover have "ok = (take 107 path \<notin> names w) \<and> take 107 path \<in> names w2 \<and> \<not> ok'" if l: "107 < length path"
  proof -
    have "length (take 107 path) \<noteq> length path" using l by simp
    then have "take 107 path \<noteq> path" by metis
    then show ?thesis using first second w2 by (auto simp: sun_path_def)
  qed
  ultimately show ?thesis by (meson not_le)
qed

text \<open>A file system that is the set of its names.\<close>

definition demo_os :: "string set socket_calls" where
  "demo_os = \<lparr>sk_mkdirs = (\<lambda>p w. Some w), sk_unlink = (\<lambda>p w. w - {p}), sk_socket = (\<lambda>w. True),
     sk_bind = (\<lambda>p w. (p \<notin> w, insert p w)), sk_listen = (\<lambda>w. True)\<rparr>"

theorem control_socket_restart_witness:
  "(let path = ''/run/ws-audiod/control.sock''; r = server_start demo_os (server_new path) {path}
    in \<exists>sv w. r = Inr (True, sv, w) \<and> snd (server_stop demo_os sv w) = {}) \<and>
   (let path = replicate 120 CHR ''a''
    in \<exists>sv w sv' w'. server_start demo_os (server_new path) {} = Inr (True, sv, w) \<and>
         server_start demo_os (server_new path) (snd (server_stop demo_os sv w)) = Inr (False, sv', w'))"
proof -
  have os: "socket_names demo_os (\<lambda>w. w)" by (simp add: socket_names_def demo_os_def)
  have run: "\<exists>ok sv1 w1 ok' sv3 w3. server_start demo_os (server_new path) w = Inr (ok, sv1, w1) \<and>
      server_start demo_os (server_new path) (snd (server_stop demo_os sv1 w1)) = Inr (ok', sv3, w3) \<and>
      (length path \<le> 107 \<longrightarrow> ok \<and> ok' \<and> snd (server_stop demo_os sv1 w1) = w - {path}) \<and>
      (107 < length path \<longrightarrow> ok = (take 107 path \<notin> w) \<and> \<not> ok')" for path w
  proof -
    obtain ok sv1 w1 where r1: "server_start demo_os (server_new path) w = Inr (ok, sv1, w1)"
      using server_start_names [OF os, of "server_new path" w] by blast
    obtain sv2 w2 where st: "server_stop demo_os sv1 w1 = (sv2, w2)" by fastforce
    obtain ok' sv3 w3 where r2: "server_start demo_os (server_new path) w2 = Inr (ok', sv3, w3)"
      using server_start_names [OF os, of "server_new path" w2] by blast
    from control_socket_restart [OF os r1 st r2] show ?thesis using r1 r2 st by auto
  qed
  show ?thesis
    using run [of "''/run/ws-audiod/control.sock''" "{''/run/ws-audiod/control.sock''}"]
      run [of "replicate 120 CHR ''a''" "{}"] by (auto simp: Let_def)
qed

end
