(* ===== verification/Daemon.thy ===== *)
theory Daemon
  imports Pipeline_Properties Socket_Server
begin

text \<open>
  \<open>Daemon\<close> (src/main.cpp, include/audio_daemon/daemon.hpp): \<open>initialize()\<close> builds the pipeline and
  the control socket; \<open>run()\<close> starts both, waits for a signal and stops them. \<open>run()\<close> is taken
  statement by statement (\<open>run_statement\<close>), because the signal handler may come between any two
  of them.
\<close>

section \<open>State\<close>

datatype run_pc = At_Socket | At_Pipeline | At_Running | Looping | At_Stop_Pipeline | At_Stop_Socket
  | Returned int

record 'w daemon =
  dm_pc :: run_pc
  dm_running :: bool
  dm_pipeline :: capture_pipeline
  dm_server :: server
  dm_world :: 'w

definition dm_initialize ::
  "pipeline_env \<Rightarrow> math_lib \<Rightarrow> rat daemon_config \<Rightarrow> 'w \<Rightarrow> (bool \<times> 'w daemon) outcome" where
  "dm_initialize env math config w =
     obind (cp_initialize env (cp_new math config)) (\<lambda>(ok, cp).
       Inr (ok, \<lparr>dm_pc = At_Socket, dm_running = False, dm_pipeline = cp,
                 dm_server = server_new (dc_socket_path config), dm_world = w\<rparr>))"

text \<open>\<open>main\<close> up to \<open>run()\<close>: the process ends (\<open>Exit\<close>) in \<open>parse_args\<close> or when nothing can be initialised.\<close>

definition daemon_main ::
  "pipeline_env \<Rightarrow> math_lib \<Rightarrow> (string \<Rightarrow> rat outcome) \<Rightarrow> (string \<Rightarrow> string option) \<Rightarrow> cli_opt list \<Rightarrow> 'w \<Rightarrow>
   'w daemon program outcome" where
  "daemon_main env math stof files opts w =
     obind (parse_args stof files opts) (\<lambda>r. case r of
       Exit n \<Rightarrow> Inr (Exit n)
     | Run (config, debug) \<Rightarrow>
         obind (dm_initialize env math config w) (\<lambda>(ok, s). Inr (if ok then Run s else Exit 1)))"

section \<open>Running\<close>

text \<open>\<open>Looping\<close> is the test of the waiting loop; a turn in which it sleeps changes nothing.\<close>

definition run_statement :: "'w socket_calls \<Rightarrow> 'w daemon \<Rightarrow> 'w daemon outcome" where
  "run_statement os s =
     (case dm_pc s of
        At_Socket \<Rightarrow>
          obind (server_start os (dm_server s) (dm_world s)) (\<lambda>(ok, sv, w).
            Inr (s\<lparr>dm_server := sv, dm_world := w, dm_pc := (if ok then At_Pipeline else Returned 1)\<rparr>))
      | At_Pipeline \<Rightarrow>
          obind (cp_start (dm_pipeline s)) (\<lambda>(ok, cp).
            Inr (s\<lparr>dm_pipeline := cp, dm_pc := (if ok then At_Running else Returned 1)\<rparr>))
      | At_Running \<Rightarrow> Inr (s\<lparr>dm_running := True, dm_pc := Looping\<rparr>)
      | Looping \<Rightarrow> Inr (if dm_running s then s else s\<lparr>dm_pc := At_Stop_Pipeline\<rparr>)
      | At_Stop_Pipeline \<Rightarrow>
          obind (cp_stop (dm_pipeline s)) (\<lambda>cp. Inr (s\<lparr>dm_pipeline := cp, dm_pc := At_Stop_Socket\<rparr>))
      | At_Stop_Socket \<Rightarrow>
          (case server_stop os (dm_server s) (dm_world s) of (sv, w) \<Rightarrow>
             Inr (s\<lparr>dm_server := sv, dm_world := w, dm_pc := Returned 0\<rparr>))
      | Returned _ \<Rightarrow> Inr s)"

text \<open>\<open>stop()\<close>, called by the signal handler.\<close>

definition dm_stop :: "'w daemon \<Rightarrow> 'w daemon" where
  "dm_stop s = s\<lparr>dm_running := False\<rparr>"

datatype daemon_event = Statement | Signal

inductive daemon_run :: "'w socket_calls \<Rightarrow> 'w daemon \<Rightarrow> daemon_event list \<Rightarrow> 'w daemon \<Rightarrow> bool" for os s0 where
  start: "daemon_run os s0 [] s0"
| statement: "\<lbrakk>daemon_run os s0 evs s; run_statement os s = Inr s'\<rbrakk> \<Longrightarrow> daemon_run os s0 (evs @ [Statement]) s'"
| signal: "daemon_run os s0 evs s \<Longrightarrow> daemon_run os s0 (evs @ [Signal]) (dm_stop s)"

inductive_cases daemon_run_snoc: "daemon_run os s0 (evs @ [e]) s"

section \<open>Initialisation\<close>

text \<open>Nothing of the pipeline runs.\<close>

definition quiet :: "capture_pipeline \<Rightarrow> bool" where
  "quiet cp \<longleftrightarrow> \<not> cp_running cp \<and>
     (\<exists>al cx. cp_capture cp = Some al \<and> cp_clip cp = Some cx \<and> \<not> al_running al \<and> \<not> cx_running cx) \<and>
     (\<forall>br. cp_recorder cp = Some br \<longrightarrow> \<not> br_recording br \<and> \<not> br_writer_running br)"

lemma al_initialize_quiet:
  "al_initialize lib mem_ok al = Inr (ok, al') \<Longrightarrow> al_running al' = al_running al"
  by (auto simp: al_initialize_def obind_Inr_iff Let_def case_prod_beta split: if_splits)

lemma br_new_quiet: "br_new mem_ok config rate channels bits = Inr br \<Longrightarrow> \<not> br_recording br \<and> \<not> br_writer_running br"
  by (auto simp: br_new_def obind_Inr_iff Let_def split: if_splits)

lemma init_ring_quiet:
  "init_ring env al cp = Inr cp' \<Longrightarrow> cp_capture cp' = cp_capture cp \<and> cp_running cp' = cp_running cp \<and>
     cp_recorder cp' = cp_recorder cp \<and> (\<exists>cx. cp_clip cp' = Some cx \<and> \<not> cx_running cx)"
  by (auto simp: init_ring_def obind_Inr_iff Let_def cx_new_def)

lemma init_recorder_quiet:
  "init_recorder env al cp = Inr cp' \<Longrightarrow> cp_capture cp' = cp_capture cp \<and> cp_running cp' = cp_running cp \<and>
     cp_clip cp' = cp_clip cp \<and>
     (cp_recorder cp' = cp_recorder cp \<or> (\<exists>br. cp_recorder cp' = Some br \<and> \<not> br_recording br \<and> \<not> br_writer_running br))"
  using br_new_quiet by (auto simp: init_recorder_def obind_Inr_iff Let_def split: if_splits)

lemma init_publisher_quiet:
  "init_publisher env al cp = Inr (ok, cp') \<Longrightarrow> cp_capture cp' = cp_capture cp \<and> cp_running cp' = cp_running cp \<and>
     cp_clip cp' = cp_clip cp \<and> cp_recorder cp' = cp_recorder cp"
  by (auto simp: init_publisher_def obind_Inr_iff split: if_splits)

lemma init_buffers_quiet:
  "init_buffers env al cp = Inr cp' \<Longrightarrow> cp_capture cp' = cp_capture cp \<and> cp_running cp' = cp_running cp \<and>
     cp_clip cp' = cp_clip cp \<and> cp_recorder cp' = cp_recorder cp"
  unfolding init_buffers_def Let_def obind_Inr_iff
  by (elim exE conjE, split if_split_asm, unfold obind_Inr_iff, elim exE conjE, simp_all only: sum.inject)
    (elim subst, simp)+

lemma cp_initialize_quiet:
  assumes "cp_initialize env (cp_new math config) = Inr (True, cp)"
  shows "quiet cp"
proof -
  let ?new = "cp_new math config"
  obtain al cp1 cp2 cp3 cp4 where
    al: "al_initialize (pe_alsa env) (pe_mem_ok env) (al_new (dc_audio (cp_config ?new))) = Inr (True, al)"
    and ring: "init_ring env al (?new\<lparr>cp_capture := Some al\<rparr>) = Inr cp1"
    and rec: "init_recorder env al cp1 = Inr cp2" and pub: "init_publisher env al cp2 = Inr (True, cp3)"
    and buf: "init_buffers env al cp3 = Inr cp4" and cp: "cp = cp4\<lparr>cp_capture := Some (al_set_callback al)\<rparr>"
    using assms by (auto simp: cp_initialize_def obind_Inr_iff split: if_splits)
  have "\<not> al_running al" using al_initialize_quiet [OF al] by (simp add: al_new_def)
  moreover have "\<not> cp_running ?new" "cp_recorder ?new = None" by (simp_all add: cp_new_def Let_def)
  ultimately show ?thesis
    using init_ring_quiet [OF ring] init_recorder_quiet [OF rec] init_publisher_quiet [OF pub] init_buffers_quiet [OF buf]
    by (auto simp: cp quiet_def al_set_callback_def)
qed

section \<open>The life of the daemon\<close>

text \<open>Everything the daemon started is up.\<close>

definition up :: "'w daemon \<Rightarrow> bool" where
  "up s \<longleftrightarrow> cp_running (dm_pipeline s) \<and> sv_server_fd (dm_server s) \<and>
     cp_capture (dm_pipeline s) \<noteq> None \<and> cp_clip (dm_pipeline s) \<noteq> None"

definition socket_path :: "'w daemon \<Rightarrow> string" where
  "socket_path s = sv_socket_path (dm_server s)"

definition dm_inv :: "('w \<Rightarrow> string set) \<Rightarrow> daemon_event list \<Rightarrow> 'w daemon \<Rightarrow> bool" where
  "dm_inv names evs s \<longleftrightarrow>
     (case dm_pc s of
        At_Socket \<Rightarrow> quiet (dm_pipeline s) \<and> \<not> sv_server_fd (dm_server s)
      | At_Pipeline \<Rightarrow> quiet (dm_pipeline s) \<and> sv_server_fd (dm_server s)
      | At_Running \<Rightarrow> up s
      | Looping \<Rightarrow> up s \<and> (dm_running s \<or> Signal \<in> set evs)
      | At_Stop_Pipeline \<Rightarrow> up s \<and> Signal \<in> set evs
      | At_Stop_Socket \<Rightarrow> quiet (dm_pipeline s) \<and> Signal \<in> set evs
      | Returned code \<Rightarrow> quiet (dm_pipeline s) \<and> \<not> sv_server_fd (dm_server s) \<and>
          (if code = 0 then Signal \<in> set evs \<and> socket_path s \<notin> names (dm_world s)
           else code = 1 \<and> sun_path (socket_path s) \<in> names (dm_world s)))"

lemma start_of_quiet:
  assumes "quiet cp"
  shows "\<exists>cp'. cp_start cp = Inr (True, cp') \<and> cp_running cp' \<and> cp_capture cp' \<noteq> None \<and> cp_clip cp' \<noteq> None"
  using assms by (auto simp: quiet_def cp_start_def)

lemma stop_is_quiet:
  assumes "cp_running cp" and "cp_capture cp \<noteq> None" and "cp_clip cp \<noteq> None"
  shows "\<exists>cp'. cp_stop cp = Inr cp' \<and> quiet cp'"
  using assms by (auto simp: quiet_def cp_stop_def al_stop_def cx_stop_flag_def br_stop_flags_def)

lemma statement_inv:
  assumes os: "socket_names os names" and inv: "dm_inv names evs s"
  shows "\<exists>s'. run_statement os s = Inr s' \<and> dm_inv names (evs @ [Statement]) s' \<and> socket_path s' = socket_path s"
proof (cases "dm_pc s")
  case At_Socket
  obtain ok sv w where "server_start os (dm_server s) (dm_world s) = Inr (ok, sv, w)"
    "names w = insert (sun_path (socket_path s)) (names (dm_world s) - {socket_path s})"
    "sv_socket_path sv = socket_path s" "sv_server_fd sv = ok"
    using server_start_names [OF os, of "dm_server s" "dm_world s"] unfolding socket_path_def by blast
  then show ?thesis
    using inv At_Socket by (cases ok) (simp_all add: run_statement_def dm_inv_def socket_path_def)
next
  case At_Pipeline
  then have "quiet (dm_pipeline s)" using inv by (simp add: dm_inv_def)
  then obtain cp where "cp_start (dm_pipeline s) = Inr (True, cp)" "cp_running cp" "cp_capture cp \<noteq> None" "cp_clip cp \<noteq> None"
    using start_of_quiet by blast
  then show ?thesis using inv At_Pipeline by (simp add: run_statement_def dm_inv_def up_def socket_path_def)
next
  case At_Stop_Pipeline
  then have "up s" using inv by (simp add: dm_inv_def)
  then obtain cp where "cp_stop (dm_pipeline s) = Inr cp" "quiet cp" using stop_is_quiet unfolding up_def by blast
  then show ?thesis using inv At_Stop_Pipeline by (simp add: run_statement_def dm_inv_def socket_path_def)
next
  case At_Stop_Socket
  obtain sv w where st: "server_stop os (dm_server s) (dm_world s) = (sv, w)" by fastforce
  then have "names w = names (dm_world s) - {socket_path s}"
    using server_stop_names [OF os, of "dm_server s" "dm_world s"] by (simp add: socket_path_def)
  moreover have "\<not> sv_server_fd sv" "sv_socket_path sv = socket_path s"
    using st by (auto simp: socket_path_def server_stop_def)
  ultimately show ?thesis using inv At_Stop_Socket st by (simp add: run_statement_def dm_inv_def socket_path_def)
qed (use inv in \<open>auto simp: run_statement_def dm_inv_def up_def socket_path_def\<close>)

lemma signal_inv: "dm_inv names evs s \<Longrightarrow> dm_inv names (evs @ [Signal]) (dm_stop s) \<and> socket_path (dm_stop s) = socket_path s"
  by (auto simp: dm_inv_def dm_stop_def up_def socket_path_def split: run_pc.splits)

lemma run_inv:
  assumes os: "socket_names os names" and run: "daemon_run os s0 evs s" and inv: "dm_inv names [] s0"
  shows "dm_inv names evs s \<and> socket_path s = socket_path s0"
  using run
proof induction
  case start then show ?case using inv by simp
next
  case (statement evs s s')
  then show ?case using statement_inv [OF os, of evs s] by auto
next
  case (signal evs s)
  then show ?case using signal_inv [of names evs s] by simp
qed

lemma initialized_inv:
  assumes "dm_initialize env math config w = Inr (True, s0)"
  shows "dm_inv names [] s0 \<and> socket_path s0 = dc_socket_path config \<and> dm_pc s0 = At_Socket"
proof -
  obtain cp where cp: "cp_initialize env (cp_new math config) = Inr (True, cp)"
    "s0 = \<lparr>dm_pc = At_Socket, dm_running = False, dm_pipeline = cp,
       dm_server = server_new (dc_socket_path config), dm_world = w\<rparr>"
    using assms by (auto simp: dm_initialize_def obind_Inr_iff)
  from cp_initialize_quiet [OF cp(1)] cp(2) show ?thesis
    by (simp add: dm_inv_def socket_path_def server_new_def)
qed

lemma daemon_main_run:
  assumes "daemon_main env math stof files opts w = Inr (Run s0)"
  obtains config debug where "parse_args stof files opts = Inr (Run (config, debug))"
    and "dm_initialize env math config w = Inr (True, s0)"
proof -
  obtain r where r: "parse_args stof files opts = Inr r"
    using assms by (auto simp: daemon_main_def obind_Inr_iff)
  show ?thesis
  proof (cases r)
    case (Exit n)
    then show ?thesis using assms r by (simp add: daemon_main_def)
  next
    case (Run cd)
    obtain config debug where "cd = (config, debug)" by (cases cd)
    then show ?thesis using assms r Run that by (auto simp: daemon_main_def obind_Inr_iff split: if_splits)
  qed
qed


text \<open>A daemon on the concrete devices of Pipeline_Properties, brought to its waiting loop.\<close>

lemma demo_daemon:
  "\<exists>s0. dm_initialize demo_env demo_math demo_pipe_config ({} :: string set) = Inr (True, s0)"
  using demo_initialized by (auto simp: dm_initialize_def)

lemma demo_names: "socket_names demo_os (\<lambda>w. w)"
  by (simp add: socket_names_def demo_os_def)

lemma statements_run:
  assumes os: "socket_names os names" and inv: "dm_inv names [] s0"
  shows "\<exists>s. daemon_run os s0 (replicate n Statement) s"
proof (induction n)
  case 0 show ?case using daemon_run.start by auto
next
  case (Suc n)
  then obtain s where s: "daemon_run os s0 (replicate n Statement) s" by blast
  then obtain s' where "run_statement os s = Inr s'"
    using run_inv [OF os s inv] statement_inv [OF os] by blast
  from daemon_run.statement [OF s this] show ?case by (auto simp: replicate_append_same)
qed

lemma to_the_loop:
  assumes os: "socket_names os names" and s0: "dm_inv names [] s0" "dm_pc s0 = At_Socket"
    and free: "sun_path (socket_path s0) \<notin> names (dm_world s0) - {socket_path s0}"
  shows "\<exists>s. daemon_run os s0 [Statement, Statement, Statement] s \<and> dm_pc s = Looping"
proof -
  obtain sv w where "server_start os (dm_server s0) (dm_world s0) = Inr (True, sv, w)"
    using server_start_names [OF os, of "dm_server s0" "dm_world s0"] free by (auto simp: socket_path_def)
  then have 1: "run_statement os s0 = Inr (s0\<lparr>dm_server := sv, dm_world := w, dm_pc := At_Pipeline\<rparr>)"
    (is "_ = Inr ?s1") using s0(2) by (simp add: run_statement_def)
  have "quiet (dm_pipeline s0)" using s0 by (simp add: dm_inv_def)
  then obtain cp where "cp_start (dm_pipeline s0) = Inr (True, cp)" using start_of_quiet by blast
  then have 2: "run_statement os ?s1 = Inr (?s1\<lparr>dm_pipeline := cp, dm_pc := At_Running\<rparr>)" (is "_ = Inr ?s2")
    by (simp add: run_statement_def)
  have 3: "run_statement os ?s2 = Inr (?s2\<lparr>dm_running := True, dm_pc := Looping\<rparr>)" (is "_ = Inr ?s3")
    by (simp add: run_statement_def)
  have "daemon_run os s0 ((([] @ [Statement]) @ [Statement]) @ [Statement]) ?s3"
    by (rule daemon_run.statement [OF daemon_run.statement [OF daemon_run.statement [OF daemon_run.start 1] 2] 3])
  then show ?thesis by (intro exI [of _ ?s3]) simp
qed


text \<open>
  A signal during startup is lost. When one arrives before \<open>run()\<close> has set its flag, the flag is
  set all the same: as long as no second signal comes, the daemon never leaves its waiting loop.
\<close>

theorem early_signal_lost:
  assumes pc: "dm_pc s1 \<in> {At_Socket, At_Pipeline, At_Running}" and run: "daemon_run os (dm_stop s1) post s2"
    and none: "Signal \<notin> set post"
  shows "dm_pc s2 \<in> {At_Socket, At_Pipeline, At_Running, Returned 1} \<or> dm_pc s2 = Looping \<and> dm_running s2"
  using run none
proof induction
  case start then show ?case using pc by (auto simp: dm_stop_def)
next
  case (statement evs s s')
  then have "dm_pc s \<in> {At_Socket, At_Pipeline, At_Running, Returned 1} \<or> dm_pc s = Looping \<and> dm_running s"
    by simp
  then show ?case using statement.hyps(2)
    by (auto simp: run_statement_def obind_Inr_iff split: if_splits)
qed simp

theorem early_signal_lost_witness:
  "\<exists>s0. dm_initialize demo_env demo_math demo_pipe_config ({} :: string set) = Inr (True, s0) \<and>
     (\<forall>n. \<exists>s. daemon_run demo_os (dm_stop s0) (replicate n Statement) s \<and> dm_pc s \<noteq> Returned 0)"
proof -
  obtain s0 where s0: "dm_initialize demo_env demo_math demo_pipe_config ({} :: string set) = Inr (True, s0)"
    using demo_daemon by blast
  note inv = initialized_inv [OF s0, of "\<lambda>w. w"]
  then have at: "dm_pc s0 = At_Socket" by blast
  then have pc: "dm_pc s0 \<in> {At_Socket, At_Pipeline, At_Running}" by blast
  have inv': "dm_inv (\<lambda>w. w) [] (dm_stop s0)" using inv at by (simp add: dm_inv_def dm_stop_def)
  have "\<exists>s. daemon_run demo_os (dm_stop s0) (replicate n Statement) s \<and> dm_pc s \<noteq> Returned 0" for n
  proof -
    obtain s where s: "daemon_run demo_os (dm_stop s0) (replicate n Statement) s"
      using statements_run [OF demo_names inv'] by blast
    from early_signal_lost [OF pc s] s show ?thesis by auto
  qed
  with s0 show ?thesis by blast
qed

end
