(* ===== verification/Monitor.thy ===== *)
theory Monitor
  imports Status_Json Level_Meter
begin

text \<open>
  The terminal monitor (examples/audiod-mon.cpp): it reads the gain from the daemon's status,
  changes it with the keyboard over the control socket, and draws a level meter per channel from
  the shared memory segment. The daemon behind the socket is the parameter \<open>daemon\<close>, which
  answers one message; \<open>None\<close> is no reply.
\<close>

section \<open>Start\<close>

text \<open>The options \<open>getopt_long\<close> delivers; \<open>Exit\<close> is the status of the process.\<close>

fun mon_options :: "(char \<times> string) list \<Rightarrow> string \<times> string \<Rightarrow> (string \<times> string) program" where
  "mon_options [] st = Run st"
| "mon_options ((opt, arg) # opts) (shm_name, socket_path) =
     (if opt = CHR ''s'' then mon_options opts (arg, socket_path)
      else if opt = CHR ''S'' then mon_options opts (shm_name, arg)
      else Exit (if opt = CHR ''h'' then 0 else 1))"

definition mon_defaults :: "string \<times> string" where
  "mon_defaults = (''/ws_audiod_samples'', ''/run/ws-audiod/control.sock'')"

text \<open>\<open>send_command\<close>: the first 4095 bytes of the reply, up to a NUL.\<close>

type_synonym 's peer = "string \<Rightarrow> 's \<Rightarrow> (string option \<times> 's) outcome"

definition send_command :: "'s peer \<Rightarrow> string \<Rightarrow> 's \<Rightarrow> (string \<times> 's) outcome" where
  "send_command daemon cmd st =
     obind (daemon (cmd @ [CHR 0x0A]) st) (\<lambda>(reply, st').
       Inr (case reply of None \<Rightarrow> [] | Some r \<Rightarrow> takeWhile (\<lambda>c. c \<noteq> CHR 0x00) (take 4095 r), st'))"

text \<open>\<open>std::string::find\<close>: what follows the first occurrence.\<close>

fun text_after :: "string \<Rightarrow> string \<Rightarrow> string option" where
  "text_after pat [] = (if pat = [] then Some [] else None)"
| "text_after pat (c # cs) =
     (if take (length pat) (c # cs) = pat then Some (drop (length pat) (c # cs)) else text_after pat cs)"

record monitor =
  mn_running :: bool
  mn_gain_db :: rat
  mn_last_counter :: u64
  mn_peak_hold_db :: "rat list"

definition mon_start :: "math_lib \<Rightarrow> 's peer \<Rightarrow> stream_info \<Rightarrow> 's \<Rightarrow> (monitor \<times> 's) outcome" where
  "mon_start math daemon si st =
     obind (send_command daemon ''GET STATUS'' st) (\<lambda>(resp, st').
     obind (case text_after ''\"gain_db\":'' resp of None \<Rightarrow> Inr 0 | Some num \<Rightarrow> ml_stod math num) (\<lambda>gain.
     Inr (\<lparr>mn_running = True, mn_gain_db = gain, mn_last_counter = 0,
           mn_peak_hold_db = replicate (unat (si_channels si)) (- 96)\<rparr>, st')))"

section \<open>Keyboard\<close>

text \<open>
  One key press from the bytes that wait on the terminal: \<open>None\<close> quits, otherwise the step in
  decibel (0 for other keys). An escape takes two more bytes if they are there.
\<close>

definition read_key :: "string \<Rightarrow> int option \<times> string" where
  "read_key input =
     (case input of
        [] \<Rightarrow> (Some 0, [])
      | c # rest \<Rightarrow>
          if c = CHR ''q'' \<or> c = CHR ''Q'' then (None, rest)
          else if c = CHR ''+'' \<or> c = CHR ''='' then (Some 1, rest)
          else if c = CHR ''-'' \<or> c = CHR ''_'' then (Some (- 1), rest)
          else if c = CHR 0x1B then
            (case rest of
               a # b # rest' \<Rightarrow>
                 (Some (if a = CHR ''['' then (if b = CHR ''A'' then 1 else if b = CHR ''B'' then - 1 else 0) else 0), rest')
             | _ \<Rightarrow> (Some 0, []))
          else (Some 0, rest))"

definition mon_keyboard ::
  "number_text \<Rightarrow> 's peer \<Rightarrow> string \<Rightarrow> monitor \<Rightarrow> 's \<Rightarrow> (string \<times> monitor \<times> 's) outcome" where
  "mon_keyboard nt daemon input mon st =
     (case read_key input of
        (None, rest) \<Rightarrow> Inr (rest, mon\<lparr>mn_running := False\<rparr>, st)
      | (Some step, rest) \<Rightarrow>
          if step = 0 then Inr (rest, mon, st)
          else let gain = fl64 (mn_gain_db mon + of_int step)
               in obind (send_command daemon (''SET gain_db '' @ nt_double nt gain) st) (\<lambda>(resp, st').
                  Inr (rest, mon\<lparr>mn_gain_db := gain\<rparr>, st')))"

section \<open>Meter\<close>

definition mon_ref :: "u16 \<Rightarrow> rat" where
  "mon_ref bits = (if bits = 32 then 2147483648 else if bits = 24 then 8388608 else 32768)"

definition mon_value :: "u16 \<Rightarrow> u8 list \<Rightarrow> int" where
  "mon_value bits p =
     (if bits = 16 then sint (i16_load p) else if bits = 24 then sint (s24_load p)
      else if bits = 32 then sint (i32_load p) else 0)"

text \<open>Peak and sum of squares of a channel; a sample converts to \<open>double\<close> exactly.\<close>

definition mon_channel :: "stream_info \<Rightarrow> u8 list \<Rightarrow> nat \<Rightarrow> (rat \<times> rat) outcome" where
  "mon_channel si seg ch =
     (let bits = si_bits si; w = unat bits div 8 in
      for_each (\<lambda>f (peak, sum_sq).
          obind (if supported_bits bits
                 then load_range seg (64 + (f * unat (si_channels si) + ch) * w) w else Inr []) (\<lambda>p.
          let s = of_int (mon_value bits p) :: rat
          in Inr (if peak < \<bar>s\<bar> then \<bar>s\<bar> else peak, fl64 (sum_sq + fl64 (s * s)))))
        [0..<unat (si_period_frames si)] (0, 0))"

definition amplitude_to_db :: "number_text \<Rightarrow> rat \<Rightarrow> rat \<Rightarrow> rat" where
  "amplitude_to_db nt amp ref = (if amp \<le> 0 then - 96 else fl64 (20 * nt_log10 nt (fl64 (amp / ref))))"

definition peak_hold :: "rat \<Rightarrow> rat \<Rightarrow> rat" where
  "peak_hold peak_db hold =
     (if hold < peak_db then peak_db
      else let h = fl64 (hold - fl64 (1 / 5)) in if h < - 96 then - 96 else h)"

definition bar_pos :: "rat \<Rightarrow> nat outcome" where
  "bar_pos v =
     obind (float_to_int 32 (fl64 (fl64 (fl64 (v + 60) * 50) / 60))) (\<lambda>i. Inr (nat (clamp i 0 50)))"

definition bar_char :: "nat \<Rightarrow> nat \<Rightarrow> nat \<Rightarrow> char" where
  "bar_char rms_pos peak_pos i =
     (if i = peak_pos then CHR ''|'' else if i < rms_pos then CHR ''#'' else CHR '' '')"

definition draw_bar :: "number_text \<Rightarrow> rat \<Rightarrow> rat \<Rightarrow> string \<Rightarrow> string outcome" where
  "draw_bar nt db peak_db label =
     obind (bar_pos db) (\<lambda>rms_pos.
     obind (bar_pos peak_db) (\<lambda>peak_pos.
     Inr (label @ '' ['' @ map (bar_char rms_pos peak_pos) [0..<50] @ ''] '' @
          nt_fixed nt 6 db @ '' dB  pk '' @ nt_fixed nt 6 peak_db @ '' dB'')))"

text \<open>The cursor moves to a line and clears it; four lines of header come first.\<close>

definition at_line :: "nat \<Rightarrow> string" where
  "at_line n = CHR 0x1B # ''['' @ dec n @ '';1H'' @ CHR 0x1B # ''[K''"

text \<open>
  One channel. For a period without frames the mean is not a number, and the bar position a cast
  the \<open>int\<close> cannot hold.
\<close>

definition mon_draw_channel ::
  "math_lib \<Rightarrow> number_text \<Rightarrow> stream_info \<Rightarrow> u8 list \<Rightarrow> nat \<Rightarrow> rat list \<times> string \<Rightarrow> (rat list \<times> string) outcome" where
  "mon_draw_channel math nt si seg ch st =
     (let (holds, out) = st; frames = unat (si_period_frames si); ref = mon_ref (si_bits si) in
      obind (mon_channel si seg ch) (\<lambda>(peak, sum_sq).
        if frames = 0 then Inl Float_Cast
        else let rms_db = amplitude_to_db nt (ml_sqrt math (fl64 (sum_sq / of_nat frames))) ref;
                 hold = peak_hold (amplitude_to_db nt peak ref) (holds ! ch)
             in obind (draw_bar nt rms_db hold (''CH'' @ dec ch @ '' '')) (\<lambda>line.
                Inr (holds[ch := hold], out @ at_line (5 + ch) @ line))))"

text \<open>One turn of the main loop over the segment as it is, with the text it prints.\<close>

definition mon_turn ::
  "math_lib \<Rightarrow> number_text \<Rightarrow> 's peer \<Rightarrow> stream_info \<Rightarrow> u8 list \<Rightarrow> string \<Rightarrow> monitor \<Rightarrow> 's \<Rightarrow>
   (string \<times> string \<times> monitor \<times> 's) outcome" where
  "mon_turn math nt daemon si seg input mon st =
     obind (mon_keyboard nt daemon input mon st) (\<lambda>(input', mon1, st').
       if \<not> mn_running mon1 then Inr ([], input', mon1, st')
       else obind (shm_poll seg (mn_last_counter mon1)) (\<lambda>(changed, counter).
            if \<not> changed then Inr ([], input', mon1, st')
            else obind (for_each (mon_draw_channel math nt si seg) [0..<unat (si_channels si)]
                          (mn_peak_hold_db mon1, [])) (\<lambda>(holds, out).
                 Inr (out @ at_line (6 + unat (si_channels si)) @ ''  Gain: '' @
                        nt_fixed nt 0 (mn_gain_db mon1) @ '' dB'',
                      input', mon1\<lparr>mn_last_counter := counter, mn_peak_hold_db := holds\<rparr>, st'))))"

end
