(* ===== verification/Monitor_Meter.thy ===== *)
theory Monitor_Meter
  imports Monitor
begin

text \<open>
  The meter of the monitor: what it reads from a published period, the levels it derives, the
  decaying peak hold and the bar. \<open>meter_math\<close> states what is used of \<open>std::sqrt\<close> and
  \<open>std::log10\<close>; everything else is rounded as \<open>double\<close>.
\<close>

section \<open>Exact powers of two\<close>

lemma round_bin_powi:
  assumes "emin \<le> k" and "0 < p"
  shows "round_bin p emin (2 powi k) = 2 powi k"
proof -
  let ?u = "ulp_exp p (2 powi k :: rat)"
  have "2 powi (?u + int p - 1) \<le> (2 powi k :: rat)" by (rule ulp_exp_bounds(1)) simp
  then have "\<not> (2::rat) powi k < 2 powi (?u + int p - 1)" by simp
  then have "?u + int p - 1 \<le> k" unfolding powi_less_iff by simp
  then have "max emin ?u \<le> k" using assms by simp
  from round_at_powi [OF this] show ?thesis by (simp add: round_bin_pos)
qed

lemma fl64_fraction:
  assumes "j \<le> 1074"
  shows "fl64 (1 / 2 ^ j) = 1 / 2 ^ j"
proof -
  have "(1 / 2 ^ j :: rat) = 2 powi (- int j)" by (simp add: power_int_minus inverse_eq_divide)
  with round_bin_powi [of "-1074" "- int j" 53] assms show ?thesis by (simp add: fl64_def)
qed

lemma fl64_scaled: "\<bar>m\<bar> < 2 ^ 53 \<Longrightarrow> fl64 (of_int m * 2 ^ j) = of_int m * 2 ^ j"
  unfolding fl64_def by (rule round_bin_exact) simp_all

section \<open>The samples of a channel\<close>

definition ref_bits :: "u16 \<Rightarrow> nat" where
  "ref_bits bits = (if bits = 32 then 31 else if bits = 24 then 23 else 15)"

text \<open>The samples of channel \<open>ch\<close> among the interleaved samples of a period.\<close>

definition channel_ints :: "stream_info \<Rightarrow> u8 list \<Rightarrow> nat \<Rightarrow> int list" where
  "channel_ints si data ch =
     map (\<lambda>f. sample_ints (si_bits si) (unat (si_period_frames si) * unat (si_channels si)) data !
            (f * unat (si_channels si) + ch)) [0..<unat (si_period_frames si)]"

lemma length_channel_ints [simp]: "length (channel_ints si data ch) = unat (si_period_frames si)"
  by (simp add: channel_ints_def)

lemma mon_ref_pow: "mon_ref bits = 2 ^ ref_bits bits"
  by (simp add: mon_ref_def ref_bits_def)

lemma interleaved_index: "f < n \<Longrightarrow> c < C \<Longrightarrow> f * C + c < n * (C :: nat)"
proof -
  assume "f < n" and "c < C"
  then have "f * C + c < Suc f * C" by simp
  also have "\<dots> \<le> n * C" using \<open>f < n\<close> by (intro mult_right_mono) simp_all
  finally show ?thesis .
qed

lemma mon_value_sample:
  assumes bits: "supported_bits bits" and "i < n"
  shows "mon_value bits (frame_at (unat bits div 8) data i) = sample_ints bits n data ! i"
    and "\<bar>sample_ints bits n data ! i\<bar> \<le> 2 ^ ref_bits bits"
proof -
  have "mon_value bits (frame_at (unat bits div 8) data i) = sample_ints bits n data ! i \<and>
    \<bar>sample_ints bits n data ! i\<bar> \<le> 2 ^ ref_bits bits"
    using bits
  proof (cases rule: supported_bits_cases)
    case 1
    then show ?thesis using assms(2) f16.dec_bounds [of "frame_at 2 data i"]
      by (simp add: mon_value_def sample_ints_def f16.nth_ints ref_bits_def abs_le_iff)
  next
    case 2
    then show ?thesis using assms(2) f24.dec_bounds [of "frame_at 3 data i"]
      by (simp add: mon_value_def sample_ints_def f24.nth_ints ref_bits_def abs_le_iff)
  next
    case 3
    then show ?thesis using assms(2) f32.dec_bounds [of "frame_at 4 data i"]
      by (simp add: mon_value_def sample_ints_def f32.nth_ints ref_bits_def abs_le_iff)
  qed
  then show "mon_value bits (frame_at (unat bits div 8) data i) = sample_ints bits n data ! i"
    "\<bar>sample_ints bits n data ! i\<bar> \<le> 2 ^ ref_bits bits" by auto
qed

section \<open>Peak and sum of squares\<close>

text \<open>What the accumulators hold after the samples \<open>xs\<close>, each at most \<open>2 ^ b\<close>.\<close>

definition meter_state :: "nat \<Rightarrow> bool \<Rightarrow> int list \<Rightarrow> rat \<times> rat \<Rightarrow> bool" where
  "meter_state b exact xs r \<longleftrightarrow>
     fst r = of_int (peak_of xs) \<and> snd r \<le> of_int (int (length xs)) * 2 ^ (2 * b) \<and>
     (if peak_of xs = 0 then snd r = 0 else 1 \<le> snd r) \<and> (exact \<longrightarrow> snd r = of_int (square_sum xs))"

lemma peak_zero: "peak_of xs = 0 \<longleftrightarrow> (\<forall>s \<in> set xs. s = 0)"
  using peak_of_bounds(1) [of _ xs] peak_of_bounds(2) [of xs] peak_of_bounds(3) [of 0 xs] by fastforce

lemma meter_state_step:
  assumes st: "meter_state b exact xs (peak, acc)" and s: "\<bar>s\<bar> \<le> 2 ^ b" and b: "b \<le> 31"
    and len: "length xs < 2 ^ 32" and xs: "\<And>s. s \<in> set xs \<Longrightarrow> \<bar>s\<bar> \<le> 2 ^ b"
    and ex: "exact \<Longrightarrow> int (Suc (length xs)) * 2 ^ (2 * b) < 2 ^ 53"
  shows "meter_state b exact (xs @ [s])
    (if peak < \<bar>of_int s\<bar> then \<bar>of_int s\<bar> else peak, fl64 (acc + fl64 (of_int s * of_int s)))"
proof -
  let ?sq = "fl64 (of_int s * of_int s)" and ?sum = "fl64 (acc + fl64 (of_int s * of_int s))"
  have ss: "of_int s * of_int s = (of_int (s * s) :: rat)" by simp
  have sq_le: "s * s \<le> 2 ^ (2 * b)" by (rule square_bound [OF s])
  have "of_int (s * s) \<le> (2 :: rat) ^ (2 * b)"
    using sq_le of_int_le_iff [of "s * s" "2 ^ (2 * b)", where 'a = rat] by simp
  then have hi: "?sq \<le> 2 ^ (2 * b)" unfolding ss by (rule dbl.fl_le) (rule dbl.fl_pow2)
  have nz: "1 \<le> ?sq" if "s \<noteq> 0"
  proof -
    have "0 < s * s" using that by (auto simp: zero_less_mult_iff)
    then have "1 \<le> s * s" by simp
    then have "(1::rat) \<le> of_int (s * s)" using of_int_le_iff [of 1 "s * s", where 'a = rat] by simp
    then show ?thesis unfolding ss by (rule dbl.fl_ge) (rule dbl.fl_one)
  qed
  have z: "?sq = 0" if "s = 0" using that dbl.fl_zero by simp
  have zsum: "0 \<le> acc" using st by (auto simp: meter_state_def split: if_splits)
  have "acc + ?sq \<le> of_int (int (Suc (length xs))) * 2 ^ (2 * b)"
    using st hi by (simp add: meter_state_def algebra_simps)
  moreover have "\<bar>int (Suc (length xs))\<bar> < 2 ^ 53" using len by simp
  from fl64_scaled [OF this] have "fl64 (of_int (int (Suc (length xs))) * 2 ^ (2 * b)) =
      of_int (int (Suc (length xs))) * 2 ^ (2 * b)" .
  ultimately have le: "?sum \<le> of_int (int (Suc (length xs))) * 2 ^ (2 * b)" by (rule dbl.fl_le)
  have low: "if peak_of (xs @ [s]) = 0 then ?sum = 0 else 1 \<le> ?sum"
  proof (cases "peak_of (xs @ [s]) = 0")
    case True
    then have "\<forall>x \<in> set (xs @ [s]). x = 0" by (simp only: peak_zero)
    then have "peak_of xs = 0" "s = 0" by (simp_all add: peak_zero)
    then show ?thesis using st z dbl.fl_zero by (simp add: meter_state_def)
  next
    case False
    then have "\<not> (\<forall>x \<in> set (xs @ [s]). x = 0)" by (simp only: peak_zero) simp
    then have "peak_of xs \<noteq> 0 \<or> s \<noteq> 0" by (auto simp: peak_zero)
    then have "1 \<le> acc + ?sq"
      using st nz z zsum by (cases "s = 0") (auto simp: meter_state_def split: if_splits)
    then have "1 \<le> ?sum" by (rule dbl.fl_ge) (rule dbl.fl_one)
    then show ?thesis using False by simp
  qed
  have "?sum = of_int (square_sum (xs @ [s]))" if exact
  proof -
    have S: "0 \<le> square_sum xs" "square_sum xs \<le> int (length xs) * 2 ^ (2 * b)"
      using square_sum_bound [of xs b] xs by auto
    have "0 \<le> s * s" by simp
    moreover have "int (Suc (length xs)) * 2 ^ (2 * b) = int (length xs) * 2 ^ (2 * b) + 2 ^ (2 * b)"
      by (simp add: algebra_simps)
    ultimately have "\<bar>s * s\<bar> < 2 ^ 53" "\<bar>square_sum xs + s * s\<bar> < 2 ^ 53" using S sq_le ex [OF that] by linarith+
    from fl64_int [OF this(1)] fl64_int [OF this(2)] st that show ?thesis by (simp add: meter_state_def)
  qed
  moreover have "(if peak < \<bar>of_int s\<bar> then \<bar>of_int s\<bar> else peak) = of_int (peak_of (xs @ [s]))"
    using st by (auto simp: meter_state_def max_def simp flip: of_int_abs)
  ultimately show ?thesis using le low unfolding meter_state_def fst_conv snd_conv by simp
qed

lemma period_load:
  assumes data: "shm_samples si seg = Inr data" and k: "k < unat (si_period_frames si) * unat (si_channels si)"
  shows "load_range seg (64 + k * (unat (si_bits si) div 8)) (unat (si_bits si) div 8) =
    Inr (frame_at (unat (si_bits si) div 8) data k)"
proof -
  let ?w = "unat (si_bits si) div 8" and ?n = "unat (si_period_frames si) * unat (si_channels si)"
  have d: "64 + ?n * ?w \<le> length seg" "data = take (?n * ?w) (drop 64 seg)"
    using data by (simp_all add: shm_samples_def shm_header_size_def load_range_def split: if_splits)
  have "k * ?w + ?w \<le> ?n * ?w" using k by (rule frame_fits)
  then show ?thesis
    using d k by (simp add: load_range_def frame_at_def drop_take min_def add.commute)
qed

lemma mon_channel_ok:
  assumes bits: "supported_bits (si_bits si)" and data: "shm_samples si seg = Inr data"
    and ch: "ch < unat (si_channels si)"
  shows "\<exists>r. mon_channel si seg ch = Inr r \<and>
    meter_state (ref_bits (si_bits si)) (int (unat (si_period_frames si)) * 2 ^ (2 * ref_bits (si_bits si)) < 2 ^ 53)
      (channel_ints si data ch) r"
proof -
  let ?n = "unat (si_period_frames si)" and ?C = "unat (si_channels si)" and ?xs = "channel_ints si data ch"
    and ?b = "ref_bits (si_bits si)"
  let ?ex = "int ?n * 2 ^ (2 * ?b) < 2 ^ 53"
  have x: "?xs ! f = mon_value (si_bits si) (frame_at (unat (si_bits si) div 8) data (f * ?C + ch))"
    and small: "\<bar>?xs ! f\<bar> \<le> 2 ^ ?b" if "f < ?n" for f
    using mon_value_sample [OF bits interleaved_index [OF that ch]] that
    by (simp_all add: channel_ints_def)
  have b: "?b \<le> 31" by (simp add: ref_bits_def)
  have "\<exists>r. mon_channel si seg ch = Inr r \<and> meter_state ?b ?ex (take ?n ?xs) r"
    unfolding mon_channel_def Let_def
  proof (rule for_each_upto [where P = "\<lambda>i. meter_state ?b ?ex (take i ?xs)"], goal_cases)
    case 1
    show ?case by (simp add: meter_state_def)
  next
    case (2 i r)
    obtain peak acc where r: "r = (peak, acc)" by (cases r)
    have load: "load_range seg (64 + (i * ?C + ch) * (unat (si_bits si) div 8)) (unat (si_bits si) div 8) =
        Inr (frame_at (unat (si_bits si) div 8) data (i * ?C + ch))"
      by (rule period_load [OF data interleaved_index [OF 2(1) ch]])
    have next': "take (Suc i) ?xs = take i ?xs @ [?xs ! i]" using 2(1) by (simp add: take_Suc_conv_app_nth)
    have l: "length (take i ?xs) = i" using 2(1) by simp
    have all: "\<bar>s\<bar> \<le> 2 ^ ?b" if "s \<in> set (take i ?xs)" for s
      using that small by (auto simp: in_set_conv_nth)
    have "?n < 2 ^ 32" by (rule unat_lt_32)
    then have short: "length (take i ?xs) < 2 ^ 32" using 2(1) l by linarith
    have "int (Suc i) \<le> int ?n" using 2(1) by (simp only: of_nat_le_iff Suc_le_eq)
    then have le: "int (Suc i) * 2 ^ (2 * ?b) \<le> int ?n * 2 ^ (2 * ?b)" by (rule mult_right_mono) simp
    have exact: "int (Suc (length (take i ?xs))) * 2 ^ (2 * ?b) < 2 ^ 53" if e: ?ex
      unfolding l by (rule le_less_trans [OF le e])
    let ?s = "of_int (?xs ! i) :: rat"
    have step: "meter_state ?b ?ex (take i ?xs @ [?xs ! i])
        (if peak < \<bar>?s\<bar> then \<bar>?s\<bar> else peak, fl64 (acc + fl64 (?s * ?s)))"
      by (rule meter_state_step [OF 2(2) [unfolded r] small [OF 2(1)] b short all exact])
    show ?case
      by (rule exI, rule conjI [OF _ step [folded next']])
        (simp add: r load bits x [OF 2(1)] cong: if_cong split del: if_split)
  qed
  then show ?thesis by simp
qed

section \<open>Decibel\<close>

definition meter_math :: "math_lib \<Rightarrow> number_text \<Rightarrow> bool" where
  "meter_math math nt \<longleftrightarrow>
     ml_sqrt math 0 = 0 \<and>
     (\<forall>x j. 0 \<le> x \<and> x \<le> 2 ^ (2 * j) \<longrightarrow> ml_sqrt math x \<le> 2 ^ j) \<and>
     (\<forall>x j. 1 / 2 ^ (2 * j) \<le> x \<longrightarrow> 1 / 2 ^ j \<le> ml_sqrt math x) \<and>
     (\<forall>x. 1 / 2 ^ 60 \<le> x \<and> x \<le> 1 \<longrightarrow> - 20 \<le> nt_log10 nt x \<and> nt_log10 nt x \<le> 0)"

lemma fl64_dyadic_le: "x \<le> 1 / 2 ^ j \<Longrightarrow> j \<le> 1074 \<Longrightarrow> fl64 x \<le> 1 / 2 ^ j"
  by (rule dbl.fl_le) (simp_all add: fl64_fraction)

lemma fl64_dyadic_ge: "1 / 2 ^ j \<le> x \<Longrightarrow> j \<le> 1074 \<Longrightarrow> 1 / 2 ^ j \<le> fl64 x"
  by (rule dbl.fl_ge) (simp_all add: fl64_fraction)

text \<open>An amplitude is nothing, or at least \<open>2 ^ -16\<close> and at most full scale.\<close>

lemma decibel_range:
  assumes math: "meter_math math nt" and amp: "amp = 0 \<or> 1 / 2 ^ 16 \<le> amp \<and> amp \<le> 2 ^ b" and b: "b \<le> 31"
  shows "- 400 \<le> amplitude_to_db nt amp (2 ^ b)" and "amplitude_to_db nt amp (2 ^ b) \<le> 0"
proof -
  have "- 400 \<le> amplitude_to_db nt amp (2 ^ b) \<and> amplitude_to_db nt amp (2 ^ b) \<le> 0"
  proof (cases "amp = 0")
    case False
    then have a: "1 / 2 ^ 16 \<le> amp" "amp \<le> 2 ^ b" using amp by auto
    have "(2::rat) ^ b \<le> 2 ^ 31" using b by (intro power_increasing) simp_all
    moreover have pos: "(0::rat) < 2 ^ b" by simp
    ultimately have "1 / 2 ^ 60 * (2::rat) ^ b \<le> 1 / 2 ^ 16"
      by (intro order_trans [OF mult_left_mono [of "2 ^ b" "2 ^ 31"]]) simp_all
    then have "1 / 2 ^ 60 \<le> amp / 2 ^ b" using a(1) pos by (simp add: pos_le_divide_eq)
    then have lo: "1 / 2 ^ 60 \<le> fl64 (amp / 2 ^ b)" by (rule fl64_dyadic_ge) simp
    have "amp / 2 ^ b \<le> 1" using a(2) pos by (simp add: pos_divide_le_eq)
    then have hi: "fl64 (amp / 2 ^ b) \<le> 1" by (rule dbl.fl_le) (rule dbl.fl_one)
    have l: "- 20 \<le> nt_log10 nt (fl64 (amp / 2 ^ b))" "nt_log10 nt (fl64 (amp / 2 ^ b)) \<le> 0"
      using math lo hi by (simp_all add: meter_math_def)
    have "fl64 (- 400) = - 400" using fl64_int [of "- 400"] by simp
    then have "- 400 \<le> fl64 (20 * nt_log10 nt (fl64 (amp / 2 ^ b)))" using l(1) by (intro dbl.fl_ge) simp_all
    moreover have "fl64 (20 * nt_log10 nt (fl64 (amp / 2 ^ b))) \<le> 0"
      using l(2) by (intro dbl.fl_le) (simp_all add: dbl.fl_zero)
    moreover have "\<not> amp \<le> 0" using a(1) by (intro notI) (drule order_trans, assumption, simp)
    ultimately show ?thesis by (simp add: amplitude_to_db_def)
  qed (simp add: amplitude_to_db_def)
  then show "- 400 \<le> amplitude_to_db nt amp (2 ^ b)" "amplitude_to_db nt amp (2 ^ b) \<le> 0" by auto
qed

section \<open>Levels of a channel\<close>

definition peak_db :: "number_text \<Rightarrow> stream_info \<Rightarrow> u8 list \<Rightarrow> nat \<Rightarrow> rat" where
  "peak_db nt si data ch =
     amplitude_to_db nt (of_int (peak_of (channel_ints si data ch))) (mon_ref (si_bits si))"

definition rms_db :: "math_lib \<Rightarrow> number_text \<Rightarrow> stream_info \<Rightarrow> rat \<Rightarrow> rat" where
  "rms_db math nt si acc =
     amplitude_to_db nt (ml_sqrt math (fl64 (acc / of_nat (unat (si_period_frames si))))) (mon_ref (si_bits si))"

text \<open>The accumulated sum of squares of a channel.\<close>

definition channel_acc :: "stream_info \<Rightarrow> u8 list \<Rightarrow> nat \<Rightarrow> rat" where
  "channel_acc si seg ch = (case mon_channel si seg ch of Inl _ \<Rightarrow> 0 | Inr r \<Rightarrow> snd r)"

lemma channel_bound:
  assumes bits: "supported_bits (si_bits si)" and ch: "ch < unat (si_channels si)"
  shows "peak_of (channel_ints si data ch) \<le> 2 ^ ref_bits (si_bits si)"
  using mon_value_sample(2) [OF bits interleaved_index [OF _ ch]]
  by (intro peak_of_bounds(3)) (auto simp: channel_ints_def)

lemma channel_levels:
  assumes math: "meter_math math nt" and bits: "supported_bits (si_bits si)"
    and data: "shm_samples si seg = Inr data" and ch: "ch < unat (si_channels si)"
    and frames: "si_period_frames si \<noteq> 0"
  shows "mon_channel si seg ch = Inr (of_int (peak_of (channel_ints si data ch)), channel_acc si seg ch)"
    and "- 400 \<le> peak_db nt si data ch \<and> peak_db nt si data ch \<le> 0"
    and "- 400 \<le> rms_db math nt si (channel_acc si seg ch) \<and> rms_db math nt si (channel_acc si seg ch) \<le> 0"
    and "int (unat (si_period_frames si)) * 2 ^ (2 * ref_bits (si_bits si)) < 2 ^ 53 \<Longrightarrow>
      channel_acc si seg ch = of_int (square_sum (channel_ints si data ch))"
proof -
  let ?n = "unat (si_period_frames si)" and ?b = "ref_bits (si_bits si)" and ?xs = "channel_ints si data ch"
  let ?acc = "channel_acc si seg ch"
  have b: "?b \<le> 31" by (simp add: ref_bits_def)
  obtain r where r: "mon_channel si seg ch = Inr r"
    "meter_state ?b (int ?n * 2 ^ (2 * ?b) < 2 ^ 53) ?xs r"
    using mon_channel_ok [OF bits data ch] by blast
  then have acc: "snd r = ?acc" by (simp add: channel_acc_def)
  have st: "fst r = of_int (peak_of ?xs)" "?acc \<le> of_nat ?n * 2 ^ (2 * ?b)"
    "if peak_of ?xs = 0 then ?acc = 0 else 1 \<le> ?acc"
    "int ?n * 2 ^ (2 * ?b) < 2 ^ 53 \<Longrightarrow> ?acc = of_int (square_sum ?xs)"
    using r(2) unfolding meter_state_def acc by simp_all
  show "mon_channel si seg ch = Inr (of_int (peak_of ?xs), ?acc)"
    using r(1) st(1) acc by (metis prod.collapse)
  show "int ?n * 2 ^ (2 * ?b) < 2 ^ 53 \<Longrightarrow> ?acc = of_int (square_sum ?xs)" by (rule st(4))
  have "0 < ?n" using frames by (simp add: unat_gt_0)
  then have pos: "0 < (of_nat ?n :: rat)" by (simp only: of_nat_0_less_iff)
  have n: "0 < (of_nat ?n :: rat)" "(of_nat ?n :: rat) \<le> 2 ^ 32"
    using pos unat_lt_32 [of "si_period_frames si"] of_nat_le_iff [of ?n "2 ^ 32", where 'a = rat] by simp_all
  have P: "of_int (peak_of ?xs) = (0::rat) \<or> 1 / 2 ^ 16 \<le> (of_int (peak_of ?xs) :: rat) \<and> (of_int (peak_of ?xs) :: rat) \<le> 2 ^ ?b"
  proof (cases "peak_of ?xs = 0")
    case False
    then have "1 \<le> peak_of ?xs" using peak_of_bounds(2) [of ?xs] by linarith
    then have "(1::rat) \<le> of_int (peak_of ?xs)" using of_int_le_iff [of 1 "peak_of ?xs", where 'a = rat] by simp
    moreover have "(1::rat) / 2 ^ 16 \<le> 1" by simp
    moreover have "(of_int (peak_of ?xs) :: rat) \<le> 2 ^ ?b"
      using channel_bound [OF bits ch, of data] of_int_le_iff [of "peak_of ?xs" "2 ^ ?b", where 'a = rat] by simp
    ultimately show ?thesis by linarith
  qed simp
  from decibel_range [OF math P b] show "- 400 \<le> peak_db nt si data ch \<and> peak_db nt si data ch \<le> 0"
    by (simp add: peak_db_def mon_ref_pow)
  let ?m = "fl64 (?acc / of_nat ?n)"
  have R: "ml_sqrt math ?m = 0 \<or> 1 / 2 ^ 16 \<le> ml_sqrt math ?m \<and> ml_sqrt math ?m \<le> 2 ^ ?b"
  proof (cases "peak_of ?xs = 0")
    case True
    then show ?thesis using st(3) math by (simp add: meter_math_def dbl.fl_zero)
  next
    case False
    then have one: "1 \<le> ?acc" using st(3) by simp
    have "1 / 2 ^ (2 * 16) \<le> 1 / (of_nat ?n :: rat)" using n by (intro divide_left_mono) simp_all
    also have "\<dots> \<le> ?acc / of_nat ?n" using one n(1) by (intro divide_right_mono) simp_all
    finally have lo: "1 / 2 ^ (2 * 16) \<le> ?m" by (rule fl64_dyadic_ge) simp
    have "?acc / of_nat ?n \<le> 2 ^ (2 * ?b)" using st(2) n(1) by (simp add: pos_divide_le_eq mult.commute)
    then have hi: "?m \<le> 2 ^ (2 * ?b)" by (rule dbl.fl_le) (rule dbl.fl_pow2)
    have "0 \<le> ?m" by (rule order_trans [OF _ lo]) simp
    then show ?thesis using math lo hi unfolding meter_math_def by blast
  qed
  from decibel_range [OF math R b] show "- 400 \<le> rms_db math nt si ?acc \<and> rms_db math nt si ?acc \<le> 0"
    by (simp add: rms_db_def mon_ref_pow)
qed

section \<open>Peak hold and bar\<close>

lemma decay_bounds: "1 / 8 \<le> fl64 (1 / 5)" "fl64 (1 / 5) \<le> 1 / 4"
  using fl64_dyadic_ge [of 3 "1 / 5"] fl64_dyadic_le [of "1 / 5" 2] by simp_all

lemma peak_hold_bounds:
  assumes "- 96 \<le> hold" and "hold \<le> 0" and "pk \<le> 0"
  shows "- 96 \<le> peak_hold pk hold" and "peak_hold pk hold \<le> 0" and "pk \<le> peak_hold pk hold + 1 / 2"
proof -
  let ?d = "fl64 (1 / 5)" and ?h = "fl64 (hold - fl64 (1 / 5))"
  have le: "?h \<le> 0" using assms(2) decay_bounds by (intro dbl.fl_le) (simp_all add: dbl.fl_zero)
  have "\<bar>?h - (hold - ?d)\<bar> \<le> \<bar>hold - ?d\<bar> / 2 ^ 24 + 1 / 2 ^ 25" by (rule dbl.fl_err_rel)
  moreover have "\<bar>hold - ?d\<bar> \<le> 128" using assms(1,2) decay_bounds by linarith
  then have "\<bar>hold - ?d\<bar> / 2 ^ 24 \<le> 128 / 2 ^ 24" by (rule divide_right_mono) simp
  moreover have "(128::rat) / 2 ^ 24 + 1 / 2 ^ 25 \<le> 1 / 8" by simp
  ultimately have "\<bar>?h - (hold - ?d)\<bar> \<le> 1 / 8" by linarith
  then have near: "hold - 1 / 2 \<le> ?h" using decay_bounds by linarith
  show "- 96 \<le> peak_hold pk hold" "peak_hold pk hold \<le> 0" "pk \<le> peak_hold pk hold + 1 / 2"
    using assms le near by (auto simp: peak_hold_def Let_def)
qed

definition bar_len :: "rat \<Rightarrow> nat" where
  "bar_len v = nat (clamp (trunc_rat (fl64 (fl64 (fl64 (v + 60) * 50) / 60))) 0 50)"

definition bar :: "nat \<Rightarrow> nat \<Rightarrow> string" where
  "bar rms_pos peak_pos = map (bar_char rms_pos peak_pos) [0..<50]"

lemma bar_pos_ok:
  assumes "- 400 \<le> v" and "v \<le> 0"
  shows "bar_pos v = Inr (bar_len v)"
proof -
  have "\<bar>v + 60\<bar> \<le> 2 ^ 9" using assms by simp
  then have "\<bar>fl64 (v + 60)\<bar> \<le> 2 ^ 9" by (rule dbl.fl_bound)
  then have "\<bar>fl64 (v + 60) * 50\<bar> \<le> 2 ^ 15" by (simp add: abs_mult)
  then have "\<bar>fl64 (fl64 (v + 60) * 50)\<bar> \<le> 2 ^ 15" by (rule dbl.fl_bound)
  then have "\<bar>fl64 (fl64 (v + 60) * 50) / 60\<bar> \<le> 2 ^ 15" by (simp add: abs_divide)
  then have "\<bar>fl64 (fl64 (fl64 (v + 60) * 50) / 60)\<bar> \<le> 2 ^ 15" by (rule dbl.fl_bound)
  then have "- (2 ^ 15) \<le> fl64 (fl64 (fl64 (v + 60) * 50) / 60)" "fl64 (fl64 (fl64 (v + 60) * 50) / 60) \<le> 2 ^ 15"
    by (simp_all add: abs_le_iff)
  then have "trunc_rat (- (2 ^ 15)) \<le> trunc_rat (fl64 (fl64 (fl64 (v + 60) * 50) / 60))"
    "trunc_rat (fl64 (fl64 (fl64 (v + 60) * 50) / 60)) \<le> trunc_rat (2 ^ 15)"
    by (simp_all only: trunc_rat_mono)
  moreover have "trunc_rat (- (2 ^ 15)) = - (2 ^ 15)" "trunc_rat (2 ^ 15) = 2 ^ 15"
    using trunc_rat_of_int [of "- (2 ^ 15)"] trunc_rat_of_int [of "2 ^ 15"] by simp_all
  ultimately show ?thesis by (simp add: bar_pos_def bar_len_def float_to_int_def Let_def)
qed

lemma bar_len_bounds: "bar_len v \<le> 50" "bar_len 0 = 50" "v \<le> - 60 \<Longrightarrow> bar_len v = 0"
proof -
  show "bar_len v \<le> 50" by (auto simp: bar_len_def clamp_def nat_le_iff)
  have "fl64 60 = 60" "fl64 3000 = 3000" "fl64 50 = 50"
    using fl64_int [of 60] fl64_int [of 3000] fl64_int [of 50] by simp_all
  then show "bar_len 0 = 50" using trunc_rat_of_int [of 50] by (simp add: bar_len_def clamp_def)
  assume v: "v \<le> - 60"
  then have "fl64 (v + 60) \<le> 0" by (intro dbl.fl_le) (simp_all add: dbl.fl_zero)
  then have "fl64 (fl64 (v + 60) * 50) \<le> 0" by (intro dbl.fl_le) (simp_all add: dbl.fl_zero)
  then have "fl64 (fl64 (fl64 (v + 60) * 50) / 60) \<le> 0" by (intro dbl.fl_le) (simp_all add: dbl.fl_zero)
  from trunc_rat_mono [OF this] show "bar_len v = 0"
    using trunc_rat_of_int [of 0] by (simp add: bar_len_def clamp_def)
qed

lemma bar_marker: "CHR ''|'' \<in> set (bar r p) \<longleftrightarrow> p < 50"
  by (auto simp: bar_def bar_char_def image_iff)

section \<open>Drawing a period\<close>

definition held :: "number_text \<Rightarrow> stream_info \<Rightarrow> u8 list \<Rightarrow> rat list \<Rightarrow> nat \<Rightarrow> rat" where
  "held nt si data holds ch = peak_hold (peak_db nt si data ch) (holds ! ch)"

text \<open>The line of a channel.\<close>

definition meter_line :: "number_text \<Rightarrow> rat \<Rightarrow> rat \<Rightarrow> nat \<Rightarrow> string" where
  "meter_line nt rms hold ch =
     at_line (5 + ch) @ ''CH'' @ dec ch @ '' '' @ '' ['' @ bar (bar_len rms) (bar_len hold) @ ''] '' @
     nt_fixed nt 6 rms @ '' dB  pk '' @ nt_fixed nt 6 hold @ '' dB''"

definition holds_ok :: "stream_info \<Rightarrow> rat list \<Rightarrow> bool" where
  "holds_ok si holds \<longleftrightarrow> length holds = unat (si_channels si) \<and> (\<forall>h \<in> set holds. - 96 \<le> h \<and> h \<le> 0)"

lemma held_bounds:
  assumes math: "meter_math math nt" and bits: "supported_bits (si_bits si)"
    and data: "shm_samples si seg = Inr data" and frames: "si_period_frames si \<noteq> 0"
    and holds: "holds_ok si holds" and ch: "ch < unat (si_channels si)"
  shows "- 96 \<le> held nt si data holds ch \<and> held nt si data holds ch \<le> 0 \<and>
    peak_db nt si data ch \<le> held nt si data holds ch + 1 / 2"
proof -
  have "- 96 \<le> holds ! ch" "holds ! ch \<le> 0" using holds ch by (auto simp: holds_ok_def)
  moreover have "peak_db nt si data ch \<le> 0" using channel_levels(2) [OF math bits data ch frames] by blast
  ultimately show ?thesis using peak_hold_bounds by (simp add: held_def)
qed

lemma draw_channel_ok:
  assumes math: "meter_math math nt" and bits: "supported_bits (si_bits si)"
    and data: "shm_samples si seg = Inr data" and frames: "si_period_frames si \<noteq> 0"
    and holds: "holds_ok si holds" and ch: "ch < unat (si_channels si)" and h: "h ! ch = holds ! ch"
  shows "mon_draw_channel math nt si seg ch (h, out) =
    Inr (h[ch := held nt si data holds ch],
         out @ meter_line nt (rms_db math nt si (channel_acc si seg ch)) (held nt si data holds ch) ch)"
proof -
  note L = channel_levels [OF math bits data ch frames]
  have n: "unat (si_period_frames si) \<noteq> 0" using frames by (simp add: unat_eq_0)
  have r: "bar_pos (rms_db math nt si (channel_acc si seg ch)) = Inr (bar_len (rms_db math nt si (channel_acc si seg ch)))"
    using L(3) bar_pos_ok by blast
  have "- 400 \<le> held nt si data holds ch" "held nt si data holds ch \<le> 0"
    using held_bounds [OF math bits data frames holds ch] by linarith+
  then have p: "bar_pos (held nt si data holds ch) = Inr (bar_len (held nt si data holds ch))" by (rule bar_pos_ok)
  have drawn: "draw_bar nt (rms_db math nt si (channel_acc si seg ch)) (held nt si data holds ch) label =
      Inr (label @ '' ['' @ bar (bar_len (rms_db math nt si (channel_acc si seg ch))) (bar_len (held nt si data holds ch)) @
        ''] '' @ nt_fixed nt 6 (rms_db math nt si (channel_acc si seg ch)) @ '' dB  pk '' @
        nt_fixed nt 6 (held nt si data holds ch) @ '' dB'')" for label
    by (simp add: draw_bar_def r p bar_def)
  show ?thesis
    unfolding mon_draw_channel_def Let_def prod.case L(1) obind_simps if_not_P [OF n] h
      rms_db_def [symmetric] peak_db_def [symmetric] held_def [of nt si data holds, symmetric] drawn
    by (simp add: meter_line_def)
qed

lemma draw_all_ok:
  assumes math: "meter_math math nt" and bits: "supported_bits (si_bits si)"
    and data: "shm_samples si seg = Inr data" and frames: "si_period_frames si \<noteq> 0"
    and holds: "holds_ok si holds"
  shows "for_each (mon_draw_channel math nt si seg) [0..<unat (si_channels si)] (holds, []) =
    Inr (map (held nt si data holds) [0..<unat (si_channels si)],
         concat (map (\<lambda>ch. meter_line nt (rms_db math nt si (channel_acc si seg ch)) (held nt si data holds ch) ch)
                   [0..<unat (si_channels si)]))"
proof -
  let ?C = "unat (si_channels si)" and ?h = "held nt si data holds"
  let ?l = "\<lambda>ch. meter_line nt (rms_db math nt si (channel_acc si seg ch)) (?h ch) ch"
  have len: "length holds = ?C" using holds by (simp add: holds_ok_def)
  have "\<exists>r. for_each (mon_draw_channel math nt si seg) [0..<?C] (holds, []) = Inr r \<and>
      r = (map ?h [0..<?C] @ drop ?C holds, concat (map ?l [0..<?C]))"
  proof (rule for_each_upto [where P = "\<lambda>i r. r = (map ?h [0..<i] @ drop i holds, concat (map ?l [0..<i]))"], goal_cases)
    case (2 i r)
    let ?hs = "map ?h [0..<i] @ drop i holds"
    have at: "?hs ! i = holds ! i" using 2(1) len by (simp add: nth_append)
    have "?hs[i := ?h i] = map ?h [0..<Suc i] @ drop (Suc i) holds"
      using 2(1) len by (simp add: list_update_append flip: Cons_nth_drop_Suc)
    then show ?case using draw_channel_ok [OF math bits data frames holds 2(1) at] 2(2) by simp
  qed simp
  then show ?thesis using len by simp
qed

text \<open>
  C31: what the monitor shows of a period. When the counter has changed, a turn of the loop draws
  a line per channel and does not fault. The RMS is that of exactly the samples of the channel
  (the sum of squares is exact as long as it fits a \<open>double\<close>); the held peak is between -96 and
  0 dB and no more than half a decibel below the peak of the period; the bar has a marker for the
  held peak, except at full scale, where there is none.
\<close>

theorem monitor_draws_levels:
  assumes math: "meter_math math nt" and bits: "supported_bits (si_bits si)"
    and data: "shm_samples si seg = Inr data" and frames: "si_period_frames si \<noteq> 0"
    and mon: "mn_running mon" "holds_ok si (mn_peak_hold_db mon)"
    and poll: "shm_poll seg (mn_last_counter mon) = Inr (True, counter)"
  shows "\<exists>hold acc. mon_turn math nt daemon si seg [] mon st =
      Inr (concat (map (\<lambda>ch. meter_line nt (rms_db math nt si (acc ch)) (hold ch) ch) [0..<unat (si_channels si)]) @
             at_line (6 + unat (si_channels si)) @ ''  Gain: '' @ nt_fixed nt 0 (mn_gain_db mon) @ '' dB'',
           [], mon\<lparr>mn_last_counter := counter, mn_peak_hold_db := map hold [0..<unat (si_channels si)]\<rparr>, st) \<and>
    (\<forall>ch < unat (si_channels si).
       hold ch = peak_hold (peak_db nt si data ch) (mn_peak_hold_db mon ! ch) \<and>
       - 96 \<le> hold ch \<and> hold ch \<le> 0 \<and> peak_db nt si data ch \<le> hold ch + 1 / 2 \<and>
       (int (unat (si_period_frames si)) * 2 ^ (2 * ref_bits (si_bits si)) < 2 ^ 53 \<longrightarrow>
          acc ch = of_int (square_sum (channel_ints si data ch))) \<and>
       (hold ch = 0 \<longrightarrow> CHR ''|'' \<notin> set (bar (bar_len (rms_db math nt si (acc ch))) (bar_len (hold ch)))))"
proof (intro exI conjI allI impI)
  let ?h = "held nt si data (mn_peak_hold_db mon)" and ?a = "channel_acc si seg"
  show "mon_turn math nt daemon si seg [] mon st =
      Inr (concat (map (\<lambda>ch. meter_line nt (rms_db math nt si (?a ch)) (?h ch) ch) [0..<unat (si_channels si)]) @
             at_line (6 + unat (si_channels si)) @ ''  Gain: '' @ nt_fixed nt 0 (mn_gain_db mon) @ '' dB'',
           [], mon\<lparr>mn_last_counter := counter, mn_peak_hold_db := map ?h [0..<unat (si_channels si)]\<rparr>, st)"
    using draw_all_ok [OF math bits data frames mon(2)] mon(1) poll
    by (simp add: mon_turn_def mon_keyboard_def read_key_def)
  fix ch assume ch: "ch < unat (si_channels si)"
  note H = held_bounds [OF math bits data frames mon(2) ch]
  show "?h ch = peak_hold (peak_db nt si data ch) (mn_peak_hold_db mon ! ch)" by (simp add: held_def)
  show "- 96 \<le> ?h ch" "?h ch \<le> 0" "peak_db nt si data ch \<le> ?h ch + 1 / 2" using H by blast+
  show "?a ch = of_int (square_sum (channel_ints si data ch))"
    if "int (unat (si_period_frames si)) * 2 ^ (2 * ref_bits (si_bits si)) < 2 ^ 53"
    using channel_levels(4) [OF math bits data ch frames that] .
  show "CHR ''|'' \<notin> set (bar (bar_len (rms_db math nt si (?a ch))) (bar_len (?h ch)))" if "?h ch = 0"
    by (simp add: bar_marker that bar_len_bounds)
qed

text \<open>A segment with one sample of half scale, and its second period.\<close>

definition demo_stream :: stream_info where
  "demo_stream = \<lparr>si_sample_rate = 8, si_channels = 1, si_bits = 16, si_period_frames = 1\<rparr>"

definition demo_segment :: "u8 list" where
  "demo_segment = replicate 16 0 @ [2, 0, 0, 0, 0, 0, 0, 0] @ replicate 40 0 @ [0x00, 0x40]"

definition demo_monitor :: monitor where
  "demo_monitor = \<lparr>mn_running = True, mn_gain_db = 0, mn_last_counter = 1, mn_peak_hold_db = [- 96]\<rparr>"

definition demo_meter_math :: math_lib where
  "demo_meter_math = \<lparr>ml_pow10 = (\<lambda>x. 1), ml_sqrt = (\<lambda>x. if x \<le> 0 then 0 else 1), ml_stod = (\<lambda>s. Inr 0)\<rparr>"

lemma demo_meter_math_ok: "meter_math demo_meter_math demo_text"
proof -
  have "(1::rat) / 2 ^ j \<le> 1" "\<not> x \<le> 0" if "1 / 2 ^ (2 * j) \<le> x" for x :: rat and j
  proof -
    have "(0::rat) < 1 / 2 ^ (2 * j)" by simp
    then show "\<not> x \<le> 0" using that by linarith
  qed simp
  then show ?thesis by (auto simp: meter_math_def demo_meter_math_def demo_text_def)
qed

theorem monitor_draws_levels_witness:
  "\<exists>out. mon_turn demo_meter_math demo_text (\<lambda>m s. Inr (None, s)) demo_stream demo_segment [] demo_monitor () =
     Inr (out, [], demo_monitor\<lparr>mn_last_counter := 2, mn_peak_hold_db := [0]\<rparr>, ())"
proof -
  have bits: "supported_bits (si_bits demo_stream)" by (simp add: demo_stream_def supported_bits_def)
  have data: "shm_samples demo_stream demo_segment = Inr [0x00, 0x40]"
    by (simp add: shm_samples_def demo_stream_def demo_segment_def load_range_def shm_header_size_def)
  have poll: "shm_poll demo_segment (mn_last_counter demo_monitor) = Inr (True, 2)" by code_simp
  have "channel_ints demo_stream [0x00, 0x40] 0 = [16384]" by code_simp
  then have "peak_db demo_text demo_stream [0x00, 0x40] 0 = 0"
    by (simp add: peak_db_def amplitude_to_db_def demo_text_def peak_of_def dbl.fl_zero)
  then have hold: "peak_hold (peak_db demo_text demo_stream [0x00, 0x40] 0) (mn_peak_hold_db demo_monitor ! 0) = 0"
    by (simp add: peak_hold_def demo_monitor_def)
  have C: "unat (si_channels demo_stream) = 1" "si_period_frames demo_stream \<noteq> 0" by (simp_all add: demo_stream_def)
  have run: "mn_running demo_monitor" by (simp add: demo_monitor_def)
  have holds: "holds_ok demo_stream (mn_peak_hold_db demo_monitor)"
    by (simp add: demo_monitor_def holds_ok_def demo_stream_def)
  from monitor_draws_levels [OF demo_meter_math_ok bits data C(2) run holds poll, of "\<lambda>m s. Inr (None, s)" "()"]
  show ?thesis using hold by (auto simp: C(1))
qed

end
