(* ===== verification/Monitor_Keys.thy ===== *)
theory Monitor_Keys
  imports Monitor_Meter
begin

text \<open>
  The monitor and the daemon together: the gain the monitor reads from the status, its keyboard,
  the \<open>SET\<close> commands it sends, and the gain of the pipeline behind the socket. \<open>gain_text\<close> states
  what is used of printing and reading whole decibels.
\<close>

section \<open>The gain in the status\<close>

definition gain_text :: "math_lib \<Rightarrow> number_text \<Rightarrow> bool" where
  "gain_text math nt \<longleftrightarrow>
     (\<forall>k :: int. \<bar>k\<bar> < 10 ^ 6 \<longrightarrow>
        nt_float nt (of_int k) = to_string k \<and> nt_double nt (of_int k) = to_string k \<and>
        (\<forall>rest. rest = [] \<or> hd rest = CHR '','' \<longrightarrow> ml_stod math (to_string k @ rest) = Inr (of_int k)))"

abbreviation gain_pat :: string where
  "gain_pat \<equiv> ''\"gain_db\":''"

lemma text_after_skip: "unquoted t \<Longrightarrow> text_after gain_pat (t @ s) = text_after gain_pat s"
  by (induction t) (auto simp: unquoted_def)

lemma text_after_here: "text_after gain_pat (gain_pat @ s) = Some s"
  by simp

lemma device_no_pattern:
  assumes "unquoted dev"
  shows "take 9 (dev @ CHR 0x22 # CHR '','' # s) \<noteq> ''gain_db\":''"
proof
  let ?t = "dev @ CHR 0x22 # CHR '','' # s" and ?p = "''gain_db\":''"
  assume eq: "take 9 ?t = ?p"
  have at: "?t ! i = ?p ! i" if "i < 9" for i
    using nth_take [OF that, of ?t] unfolding eq by (rule sym)
  have dev: "c \<noteq> CHR 0x22" if "c \<in> set dev" for c using assms that by (simp add: unquoted_def)
  consider "length dev < 7" | "length dev = 7" | "7 < length dev" by linarith
  then show False
  proof cases
    case 1
    then have "?p ! length dev = CHR 0x22" using at [of "length dev"] by (simp add: nth_append)
    moreover have "length dev = 0 \<or> length dev = 1 \<or> length dev = 2 \<or> length dev = 3 \<or> length dev = 4 \<or>
        length dev = 5 \<or> length dev = 6" using 1 by linarith
    ultimately show False by (elim disjE) simp_all
  next
    case 2
    then show False using at [of 8] by (simp add: nth_append)
  next
    case 3
    then have "dev ! 7 = CHR 0x22" using at [of 7] by (simp add: nth_append)
    moreover have "dev ! 7 \<in> set dev" using 3 by simp
    ultimately show False using dev by blast
  qed
qed

lemma text_after_device:
  assumes "unquoted dev"
  shows "text_after gain_pat (CHR 0x22 # dev @ CHR 0x22 # CHR '','' # s) = text_after gain_pat s"
proof -
  have "take (length gain_pat) (CHR 0x22 # dev @ CHR 0x22 # CHR '','' # s) \<noteq> gain_pat"
    using device_no_pattern [OF assms, of s] take_Suc_Cons [of 9 "CHR 0x22"] by (simp add: numeral_eq_Suc)
  then have "text_after gain_pat (CHR 0x22 # dev @ CHR 0x22 # CHR '','' # s) =
      text_after gain_pat (dev @ CHR 0x22 # CHR '','' # s)" by (simp only: text_after.simps if_False)
  also have "\<dots> = text_after gain_pat s" unfolding text_after_skip [OF assms] by simp
  finally show ?thesis .
qed

text \<open>The status up to the gain, as the daemon's reply begins.\<close>

definition status_head :: "rat alsa_capture \<Rightarrow> capture_pipeline \<Rightarrow> string" where
  "status_head al cp =
     (let stats = get_stats cp; audio = dc_audio (cp_config cp)
      in ''{\"ok\":true,\"data\":{\"running\":'' @ json_bool (cp_running cp) @
         '',\"capture\":{\"frames\":'' @ json_nat (st_frames_captured stats) @
         '',\"rate\":'' @ json_nat (al_actual_rate al) @
         '',\"channels\":'' @ (if cp_downmix_mono cp then dec 1 else json_nat (ac_channels audio)) @
         '',\"bits\":'' @ json_nat (ac_bits_per_sample audio) @
         '',\"device\":\"'' @ ac_device audio @ ''\",'')"

lemmas text_skip = text_after_skip [OF unquoted_text(1)] text_after_skip [OF unquoted_text(2)]
  text_after_skip [OF unquoted_text(3)]

lemma status_head_skip:
  assumes "unquoted (ac_device (dc_audio (cp_config cp)))"
  shows "text_after gain_pat (status_head al cp @ s) = text_after gain_pat s"
  using text_after_device [OF assms] by (simp add: status_head_def Let_def text_skip)

lemma status_reply:
  assumes "cp_capture cp = Some al"
  shows "\<exists>R. handle_client (pipeline_socket math nt clip) (get_message ''STATUS'') cp =
    Inr (Some (status_head al cp @ gain_pat @ nt_float nt (cp_gain_db cp) @ CHR '','' # R), cp)"
proof -
  let ?R = "''\"dc_remove\":'' @ json_bool (cp_dc_remove cp) @ '',\"ring_buffer_frames\":'' @
    json_nat (st_ring_buffer_frames (get_stats cp)) @ ''}'' @
    (case cp_recorder cp of None \<Rightarrow> [] | Some br \<Rightarrow> recorder_json (br_get_stats br)) @ ''}'' @ ''}'' @ [CHR 0x0A]"
  have "get_status_json nt cp = Inr (capture_json nt al cp @
      (case cp_recorder cp of None \<Rightarrow> [] | Some br \<Rightarrow> recorder_json (br_get_stats br)) @ ''}'')"
    using assms by (simp add: get_status_json_def)
  then show ?thesis
    unfolding status_on_pipeline by (intro exI [of _ ?R]) (simp add: resp_ok_data_def capture_json_def status_head_def Let_def)
qed

text \<open>No NUL, and short enough for the client's buffer.\<close>

definition printable :: "string \<Rightarrow> bool" where
  "printable s \<longleftrightarrow> unquoted s \<and> CHR 0x00 \<notin> set s"

lemma no_nul_numbers: "CHR 0x00 \<notin> set (dec n)" "CHR 0x00 \<notin> set (json_nat w)" "CHR 0x00 \<notin> set (json_bool b)"
  "CHR 0x00 \<notin> set (to_string i)"
proof -
  show d: "CHR 0x00 \<notin> set (dec n)" for n using dec_digits digit_not_special by blast
  then show "CHR 0x00 \<notin> set (json_nat w)" "CHR 0x00 \<notin> set (json_bool b)" "CHR 0x00 \<notin> set (to_string i)"
    by (simp_all add: json_nat_def json_bool_def to_string_def)
qed

lemma short_numbers:
  "length (json_nat (a :: u64)) \<le> 20" "length (json_nat (b :: u32)) \<le> 10" "length (json_nat (c :: u16)) \<le> 5"
  "length (json_bool d) \<le> 5" "length (dec 1) \<le> 5"
proof -
  have "unat a < 10 ^ 20" by (rule less_trans [OF unat_lt_64]) simp
  moreover have "unat b < 10 ^ 10" by (rule less_trans [OF unat_lt_32]) simp
  moreover have "unat c < 10 ^ 5" by (rule less_trans [OF unat_lt_16]) simp
  ultimately show "length (json_nat a) \<le> 20" "length (json_nat b) \<le> 10" "length (json_nat c) \<le> 5"
    by (simp_all add: json_nat_def length_dec)
  show "length (json_bool d) \<le> 5" by (simp add: json_bool_def)
  show "length (dec 1) \<le> 5" using length_dec [of 1 5] by simp
qed

lemma status_head_fits:
  assumes "printable (ac_device (dc_audio (cp_config cp)))" and "length (ac_device (dc_audio (cp_config cp))) \<le> 1000"
  shows "CHR 0x00 \<notin> set (status_head al cp)" and "length (status_head al cp) \<le> 1500"
proof -
  show "CHR 0x00 \<notin> set (status_head al cp)"
    using assms(1) by (simp add: status_head_def Let_def no_nul_numbers printable_def)
  let ?st = "get_stats cp" and ?au = "dc_audio (cp_config cp)"
  have "length (if cp_downmix_mono cp then dec 1 else json_nat (ac_channels ?au)) \<le> 5"
    using short_numbers(3,5) by simp
  then show "length (status_head al cp) \<le> 1500"
    using assms(2) short_numbers(1) [of "st_frames_captured ?st"] short_numbers(2) [of "al_actual_rate al"]
      short_numbers(3) [of "ac_bits_per_sample ?au"] short_numbers(4) [of "cp_running cp"]
    by (simp add: status_head_def Let_def)
qed

lemma takeWhile_prefix: "\<forall>c \<in> set P. Q c \<Longrightarrow> length P \<le> n \<Longrightarrow> \<exists>X. takeWhile Q (take n (P @ R)) = P @ X"
  by (auto simp: takeWhile_append2)

lemma monitor_reads_gain:
  assumes gt: "gain_text math nt" and cap: "cp_capture cp = Some al"
    and dev: "printable (ac_device (dc_audio (cp_config cp)))" "length (ac_device (dc_audio (cp_config cp))) \<le> 1000"
    and g: "cp_gain_db cp = of_int g" "\<bar>g\<bar> < 10 ^ 6"
  shows "mon_start math (handle_client (pipeline_socket math nt clip)) si cp =
    Inr (\<lparr>mn_running = True, mn_gain_db = of_int g, mn_last_counter = 0,
          mn_peak_hold_db = replicate (unat (si_channels si)) (- 96)\<rparr>, cp)"
proof -
  let ?P = "status_head al cp @ gain_pat @ to_string g @ [CHR '','']"
  have f: "nt_float nt (cp_gain_db cp) = to_string g" using gt g by (simp add: gain_text_def)
  obtain R where R: "handle_client (pipeline_socket math nt clip) (get_message ''STATUS'') cp =
      Inr (Some (?P @ R), cp)"
    using status_reply [OF cap, of math nt clip] by (auto simp: f)
  have "length (to_string g) \<le> 11" using g(2) by (intro length_to_string) simp_all
  then have len: "length ?P \<le> 4095" using status_head_fits(2) [OF dev, of al] by simp
  have "\<forall>c \<in> set ?P. c \<noteq> CHR 0x00" using status_head_fits(1) [OF dev, of al] no_nul_numbers(4) by auto
  from takeWhile_prefix [OF this len] obtain X where
    X: "takeWhile (\<lambda>c. c \<noteq> CHR 0x00) (take 4095 (?P @ R)) = ?P @ X" by blast
  have send: "send_command (handle_client (pipeline_socket math nt clip)) ''GET STATUS'' cp = Inr (?P @ X, cp)"
    using R X by (simp add: send_command_def get_message_def)
  have "text_after gain_pat (?P @ X) = text_after gain_pat (gain_pat @ to_string g @ CHR '','' # X)"
    using status_head_skip [of cp al "gain_pat @ to_string g @ CHR '','' # X"] dev(1) by (simp add: printable_def)
  also have "\<dots> = Some (to_string g @ CHR '','' # X)" by (rule text_after_here)
  finally have found: "text_after gain_pat (?P @ X) = Some (to_string g @ CHR '','' # X)" .
  have "ml_stod math (to_string g @ CHR '','' # X) = Inr (of_int g)"
    using gt g(2) unfolding gain_text_def by simp
  then show ?thesis unfolding mon_start_def send obind_simps prod.case found option.case by simp
qed

section \<open>Key presses\<close>

text \<open>The daemon's state with a gain of \<open>g\<close> dB.\<close>

definition with_gain :: "math_lib \<Rightarrow> int \<Rightarrow> capture_pipeline \<Rightarrow> capture_pipeline" where
  "with_gain math g cp = cp\<lparr>cp_gain_db := of_int g, cp_gain_linear := linear_gain math (of_int g)\<rparr>"

lemma with_gain_twice: "with_gain math g (with_gain math h cp) = with_gain math g cp"
  by (simp add: with_gain_def)

lemma read_key_step: "read_key input = (Some d, rest) \<Longrightarrow> \<bar>d\<bar> \<le> 1"
  by (auto simp: read_key_def split: list.splits if_splits)

lemma keyboard_ok:
  assumes gt: "gain_text math nt" and g: "mn_gain_db mon = of_int g" "\<bar>g\<bar> + 1 < 10 ^ 6"
    and key: "read_key input = (Some d, rest)"
  shows "mon_keyboard nt (handle_client (pipeline_socket math nt clip)) input mon (with_gain math g cp) =
    Inr (rest, mon\<lparr>mn_gain_db := of_int (g + d)\<rparr>, with_gain math (g + d) cp)"
proof (cases "d = 0")
  case True
  have "mon\<lparr>mn_gain_db := of_int g\<rparr> = mon" using g(1) by simp
  with True show ?thesis by (simp add: mon_keyboard_def key)
next
  case False
  have d: "\<bar>g + d\<bar> < 10 ^ 6" using g(2) read_key_step [OF key] by linarith
  then have d': "\<bar>g + d\<bar> < 2 ^ 24" "\<bar>g + d\<bar> < 2 ^ 53" "\<bar>g + d\<bar> < 2 ^ 31" by simp_all
  have "mn_gain_db mon + of_int d = of_int (g + d)" using g(1) by simp
  then have fl: "fl64 (mn_gain_db mon + of_int d) = of_int (g + d)"
    using fl64_int [OF d'(2)] by (simp only:)
  have shown: "nt_double nt (of_int (g + d)) = to_string (g + d)" using gt d unfolding gain_text_def by blast
  have read: "ml_stod math (to_string (g + d)) = Inr (of_int (g + d))"
    using gt d unfolding gain_text_def by (metis append_Nil2)
  have w: "plain_word ''gain_db''" by (simp add: plain_word_def is_space_def)
  have "length (to_string (g + d)) \<le> 11" using d'(3) by (intro length_to_string) linarith+
  then have l: "length ''gain_db'' + length (to_string (g + d)) \<le> 900" by simp
  have set: "set_parameter math ''gain_db'' (to_string (g + d)) (with_gain math g cp) = Inr (True, with_gain math (g + d) cp)"
    unfolding set_parameter_def read using single.fl_int [OF d'(1)] by (simp add: with_gain_def)
  have "(''SET gain_db '' @ to_string (g + d)) @ [CHR 0x0A] = set_message ''gain_db'' (to_string (g + d))"
    by (simp add: set_message_def)
  then have "send_command (handle_client (pipeline_socket math nt clip)) (''SET gain_db '' @ to_string (g + d))
      (with_gain math g cp) = Inr (takeWhile (\<lambda>c. c \<noteq> CHR 0x00) (take 4095 (resp_ok @ [CHR 0x0A])), with_gain math (g + d) cp)"
    unfolding send_command_def by (simp only: set_on_pipeline [OF w to_string_plain l] set obind_simps prod.case if_True option.case)
  then show ?thesis
    unfolding mon_keyboard_def key prod.case option.case Let_def fl shown if_not_P [OF False] by simp
qed

section \<open>The main loop\<close>

text \<open>
  The loop over turns: what has been typed since the last turn, and the segment as this turn
  finds it. It ends when a key quits.
\<close>

primrec mon_loop ::
  "math_lib \<Rightarrow> number_text \<Rightarrow> 's peer \<Rightarrow> stream_info \<Rightarrow> (string \<times> u8 list) list \<Rightarrow> string \<Rightarrow> monitor \<Rightarrow> 's \<Rightarrow>
   (string \<times> string \<times> monitor \<times> 's) outcome" where
  "mon_loop math nt daemon si [] input mon st = Inr ([], input, mon, st)"
| "mon_loop math nt daemon si (t # ts) input mon st =
     (if \<not> mn_running mon then Inr ([], input, mon, st)
      else obind (mon_turn math nt daemon si (snd t) (input @ fst t) mon st) (\<lambda>(out, input', mon', st').
           obind (mon_loop math nt daemon si ts input' mon' st') (\<lambda>(out', r). Inr (out @ out', r))))"

text \<open>The steps of the keys pressed until the loop ends.\<close>

primrec key_steps :: "(string \<times> u8 list) list \<Rightarrow> string \<Rightarrow> int" where
  "key_steps [] input = 0"
| "key_steps (t # ts) input =
     (case read_key (input @ fst t) of (None, rest) \<Rightarrow> 0 | (Some d, rest) \<Rightarrow> d + key_steps ts rest)"

lemma map_held_ok:
  assumes "meter_math math nt" and "supported_bits (si_bits si)" and "shm_samples si seg = Inr data"
    and "si_period_frames si \<noteq> 0" and "holds_ok si holds"
  shows "holds_ok si (map (held nt si data holds) [0..<unat (si_channels si)])"
  using held_bounds [OF assms] by (auto simp: holds_ok_def)

lemma segment_readable: "shm_samples si seg = Inr data \<Longrightarrow> \<exists>c. shm_poll seg old = Inr c"
proof -
  assume "shm_samples si seg = Inr data"
  then have "64 \<le> length seg" by (simp add: shm_samples_def shm_header_size_def load_range_def split: if_splits)
  then show ?thesis by (simp add: shm_poll_def shm_counter_region)
qed

lemma turn_ok:
  assumes gt: "gain_text math nt" and math: "meter_math math nt" and bits: "supported_bits (si_bits si)"
    and frames: "si_period_frames si \<noteq> 0" and data: "shm_samples si seg = Inr data"
    and mon: "mn_running mon" "holds_ok si (mn_peak_hold_db mon)" "mn_gain_db mon = of_int g" "\<bar>g\<bar> + 1 < 10 ^ 6"
    and key: "read_key input = (Some d, rest)"
  shows "\<exists>out mon'. mon_turn math nt (handle_client (pipeline_socket math nt clip)) si seg input mon (with_gain math g cp) =
      Inr (out, rest, mon', with_gain math (g + d) cp) \<and>
    mn_running mon' \<and> holds_ok si (mn_peak_hold_db mon') \<and> mn_gain_db mon' = of_int (g + d)"
proof -
  let ?mon = "mon\<lparr>mn_gain_db := of_int (g + d)\<rparr>"
  obtain changed counter where poll: "shm_poll seg (mn_last_counter ?mon) = Inr (changed, counter)"
    using segment_readable [OF data, of "mn_last_counter ?mon"] by auto
  show ?thesis
    using mon(1,2) map_held_ok [OF math bits data frames mon(2)] poll
    unfolding mon_turn_def keyboard_ok [OF gt mon(3,4) key]
    by (cases changed) (simp_all add: draw_all_ok [OF math bits data frames mon(2)])
qed

lemma loop_ok:
  assumes gt: "gain_text math nt" and math: "meter_math math nt" and bits: "supported_bits (si_bits si)"
    and frames: "si_period_frames si \<noteq> 0" and segs: "\<forall>t \<in> set ts. \<exists>data. shm_samples si (snd t) = Inr data"
    and mon: "mn_running mon" "holds_ok si (mn_peak_hold_db mon)" "mn_gain_db mon = of_int g"
    and g: "\<bar>g\<bar> + int (length ts) < 10 ^ 6"
  shows "\<exists>out rest mon'. mon_loop math nt (handle_client (pipeline_socket math nt clip)) si ts input mon (with_gain math g cp) =
      Inr (out, rest, mon', with_gain math (g + key_steps ts input) cp) \<and>
    mn_gain_db mon' = of_int (g + key_steps ts input)"
  using segs mon g
proof (induction ts arbitrary: input mon g)
  case Nil then show ?case by simp
next
  case (Cons t ts)
  obtain data where data: "shm_samples si (snd t) = Inr data" using Cons.prems(1) by auto
  show ?case
  proof (cases "read_key (input @ fst t)")
    case (Pair k rest)
    show ?thesis
    proof (cases k)
      case None
      have "mon_turn math nt (handle_client (pipeline_socket math nt clip)) si (snd t) (input @ fst t) mon (with_gain math g cp) =
          Inr ([], rest, mon\<lparr>mn_running := False\<rparr>, with_gain math g cp)"
        by (simp add: mon_turn_def mon_keyboard_def Pair None)
      then show ?thesis using Cons.prems(2,4) by (cases ts) (simp_all add: Pair None)
    next
      case (Some d)
      have key: "read_key (input @ fst t) = (Some d, rest)" by (simp add: Pair Some)
      have "\<bar>g\<bar> + 1 < 10 ^ 6" using Cons.prems(5) by simp
      from turn_ok [OF gt math bits frames data Cons.prems(2-4) this key, of clip cp] obtain out mon' where T:
        "mon_turn math nt (handle_client (pipeline_socket math nt clip)) si (snd t) (input @ fst t) mon (with_gain math g cp) =
           Inr (out, rest, mon', with_gain math (g + d) cp)"
        "mn_running mon'" "holds_ok si (mn_peak_hold_db mon')" "mn_gain_db mon' = of_int (g + d)" by blast
      have "\<bar>g + d\<bar> + int (length ts) < 10 ^ 6" using Cons.prems(5) read_key_step [OF key] by simp
      from Cons.IH [OF _ T(2-4) this, of rest] Cons.prems(1) obtain out' rest' mon'' where
        "mon_loop math nt (handle_client (pipeline_socket math nt clip)) si ts rest mon' (with_gain math (g + d) cp) =
           Inr (out', rest', mon'', with_gain math (g + d + key_steps ts rest) cp)"
        "mn_gain_db mon'' = of_int (g + d + key_steps ts rest)" by auto
      then show ?thesis using Cons.prems(2) T(1) by (simp add: key add.assoc)
    qed
  qed
qed


text \<open>Whole decibels read and printed as decimal numbers.\<close>

definition demo_key_math :: math_lib where
  "demo_key_math = demo_meter_math\<lparr>ml_stod := (\<lambda>s. obind (stoi s) (\<lambda>k. Inr (of_int k)))\<rparr>"

lemma stoi_prefix:
  assumes "\<bar>k\<bar> < 2 ^ 31" and "no_digit_next rest"
  shows "stoi (to_string k @ rest) = Inr k"
proof (cases "k < 0")
  case True
  have "\<not> is_space (CHR ''-'')" by (simp add: is_space_def)
  then have "scan_number (to_string k @ rest) = (True, dec (nat (- k)))"
    using True take_digits(1) [OF assms(2)] by (simp add: scan_number_def to_string_def)
  then show ?thesis using True assms(1) by (simp add: stoi_def)
next
  case False
  obtain c cs where d: "dec (nat k) = c # cs" by (cases "dec (nat k)") auto
  have c: "\<not> is_space c" "c \<noteq> CHR ''-''" "c \<noteq> CHR ''+''"
    using dec_hd [of "nat k"] digit_not_special [of c] by (simp_all add: d)
  then have "scan_number (to_string k @ rest) = (False, takeWhile is_digit (dec (nat k) @ rest))"
    using False by (simp add: scan_number_def to_string_def d)
  then have "scan_number (to_string k @ rest) = (False, dec (nat k))"
    using take_digits(1) [OF assms(2)] by simp
  then show ?thesis using False assms(1) by (simp add: stoi_def)
qed

lemma demo_gain_text: "gain_text demo_key_math demo_text"
proof -
  have "stoi (to_string k @ rest) = Inr k" if "\<bar>k\<bar> < 10 ^ 6" "rest = [] \<or> hd rest = CHR '',''" for k rest
  proof (rule stoi_prefix)
    show "\<bar>k\<bar> < 2 ^ 31" using that(1) by simp
    show "no_digit_next rest" using that(2) by (auto simp: no_digit_next_def is_digit_def)
  qed
  then show ?thesis by (simp add: gain_text_def demo_key_math_def demo_text_def)
qed


end
