(* ===== verification/Clients.thy ===== *)
theory Clients
  imports Monitor
begin

text \<open>
  The two smaller example programs: examples/clip_client.cpp, which asks for a clip and prints
  the reply, and examples/audio_consumer.cpp, which counts the periods of the shared memory
  segment. The daemon behind the socket is a \<open>peer\<close> as for the monitor.
\<close>

section \<open>clip_client\<close>

text \<open>
  \<open>args\<close> are the arguments after the program's name; \<open>conn\<close> says whether the socket could be
  opened and conn. The result is the exit status and what is printed.
\<close>

definition clip_client :: "'s peer \<Rightarrow> bool \<Rightarrow> string list \<Rightarrow> 's \<Rightarrow> (int \<times> string \<times> 's) outcome" where
  "clip_client daemon conn args st =
     (if length args < 2 then Inr (1, [], st)
      else obind (stoi (args ! 0)) (\<lambda>s.
           obind (stoi (args ! 1)) (\<lambda>e.
           let format = (if 2 < length args then args ! 2 else [])
           in if \<not> conn then Inr (1, [], st)
              else obind (daemon (clip_message s e format) st) (\<lambda>(reply, st').
                   Inr (0, case reply of None \<Rightarrow> [] | Some r \<Rightarrow> takeWhile (\<lambda>c. c \<noteq> CHR 0x00) (take 4095 r), st')))))"

text \<open>
  The whole way of a clip request, from the command line to the reply on the terminal: the client
  receives at most 4095 bytes and prints them up to a null character.
\<close>

definition printed_reply :: "string \<Rightarrow> string" where
  "printed_reply reply = takeWhile (\<lambda>c. c \<noteq> CHR 0x00) (take 4095 (reply @ [CHR 0x0A]))"

lemma clip_client_reply:
  assumes s: "int32_range s" and e: "int32_range e" and f: "plain_word f" "length f \<le> 900"
  shows "clip_client (handle_client (daemon_socket pl)) True [to_string s, to_string e, f] st =
    obind (pl_capture_clip pl s e (map to_lower f) st) (\<lambda>(path, st').
      Inr (0, printed_reply (if path = [] then resp_error ''Clip extraction failed'' else resp_ok_path path), st'))"
proof -
  have n: "stoi (to_string s) = Inr s" "stoi (to_string e) = Inr e"
    using s e by (simp_all add: stoi_to_string int32_range_def)
  have "f = [] \<or> plain_word f" using f by simp
  from handle_clip_message [OF s e this f(2), of pl st] show ?thesis
    by (cases "pl_capture_clip pl s e (map to_lower f) st") (auto simp: clip_client_def n printed_reply_def)
qed

lemma clip_client_prints_path:
  assumes "int32_range s" and "int32_range e" and "plain_word f" "length f \<le> 900"
    and "clip s e (map to_lower f) cp = Inr (path, cp')" and "path \<noteq> []" "CHR 0x00 \<notin> set path" "length path \<le> 4000"
  shows "clip_client (handle_client (pipeline_socket math nt clip)) True [to_string s, to_string e, f] cp =
    Inr (0, resp_ok_path path @ [CHR 0x0A], cp')"
proof -
  have "\<forall>c \<in> set path. c \<noteq> CHR 0x00" using assms(7) by blast
  then have "printed_reply (resp_ok_path path) = resp_ok_path path @ [CHR 0x0A]"
    using assms(8) by (simp add: printed_reply_def resp_ok_path_def takeWhile_append2)
  then show ?thesis using assms(5,6) by (simp add: pipeline_socket_def clip_client_reply [OF assms(1-4)])
qed

section \<open>audio_consumer\<close>

text \<open>
  The loop over the turns, each with the segment as it is found and the seconds since the start:
  what is printed, the last counter and the periods seen. Every 500th period is reported.
\<close>

definition consumer_progress :: "number_text \<Rightarrow> u64 \<Rightarrow> rat \<Rightarrow> string" where
  "consumer_progress nt periods elapsed =
     ''  periods: '' @ dec (unat periods) @ ''  elapsed: '' @ nt_double nt elapsed @ ''s  rate: '' @
     (if elapsed = 0 then ''inf'' else nt_double nt (fl64 (fl64 (of_nat (unat periods)) / elapsed))) @
     '' periods/s'' @ [CHR 0x0A]"

fun consumer_loop ::
  "number_text \<Rightarrow> (u8 list \<times> rat) list \<Rightarrow> u64 \<times> u64 \<Rightarrow> (string \<times> u64 \<times> u64) outcome" where
  "consumer_loop nt [] st = Inr ([], st)"
| "consumer_loop nt ((seg, elapsed) # turns) (last_counter, periods) =
     obind (shm_poll seg last_counter) (\<lambda>(changed, counter).
       let periods' = (if changed then periods + 1 else periods);
           report = (if changed \<and> periods' mod 500 = 0 then consumer_progress nt periods' elapsed else [])
       in obind (consumer_loop nt turns (counter, periods')) (\<lambda>(out, st). Inr (report @ out, st)))"

text \<open>How often a list of counters changes.\<close>

fun changes :: "'a \<Rightarrow> 'a list \<Rightarrow> nat" where
  "changes a [] = 0"
| "changes a (b # bs) = (if a = b then changes a bs else Suc (changes b bs))"

definition counters :: "(u8 list \<times> rat) list \<Rightarrow> u64 list" where
  "counters turns = map (\<lambda>(seg, elapsed). projr (shm_counter seg)) turns"

lemma consumer_counts_changes:
  assumes "\<forall>(seg, elapsed) \<in> set turns. \<exists>c. shm_counter seg = Inr c"
  shows "\<exists>out. consumer_loop nt turns (last_counter, periods) =
    Inr (out, List.last (last_counter # counters turns),
         periods + of_nat (changes last_counter (counters turns)))"
  using assms
proof (induction turns arbitrary: last_counter periods)
  case (Cons turn turns)
  obtain seg elapsed where t: "turn = (seg, elapsed)" by (cases turn)
  obtain c where c: "shm_counter seg = Inr c" using Cons.prems t by auto
  let ?p = "if last_counter = c then periods else periods + 1"
  obtain out where "consumer_loop nt turns (c, ?p) =
      Inr (out, List.last (c # counters turns), ?p + of_nat (changes c (counters turns)))"
    using Cons.IH [of c ?p] Cons.prems by auto
  then show ?case
    by (cases "last_counter = c") (auto simp: t counters_def shm_poll_def c Let_def add.assoc)
qed (simp add: counters_def)

text \<open>A consumer that looks at least once after every period counts them all; it can miss, but not invent.\<close>

lemma changes_upto:
  "sorted (a # cs) \<Longrightarrow> changes a cs \<le> List.last (a # cs) - a" for a :: nat
proof (induction cs arbitrary: a)
  case (Cons b bs)
  have "changes b bs \<le> List.last (b # bs) - b" using Cons by simp
  moreover have "b \<le> List.last (b # bs)" using Cons.prems by (cases bs rule: rev_cases) (auto simp: sorted_append)
  moreover have "a \<le> b" using Cons.prems by simp
  moreover have "changes a bs \<le> List.last (a # bs) - a" if "a = b" using Cons that by simp
  ultimately show ?case by (cases "a = b") auto
qed simp

lemma changes_all: "changes a [Suc a..<Suc (a + n)] = n"
proof (induction n arbitrary: a)
  case (Suc n)
  have "[Suc a..<Suc (a + Suc n)] = Suc a # [Suc (Suc a)..<Suc (Suc a + n)]" by (simp add: upt_rec)
  then show ?case using Suc [of "Suc a"] by simp
qed simp

end
