(* ===== verification/Logger.thy ===== *)
theory Logger
  imports Timestamps
begin

text \<open>
  The logger (include/audio_daemon/logger.hpp) and the other text made from the local time, the
  stamp in the names of clips (\<open>timestamp_to_filename()\<close>, include/audio_daemon/common.hpp). What
  \<open>localtime_r\<close> returns is the parameter \<open>tm\<close>, with the milliseconds beside it.
\<close>

section \<open>Levels\<close>

datatype log_level = DEBUG | INFO | WARN | ERROR | FATAL

fun level_rank :: "log_level \<Rightarrow> nat" where
  "level_rank DEBUG = 0"
| "level_rank INFO = 1"
| "level_rank WARN = 2"
| "level_rank ERROR = 3"
| "level_rank FATAL = 4"

instantiation log_level :: linorder
begin

definition less_eq_log_level :: "log_level \<Rightarrow> log_level \<Rightarrow> bool" where
  "a \<le> b \<longleftrightarrow> level_rank a \<le> level_rank b"

definition less_log_level :: "log_level \<Rightarrow> log_level \<Rightarrow> bool" where
  "a < b \<longleftrightarrow> level_rank a < level_rank b"

instance
proof
  fix a b :: log_level
  have inj: "level_rank a = level_rank b \<Longrightarrow> a = b" by (cases a; cases b) simp_all
  show "a \<le> b \<Longrightarrow> b \<le> a \<Longrightarrow> a = b" by (rule inj) (simp add: less_eq_log_level_def)
qed (auto simp: less_eq_log_level_def less_log_level_def)

end

definition level_str :: "log_level \<Rightarrow> string" where
  "level_str l = (case l of DEBUG \<Rightarrow> ''DEBUG'' | INFO \<Rightarrow> ''INFO'' | WARN \<Rightarrow> ''WARN'' | ERROR \<Rightarrow> ''ERROR'' | FATAL \<Rightarrow> ''FATAL'')"

section \<open>Lines\<close>

text \<open>\<open>strftime\<close> with the format \<open>%Y-%m-%d %H:%M:%S\<close>, and three digits of milliseconds.\<close>

definition log_stamp :: "tm \<Rightarrow> nat \<Rightarrow> string" where
  "log_stamp t ms = dec (tm_year t) @ ''-'' @ pad0 2 (dec (tm_mon t + 1)) @ ''-'' @ pad0 2 (dec (tm_mday t)) @ '' '' @
     pad0 2 (dec (tm_hour t)) @ '':'' @ pad0 2 (dec (tm_min t)) @ '':'' @ pad0 2 (dec (tm_sec t)) @ ''.'' @ pad0 3 (dec ms)"

definition log_line :: "log_level \<Rightarrow> tm \<Rightarrow> nat \<Rightarrow> string \<Rightarrow> string" where
  "log_line level t ms msg = log_stamp t ms @ '' ['' @ level_str level @ ''] '' @ msg @ [CHR 0x0A]"

text \<open>
  What a call writes. \<open>log\<close> gives up when another thread holds the lock (\<open>free\<close> is the result of
  \<open>try_lock\<close>), \<open>log_blocking\<close> waits for it.
\<close>

definition log_message :: "log_level \<Rightarrow> bool \<Rightarrow> log_level \<Rightarrow> tm \<Rightarrow> nat \<Rightarrow> string \<Rightarrow> string" where
  "log_message threshold free level t ms msg =
     (if level < threshold then [] else if free then log_line level t ms msg else [])"

definition log_blocking :: "log_level \<Rightarrow> log_level \<Rightarrow> tm \<Rightarrow> nat \<Rightarrow> string \<Rightarrow> string" where
  "log_blocking threshold level t ms msg = (if level < threshold then [] else log_line level t ms msg)"

text \<open>A message is lost exactly if it is below the threshold or the lock is taken.\<close>

lemma log_message_lost: "log_message threshold free level t ms msg = [] \<longleftrightarrow> level < threshold \<or> \<not> free"
  by (simp add: log_message_def log_line_def)

lemma threshold_mono:
  "a \<le> b \<Longrightarrow> log_blocking th a t ms msg \<noteq> [] \<Longrightarrow> log_blocking th b t ms msg \<noteq> []"
  by (auto simp: log_blocking_def log_line_def split: if_splits)

section \<open>Names of clips\<close>

definition tm_valid :: "tm \<Rightarrow> bool" where
  "tm_valid t \<longleftrightarrow> tm_year t < 10000 \<and> tm_mon t < 12 \<and> tm_mday t < 32 \<and> tm_hour t < 24 \<and> tm_min t < 60 \<and> tm_sec t < 61"

text \<open>The format \<open>%04d%02d%02d_%02d%02d%02d_%03d\<close>.\<close>

definition timestamp_to_filename :: "tm \<Rightarrow> nat \<Rightarrow> string" where
  "timestamp_to_filename t ms =
     pad0 4 (dec (tm_year t)) @ pad0 2 (dec (tm_mon t + 1)) @ pad0 2 (dec (tm_mday t)) @ ''_'' @
     pad0 2 (dec (tm_hour t)) @ pad0 2 (dec (tm_min t)) @ pad0 2 (dec (tm_sec t)) @ ''_'' @ pad0 3 (dec ms)"

lemma length_pad0_dec: "a < 10 ^ w \<Longrightarrow> 0 < w \<Longrightarrow> length (pad0 w (dec a)) = w"
  using length_dec [of a w] by (simp add: length_pad0)

lemma length_stamp: "tm_valid t \<Longrightarrow> ms < 1000 \<Longrightarrow> length (timestamp_to_filename t ms) = 19"
  by (simp add: timestamp_to_filename_def tm_valid_def length_pad0_dec)

text \<open>Two clips get the same name only in the same millisecond of local time.\<close>

lemma timestamp_to_filename_inj:
  assumes "tm_valid a" and "tm_valid b" and "m < 1000" and "n < 1000"
  shows "timestamp_to_filename a m = timestamp_to_filename b n \<longleftrightarrow> a = b \<and> m = n"
proof
  have two: "length (pad0 2 (dec k)) = 2" if "k < 100" for k using that by (simp add: length_pad0_dec)
  have four: "length (pad0 4 (dec k)) = 4" if "k < 10000" for k using that by (simp add: length_pad0_dec)
  assume "timestamp_to_filename a m = timestamp_to_filename b n"
  then show "a = b \<and> m = n"
    using assms by (simp add: timestamp_to_filename_def tm_valid_def append_eq_append_conv two four pad0_inj tm.equality)
qed simp

end
