(* ===== verification/Spsc_Interleaved.thy ===== *)
theory Spsc_Interleaved
  imports Spsc_Ring
begin

text \<open>
  The byte ring of \<open>BlockRecorder\<close> while two threads use it at once: \<open>push()\<close> on the capture
  thread and the copy in \<open>writer_thread_func()\<close> (src/capture/block_recorder.cpp), cut into the
  single memory accesses they are made of. The steps of the two threads interleave freely,
  byte by byte, and the load of the other thread's cursor may return an old value, as an
  acquire load may: any value stored since the one this thread saw last. The theory shows that
  the two threads never access the same byte at once and that every history of the ring is one
  of the atomic operations of \<open>Spsc_Ring\<close>.
\<close>

section \<open>The two threads\<close>

text \<open>
  A copy to or from the ring is one or two calls of \<open>memcpy\<close>; a part counts the bytes its call
  has copied so far.
\<close>

datatype part = First nat | Second nat

definition first_part :: "spsc_ring \<Rightarrow> u64 \<Rightarrow> u64 \<Rightarrow> u64" where
  "first_part rg cursor n = min n (sr_capacity rg - (cursor AND sr_mask rg))"

text \<open>The index in the ring of the byte that is copied next; none when the call is through.\<close>

fun ring_at :: "spsc_ring \<Rightarrow> u64 \<Rightarrow> u64 \<Rightarrow> part \<Rightarrow> nat option" where
  "ring_at rg cursor n (First j) =
     (if j < unat (first_part rg cursor n) then Some (unat (cursor AND sr_mask rg) + j) else None)"
| "ring_at rg cursor n (Second j) =
     (if j < unat (n - first_part rg cursor n) then Some j else None)"

fun copied :: "spsc_ring \<Rightarrow> u64 \<Rightarrow> u64 \<Rightarrow> part \<Rightarrow> nat" where
  "copied rg cursor n (First j) = j"
| "copied rg cursor n (Second j) = unat (first_part rg cursor n) + j"

fun next_byte :: "part \<Rightarrow> part" where
  "next_byte (First j) = First (j + 1)"
| "next_byte (Second j) = Second (j + 1)"

text \<open>The test \<open>first < bytes\<close> between the calls.\<close>

fun next_call :: "spsc_ring \<Rightarrow> u64 \<Rightarrow> u64 \<Rightarrow> part \<Rightarrow> part option" where
  "next_call rg cursor n (First j) = (if first_part rg cursor n < n then Some (Second 0) else None)"
| "next_call rg cursor n (Second j) = None"

text \<open>Where \<open>push()\<close> and the drain loop are, with their local variables.\<close>

datatype producer =
    P_Idle
  | P_Check "u8 list" u64 u64
  | P_Copy "u8 list" u64 u64 part
  | P_Publish "u8 list" u64 u64

datatype consumer =
    C_Idle
  | C_Copy u64 u64 part
  | C_Publish u64 u64
  | C_Process

text \<open>
  \<open>si_ring\<close> is the shared memory. The logs are all values the cursors have had, in order,
  and \<open>si_seen_read\<close>, \<open>si_seen_write\<close> the positions in them the capture and the writer thread
  have seen. \<open>si_buffer\<close> and \<open>si_used\<close> are \<open>write_buffer_\<close> and \<open>buffer_used_\<close>. The last two
  fields are history: the bytes of the completed pushes and of the completed fetches.
\<close>

record si_state =
  si_ring :: spsc_ring
  si_write_log :: "u64 list"
  si_read_log :: "u64 list"
  si_seen_write :: nat
  si_seen_read :: nat
  si_producer :: producer
  si_consumer :: consumer
  si_buffer :: "u8 list"
  si_used :: u64
  si_accepted :: "u8 list"
  si_fetched :: "u8 list"

definition si_init :: "spsc_ring \<Rightarrow> u8 list \<Rightarrow> si_state" where
  "si_init rg wb =
     \<lparr>si_ring = rg, si_write_log = [sr_write rg], si_read_log = [sr_read rg], si_seen_write = 0,
      si_seen_read = 0, si_producer = P_Idle, si_consumer = C_Idle, si_buffer = wb, si_used = 0,
      si_accepted = [], si_fetched = []\<rparr>"

text \<open>
  The steps. \<open>Push\<close> enters \<open>push()\<close> and loads the thread's own cursor, \<open>Load_Read\<close> loads the
  other one and makes the test for room, \<open>Producer_Step\<close> copies a byte, goes on to the next
  call or stores the cursor. \<open>Load_Write\<close>, \<open>Writer_Step\<close> are the same for the writer thread;
  \<open>Process\<close> stands for what it does to its buffer before it comes back for more.
\<close>

datatype si_event =
    Push "u8 list" u64
  | Load_Read nat
  | Producer_Step
  | Load_Write nat
  | Writer_Step
  | Process "u8 list" u64

definition push_enter :: "si_state \<Rightarrow> u8 list \<Rightarrow> u64 \<Rightarrow> si_state outcome option" where
  "push_enter s data bytes =
     (if si_producer s = P_Idle
      then Some (Inr (s\<lparr>si_producer := P_Check data bytes (sr_write (si_ring s))\<rparr>))
      else None)"

definition push_check :: "si_state \<Rightarrow> nat \<Rightarrow> si_state outcome option" where
  "push_check s i =
     (case si_producer s of
        P_Check data bytes w \<Rightarrow>
          if si_seen_read s \<le> i \<and> i < length (si_read_log s)
          then let r = si_read_log s ! i;
                   used = w - r;
                   avail = sr_capacity (si_ring s) - used
               in Some (Inr (s\<lparr>si_seen_read := i,
                    si_producer := (if bytes > avail then P_Idle else P_Copy data bytes w (First 0))\<rparr>))
          else None
      | _ \<Rightarrow> None)"

definition push_step :: "si_state \<Rightarrow> si_state outcome option" where
  "push_step s =
     (let rg = si_ring s in
      case si_producer s of
        P_Copy data bytes w part \<Rightarrow>
          (case ring_at rg w bytes part of
             Some a \<Rightarrow>
               Some (obind (memcpy (sr_bytes rg) a data (copied rg w bytes part) 1) (\<lambda>ring.
                 Inr (s\<lparr>si_ring := rg\<lparr>sr_bytes := ring\<rparr>,
                        si_producer := P_Copy data bytes w (next_byte part)\<rparr>)))
           | None \<Rightarrow>
               Some (Inr (s\<lparr>si_producer :=
                 (case next_call rg w bytes part of
                    Some part2 \<Rightarrow> P_Copy data bytes w part2
                  | None \<Rightarrow> P_Publish data bytes w)\<rparr>)))
      | P_Publish data bytes w \<Rightarrow>
          Some (Inr (s\<lparr>si_ring := rg\<lparr>sr_write := w + bytes\<rparr>,
                       si_write_log := si_write_log s @ [w + bytes], si_producer := P_Idle,
                       si_accepted := si_accepted s @ take (unat bytes) data\<rparr>))
      | _ \<Rightarrow> None)"

definition fetch_check :: "si_state \<Rightarrow> nat \<Rightarrow> si_state outcome option" where
  "fetch_check s i =
     (if si_consumer s = C_Idle \<and> si_seen_write s \<le> i \<and> i < length (si_write_log s)
      then let w = si_write_log s ! i;
               r = sr_read (si_ring s);
               avail = w - r;
               chunk = min avail (of_nat (length (si_buffer s)) - si_used s)
           in Some (Inr (s\<lparr>si_seen_write := i,
                si_consumer := (if avail = 0 then C_Idle else C_Copy r chunk (First 0))\<rparr>))
      else None)"

definition fetch_step :: "si_state \<Rightarrow> si_state outcome option" where
  "fetch_step s =
     (let rg = si_ring s in
      case si_consumer s of
        C_Copy r chunk part \<Rightarrow>
          (case ring_at rg r chunk part of
             Some a \<Rightarrow>
               Some (obind (memcpy (si_buffer s) (unat (si_used s) + copied rg r chunk part)
                              (sr_bytes rg) a 1) (\<lambda>wb.
                 Inr (s\<lparr>si_buffer := wb, si_consumer := C_Copy r chunk (next_byte part)\<rparr>)))
           | None \<Rightarrow>
               Some (Inr (s\<lparr>si_consumer :=
                 (case next_call rg r chunk part of
                    Some part2 \<Rightarrow> C_Copy r chunk part2
                  | None \<Rightarrow> C_Publish r chunk)\<rparr>)))
      | C_Publish r chunk \<Rightarrow>
          Some (Inr (s\<lparr>si_used := si_used s + chunk, si_ring := rg\<lparr>sr_read := r + chunk\<rparr>,
                       si_read_log := si_read_log s @ [r + chunk], si_consumer := C_Process,
                       si_fetched := si_fetched s @
                         take (unat chunk) (drop (unat (si_used s)) (si_buffer s))\<rparr>))
      | _ \<Rightarrow> None)"

definition process_buffer :: "si_state \<Rightarrow> u8 list \<Rightarrow> u64 \<Rightarrow> si_state outcome option" where
  "process_buffer s wb used =
     (if si_consumer s = C_Process \<and> length wb = length (si_buffer s) \<and> unat used \<le> length wb
      then Some (Inr (s\<lparr>si_buffer := wb, si_used := used, si_consumer := C_Idle\<rparr>))
      else None)"

fun si_step :: "si_event \<Rightarrow> si_state \<Rightarrow> si_state outcome option" where
  "si_step (Push data bytes) s = push_enter s data bytes"
| "si_step (Load_Read i) s = push_check s i"
| "si_step Producer_Step s = push_step s"
| "si_step (Load_Write i) s = fetch_check s i"
| "si_step Writer_Step s = fetch_step s"
| "si_step (Process wb used) s = process_buffer s wb used"

text \<open>A run: \<open>None\<close> when an event is not possible where it stands.\<close>

fun si_run :: "si_event list \<Rightarrow> si_state \<Rightarrow> si_state outcome option" where
  "si_run [] s = Some (Inr s)"
| "si_run (e # es) s = pbind (si_step e s) (si_run es)"

lemma si_run_append: "si_run (es1 @ es2) s = pbind (si_run es1 s) (si_run es2)"
proof (induction es1 arbitrary: s)
  case (Cons e es1)
  then show ?case by (simp add: pbind_def split: option.split sum.split)
qed simp

text \<open>The byte of the ring the next step of each thread writes or reads.\<close>

definition next_write :: "si_state \<Rightarrow> nat option" where
  "next_write s = (case si_producer s of
     P_Copy data bytes w part \<Rightarrow> ring_at (si_ring s) w bytes part | _ \<Rightarrow> None)"

definition next_read :: "si_state \<Rightarrow> nat option" where
  "next_read s = (case si_consumer s of
     C_Copy r chunk part \<Rightarrow> ring_at (si_ring s) r chunk part | _ \<Rightarrow> None)"

section \<open>Positions of a copy\<close>

definition part_ok :: "spsc_ring \<Rightarrow> u64 \<Rightarrow> u64 \<Rightarrow> part \<Rightarrow> bool" where
  "part_ok rg cursor n part = (case part of
     First j \<Rightarrow> j \<le> unat (first_part rg cursor n)
   | Second j \<Rightarrow> first_part rg cursor n < n \<and> j \<le> unat (n - first_part rg cursor n))"

text \<open>A cursor at byte \<open>N\<close> of the stream, in a ring of \<open>c\<close> bytes.\<close>

definition ring_cursor :: "nat \<Rightarrow> spsc_ring \<Rightarrow> u64 \<Rightarrow> nat \<Rightarrow> bool" where
  "ring_cursor c rg cursor N \<longleftrightarrow>
     unat (sr_capacity rg) = c \<and> 0 < c \<and> unat (cursor AND sr_mask rg) = N mod c"

lemma unat_first_part:
  assumes "ring_cursor c rg cursor N"
  shows "unat (first_part rg cursor n) = min (unat n) (c - N mod c)"
proof -
  have "N mod c < c" using assms by (simp add: ring_cursor_def)
  then have "unat (sr_capacity rg - (cursor AND sr_mask rg)) = c - N mod c"
    using assms by (simp add: ring_cursor_def unat_sub_64 word_le_nat_alt)
  then show ?thesis by (simp add: first_part_def unat_min)
qed

lemma unat_second_part:
  "unat (n - first_part rg cursor n) = unat n - unat (first_part rg cursor n)"
  by (simp add: first_part_def unat_sub_64)

lemma ring_at_position:
  assumes cur: "ring_cursor c rg cursor N" and ok: "part_ok rg cursor n part"
    and a: "ring_at rg cursor n part = Some a" and n: "unat n \<le> c"
  shows "copied rg cursor n part < unat n" and "a = (N + copied rg cursor n part) mod c" and "a < c"
    and "part_ok rg cursor n (next_byte part)"
    and "copied rg cursor n (next_byte part) = Suc (copied rg cursor n part)"
proof -
  let ?f = "unat (first_part rg cursor n)"
  have f: "?f = min (unat n) (c - N mod c)" by (rule unat_first_part [OF cur])
  have p: "N mod c < c" "unat (cursor AND sr_mask rg) = N mod c"
    using cur by (simp_all add: ring_cursor_def)
  show m: "copied rg cursor n part < unat n"
    using a ok f by (cases part) (auto simp: unat_second_part part_ok_def split: if_splits)
  then have mc: "copied rg cursor n part < c" using n by linarith
  show "a = (N + copied rg cursor n part) mod c"
  proof (cases part)
    case (First j)
    then have "j < ?f" "a = N mod c + j" using a p(2) by (auto split: if_splits)
    moreover from this have "N mod c + j < c" using f p(1) by linarith
    ultimately show ?thesis using mod_add_cases [OF mc, of N] by (simp add: First)
  next
    case (Second j)
    have j: "?f < unat n" "a = j"
      using a ok by (auto simp: Second part_ok_def word_less_nat_alt split: if_splits)
    then have "?f = c - N mod c" using f by linarith
    then have "N mod c + (?f + j) = c + j" using p(1) by linarith
    then show ?thesis using mod_add_cases [OF mc, of N] j(2) by (simp add: Second)
  qed
  then show "a < c" using p(1) by simp
  show "part_ok rg cursor n (next_byte part)"
    "copied rg cursor n (next_byte part) = Suc (copied rg cursor n part)"
    using a ok by (cases part; auto simp: part_ok_def split: if_splits)+
qed

lemma next_call_position:
  assumes ok: "part_ok rg cursor n part" and a: "ring_at rg cursor n part = None"
  shows "next_call rg cursor n part = Some part2 \<Longrightarrow>
      part_ok rg cursor n part2 \<and> copied rg cursor n part2 = copied rg cursor n part"
    and "next_call rg cursor n part = None \<Longrightarrow> copied rg cursor n part = unat n"
proof -
  show "next_call rg cursor n part = Some part2 \<Longrightarrow>
      part_ok rg cursor n part2 \<and> copied rg cursor n part2 = copied rg cursor n part"
    using ok a by (cases part) (auto simp: part_ok_def split: if_splits)
  have f: "first_part rg cursor n \<le> n" by (simp add: first_part_def)
  then have le: "unat (first_part rg cursor n) \<le> unat n" by (simp add: word_le_nat_alt)
  show "copied rg cursor n part = unat n" if "next_call rg cursor n part = None"
  proof (cases part)
    case (First j)
    then have "first_part rg cursor n = n" using that f by (simp split: if_splits)
    then show ?thesis using ok a by (simp add: First part_ok_def split: if_splits)
  next
    case (Second j)
    then show ?thesis using ok a le by (simp add: unat_second_part part_ok_def split: if_splits)
  qed
qed

lemma part_start: "part_ok rg cursor n (First 0)" "copied rg cursor n (First 0) = 0"
  by (simp_all add: part_ok_def)

text \<open>Nothing of this depends on the bytes or the cursors of the ring.\<close>

lemma first_part_update [simp]:
  "first_part (rg\<lparr>sr_bytes := bs\<rparr>) cursor n = first_part rg cursor n"
  "first_part (rg\<lparr>sr_write := w\<rparr>) cursor n = first_part rg cursor n"
  "first_part (rg\<lparr>sr_read := r\<rparr>) cursor n = first_part rg cursor n"
  by (simp_all add: first_part_def)

lemma copied_update [simp]:
  "copied (rg\<lparr>sr_bytes := bs\<rparr>) cursor n part = copied rg cursor n part"
  "copied (rg\<lparr>sr_write := w\<rparr>) cursor n part = copied rg cursor n part"
  "copied (rg\<lparr>sr_read := r\<rparr>) cursor n part = copied rg cursor n part"
  by (cases part; simp)+

lemma part_ok_update [simp]:
  "part_ok (rg\<lparr>sr_bytes := bs\<rparr>) cursor n part = part_ok rg cursor n part"
  "part_ok (rg\<lparr>sr_write := w\<rparr>) cursor n part = part_ok rg cursor n part"
  "part_ok (rg\<lparr>sr_read := r\<rparr>) cursor n part = part_ok rg cursor n part"
  by (cases part; simp add: part_ok_def)+

section \<open>The invariant\<close>

text \<open>
  The values stored to a cursor are the positions \<open>ns\<close> of the stream, in ascending order, the
  last one being \<open>N\<close>.
\<close>

definition log_ok :: "u64 list \<Rightarrow> nat \<Rightarrow> nat list \<Rightarrow> nat \<Rightarrow> bool" where
  "log_ok cursors seen ns N \<longleftrightarrow>
     cursors = map of_nat ns \<and> sorted ns \<and> seen < length ns \<and> last ns = N"

lemma log_ok_load:
  assumes "log_ok cursors seen ns N" and "seen \<le> i" and "i < length cursors"
  shows "cursors ! i = of_nat (ns ! i)" and "ns ! seen \<le> ns ! i" and "ns ! i \<le> N"
    and "log_ok cursors i ns N"
proof -
  have i: "i < length ns" "sorted ns" "last ns = N" "ns \<noteq> []"
    using assms by (auto simp: log_ok_def)
  show "cursors ! i = of_nat (ns ! i)" "log_ok cursors i ns N"
    using assms by (auto simp: log_ok_def)
  show "ns ! seen \<le> ns ! i" using assms(2) i by (simp add: sorted_iff_nth_mono)
  have "ns ! i \<le> ns ! (length ns - 1)" using i by (intro sorted_nth_mono) simp_all
  then show "ns ! i \<le> N" using i by (simp add: last_conv_nth)
qed

lemma log_ok_store:
  assumes "log_ok cursors seen ns N" and "N \<le> M"
  shows "log_ok (cursors @ [of_nat M]) seen (ns @ [M]) M" and "(ns @ [M]) ! seen = ns ! seen"
proof -
  have ns: "sorted ns" "seen < length ns" "last ns = N" "ns \<noteq> []"
    using assms(1) by (auto simp: log_ok_def)
  have "x \<le> M" if mem: "x \<in> set ns" for x
  proof -
    obtain i where i: "i < length ns" "x = ns ! i" using mem by (auto simp: in_set_conv_nth)
    have "ns ! i \<le> ns ! (length ns - 1)" using ns i by (intro sorted_nth_mono) simp_all
    then show ?thesis using i ns assms(2) by (simp add: last_conv_nth)
  qed
  then show "log_ok (cursors @ [of_nat M]) seen (ns @ [M]) M"
    using assms(1) ns by (auto simp: log_ok_def sorted_append)
  show "(ns @ [M]) ! seen = ns ! seen" using ns by (simp add: nth_append)
qed

text \<open>
  \<open>push()\<close> has put the first \<open>m\<close> bytes of its data behind the stream \<open>A\<close>, and there is room
  for all of them before position \<open>lim\<close> comes round again.
\<close>

definition pushing :: "nat \<Rightarrow> u8 list \<Rightarrow> nat \<Rightarrow> spsc_ring \<Rightarrow> u8 list \<Rightarrow> u64 \<Rightarrow> u64 \<Rightarrow> nat \<Rightarrow> bool" where
  "pushing c A lim rg data bytes w m \<longleftrightarrow>
     w = of_nat (length A) \<and> unat bytes \<le> length data \<and> length A + unat bytes \<le> lim + c \<and>
     (\<forall>k<m. sr_bytes rg ! ((length A + k) mod c) = data ! k)"

fun producer_ok :: "nat \<Rightarrow> u8 list \<Rightarrow> nat \<Rightarrow> spsc_ring \<Rightarrow> producer \<Rightarrow> bool" where
  "producer_ok c A lim rg P_Idle = True"
| "producer_ok c A lim rg (P_Check data bytes w) \<longleftrightarrow>
     w = of_nat (length A) \<and> unat bytes \<le> length data"
| "producer_ok c A lim rg (P_Copy data bytes w part) \<longleftrightarrow>
     part_ok rg w bytes part \<and> pushing c A lim rg data bytes w (copied rg w bytes part)"
| "producer_ok c A lim rg (P_Publish data bytes w) \<longleftrightarrow>
     pushing c A lim rg data bytes w (unat bytes)"

text \<open>The writer thread has copied \<open>m\<close> bytes from position \<open>R\<close> on, of those before \<open>lim\<close>.\<close>

definition fetching :: "u8 list \<Rightarrow> nat \<Rightarrow> nat \<Rightarrow> u8 list \<Rightarrow> u64 \<Rightarrow> u64 \<Rightarrow> u64 \<Rightarrow> nat \<Rightarrow> bool" where
  "fetching A R lim wb used r chunk m \<longleftrightarrow>
     r = of_nat R \<and> R + unat chunk \<le> lim \<and> unat used + unat chunk \<le> length wb \<and>
     (\<forall>k<m. wb ! (unat used + k) = A ! (R + k))"

fun consumer_ok ::
  "u8 list \<Rightarrow> nat \<Rightarrow> nat \<Rightarrow> spsc_ring \<Rightarrow> u8 list \<Rightarrow> u64 \<Rightarrow> consumer \<Rightarrow> bool" where
  "consumer_ok A R lim rg wb used (C_Copy r chunk part) \<longleftrightarrow>
     part_ok rg r chunk part \<and> fetching A R lim wb used r chunk (copied rg r chunk part)"
| "consumer_ok A R lim rg wb used (C_Publish r chunk) \<longleftrightarrow>
     fetching A R lim wb used r chunk (unat chunk)"
| "consumer_ok A R lim rg wb used C_Idle = True"
| "consumer_ok A R lim rg wb used C_Process = True"

definition si_inv :: "nat \<Rightarrow> nat list \<Rightarrow> nat list \<Rightarrow> si_state \<Rightarrow> bool" where
  "si_inv c ws rs s \<longleftrightarrow>
     unat (sr_capacity (si_ring s)) = c \<and>
     sr_holds (si_accepted s) (length (si_fetched s)) (si_ring s) \<and>
     si_fetched s = take (length (si_fetched s)) (si_accepted s) \<and>
     log_ok (si_write_log s) (si_seen_write s) ws (length (si_accepted s)) \<and>
     length (si_fetched s) \<le> ws ! si_seen_write s \<and>
     log_ok (si_read_log s) (si_seen_read s) rs (length (si_fetched s)) \<and>
     length (si_accepted s) \<le> rs ! si_seen_read s + c \<and>
     unat (si_used s) \<le> length (si_buffer s) \<and> length (si_buffer s) < 2 ^ 64 \<and>
     producer_ok c (si_accepted s) (rs ! si_seen_read s) (si_ring s) (si_producer s) \<and>
     consumer_ok (si_accepted s) (length (si_fetched s)) (ws ! si_seen_write s) (si_ring s)
       (si_buffer s) (si_used s) (si_consumer s)"

lemma si_invD:
  assumes "si_inv c ws rs s"
  shows "unat (sr_capacity (si_ring s)) = c"
    and "sr_holds (si_accepted s) (length (si_fetched s)) (si_ring s)"
    and "si_fetched s = take (length (si_fetched s)) (si_accepted s)"
    and "log_ok (si_write_log s) (si_seen_write s) ws (length (si_accepted s))"
    and "length (si_fetched s) \<le> ws ! si_seen_write s"
    and "log_ok (si_read_log s) (si_seen_read s) rs (length (si_fetched s))"
    and "length (si_accepted s) \<le> rs ! si_seen_read s + c"
    and "unat (si_used s) \<le> length (si_buffer s)" and "length (si_buffer s) < 2 ^ 64"
    and "producer_ok c (si_accepted s) (rs ! si_seen_read s) (si_ring s) (si_producer s)"
    and "consumer_ok (si_accepted s) (length (si_fetched s)) (ws ! si_seen_write s) (si_ring s)
       (si_buffer s) (si_used s) (si_consumer s)"
    and "0 < c" and "c < 2 ^ 63" and "length (sr_bytes (si_ring s)) = c"
    and "length (si_fetched s) \<le> length (si_accepted s)"
    and "ws ! si_seen_write s \<le> length (si_accepted s)"
    and "rs ! si_seen_read s \<le> length (si_fetched s)"
proof -
  show h: "unat (sr_capacity (si_ring s)) = c"
    "sr_holds (si_accepted s) (length (si_fetched s)) (si_ring s)"
    "si_fetched s = take (length (si_fetched s)) (si_accepted s)"
    "log_ok (si_write_log s) (si_seen_write s) ws (length (si_accepted s))"
    "length (si_fetched s) \<le> ws ! si_seen_write s"
    "log_ok (si_read_log s) (si_seen_read s) rs (length (si_fetched s))"
    "length (si_accepted s) \<le> rs ! si_seen_read s + c"
    "unat (si_used s) \<le> length (si_buffer s)" "length (si_buffer s) < 2 ^ 64"
    "producer_ok c (si_accepted s) (rs ! si_seen_read s) (si_ring s) (si_producer s)"
    "consumer_ok (si_accepted s) (length (si_fetched s)) (ws ! si_seen_write s) (si_ring s)
       (si_buffer s) (si_used s) (si_consumer s)"
    using assms unfolding si_inv_def by - (elim conjE, assumption)+
  show "0 < c" "c < 2 ^ 63" "length (sr_bytes (si_ring s)) = c"
    "length (si_fetched s) \<le> length (si_accepted s)"
    using sr_holdsD(1-4) [OF h(2)] h(1) by simp_all
  have "si_seen_write s < length (si_write_log s)" "si_seen_read s < length (si_read_log s)"
    using h(4,6) by (auto simp: log_ok_def)
  then show "ws ! si_seen_write s \<le> length (si_accepted s)"
    "rs ! si_seen_read s \<le> length (si_fetched s)"
    using log_ok_load(3) [OF h(4) order_refl] log_ok_load(3) [OF h(6) order_refl] by simp_all
qed

lemma si_cursors:
  assumes "si_inv c ws rs s"
  shows "ring_cursor c (si_ring s) (of_nat (length (si_accepted s))) (length (si_accepted s))"
    and "ring_cursor c (si_ring s) (of_nat (length (si_fetched s))) (length (si_fetched s))"
proof -
  note I = si_invD [OF assms]
  have "sr_write (si_ring s) = of_nat (length (si_accepted s))"
    "sr_read (si_ring s) = of_nat (length (si_fetched s))"
    using I(2) by (simp_all add: sr_holds_def)
  then show "ring_cursor c (si_ring s) (of_nat (length (si_accepted s))) (length (si_accepted s))"
    "ring_cursor c (si_ring s) (of_nat (length (si_fetched s))) (length (si_fetched s))"
    using sr_holdsD(6,7) [OF I(2)] I(1,12) by (simp_all add: ring_cursor_def)
qed

section \<open>Every step keeps the invariant\<close>

lemma si_invI:
  assumes "unat (sr_capacity (si_ring s)) = c"
    and "sr_holds (si_accepted s) (length (si_fetched s)) (si_ring s)"
    and "si_fetched s = take (length (si_fetched s)) (si_accepted s)"
    and "log_ok (si_write_log s) (si_seen_write s) ws (length (si_accepted s))"
    and "length (si_fetched s) \<le> ws ! si_seen_write s"
    and "log_ok (si_read_log s) (si_seen_read s) rs (length (si_fetched s))"
    and "length (si_accepted s) \<le> rs ! si_seen_read s + c"
    and "unat (si_used s) \<le> length (si_buffer s)" and "length (si_buffer s) < 2 ^ 64"
    and "producer_ok c (si_accepted s) (rs ! si_seen_read s) (si_ring s) (si_producer s)"
    and "consumer_ok (si_accepted s) (length (si_fetched s)) (ws ! si_seen_write s) (si_ring s)
       (si_buffer s) (si_used s) (si_consumer s)"
  shows "si_inv c ws rs s"
  unfolding si_inv_def by (intro conjI assms)

text \<open>A new byte behind the stream touches none of the stream that is still in the ring.\<close>

lemma sr_holds_free_byte:
  assumes h: "sr_holds A R rg" and c: "unat (sr_capacity rg) = c"
    and m: "length A + m < R + c"
  shows "sr_holds A R (rg\<lparr>sr_bytes := (sr_bytes rg)[(length A + m) mod c := b]\<rparr>)"
proof -
  have win: "ring_window c A R (sr_bytes rg)" using h c by (simp add: sr_holds_def)
  have "(sr_bytes rg)[(length A + m) mod c := b] ! (i mod c) = A ! i" if "R \<le> i" "i < length A" for i
  proof -
    have "i mod c \<noteq> (length A + m) mod c"
      by (rule mod_window_distinct) (use that m in linarith)+
    then have "(sr_bytes rg)[(length A + m) mod c := b] ! (i mod c) = sr_bytes rg ! (i mod c)"
      by (intro nth_list_update_neq) simp
    with that win show ?thesis by (simp add: ring_window_def)
  qed
  then have "ring_window c A R ((sr_bytes rg)[(length A + m) mod c := b])"
    using win by (simp add: ring_window_def)
  then show ?thesis using h c by (simp add: sr_holds_def)
qed

lemma pushing_byte:
  assumes p: "pushing c A lim rg data bytes w m" and m: "m < unat bytes" and c: "m < c"
    and len: "length (sr_bytes rg) = c"
  shows "pushing c A lim (rg\<lparr>sr_bytes := (sr_bytes rg)[(length A + m) mod c := data ! m]\<rparr>)
     data bytes w (Suc m)"
proof -
  have "(sr_bytes rg)[(length A + m) mod c := data ! m] ! ((length A + k) mod c) = data ! k"
    if k: "k < Suc m" for k
  proof (cases "k = m")
    case True
    have "(length A + m) mod c < c" using c by simp
    then show ?thesis by (simp add: True len)
  next
    case False
    then have "(length A + k) mod c \<noteq> (length A + m) mod c"
      by (intro mod_window_distinct) (use k c in linarith)+
    then show ?thesis using p k False by (simp add: pushing_def less_Suc_eq)
  qed
  then show ?thesis using p by (simp add: pushing_def)
qed

lemma consumer_ok_ring:
  "consumer_ok A R lim (rg\<lparr>sr_bytes := bs\<rparr>) wb used pc = consumer_ok A R lim rg wb used pc"
  "consumer_ok A R lim (rg\<lparr>sr_write := w\<rparr>) wb used pc = consumer_ok A R lim rg wb used pc"
  by (cases pc; simp)+

lemma producer_ok_ring:
  "producer_ok c A lim (rg\<lparr>sr_read := r\<rparr>) pc = producer_ok c A lim rg pc"
  by (cases pc) (simp_all add: pushing_def)

lemma fetching_append:
  assumes "fetching A R lim wb used r chunk m" and "lim \<le> length A" and "m \<le> unat chunk"
  shows "fetching (A @ xs) R lim wb used r chunk m"
  using assms by (auto simp: fetching_def nth_append)

lemma part_copied_le:
  assumes "part_ok rg cursor n part"
  shows "copied rg cursor n part \<le> unat n"
proof -
  have f: "first_part rg cursor n \<le> n" by (simp add: first_part_def)
  then show ?thesis
    using assms by (cases part) (auto simp: part_ok_def word_le_nat_alt unat_second_part)
qed

lemma consumer_ok_append:
  assumes "consumer_ok A R lim rg wb used pc" and "lim \<le> length A"
  shows "consumer_ok (A @ xs) R lim rg wb used pc"
  using assms by (cases pc) (auto intro: fetching_append part_copied_le)

lemma consumer_ok_lim:
  "consumer_ok A R lim rg wb used pc \<Longrightarrow> lim \<le> lim' \<Longrightarrow> consumer_ok A R lim' rg wb used pc"
  by (cases pc) (auto simp: fetching_def)

lemma producer_ok_lim:
  "producer_ok c A lim rg pc \<Longrightarrow> lim \<le> lim' \<Longrightarrow> producer_ok c A lim' rg pc"
  by (cases pc) (auto simp: pushing_def)

lemma push_enter_inv:
  assumes inv: "si_inv c ws rs s" and step: "push_enter s data bytes = Some res"
    and data: "unat bytes \<le> length data"
  shows "\<exists>s'. res = Inr s' \<and> si_inv c ws rs s'"
proof -
  note I = si_invD [OF inv]
  have s': "res = Inr (s\<lparr>si_producer := P_Check data bytes (sr_write (si_ring s))\<rparr>)"
    using step by (simp add: push_enter_def split: if_splits)
  have "sr_write (si_ring s) = of_nat (length (si_accepted s))" using I(2) by (simp add: sr_holds_def)
  then have "si_inv c ws rs (s\<lparr>si_producer := P_Check data bytes (sr_write (si_ring s))\<rparr>)"
    by (intro si_invI; use I data in simp)
  with s' show ?thesis by blast
qed

text \<open>The test for room: a stale read cursor only makes the ring look fuller than it is.\<close>

lemma room_for_push:
  assumes "w = (of_nat a :: u64)" and "r = of_nat b" and "b \<le> a" and "a \<le> b + unat cap" and "unat cap < 2 ^ 63"
  shows "\<not> cap - (w - r) < bytes \<longleftrightarrow> a + unat bytes \<le> b + unat cap"
proof -
  have "w - r = of_nat (a - b)" using assms(1-3) by (simp add: of_nat_diff)
  moreover have "a - b < 2 ^ 64" using assms(3-5) by simp
  ultimately have u: "unat (w - r) = a - b" by (metis unat_of_nat_64)
  then have "unat (cap - (w - r)) = unat cap - (a - b)"
    using assms(4) by (simp add: unat_sub_64 word_le_nat_alt)
  then show ?thesis using assms(3,4) by (simp add: word_less_nat_alt) linarith
qed

lemma push_check_inv:
  assumes inv: "si_inv c ws rs s" and step: "push_check s i = Some res"
  shows "\<exists>s'. res = Inr s' \<and> si_inv c ws rs s'"
proof -
  note I = si_invD [OF inv]
  obtain data bytes w where pc: "si_producer s = P_Check data bytes w"
    and i: "si_seen_read s \<le> i" "i < length (si_read_log s)"
    and res: "res = Inr (s\<lparr>si_seen_read := i,
        si_producer := (if bytes > sr_capacity (si_ring s) - (w - si_read_log s ! i) then P_Idle
                        else P_Copy data bytes w (First 0))\<rparr>)"
    using step by (auto simp: push_check_def Let_def split: producer.splits if_splits)
  note L = log_ok_load [OF I(6) i]
  let ?pc = "if bytes > sr_capacity (si_ring s) - (w - si_read_log s ! i) then P_Idle
             else P_Copy data bytes w (First 0)"
  have w: "w = of_nat (length (si_accepted s))" "unat bytes \<le> length data"
    using I(10) by (simp_all add: pc)
  have room: "length (si_accepted s) \<le> rs ! i + c" using I(7) L(2) by linarith
  have le: "rs ! i \<le> length (si_accepted s)" using L(3) I(15) by linarith
  have "\<not> bytes > sr_capacity (si_ring s) - (w - si_read_log s ! i) \<longleftrightarrow>
      length (si_accepted s) + unat bytes \<le> rs ! i + c"
    using room_for_push [OF w(1) L(1) le, of "sr_capacity (si_ring s)" bytes] room I(1,13) by simp
  then have "producer_ok c (si_accepted s) (rs ! i) (si_ring s) ?pc"
    using w by (auto simp: pushing_def part_start)
  then have "si_inv c ws rs (s\<lparr>si_seen_read := i, si_producer := ?pc\<rparr>)"
    by (intro si_invI) (use I(1-5,8,9,11) L(4) room in simp_all)
  with res show ?thesis by blast
qed

lemma push_step_inv:
  assumes inv: "si_inv c ws rs s" and step: "push_step s = Some res"
  shows "\<exists>s' ws'. res = Inr s' \<and> si_inv c ws' rs s'"
proof (cases "si_producer s")
  case (P_Copy data bytes w part)
  note I = si_invD [OF inv]
  let ?rg = "si_ring s" and ?A = "si_accepted s"
  let ?m = "copied ?rg w bytes part"
  have ok: "part_ok ?rg w bytes part"
    and pushing: "pushing c ?A (rs ! si_seen_read s) ?rg data bytes w ?m"
    using I(10) by (simp_all add: P_Copy)
  then have w: "w = of_nat (length ?A)" and data: "unat bytes \<le> length data"
    and room: "length ?A + unat bytes \<le> rs ! si_seen_read s + c"
    by (simp_all add: pushing_def)
  have n: "unat bytes \<le> c" using room I(15,17) by linarith
  show ?thesis
  proof (cases "ring_at ?rg w bytes part")
    case None
    let ?pc = "case next_call ?rg w bytes part of
        Some part2 \<Rightarrow> P_Copy data bytes w part2 | None \<Rightarrow> P_Publish data bytes w"
    have "producer_ok c ?A (rs ! si_seen_read s) ?rg ?pc"
      using next_call_position [OF ok None] pushing by (auto split: option.splits)
    then have "si_inv c ws rs (s\<lparr>si_producer := ?pc\<rparr>)"
      by (intro si_invI) (use I(1-9,11) in simp_all)
    moreover have "res = Inr (s\<lparr>si_producer := ?pc\<rparr>)"
      using step by (simp add: push_step_def Let_def P_Copy None)
    ultimately show ?thesis by blast
  next
    case (Some a)
    note pos = ring_at_position [OF si_cursors(1) [OF inv, folded w] ok Some n]
    let ?bs = "(sr_bytes ?rg)[a := data ! ?m]"
    let ?s = "s\<lparr>si_ring := ?rg\<lparr>sr_bytes := ?bs\<rparr>,
      si_producer := P_Copy data bytes w (next_byte part)\<rparr>"
    have "memcpy (sr_bytes ?rg) a data ?m 1 = Inr ?bs"
      by (rule memcpy_byte) (use pos I(14) data in simp_all)
    then have res: "res = Inr ?s" using step by (simp add: push_step_def Let_def P_Copy Some)
    have lim: "length ?A + ?m < length (si_fetched s) + c" using room pos(1) I(17) by linarith
    have "?m < c" using pos(1) n by linarith
    then have "pushing c ?A (rs ! si_seen_read s) (?rg\<lparr>sr_bytes := ?bs\<rparr>) data bytes w (Suc ?m)"
      unfolding pos(2) by (intro pushing_byte) (use pushing pos(1) I(14) in simp_all)
    moreover have "sr_holds ?A (length (si_fetched s)) (?rg\<lparr>sr_bytes := ?bs\<rparr>)"
      unfolding pos(2) by (rule sr_holds_free_byte) (use I(1,2) lim in simp_all)
    ultimately have "si_inv c ws rs ?s"
      by (intro si_invI) (use I(1,3-9,11) pos(4,5) in \<open>simp_all add: consumer_ok_ring\<close>)
    with res show ?thesis by blast
  qed
next
  case (P_Publish data bytes w)
  note I = si_invD [OF inv]
  let ?rg = "si_ring s" and ?A = "si_accepted s" and ?R = "length (si_fetched s)"
  let ?new = "take (unat bytes) data"
  have pushing: "pushing c ?A (rs ! si_seen_read s) ?rg data bytes w (unat bytes)"
    using I(10) by (simp add: P_Publish)
  then have w: "w = of_nat (length ?A)" and data: "unat bytes \<le> length data"
    and room: "length ?A + unat bytes \<le> rs ! si_seen_read s + c"
    and bs: "\<And>k. k < unat bytes \<Longrightarrow> sr_bytes ?rg ! ((length ?A + k) mod c) = data ! k"
    by (simp_all add: pushing_def)
  have len: "length (?A @ ?new) = length ?A + unat bytes" using data by simp
  have w': "w + bytes = of_nat (length (?A @ ?new))" by (simp add: w data)
  let ?s = "s\<lparr>si_ring := ?rg\<lparr>sr_write := w + bytes\<rparr>, si_write_log := si_write_log s @ [w + bytes],
    si_producer := P_Idle, si_accepted := ?A @ ?new\<rparr>"
  have res: "res = Inr ?s" using step by (simp add: push_step_def Let_def P_Publish)
  have "sr_bytes ?rg ! (i mod c) = (?A @ ?new) ! i" if i: "?R \<le> i" "i < length (?A @ ?new)" for i
  proof (cases "i < length ?A")
    case True
    with I(1,2) i show ?thesis by (simp add: sr_holds_def ring_window_def nth_append)
  next
    case False
    then have "i = length ?A + (i - length ?A)" "i - length ?A < unat bytes" using i len by linarith+
    then show ?thesis using bs [of "i - length ?A"] False by (simp add: nth_append)
  qed
  then have "ring_window c (?A @ ?new) ?R (sr_bytes ?rg)"
    using I(14,15,17) room len by (simp add: ring_window_def)
  then have holds: "sr_holds (?A @ ?new) ?R (?rg\<lparr>sr_write := w + bytes\<rparr>)"
    using I(1,2) w' by (simp add: sr_holds_def)
  have le: "length ?A \<le> length (?A @ ?new)" by simp
  note L = log_ok_store [OF I(4) le, folded w']
  have "si_inv c (ws @ [length (?A @ ?new)]) rs ?s"
  proof (rule si_invI)
    show "si_fetched ?s = take (length (si_fetched ?s)) (si_accepted ?s)"
      using I(3,15) by simp
    show "length (si_accepted ?s) \<le> rs ! si_seen_read ?s + c" using room len by simp
    show "consumer_ok (si_accepted ?s) (length (si_fetched ?s))
        ((ws @ [length (?A @ ?new)]) ! si_seen_write ?s) (si_ring ?s) (si_buffer ?s) (si_used ?s)
        (si_consumer ?s)"
      using consumer_ok_append [OF I(11,16)] L(2) by (simp add: consumer_ok_ring)
  qed (use I(1,5,6,8,9) L holds in simp_all)
  with res show ?thesis by blast
qed (use step in \<open>simp_all add: push_step_def Let_def\<close>)

lemma filled_for_fetch:
  assumes "w = (of_nat a :: u64)" and "r = of_nat b" and "b \<le> a" and "a - b < 2 ^ 63"
  shows "unat (w - r) = a - b"
proof -
  have "w - r = of_nat (a - b)" using assms(1-3) by (simp add: of_nat_diff)
  moreover have "a - b < 2 ^ 64" using assms(4) by simp
  ultimately show ?thesis by (metis unat_of_nat_64)
qed

lemma fetch_check_inv:
  assumes inv: "si_inv c ws rs s" and step: "fetch_check s i = Some res"
  shows "\<exists>s'. res = Inr s' \<and> si_inv c ws rs s'"
proof -
  note I = si_invD [OF inv]
  let ?R = "length (si_fetched s)"
  let ?avail = "si_write_log s ! i - sr_read (si_ring s)"
  let ?chunk = "min ?avail (of_nat (length (si_buffer s)) - si_used s)"
  let ?pc = "if ?avail = 0 then C_Idle else C_Copy (sr_read (si_ring s)) ?chunk (First 0)"
  have i: "si_seen_write s \<le> i" "i < length (si_write_log s)"
    and res: "res = Inr (s\<lparr>si_seen_write := i, si_consumer := ?pc\<rparr>)"
    using step by (auto simp: fetch_check_def Let_def split: if_splits)
  note L = log_ok_load [OF I(4) i]
  have r: "sr_read (si_ring s) = of_nat ?R" using I(2) by (simp add: sr_holds_def)
  have le: "?R \<le> ws ! i" using I(5) L(2) by linarith
  have "ws ! i - ?R < 2 ^ 63" using L(3) I(7,13,17) by linarith
  then have avail: "unat ?avail = ws ! i - ?R" by (rule filled_for_fetch [OF L(1) r le])
  have space: "unat (of_nat (length (si_buffer s)) - si_used s) = length (si_buffer s) - unat (si_used s)"
    using I(8,9) by (simp add: unat_sub_64 word_le_nat_alt unat_of_nat_64)
  have "?R + unat ?chunk \<le> ws ! i" "unat (si_used s) + unat ?chunk \<le> length (si_buffer s)"
    using avail space le I(8) by (simp_all add: unat_min)
  then have "consumer_ok (si_accepted s) ?R (ws ! i) (si_ring s) (si_buffer s) (si_used s) ?pc"
    using r by (simp add: fetching_def part_start)
  then have "si_inv c ws rs (s\<lparr>si_seen_write := i, si_consumer := ?pc\<rparr>)"
    by (intro si_invI) (use I(1-3,6-10) L(4) le in simp_all)
  with res show ?thesis by blast
qed

lemma fetch_step_inv:
  assumes inv: "si_inv c ws rs s" and step: "fetch_step s = Some res"
  shows "\<exists>s' rs'. res = Inr s' \<and> si_inv c ws rs' s'"
proof (cases "si_consumer s")
  case (C_Copy r chunk part)
  note I = si_invD [OF inv]
  let ?rg = "si_ring s" and ?A = "si_accepted s" and ?R = "length (si_fetched s)"
  let ?m = "copied ?rg r chunk part" and ?used = "unat (si_used s)"
  have ok: "part_ok ?rg r chunk part"
    and f: "fetching ?A ?R (ws ! si_seen_write s) (si_buffer s) (si_used s) r chunk ?m"
    using I(11) by (simp_all add: C_Copy)
  then have r: "r = of_nat ?R" and lim: "?R + unat chunk \<le> ws ! si_seen_write s"
    and room: "?used + unat chunk \<le> length (si_buffer s)"
    and bs: "\<And>k. k < ?m \<Longrightarrow> si_buffer s ! (?used + k) = ?A ! (?R + k)"
    by (simp_all add: fetching_def)
  have win: "ring_window c ?A ?R (sr_bytes ?rg)" using I(1,2) by (simp add: sr_holds_def)
  have n: "unat chunk \<le> c" using lim I(7,16,17) by linarith
  show ?thesis
  proof (cases "ring_at ?rg r chunk part")
    case None
    let ?pc = "case next_call ?rg r chunk part of
        Some part2 \<Rightarrow> C_Copy r chunk part2 | None \<Rightarrow> C_Publish r chunk"
    have "consumer_ok ?A ?R (ws ! si_seen_write s) ?rg (si_buffer s) (si_used s) ?pc"
      using next_call_position [OF ok None] f by (auto split: option.splits)
    then have "si_inv c ws rs (s\<lparr>si_consumer := ?pc\<rparr>)"
      by (intro si_invI) (use I(1-10) in simp_all)
    moreover have "res = Inr (s\<lparr>si_consumer := ?pc\<rparr>)"
      using step by (simp add: fetch_step_def Let_def C_Copy None)
    ultimately show ?thesis by blast
  next
    case (Some a)
    note pos = ring_at_position [OF si_cursors(2) [OF inv, folded r] ok Some n]
    have "sr_bytes ?rg ! a = ?A ! (?R + ?m)"
      unfolding pos(2) using win pos(1) lim I(16) by (simp add: ring_window_def)
    let ?wb = "(si_buffer s)[?used + ?m := sr_bytes ?rg ! a]"
    let ?s = "s\<lparr>si_buffer := ?wb, si_consumer := C_Copy r chunk (next_byte part)\<rparr>"
    have "memcpy (si_buffer s) (?used + ?m) (sr_bytes ?rg) a 1 = Inr ?wb"
      by (rule memcpy_byte) (use pos I(14) room in simp_all)
    then have res: "res = Inr ?s" using step by (simp add: fetch_step_def Let_def C_Copy Some)
    have "?wb ! (?used + k) = ?A ! (?R + k)" if "k < Suc ?m" for k
      using that bs [of k] pos(1) room \<open>sr_bytes ?rg ! a = _\<close>
      by (cases "k = ?m") (simp_all add: nth_list_update)
    then have "fetching ?A ?R (ws ! si_seen_write s) ?wb (si_used s) r chunk (Suc ?m)"
      using r lim room by (simp add: fetching_def)
    then have "si_inv c ws rs ?s"
      by (intro si_invI) (use I(1-10) pos(4,5) in simp_all)
    with res show ?thesis by blast
  qed
next
  case (C_Publish r chunk)
  note I = si_invD [OF inv]
  let ?rg = "si_ring s" and ?A = "si_accepted s" and ?R = "length (si_fetched s)"
  let ?used = "unat (si_used s)"
  let ?new = "take (unat chunk) (drop ?used (si_buffer s))"
  have f: "fetching ?A ?R (ws ! si_seen_write s) (si_buffer s) (si_used s) r chunk (unat chunk)"
    using I(11) by (simp add: C_Publish)
  then have r: "r = of_nat ?R" and lim: "?R + unat chunk \<le> ws ! si_seen_write s"
    and room: "?used + unat chunk \<le> length (si_buffer s)"
    and bs: "\<And>k. k < unat chunk \<Longrightarrow> si_buffer s ! (?used + k) = ?A ! (?R + k)"
    by (simp_all add: fetching_def)
  have len: "length (si_fetched s @ ?new) = ?R + unat chunk" using room by simp
  have "?new = take (unat chunk) (drop ?R ?A)"
    using room lim I(16) bs by (intro nth_equalityI) simp_all
  then have new: "si_fetched s @ ?new = take (?R + unat chunk) ?A"
    using I(3) by (simp add: take_add)
  have r': "r + chunk = of_nat (length (si_fetched s @ ?new))" unfolding len by (simp add: r)
  let ?s = "s\<lparr>si_used := si_used s + chunk, si_ring := ?rg\<lparr>sr_read := r + chunk\<rparr>,
    si_read_log := si_read_log s @ [r + chunk], si_consumer := C_Process,
    si_fetched := si_fetched s @ ?new\<rparr>"
  have res: "res = Inr ?s" using step by (simp add: fetch_step_def Let_def C_Publish)
  have used: "unat (si_used s + chunk) = ?used + unat chunk"
    by (rule unat_add_64) (use room I(9) in linarith)
  have le: "?R \<le> length (si_fetched s @ ?new)" by simp
  note L = log_ok_store [OF I(6) le, folded r']
  have "ring_window c ?A (?R + unat chunk) (sr_bytes ?rg)"
    using I(1,2,16) lim by (auto simp: sr_holds_def ring_window_def)
  then have holds: "sr_holds ?A (length (si_fetched s @ ?new)) (?rg\<lparr>sr_read := r + chunk\<rparr>)"
    using I(1,2) r' unfolding len by (simp add: sr_holds_def)
  have "si_inv c ws (rs @ [length (si_fetched s @ ?new)]) ?s"
  proof (rule si_invI)
    show "si_fetched ?s = take (length (si_fetched ?s)) (si_accepted ?s)"
      using new len by simp
    show "length (si_fetched ?s) \<le> ws ! si_seen_write ?s" using lim len by simp
    show "unat (si_used ?s) \<le> length (si_buffer ?s)" using used room by simp
  qed (use I(1,4,7,9,10) L holds in \<open>simp_all add: producer_ok_ring\<close>)
  with res show ?thesis by blast
qed (use step in \<open>simp_all add: fetch_step_def Let_def\<close>)

lemma process_buffer_inv:
  assumes "si_inv c ws rs s" and "process_buffer s wb used = Some res"
  shows "\<exists>s'. res = Inr s' \<and> si_inv c ws rs s'"
proof -
  note I = si_invD [OF assms(1)]
  have s': "res = Inr (s\<lparr>si_buffer := wb, si_used := used, si_consumer := C_Idle\<rparr>)"
    "length wb = length (si_buffer s)" "unat used \<le> length wb"
    using assms(2) by (simp_all add: process_buffer_def split: if_splits)
  then have "si_inv c ws rs (s\<lparr>si_buffer := wb, si_used := used, si_consumer := C_Idle\<rparr>)"
    by (intro si_invI) (use I(1-7,9,10) in simp_all)
  with s'(1) show ?thesis by blast
qed

definition push_in_bounds :: "si_event \<Rightarrow> bool" where
  "push_in_bounds e \<longleftrightarrow> (case e of Push data bytes \<Rightarrow> unat bytes \<le> length data | _ \<Rightarrow> True)"

lemma si_step_inv:
  assumes inv: "si_inv c ws rs s" and step: "si_step e s = Some res" and "push_in_bounds e"
  shows "\<exists>s' ws' rs'. res = Inr s' \<and> si_inv c ws' rs' s'"
proof (cases e)
  case (Push data bytes)
  then show ?thesis using push_enter_inv [OF inv, of data bytes res] assms(2,3) by (auto simp: push_in_bounds_def)
next
  case (Load_Read i)
  then show ?thesis using push_check_inv [OF inv, of i res] step by auto
next
  case Producer_Step
  then show ?thesis using push_step_inv [OF inv, of res] step by auto
next
  case (Load_Write i)
  then show ?thesis using fetch_check_inv [OF inv, of i res] step by auto
next
  case Writer_Step
  then show ?thesis using fetch_step_inv [OF inv, of res] step by auto
next
  case (Process wb used)
  then show ?thesis using process_buffer_inv [OF inv, of wb used res] step by auto
qed

lemma si_init_inv:
  assumes new: "sr_new mem_ok v = Inr rg" and v: "v \<noteq> 0" "unat v \<le> 2 ^ 62"
    and wb: "length wb < 2 ^ 64"
  shows "si_inv (unat (sr_capacity rg)) [0] [0] (si_init rg wb)"
proof -
  note h = sr_new_holds(1) [OF new v]
  have "sr_write rg = 0" "sr_read rg = 0" using h by (simp_all add: sr_holds_def)
  then show ?thesis
    by (intro si_invI) (use h wb in \<open>simp_all add: si_init_def log_ok_def\<close>)
qed

section \<open>Histories of the ring\<close>

text \<open>
  What a step adds: the bytes of a push, the bytes of a fetch, or nothing. Each addition is
  made by one step, the store of a cursor.
\<close>

lemma si_step_history:
  assumes "si_step e s = Some (Inr s')"
  shows "(\<exists>xs. si_accepted s' = si_accepted s @ xs \<and> length xs < 2 ^ 64) \<and> si_fetched s' = si_fetched s \<or>
     si_accepted s' = si_accepted s \<and>
     (\<exists>ys. si_fetched s' = si_fetched s @ ys \<and> length ys < 2 ^ 64)"
proof -
  have short: "min k (unat (n :: u64)) < 2 ^ 64" for k n
    by (rule le_less_trans [OF _ unat_lt_64 [of n]]) simp
  show ?thesis
  proof (cases e)
    case Producer_Step
    then show ?thesis using assms short
      by (auto simp: push_step_def Let_def obind_Inr_iff split: producer.splits option.splits)
  next
    case Writer_Step
    then show ?thesis using assms short
      by (auto simp: fetch_step_def Let_def obind_Inr_iff split: consumer.splits option.splits)
  qed (use assms in \<open>auto simp: push_enter_def push_check_def fetch_check_def process_buffer_def Let_def
      split: producer.splits if_splits\<close>)
qed

lemma fifo_run_append:
  "fifo_run put get (ops1 @ ops2) s =
     obind (fifo_run put get ops1 s) (\<lambda>(a, f, s1).
     obind (fifo_run put get ops2 s1) (\<lambda>(a', f', s2). Inr (a @ a', f @ f', s2)))"
proof (induction put get ops1 s rule: fifo_run.induct)
  case (1 put get s)
  then show ?case by (cases "fifo_run put get ops2 s") auto
next
  case (2 put get xs ops s)
  then show ?case
    by (cases "put s xs") (auto simp: obind_assoc obind_def split: sum.splits)
next
  case (3 put get n ops s)
  then show ?case
    by (cases "get s n") (auto simp: obind_assoc obind_def split: sum.splits)
qed

text \<open>A history the atomic operations of \<open>Spsc_Ring\<close> have, too.\<close>

definition atomic_history :: "spsc_ring \<Rightarrow> u8 list \<Rightarrow> u8 list \<Rightarrow> bool" where
  "atomic_history rg0 A F \<longleftrightarrow>
     (\<exists>ops rg. fifo_run sr_put sr_get ops rg0 = Inr (A, F, rg) \<and>
        sr_holds A (length F) rg \<and> unat (sr_capacity rg) = unat (sr_capacity rg0))"

lemma atomic_history_le: "atomic_history rg0 A F \<Longrightarrow> length F \<le> length A"
  using sr_holdsD(4) by (auto simp: atomic_history_def)

lemma atomic_history_push:
  assumes "atomic_history rg0 A F" and "length xs < 2 ^ 64"
    and "length A - length F + length xs \<le> unat (sr_capacity rg0)"
  shows "atomic_history rg0 (A @ xs) F"
proof -
  obtain ops rg where run: "fifo_run sr_put sr_get ops rg0 = Inr (A, F, rg)"
    and h: "sr_holds A (length F) rg" "unat (sr_capacity rg) = unat (sr_capacity rg0)"
    using assms(1) by (auto simp: atomic_history_def)
  obtain rg' where "sr_put rg xs = Inr (True, rg')" "sr_holds (A @ xs) (length F) rg'"
    "unat (sr_capacity rg') = unat (sr_capacity rg)"
    using sr.put_law [OF h(1) assms(2)] assms(3) h(2) by auto
  then show ?thesis using run h(2)
    unfolding atomic_history_def
    by (intro exI [of _ "ops @ [Put xs]"] exI [of _ rg']) (simp add: fifo_run_append)
qed

lemma atomic_history_fetch:
  assumes "atomic_history rg0 A F" and "length ys < 2 ^ 64"
    and ys: "F @ ys = take (length (F @ ys)) A"
  shows "atomic_history rg0 A (F @ ys)"
proof -
  obtain ops rg where run: "fifo_run sr_put sr_get ops rg0 = Inr (A, F, rg)"
    and h: "sr_holds A (length F) rg" "unat (sr_capacity rg) = unat (sr_capacity rg0)"
    using assms(1) by (auto simp: atomic_history_def)
  let ?n = "of_nat (length ys) :: u64"
  have n: "unat ?n = length ys" by (rule unat_of_nat_64 [OF assms(2)])
  have fits: "length F + length ys \<le> length A"
    using arg_cong [OF ys, of length] by simp
  have "ys = drop (length F) (F @ ys)" by simp
  also have "\<dots> = take (length ys) (drop (length F) A)" by (subst ys) (simp add: take_drop add.commute)
  finally have out: "take (length ys) (drop (length F) A) = ys" ..
  obtain rg' where "sr_get rg ?n = Inr (ys, rg')" "sr_holds A (length F + length ys) rg'"
    "unat (sr_capacity rg') = unat (sr_capacity rg)"
    using sr.get_law [OF h(1), of ?n] unfolding n out using fits by auto
  then show ?thesis using run h(2)
    unfolding atomic_history_def
    by (intro exI [of _ "ops @ [Get ?n]"] exI [of _ rg']) (simp add: fifo_run_append)
qed

lemma si_step_atomic:
  assumes hist: "atomic_history rg0 (si_accepted s) (si_fetched s)"
    and step: "si_step e s = Some (Inr s')" and inv: "si_inv c ws rs s'"
    and c: "unat (sr_capacity rg0) = c"
  shows "atomic_history rg0 (si_accepted s') (si_fetched s')"
proof -
  note I = si_invD [OF inv]
  have room: "length (si_accepted s') \<le> length (si_fetched s') + c" using I(7,17) by linarith
  from si_step_history [OF step] show ?thesis
  proof (elim disjE conjE exE)
    fix xs assume "si_accepted s' = si_accepted s @ xs" "length xs < 2 ^ 64" "si_fetched s' = si_fetched s"
    moreover from this have "length (si_accepted s) - length (si_fetched s) + length xs \<le> unat (sr_capacity rg0)"
      using room atomic_history_le [OF hist] c by simp
    ultimately show ?thesis using atomic_history_push [OF hist, of xs] by simp
  next
    fix ys assume "si_accepted s' = si_accepted s" "si_fetched s' = si_fetched s @ ys" "length ys < 2 ^ 64"
    then show ?thesis using atomic_history_fetch [OF hist, of ys] I(3) by simp
  qed
qed

lemma si_run_inv:
  assumes "si_inv c ws rs s" and "si_run es s = Some res" and "\<forall>e \<in> set es. push_in_bounds e"
    and "atomic_history rg0 (si_accepted s) (si_fetched s)" and c: "unat (sr_capacity rg0) = c"
  shows "\<exists>s' ws' rs'. res = Inr s' \<and> si_inv c ws' rs' s' \<and>
     atomic_history rg0 (si_accepted s') (si_fetched s')"
  using assms(1-4)
proof (induction es arbitrary: s ws rs)
  case Nil
  then show ?case by auto
next
  case (Cons e es)
  obtain res1 where res1: "si_step e s = Some res1" "pbind (Some res1) (si_run es) = Some res"
    using Cons.prems(2) by (cases "si_step e s") auto
  moreover have "push_in_bounds e" using Cons.prems(3) by simp
  ultimately obtain s1 ws1 rs1 where s1: "res1 = Inr s1" "si_inv c ws1 rs1 s1"
    using si_step_inv [OF Cons.prems(1)] by blast
  show ?case
  proof (rule Cons.IH [OF s1(2)])
    show "si_run es s1 = Some res" using res1(2) s1(1) by simp
    show "\<forall>e \<in> set es. push_in_bounds e" using Cons.prems(3) by simp
    show "atomic_history rg0 (si_accepted s1) (si_fetched s1)"
      by (rule si_step_atomic [OF Cons.prems(4) _ s1(2) c]) (use res1(1) s1(1) in simp)
  qed
qed

section \<open>No byte is accessed by both threads\<close>

lemma next_write_position:
  assumes inv: "si_inv c ws rs s" and a: "next_write s = Some a"
  shows "\<exists>m. a = (length (si_accepted s) + m) mod c \<and> length (si_accepted s) + m < length (si_fetched s) + c"
proof -
  note I = si_invD [OF inv]
  obtain data bytes w part where P: "si_producer s = P_Copy data bytes w part"
    "ring_at (si_ring s) w bytes part = Some a"
    using a by (auto simp: next_write_def split: producer.splits)
  let ?m = "copied (si_ring s) w bytes part"
  have ok: "part_ok (si_ring s) w bytes part"
    and "pushing c (si_accepted s) (rs ! si_seen_read s) (si_ring s) data bytes w ?m"
    using I(10) by (simp_all add: P(1))
  then have w: "w = of_nat (length (si_accepted s))"
    and room: "length (si_accepted s) + unat bytes \<le> rs ! si_seen_read s + c"
    by (simp_all add: pushing_def)
  have n: "unat bytes \<le> c" using room I(15,17) by linarith
  note pos = ring_at_position [OF si_cursors(1) [OF inv, folded w] ok P(2) n]
  show ?thesis by (intro exI [of _ ?m] conjI pos(2)) (use pos(1) room I(17) in linarith)
qed

lemma next_read_position:
  assumes inv: "si_inv c ws rs s" and a: "next_read s = Some a"
  shows "\<exists>m. a = (length (si_fetched s) + m) mod c \<and> length (si_fetched s) + m < length (si_accepted s)"
proof -
  note I = si_invD [OF inv]
  obtain r chunk part where C: "si_consumer s = C_Copy r chunk part"
    "ring_at (si_ring s) r chunk part = Some a"
    using a by (auto simp: next_read_def split: consumer.splits)
  let ?m = "copied (si_ring s) r chunk part" and ?R = "length (si_fetched s)"
  have ok: "part_ok (si_ring s) r chunk part"
    and "fetching (si_accepted s) ?R (ws ! si_seen_write s) (si_buffer s) (si_used s) r chunk ?m"
    using I(11) by (simp_all add: C(1))
  then have r: "r = of_nat ?R" and lim: "?R + unat chunk \<le> ws ! si_seen_write s"
    by (simp_all add: fetching_def)
  have n: "unat chunk \<le> c" using lim I(7,16,17) by linarith
  note pos = ring_at_position [OF si_cursors(2) [OF inv, folded r] ok C(2) n]
  show ?thesis by (intro exI [of _ ?m] conjI pos(2)) (use pos(1) lim I(16) in linarith)
qed

lemma si_inv_no_race:
  assumes "si_inv c ws rs s" and "next_write s = Some a" and "next_read s = Some b"
  shows "a \<noteq> b"
proof -
  obtain m where m: "a = (length (si_accepted s) + m) mod c"
    "length (si_accepted s) + m < length (si_fetched s) + c"
    using next_write_position [OF assms(1,2)] by blast
  obtain k where k: "b = (length (si_fetched s) + k) mod c"
    "length (si_fetched s) + k < length (si_accepted s)"
    using next_read_position [OF assms(1,3)] by blast
  have "(length (si_fetched s) + k) mod c \<noteq> (length (si_accepted s) + m) mod c"
    by (rule mod_window_distinct) (use m(2) k(2) in linarith)+
  then show ?thesis by (simp add: m(1) k(1))
qed

section \<open>A push needs no help from the writer\<close>

text \<open>
  The steps \<open>push()\<close> still needs when it runs alone, counted from its test for room on: each
  byte, the end of each call of \<open>memcpy\<close>, the store of the cursor.
\<close>

definition push_steps_left :: "spsc_ring \<Rightarrow> producer \<Rightarrow> nat" where
  "push_steps_left rg pc = (case pc of
     P_Idle \<Rightarrow> 0
   | P_Check data bytes w \<Rightarrow> unat bytes + 3
   | P_Copy data bytes w part \<Rightarrow>
       (unat bytes - copied rg w bytes part) + (case part of First j \<Rightarrow> 3 | Second j \<Rightarrow> 2)
   | P_Publish data bytes w \<Rightarrow> 1)"

lemma push_step_progress:
  assumes inv: "si_inv c ws rs s" and pc: "(\<exists>data bytes w part. si_producer s = P_Copy data bytes w part) \<or>
      (\<exists>data bytes w. si_producer s = P_Publish data bytes w)"
  shows "\<exists>s' ws'. push_step s = Some (Inr s') \<and> si_inv c ws' rs s' \<and>
     push_steps_left (si_ring s') (si_producer s') < push_steps_left (si_ring s) (si_producer s) \<and>
     (\<forall>data bytes w. si_producer s' \<noteq> P_Check data bytes w)"
proof -
  have "push_step s \<noteq> None" using pc by (auto simp: push_step_def Let_def split: option.splits)
  then obtain s' ws' where s': "push_step s = Some (Inr s')" "si_inv c ws' rs s'"
    using push_step_inv [OF inv] by fastforce
  note I = si_invD [OF inv]
  from pc have "push_steps_left (si_ring s') (si_producer s') < push_steps_left (si_ring s) (si_producer s) \<and>
     (\<forall>data bytes w. si_producer s' \<noteq> P_Check data bytes w)"
  proof (elim disjE exE)
    fix data bytes w part assume P: "si_producer s = P_Copy data bytes w part"
    have ok: "part_ok (si_ring s) w bytes part" using I(10) by (simp add: P)
    have w: "w = of_nat (length (si_accepted s))" and n: "unat bytes \<le> c"
      using I(10,15,17) by (simp_all add: P pushing_def)
    show ?thesis
    proof (cases "ring_at (si_ring s) w bytes part")
      case (Some a)
      note pos = ring_at_position [OF si_cursors(1) [OF inv, folded w] ok Some n]
      have "si_producer s' = P_Copy data bytes w (next_byte part)"
        "\<exists>bs. si_ring s' = (si_ring s)\<lparr>sr_bytes := bs\<rparr>"
        using s'(1) by (auto simp: push_step_def P Some Let_def obind_Inr_iff)
      then show ?thesis using pos(1,5) by (cases part) (auto simp: push_steps_left_def P)
    next
      case None
      then show ?thesis using s'(1) ok part_copied_le [OF ok]
        by (cases part) (auto simp: push_step_def P Let_def push_steps_left_def part_ok_def split: if_splits)
    qed
  next
    fix data bytes w assume "si_producer s = P_Publish data bytes w"
    then show ?thesis using s'(1) by (auto simp: push_step_def Let_def push_steps_left_def)
  qed
  with s' show ?thesis by blast
qed

lemma push_finishes:
  assumes "si_inv c ws rs s" and "\<forall>data bytes w. si_producer s \<noteq> P_Check data bytes w"
  shows "\<exists>n \<le> push_steps_left (si_ring s) (si_producer s). \<exists>s' ws'.
     si_run (replicate n Producer_Step) s = Some (Inr s') \<and> si_producer s' = P_Idle \<and> si_inv c ws' rs s'"
  using assms
proof (induction "push_steps_left (si_ring s) (si_producer s)" arbitrary: s ws rule: less_induct)
  case less
  show ?case
  proof (cases "si_producer s = P_Idle")
    case True
    then show ?thesis using less.prems(1) by (intro exI [of _ 0]) auto
  next
    case False
    then have "(\<exists>data bytes w part. si_producer s = P_Copy data bytes w part) \<or>
        (\<exists>data bytes w. si_producer s = P_Publish data bytes w)"
      using less.prems(2) by (cases "si_producer s") auto
    from push_step_progress [OF less.prems(1) this] obtain s1 ws1
      where s1: "push_step s = Some (Inr s1)" "si_inv c ws1 rs s1"
        "push_steps_left (si_ring s1) (si_producer s1) < push_steps_left (si_ring s) (si_producer s)"
        "\<forall>data bytes w. si_producer s1 \<noteq> P_Check data bytes w" by blast
    from less.hyps [OF s1(3,2,4)] obtain n s' ws'
      where n: "n \<le> push_steps_left (si_ring s1) (si_producer s1)"
        "si_run (replicate n Producer_Step) s1 = Some (Inr s')" "si_producer s' = P_Idle"
        "si_inv c ws' rs s'" by blast
    have "si_run (replicate (Suc n) Producer_Step) s = Some (Inr s')" by (simp add: s1(1) n(2))
    then show ?thesis using n s1(3) by (intro exI [of _ "Suc n"]) (auto simp del: replicate_Suc)
  qed
qed

text \<open>One turn of \<open>push()\<close> alone, from the call to its return.\<close>

lemma push_alone_returns:
  assumes inv: "si_inv c ws rs s" and idle: "si_producer s = P_Idle" and data: "unat bytes \<le> length data"
    and i: "si_seen_read s \<le> i" "i < length (si_read_log s)"
  shows "\<exists>n \<le> unat bytes + 3. \<exists>s'.
     si_run (Push data bytes # Load_Read i # replicate n Producer_Step) s = Some (Inr s') \<and>
     si_producer s' = P_Idle"
proof -
  let ?s1 = "s\<lparr>si_producer := P_Check data bytes (sr_write (si_ring s))\<rparr>"
  have e1: "push_enter s data bytes = Some (Inr ?s1)" by (simp add: push_enter_def idle)
  then have inv1: "si_inv c ws rs ?s1" using push_enter_inv [OF inv e1 data] by blast
  obtain s2 where e2: "push_check ?s1 i = Some (Inr s2)"
    and pc: "si_producer s2 = P_Idle \<or>
      si_producer s2 = P_Copy data bytes (sr_write (si_ring s)) (First 0) \<and> si_ring s2 = si_ring s"
    using i by (auto simp: push_check_def Let_def)
  then have inv2: "si_inv c ws rs s2" using push_check_inv [OF inv1 e2] by blast
  have "push_steps_left (si_ring s2) (si_producer s2) \<le> unat bytes + 3"
    using pc by (auto simp: push_steps_left_def)
  moreover have "\<forall>data bytes w. si_producer s2 \<noteq> P_Check data bytes w" using pc by auto
  ultimately obtain n s' where "n \<le> unat bytes + 3"
    "si_run (replicate n Producer_Step) s2 = Some (Inr s')" "si_producer s' = P_Idle"
    using push_finishes [OF inv2] by (meson le_trans)
  then show ?thesis using e1 e2 by auto
qed

section \<open>The properties\<close>

text \<open>
  C5: the recorder's ring is linearizable and free of data races. From a fresh ring, whatever
  the order in which the single memory accesses of \<open>push()\<close> and of the writer's fetch happen,
  byte by byte, and however old the cursor values are that the acquire loads return, no access
  leaves the ring or the write buffer, the two threads are never about to access the same byte
  of the ring, and the bytes pushed and fetched are those of a run of the atomic operations.
\<close>

theorem spsc_ring_linearizable:
  assumes "sr_new mem_ok v = Inr rg" and "v \<noteq> 0" and "unat v \<le> 2 ^ 62" and "length wb < 2 ^ 64"
    and "\<forall>data bytes. Push data bytes \<in> set es \<longrightarrow> unat bytes \<le> length data"
    and "si_run es (si_init rg wb) = Some res"
  shows "\<exists>s. res = Inr s \<and>
     (\<forall>a. next_write s = Some a \<longrightarrow> a < length (sr_bytes (si_ring s)) \<and> next_read s \<noteq> Some a) \<and>
     (\<exists>ops rg'. fifo_run sr_put sr_get ops rg = Inr (si_accepted s, si_fetched s, rg')) \<and>
     (\<exists>rest. si_accepted s = si_fetched s @ rest \<and> length rest \<le> unat (sr_capacity rg))"
proof -
  let ?c = "unat (sr_capacity rg)"
  note h = sr_new_holds(1) [OF assms(1-3)]
  have "push_in_bounds e" if mem: "e \<in> set es" for e
    by (cases e; use mem assms(5) in \<open>simp add: push_in_bounds_def\<close>)
  moreover have "atomic_history rg (si_accepted (si_init rg wb)) (si_fetched (si_init rg wb))"
    unfolding atomic_history_def
    by (intro exI [of _ "[]"] exI [of _ rg]) (simp add: si_init_def h)
  ultimately obtain s ws rs where s: "res = Inr s" "si_inv ?c ws rs s"
    "atomic_history rg (si_accepted s) (si_fetched s)"
    using si_run_inv [OF si_init_inv [OF assms(1-4)] assms(6) _ _ refl] by blast
  note I = si_invD [OF s(2)]
  have "si_accepted s = si_fetched s @ drop (length (si_fetched s)) (si_accepted s)"
    using I(3) by (metis append_take_drop_id)
  moreover have "length (drop (length (si_fetched s)) (si_accepted s)) \<le> ?c" using I(7,17) by simp
  moreover have "a < length (sr_bytes (si_ring s))" if a: "next_write s = Some a" for a
    using next_write_position [OF s(2) a] I(12,14) by auto
  ultimately show ?thesis
    using s(1,3) si_inv_no_race [OF s(2)] unfolding atomic_history_def by blast
qed

theorem spsc_ring_linearizable_witness:
  "\<exists>rg s. sr_new (\<lambda>n. True) 3 = Inr rg \<and>
     si_run [Push [1, 2, 3] 3, Load_Read 0, Producer_Step, Load_Write 0, Producer_Step, Producer_Step,
             Producer_Step, Producer_Step, Load_Write 1, Writer_Step, Push [4, 5] 2, Load_Read 0,
             Writer_Step, Writer_Step, Writer_Step, Writer_Step, Push [6, 7] 2, Load_Read 1,
             Process [0, 0, 0, 0] 0, Producer_Step] (si_init rg [0, 0, 0, 0]) = Some (Inr s) \<and>
     (\<forall>a. next_write s = Some a \<longrightarrow> a < length (sr_bytes (si_ring s)) \<and> next_read s \<noteq> Some a) \<and>
     (\<exists>ops rg'. fifo_run sr_put sr_get ops rg = Inr (si_accepted s, si_fetched s, rg')) \<and>
     (\<exists>rest. si_accepted s = si_fetched s @ rest \<and> length rest \<le> unat (sr_capacity rg))"
proof -
  let ?es = "[Push [1, 2, 3] 3, Load_Read 0, Producer_Step, Load_Write 0, Producer_Step, Producer_Step,
             Producer_Step, Producer_Step, Load_Write 1, Writer_Step, Push [4, 5] 2, Load_Read 0,
             Writer_Step, Writer_Step, Writer_Step, Writer_Step, Push [6, 7] 2, Load_Read 1,
             Process [0, 0, 0, 0] 0, Producer_Step]"
  let ?rg = "\<lparr>sr_bytes = [0, 0, 0, 0], sr_capacity = 4, sr_mask = 3, sr_write = 0, sr_read = 0\<rparr>"
  have "replicate 4 (0 :: u8) = [0, 0, 0, 0]" by (simp add: eval_nat_numeral)
  then have rg: "sr_new (\<lambda>n. True) 3 = Inr ?rg"
    by (simp add: sr_new_def Let_def new_zeroed_def next_pow2_def smear_right_def)
  have "si_run ?es (si_init ?rg [0, 0, 0, 0]) \<noteq> None"
    by (simp add: si_init_def push_enter_def push_check_def push_step_def fetch_check_def fetch_step_def
        process_buffer_def Let_def first_part_def memcpy_def load_range_def store_range_def min_def)
  then obtain res where run: "si_run ?es (si_init ?rg [0, 0, 0, 0]) = Some res" by blast
  have "\<forall>data bytes. Push data bytes \<in> set ?es \<longrightarrow> unat bytes \<le> length data" by auto
  from spsc_ring_linearizable [OF rg _ _ _ this run] run rg show ?thesis by fastforce
qed

text \<open>
  C17: \<open>push()\<close> is wait-free. Wherever the writer thread stands, and if it never moves again,
  a call of \<open>push()\<close> returns after at most \<open>bytes + 3\<close> steps behind its test for room.
\<close>

theorem push_is_wait_free:
  assumes "sr_new mem_ok v = Inr rg" and "v \<noteq> 0" and "unat v \<le> 2 ^ 62" and "length wb < 2 ^ 64"
    and "\<forall>data bytes. Push data bytes \<in> set es \<longrightarrow> unat bytes \<le> length data"
    and "si_run es (si_init rg wb) = Some (Inr s)" and "si_producer s = P_Idle"
    and "unat bytes \<le> length data" and "si_seen_read s \<le> i" and "i < length (si_read_log s)"
  shows "\<exists>n \<le> unat bytes + 3. \<exists>s'.
     si_run (es @ Push data bytes # Load_Read i # replicate n Producer_Step) (si_init rg wb) = Some (Inr s') \<and>
     si_producer s' = P_Idle"
proof -
  have "push_in_bounds e" if mem: "e \<in> set es" for e
    by (cases e; use mem assms(5) in \<open>simp add: push_in_bounds_def\<close>)
  moreover have "atomic_history rg (si_accepted (si_init rg wb)) (si_fetched (si_init rg wb))"
    unfolding atomic_history_def
    by (intro exI [of _ "[]"] exI [of _ rg])
      (simp add: si_init_def sr_new_holds(1) [OF assms(1-3)])
  ultimately obtain ws rs where "si_inv (unat (sr_capacity rg)) ws rs s"
    using si_run_inv [OF si_init_inv [OF assms(1-4)] assms(6) _ _ refl] by auto
  from push_alone_returns [OF this assms(7-10)] show ?thesis
    by (simp add: si_run_append assms(6))
qed

theorem push_is_wait_free_witness:
  "\<exists>rg s. sr_new (\<lambda>n. True) 2 = Inr rg \<and>
     si_run [Push [1, 2] 2, Load_Read 0, Producer_Step, Load_Write 0, Producer_Step, Producer_Step,
             Producer_Step, Load_Write 1, Writer_Step] (si_init rg [0, 0]) = Some (Inr s) \<and>
     (\<exists>n \<le> 5. \<exists>s'.
        si_run ([Push [1, 2] 2, Load_Read 0, Producer_Step, Load_Write 0, Producer_Step, Producer_Step,
             Producer_Step, Load_Write 1, Writer_Step] @ Push [3, 4, 5] 2 # Load_Read 0 #
             replicate n Producer_Step) (si_init rg [0, 0]) = Some (Inr s') \<and>
        si_producer s' = P_Idle)"
proof -
  let ?es = "[Push [1, 2] 2, Load_Read 0, Producer_Step, Load_Write 0, Producer_Step, Producer_Step,
             Producer_Step, Load_Write 1, Writer_Step]"
  let ?rg = "\<lparr>sr_bytes = [0, 0], sr_capacity = 2, sr_mask = 1, sr_write = 0, sr_read = 0\<rparr>"
  have "replicate 2 (0 :: u8) = [0, 0]" by (simp add: eval_nat_numeral)
  then have rg: "sr_new (\<lambda>n. True) 2 = Inr ?rg"
    by (simp add: sr_new_def Let_def new_zeroed_def next_pow2_def smear_right_def)
  have "\<exists>s. si_run ?es (si_init ?rg [0, 0]) = Some (Inr s) \<and> si_producer s = P_Idle \<and>
      si_seen_read s = 0 \<and> si_read_log s = [0]"
    by (simp add: si_init_def push_enter_def push_check_def push_step_def fetch_check_def fetch_step_def
        Let_def first_part_def memcpy_def load_range_def store_range_def min_def)
  then obtain s where s: "si_run ?es (si_init ?rg [0, 0]) = Some (Inr s)" "si_producer s = P_Idle"
    "si_seen_read s = 0" "si_read_log s = [0]" by blast
  have data: "\<forall>data bytes. Push data bytes \<in> set ?es \<longrightarrow> unat bytes \<le> length data" by auto
  have "\<exists>n \<le> unat (2 :: u64) + 3. \<exists>s'. si_run (?es @ Push [3, 4, 5] 2 # Load_Read 0 # replicate n Producer_Step)
      (si_init ?rg [0, 0]) = Some (Inr s') \<and> si_producer s' = P_Idle"
    by (rule push_is_wait_free [OF rg _ _ _ data s(1,2)]) (use s(3,4) in simp_all)
  then show ?thesis using rg s(1) by (intro exI [of _ ?rg] exI [of _ s]) simp
qed

end
