(* ===== verification/Audio_System.thy ===== *)
theory Audio_System
  imports Pipeline_Properties Recorder_Properties "HOL-Library.Sublist"
begin

text \<open>
  The started pipeline with all its threads at work (src/pipeline/capture_pipeline.cpp with
  src/capture/alsa_capture.cpp, block_recorder.cpp and clip_extractor.cpp): the capture thread
  with \<open>on_audio_chunk\<close> as its callback, the writer thread of the recorder, the worker of the clip
  extractor, and the control thread with \<open>set_parameter\<close>, \<open>capture_clip\<close> and \<open>stop\<close>. A step is
  one turn of one thread; the turns interleave freely. In particular the worker is not at work
  while it waits for the end of a clip: the other threads go on, and the extraction finds the
  ring buffer as it is when the wait is over.

  The accesses to one ring from two threads are taken as one step here; \<open>Spsc_Interleaved\<close>
  and \<open>rb_read_plan\<close> of \<open>Ring_Buffer\<close> take them apart.
\<close>

section \<open>State\<close>

text \<open>The surroundings: mathematics, sound file library, clock and memory.\<close>

record audio_env =
  ae_math :: math_lib
  ae_rec_lib :: sf_lib
  ae_clip_lib :: sf_lib
  ae_clock :: "sf_event list \<Rightarrow> u64"
  ae_mem_ok :: "nat \<Rightarrow> bool"

text \<open>
  The pipeline object, where each thread is, and the log of the library calls for clips. The
  last three fields are history: the frames handed to the consumers, the bytes the recorder
  took, and for each finished clip its request, path, calls and the length of the history then.
\<close>

record clip_record =
  cr_request :: clip_request
  cr_path :: string
  cr_calls :: "sf_event list"
  cr_frames :: nat

record audio_system =
  as_pipe :: capture_pipeline
  as_capturing :: bool
  as_writer :: writer_pc
  as_current :: "clip_request option"
  as_worker_exited :: bool
  as_clip_calls :: "sf_event list"
  as_stream :: "u8 list list"
  as_accepted :: "u8 list"
  as_clips :: "clip_record list"

definition as_init :: "capture_pipeline \<Rightarrow> audio_system" where
  "as_init cp =
     \<lparr>as_pipe = cp, as_capturing = True, as_writer = Waiting, as_current = None,
      as_worker_exited = False, as_clip_calls = [], as_stream = [], as_accepted = [], as_clips = []\<rparr>"

section \<open>The capture thread\<close>

text \<open>For the history: the frames a chunk hands to the consumers, and what the recorder takes.\<close>

definition chunk_output :: "capture_pipeline \<Rightarrow> chunk \<Rightarrow> nat \<times> u8 list" where
  "chunk_output cp c =
     (case c of (meta, data, count) \<Rightarrow>
        let fc = count div ucast (cm_channels meta)
        in case cp_signal cp meta data fc count of
             Inl e \<Rightarrow> (0, [])
           | Inr (out, _, _) \<Rightarrow> (unat fc, take (unat fc * out_width cp) out))"

definition chunk_recorded :: "capture_pipeline \<Rightarrow> chunk \<Rightarrow> u8 list" where
  "chunk_recorded cp c =
     (case chunk_output cp c of (n, out) \<Rightarrow>
        case cp_recorder cp of
          None \<Rightarrow> []
        | Some br \<Rightarrow> (case br_push br out (of_nat n) of Inr (True, _) \<Rightarrow> out | _ \<Rightarrow> []))"

definition capture_turn ::
  "audio_env \<Rightarrow> device_read \<Rightarrow> rat alsa_capture \<Rightarrow> audio_system \<Rightarrow> audio_system outcome option" where
  "capture_turn E r al s =
     (case al_turn al r of
        Inl e \<Rightarrow> Some (Inl e)
      | Inr (go, delivered, al') \<Rightarrow>
          let cp = (as_pipe s)\<lparr>cp_capture := Some al'\<rparr> in
          case delivered of
            None \<Rightarrow> Some (Inr (s\<lparr>as_pipe := cp, as_capturing := go\<rparr>))
          | Some c \<Rightarrow>
              (case on_audio_chunk (ae_math E) c cp of
                 None \<Rightarrow> None
               | Some (Inl e) \<Rightarrow> Some (Inl e)
               | Some (Inr cp') \<Rightarrow>
                   Some (Inr (s\<lparr>as_pipe := cp', as_capturing := go,
                     as_stream := as_stream s @
                       (case chunk_output cp c of (n, out) \<Rightarrow> frames_of (out_width cp) n out),
                     as_accepted := as_accepted s @ chunk_recorded cp c\<rparr>))))"

section \<open>The writer and the worker\<close>

definition writer_can :: "writer_pc \<Rightarrow> recorder \<Rightarrow> bool" where
  "writer_can pc br \<longleftrightarrow> (case pc of Waiting \<Rightarrow> br_wake br | Exited \<Rightarrow> False | _ \<Rightarrow> True)"

definition writer_turn ::
  "audio_env \<Rightarrow> recorder \<Rightarrow> audio_system \<Rightarrow> audio_system outcome option" where
  "writer_turn E br s =
     (case as_writer s of
        Waiting \<Rightarrow> Some (Inr (s\<lparr>as_writer := Draining\<rparr>))
      | Draining \<Rightarrow>
          (case br_drain_iter (ae_rec_lib E) (ae_clock E) br of
             None \<Rightarrow> None
           | Some (Inl e) \<Rightarrow> Some (Inl e)
           | Some (Inr (res, br')) \<Rightarrow>
               Some (Inr (s\<lparr>as_pipe := (as_pipe s)\<lparr>cp_recorder := Some br'\<rparr>,
                            as_writer := (if res = Go_On then Draining else Deciding)\<rparr>)))
      | Deciding \<Rightarrow>
          Some (Inr (if br_exit br
            then s\<lparr>as_pipe := (as_pipe s)\<lparr>cp_recorder := Some (br_close_current_file br)\<rparr>,
                   as_writer := Exited\<rparr>
            else s\<lparr>as_writer := Waiting\<rparr>))
      | Exited \<Rightarrow> Some (Inr s))"

definition clip_turn ::
  "audio_env \<Rightarrow> string \<Rightarrow> clip_extractor \<Rightarrow> ring_buffer \<Rightarrow> clip_request \<Rightarrow> audio_system \<Rightarrow>
   audio_system outcome option" where
  "clip_turn E stamp cx rb req s =
     (case cx_extract_clip (ae_mem_ok E) (\<lambda>_ rb. rb) stamp (ae_clip_lib E) cx rb (as_clip_calls s) req of
        None \<Rightarrow> None
      | Some (Inl e) \<Rightarrow> Some (Inl e)
      | Some (Inr (path, _, calls)) \<Rightarrow>
          Some (Inr (s\<lparr>as_pipe := (as_pipe s)\<lparr>cp_clip := Some (cx_store_result cx req path)\<rparr>,
            as_current := None, as_clip_calls := calls,
            as_clips := as_clips s @
              [\<lparr>cr_request = req, cr_path = path,
                cr_calls = drop (length (as_clip_calls s)) calls,
                cr_frames = length (as_stream s)\<rparr>]\<rparr>)))"

section \<open>The steps\<close>

text \<open>
  What the control thread may ask for: a gain the signal path can take, and clips whose length
  in milliseconds and bytes is representable and can be allocated. (What happens otherwise:
  \<open>gain_undefined_iff\<close>, \<open>extract_clip_total\<close>.)
\<close>

definition parameter_fits :: "math_lib \<Rightarrow> string \<Rightarrow> string \<Rightarrow> capture_pipeline \<Rightarrow> bool" where
  "parameter_fits math key val cp \<longleftrightarrow>
     (key = ''gain_db'' \<or> key = ''gain'' \<longrightarrow>
       (case ml_stod math val of
          Inl e \<Rightarrow> False
        | Inr db \<Rightarrow> 0 \<le> linear_gain math db \<and> linear_gain math db \<le> gain_room (pipe_bits cp)))"

definition clip_bytes :: "clip_extractor \<Rightarrow> i32 \<Rightarrow> i32 \<Rightarrow> nat" where
  "clip_bytes cx s e = nat (sint e - sint s) * unat (cx_sample_rate cx) * cx_frame_bytes cx"

definition clip_fits :: "(nat \<Rightarrow> bool) \<Rightarrow> clip_extractor \<Rightarrow> i32 \<Rightarrow> i32 \<Rightarrow> bool" where
  "clip_fits mem_ok cx s e \<longleftrightarrow>
     \<bar>sint s\<bar> \<le> 2147483 \<and> \<bar>sint e\<bar> \<le> 2147483 \<and>
     clip_bytes cx s e < 2 ^ 63 \<and> mem_ok (clip_bytes cx s e)"

text \<open>
  The result of a step is that of the turn: \<open>None\<close> if it never returns, \<open>Inl\<close> a fault.
\<close>

inductive as_step :: "audio_env \<Rightarrow> audio_system \<Rightarrow> audio_system outcome option \<Rightarrow> bool" for E where
  capture: "\<lbrakk>as_capturing s; cp_capture (as_pipe s) = Some al; al_running al; device_ok al r\<rbrakk> \<Longrightarrow>
    as_step E s (capture_turn E r al s)"
| capture_exit: "\<lbrakk>as_capturing s; cp_capture (as_pipe s) = Some al; \<not> al_running al\<rbrakk> \<Longrightarrow>
    as_step E s (Some (Inr (s\<lparr>as_capturing := False\<rparr>)))"
| parameter: "parameter_fits (ae_math E) key val (as_pipe s) \<Longrightarrow>
    as_step E s (Some (obind (set_parameter (ae_math E) key val (as_pipe s))
      (\<lambda>(ok, cp). Inr (s\<lparr>as_pipe := cp\<rparr>))))"
| request: "\<lbrakk>cp_clip (as_pipe s) = Some cx; clip_fits (ae_mem_ok E) cx a b\<rbrakk> \<Longrightarrow>
    as_step E s (Some (Inr (s\<lparr>as_pipe := (as_pipe s)
      \<lparr>cp_clip := Some (snd (cx_request_clip now cx a b fmt))\<rparr>\<rparr>)))"
| serve: "\<lbrakk>\<not> as_worker_exited s; as_current s = None; cp_clip (as_pipe s) = Some cx;
      cx_worker_turn cx = Worker_Serves req cx'\<rbrakk> \<Longrightarrow>
    as_step E s (Some (Inr (s\<lparr>as_pipe := (as_pipe s)\<lparr>cp_clip := Some cx'\<rparr>, as_current := Some req\<rparr>)))"
| finish: "\<lbrakk>as_current s = Some req; cp_clip (as_pipe s) = Some cx; cp_ring (as_pipe s) = Some rb\<rbrakk> \<Longrightarrow>
    as_step E s (clip_turn E stamp cx rb req s)"
| worker_exit: "\<lbrakk>\<not> as_worker_exited s; as_current s = None; cp_clip (as_pipe s) = Some cx;
      cx_worker_turn cx = Worker_Exits\<rbrakk> \<Longrightarrow>
    as_step E s (Some (Inr (s\<lparr>as_worker_exited := True\<rparr>)))"
| take_result: "\<lbrakk>cp_clip (as_pipe s) = Some cx; cx_sync_ready cx rid\<rbrakk> \<Longrightarrow>
    as_step E s (Some (Inr (s\<lparr>as_pipe := (as_pipe s)\<lparr>cp_clip := Some (snd (cx_sync_take cx rid))\<rparr>\<rparr>)))"
| writer: "\<lbrakk>cp_recorder (as_pipe s) = Some br; writer_can (as_writer s) br\<rbrakk> \<Longrightarrow>
    as_step E s (writer_turn E br s)"
| stop: "as_step E s (Some (obind (cp_stop (as_pipe s)) (\<lambda>cp. Inr (s\<lparr>as_pipe := cp\<rparr>))))"

text \<open>The states a started pipeline gets into.\<close>

inductive as_reach :: "audio_env \<Rightarrow> capture_pipeline \<Rightarrow> audio_system \<Rightarrow> bool" for E cp where
  start: "as_reach E cp (as_init cp)"
| step: "\<lbrakk>as_reach E cp s; as_step E s (Some (Inr s'))\<rbrakk> \<Longrightarrow> as_reach E cp s'"

section \<open>What a chunk changes\<close>

lemma rb_write_shape:
  assumes "rb_write rb data n = Some (Inr rb')"
  shows "rb_channels rb' = rb_channels rb \<and> rb_bytes_per_sample rb' = rb_bytes_per_sample rb"
  using assms by (auto simp: rb_write_def Let_def split: option.splits sum.splits if_splits)

lemma feed_recorder_frame:
  assumes "feed_recorder cp out fc = Inr cp'"
  shows "cp' = cp\<lparr>cp_recorder := cp_recorder cp'\<rparr>" and
    "case cp_recorder cp of None \<Rightarrow> cp_recorder cp' = None
     | Some br \<Rightarrow> \<exists>taken br'. br_push br out fc = Inr (taken, br') \<and> cp_recorder cp' = Some br'"
  using assms by (auto simp: feed_recorder_def obind_Inr_iff split: option.splits)

lemma feed_publisher_frame:
  assumes "feed_publisher cp out fc ts = Inr cp'"
  shows "cp' = cp\<lparr>cp_publisher := cp_publisher cp'\<rparr>"
  using assms by (auto simp: feed_publisher_def obind_Inr_iff split: option.splits)

lemma cp_meter_frame:
  assumes "cp_meter math cp bits out samples fc = Inr cp'"
  shows "cp' = cp\<lparr>cp_peak_level := cp_peak_level cp', cp_rms_level := cp_rms_level cp',
    cp_total_frames := cp_total_frames cp'\<rparr>"
  using assms by (auto simp: cp_meter_def obind_Inr_iff)

lemma deref_Inr_iff: "deref x = Inr y \<longleftrightarrow> x = Some y"
  by (cases x) simp_all

lemma on_audio_chunk_parts:
  assumes run: "on_audio_chunk math (meta, data, count) cp = Some (Inr cp')"
    and fc: "fc = count div ucast (cm_channels meta)"
  obtains out samples cp1 rb rb' where "cp_signal cp meta data fc count = Inr (out, samples, cp1)"
    and "cp_ring cp1 = Some rb" and "rb_write rb out fc = Some (Inr rb')" and "cp_ring cp' = Some rb'"
    and "cp_capture cp' = cp_capture cp1" and "cp_clip cp' = cp_clip cp1" and "cp_running cp' = cp_running cp1"
    and "case cp_recorder cp1 of None \<Rightarrow> cp_recorder cp' = None
         | Some br \<Rightarrow> \<exists>taken br'. br_push br out fc = Inr (taken, br') \<and> cp_recorder cp' = Some br'"
proof -
  have "cm_channels meta \<noteq> 0" using run by (auto simp: on_audio_chunk_def)
  then obtain out samples cp1 rb rb' cp2 cp3 where S: "cp_signal cp meta data fc count = Inr (out, samples, cp1)"
    "cp_ring cp1 = Some rb" "rb_write rb out fc = Some (Inr rb')"
    "feed_recorder (cp1\<lparr>cp_ring := Some rb'\<rparr>) out fc = Inr cp2"
    "feed_publisher cp2 out fc (cm_timestamp_us meta) = Inr cp3"
    "cp_meter math cp3 (cm_bits_per_sample meta) out samples fc = Inr cp'"
    using run by (auto simp: on_audio_chunk_def Let_def pbind_Inr_iff obind_Inr_iff deref_Inr_iff fc)
  note F = feed_recorder_frame [OF S(4)] feed_publisher_frame [OF S(5)] cp_meter_frame [OF S(6)]
  have K: "cp_ring cp' = Some rb'" "cp_capture cp' = cp_capture cp1" "cp_clip cp' = cp_clip cp1"
    "cp_running cp' = cp_running cp1" "cp_recorder cp' = cp_recorder cp2"
    by (subst F(4), subst F(3), subst F(1), simp)+
  from K(5) have rec: "case cp_recorder cp1 of None \<Rightarrow> cp_recorder cp' = None
      | Some br \<Rightarrow> \<exists>taken br'. br_push br out fc = Inr (taken, br') \<and> cp_recorder cp' = Some br'"
    using F(2) by (auto split: option.splits)
  show thesis by (rule that [OF S(1-3) K(1-4) rec])
qed

section \<open>The invariant\<close>

text \<open>What stays the same of the extractor, and the record of a finished clip.\<close>

definition cx_key :: "clip_extractor \<Rightarrow> clip_config \<times> u32 \<times> u16 \<times> u16" where
  "cx_key cx = (cx_config cx, cx_sample_rate cx, cx_channels cx, cx_bits_per_sample cx)"

definition clip_frames :: "clip_extractor \<Rightarrow> nat \<Rightarrow> clip_record \<Rightarrow> nat" where
  "clip_frames cx cap r =
     min (nat (sint (rq_end_offset (cr_request r)) - sint (rq_start_offset (cr_request r))) *
            unat (cx_sample_rate cx))
         (min (cr_frames r) cap)"

text \<open>
  A finished clip: its range is empty, or there was no audio yet, or the file could not be
  opened, and its path is empty; or the file holds the frames \<open>k - m\<close> to \<open>k\<close> of the stream,
  where \<open>k\<close> frames had been captured when the worker came to read them.
\<close>

definition clip_ok :: "clip_extractor \<Rightarrow> nat \<Rightarrow> u8 list list \<Rightarrow> clip_record \<Rightarrow> bool" where
  "clip_ok cx cap H r \<longleftrightarrow>
     (let k = cr_frames r; m = clip_frames cx cap r;
          info = cx_info cx (rq_format (cr_request r))
      in k \<le> length H \<and>
         (if m = 0 then cr_path r = [] \<and> cr_calls r = []
          else (\<exists>full. cr_path r = [] \<and> cr_calls r = [Sf_Open full info False]) \<or>
               (\<exists>p. cr_path r \<noteq> [] \<and> cr_calls r = [Sf_Open (cr_path r) info True, Sf_Write p, Sf_Close] \<and>
                    payload_bytes (cx_bits_per_sample cx) p =
                      concat (frames_between H (int k - int m) (int k)))))"

definition request_fits :: "(nat \<Rightarrow> bool) \<Rightarrow> clip_extractor \<Rightarrow> clip_request \<Rightarrow> bool" where
  "request_fits mem_ok cx req \<longleftrightarrow> clip_fits mem_ok cx (rq_start_offset req) (rq_end_offset req)"

definition ring_part :: "nat \<Rightarrow> u8 list list \<Rightarrow> capture_pipeline \<Rightarrow> bool" where
  "ring_part cap H cp \<longleftrightarrow>
     (\<exists>rb. cp_ring cp = Some rb \<and> rb_holds H rb \<and> rb_width rb = out_width cp \<and> rb_cap rb = cap \<and>
        rb_channels rb = out_channels cp \<and> unat (rb_bytes_per_sample rb) = bytes_of_bits (pipe_bits cp))"

definition clip_part :: "audio_env \<Rightarrow> clip_extractor \<Rightarrow> nat \<Rightarrow> audio_system \<Rightarrow> bool" where
  "clip_part E cx0 cap s \<longleftrightarrow>
     (\<exists>cx. cp_clip (as_pipe s) = Some cx \<and> cx_key cx = cx_key cx0 \<and>
        cx_channels cx = out_channels (as_pipe s) \<and> cx_bits_per_sample cx = pipe_bits (as_pipe s) \<and>
        (\<forall>req \<in> set (cx_queue cx) \<union> set_option (as_current s). request_fits (ae_mem_ok E) cx req)) \<and>
     (\<forall>r \<in> set (as_clips s). clip_ok cx0 cap (as_stream s) r)"

definition rec_view :: "recorder \<Rightarrow> audio_system \<Rightarrow> rec_system" where
  "rec_view br s = \<lparr>rs_rec = br, rs_pc = as_writer s, rs_accepted = as_accepted s\<rparr>"

definition rec_part :: "recorder \<Rightarrow> audio_system \<Rightarrow> bool" where
  "rec_part br0 s \<longleftrightarrow>
     (case cp_recorder (as_pipe s) of
        None \<Rightarrow> as_accepted s = []
      | Some br \<Rightarrow> rs_ok br0 (rec_view br s) \<and> br_width br = out_width (as_pipe s) \<and>
          br_recording br = cp_running (as_pipe s))"

definition capture_part :: "nat \<Rightarrow> capture_pipeline \<Rightarrow> bool" where
  "capture_part P cp \<longleftrightarrow>
     (\<exists>al. cp_capture cp = Some al \<and> al_config al = dc_audio (cp_config cp) \<and>
        unat (al_actual_period al) = P \<and> (if cp_running cp then al_ready al else \<not> al_running al))"

definition stream_part :: "audio_system \<Rightarrow> bool" where
  "stream_part s \<longleftrightarrow>
     (let w = out_width (as_pipe s) in
      w dvd length (as_accepted s) \<and>
      subseq (frames_of w (length (as_accepted s) div w) (as_accepted s)) (as_stream s))"

definition as_inv ::
  "audio_env \<Rightarrow> nat \<Rightarrow> nat \<Rightarrow> clip_extractor \<Rightarrow> recorder \<Rightarrow> audio_system \<Rightarrow> bool" where
  "as_inv E P cap cx0 br0 s \<longleftrightarrow>
     signal_ok P (as_pipe s) \<and> (cp_running (as_pipe s) \<longrightarrow> publisher_ok (as_pipe s)) \<and>
     ring_part cap (as_stream s) (as_pipe s) \<and> clip_part E cx0 cap s \<and> rec_part br0 s \<and>
     capture_part P (as_pipe s) \<and> stream_part s"

lemma as_invD:
  assumes "as_inv E P cap cx0 br0 s"
  shows "signal_ok P (as_pipe s)" and "cp_running (as_pipe s) \<Longrightarrow> publisher_ok (as_pipe s)"
    and "ring_part cap (as_stream s) (as_pipe s)" and "clip_part E cx0 cap s" and "rec_part br0 s"
    and "capture_part P (as_pipe s)" and "stream_part s"
  using assms by (simp_all only: as_inv_def)

text \<open>Steps that leave the parts alone.\<close>

lemma out_width_clip [simp]:
  "out_width (cp\<lparr>cp_clip := x\<rparr>) = out_width cp" "out_channels (cp\<lparr>cp_clip := x\<rparr>) = out_channels cp"
  "out_width (cp\<lparr>cp_capture := y\<rparr>) = out_width cp" "out_channels (cp\<lparr>cp_capture := y\<rparr>) = out_channels cp"
  "out_width (cp\<lparr>cp_running := z\<rparr>) = out_width cp" "out_channels (cp\<lparr>cp_running := z\<rparr>) = out_channels cp"
  by (simp_all add: out_width_def out_channels_def)

lemma parts_updates [simp]:
  "signal_ok P (cp\<lparr>cp_clip := x\<rparr>) = signal_ok P cp"
  "publisher_ok (cp\<lparr>cp_clip := x\<rparr>) = publisher_ok cp"
  "ring_part cap H (cp\<lparr>cp_clip := x\<rparr>) = ring_part cap H cp"
  "capture_part P (cp\<lparr>cp_clip := x\<rparr>) = capture_part P cp"
  "publisher_ok (cp\<lparr>cp_recorder := b\<rparr>) = publisher_ok cp"
  "ring_part cap H (cp\<lparr>cp_recorder := b\<rparr>) = ring_part cap H cp"
  "capture_part P (cp\<lparr>cp_recorder := b\<rparr>) = capture_part P cp"
  "signal_ok P (cp\<lparr>cp_capture := y\<rparr>) = signal_ok P cp"
  "publisher_ok (cp\<lparr>cp_capture := y\<rparr>) = publisher_ok cp"
  "ring_part cap H (cp\<lparr>cp_capture := y\<rparr>) = ring_part cap H cp"
  by (simp_all add: signal_ok_def publisher_ok_def ring_part_def capture_part_def out_width_def out_channels_def)

section \<open>A chunk keeps the invariant\<close>

lemma signal_of_chunk:
  assumes ok: "signal_ok P cp" and fits: "chunk_fits P n cp (meta, data, count)"
    and fc: "fc = count div ucast (cm_channels meta)"
    and sig: "cp_signal cp meta data fc count = Inr (raw, samples, cp1)"
  shows "unat fc = n" and "cp_rest cp1 = cp_rest cp" and "n * out_width cp \<le> length raw"
    and "n * out_width cp < 2 ^ 63"
    and "chunk_output cp (meta, data, count) = (n, take (n * out_width cp) raw)"
proof -
  note F = fits [unfolded chunk_fits_def prod.case]
  have ch: "0 < unat (pipe_channels cp)" using ok by (simp add: signal_ok_def unat_gt_0)
  show n: "unat fc = n" using F ch by (simp add: fc unat_div unat_ucast_16)
  show "cp_rest cp1 = cp_rest cp" "n * out_width cp \<le> length raw"
    using cp_signal_ok [OF ok _ _ n, of meta count data] F sig by auto
  have "n * out_width cp \<le> n * unat (pipe_channels cp) * bytes_of_bits (pipe_bits cp)"
    unfolding out_width_def mult.assoc using out_channels_le by (intro mult_le_mono1 mult_le_mono2)
  then show "n * out_width cp < 2 ^ 63" using F by linarith
  show "chunk_output cp (meta, data, count) = (n, take (n * out_width cp) raw)"
    using sig n by (simp add: chunk_output_def Let_def flip: fc)
qed

text \<open>The recorder's part: a push of the whole period, or nothing.\<close>

lemma rec_part_push:
  assumes rs: "rs_ok br0 \<lparr>rs_rec = br, rs_pc = pc, rs_accepted = A\<rparr>" and w: "br_width br = w"
    and run: "br_recording br" and len: "length raw \<ge> n * w" "n * w < 2 ^ 63" and fc: "unat fc = n"
    and push: "br_push br raw fc = Inr (taken, br')" and n: "n < 2 ^ 64"
  shows "rs_ok br0 \<lparr>rs_rec = br', rs_pc = pc, rs_accepted = A @ (if taken then take (n * w) raw else [])\<rparr>"
    and "br_width br' = w" and "br_recording br' = br_recording br"
    and "br_push br (take (n * w) raw) (of_nat n) = Inr (taken, br')"
proof -
  have notex: "pc \<noteq> Exited" using rs run by (auto simp: rs_ok_def)
  then obtain R where inv: "br_inv A R br" using rs by (auto simp: rs_ok_def)
  have bpf: "unat (br_bytes_per_frame br) = w" using inv by (simp add: br_inv_def br_sane_def w)
  have "n * w < 2 ^ 64" using len(2) by simp
  then have "unat (fc * br_bytes_per_frame br) = n * w"
    by (subst unat_mult_64) (simp_all add: bpf fc)
  then have same: "br_push br (take (n * w) raw) fc = Inr (taken, br')"
    using push br_push_take [of br fc "n * w" raw] by simp
  have "fc = of_nat n" using fc by auto
  with same show "br_push br (take (n * w) raw) (of_nat n) = Inr (taken, br')" by simp
  have data: "length (take (n * w) raw) = unat fc * br_width br" "length (take (n * w) raw) < 2 ^ 63"
    using len by (simp_all add: fc w)
  from br_push_ok [OF inv data] same
  have P: "br_inv (A @ (if taken then take (n * w) raw else [])) R br'" "br_static br' = br_static br"
    "br_recording br' = br_recording br" "br_writer_running br' = br_writer_running br" by auto
  then show "br_width br' = w" "br_recording br' = br_recording br"
    using br_static_width [of br' br] w by simp_all
  have "w dvd length (A @ (if taken then take (n * w) raw else []))"
    using rs len(1) w br_static_width [of br br0] by (auto simp: rs_ok_def)
  then show "rs_ok br0 \<lparr>rs_rec = br', rs_pc = pc, rs_accepted = A @ (if taken then take (n * w) raw else [])\<rparr>"
    using rs P notex w br_static_width [of br br0] by (auto simp: rs_ok_def)
qed

lemma stream_part_extend:
  assumes "w dvd length A" "subseq (frames_of w (length A div w) A) H" and "length out = n * w" and "0 < w"
    and B: "B = out \<or> B = []"
  shows "w dvd length (A @ B)"
    and "subseq (frames_of w (length (A @ B) div w) (A @ B)) (H @ frames_of w n out)"
proof -
  have A: "length A = length A div w * w" using assms(1) by simp
  have out: "length out div w = n" using assms(3,4) by simp
  show dv: "w dvd length (A @ B)" using B assms(1,3) by auto
  from B show "subseq (frames_of w (length (A @ B) div w) (A @ B)) (H @ frames_of w n out)"
  proof
    assume "B = out"
    moreover have "length (A @ out) div w = length A div w + n"
      using A assms(3,4) by (metis add_mult_distrib length_append nonzero_mult_div_cancel_right not_gr_zero)
    ultimately show ?thesis
      using assms(2) frames_of_append [OF A, of n out] by (simp add: list_emb_append_mono)
  next
    assume "B = []"
    then show ?thesis using assms(2) by (simp add: list_emb_prefix)
  qed
qed

lemma clip_ok_grows: "clip_ok cx cap H r \<Longrightarrow> clip_ok cx cap (H @ H') r"
proof -
  assume ok: "clip_ok cx cap H r"
  then have k: "cr_frames r \<le> length H" by (simp add: clip_ok_def Let_def)
  have "frames_between (H @ H') (int (cr_frames r) - m) (int (cr_frames r)) =
      frames_between H (int (cr_frames r) - m) (int (cr_frames r))" for m
    using k by (auto simp: frames_between_def nth_append)
  with ok show ?thesis by (auto simp: clip_ok_def Let_def split: if_splits)
qed

lemma cp_rest_parts:
  assumes "cp_rest a = cp_rest b"
  shows "cp_ring a = cp_ring b" "cp_capture a = cp_capture b" "cp_clip a = cp_clip b"
    "cp_running a = cp_running b" "cp_recorder a = cp_recorder b"
  using assms by (simp_all add: cp_rest_def)

lemma rec_part_running:
  assumes "rec_part br0 s" and "cp_running (as_pipe s)"
  shows "\<exists>R. recorder_ok (as_accepted s) R (as_pipe s)"
proof (cases "cp_recorder (as_pipe s)")
  case None
  then show ?thesis by (simp add: recorder_ok_def)
next
  case (Some br)
  then have "rs_ok br0 (rec_view br s)" "br_recording br" "br_width br = out_width (as_pipe s)"
    using assms by (simp_all add: rec_part_def)
  then show ?thesis by (auto simp: rs_ok_def rec_view_def recorder_ok_def Some split: if_splits)
qed

lemma recorder_key_none: "recorder_key cp = None \<longleftrightarrow> cp_recorder cp = None"
  by (simp add: recorder_key_def)

text \<open>
  The state after a chunk of a running pipeline, whose capture object has become \<open>al'\<close>.
\<close>

lemma chunk_inv:
  assumes inv: "as_inv E P cap cx0 br0 s" and run: "cp_running (as_pipe s)"
    and fits: "chunk_fits P n (as_pipe s) c"
    and al': "al_ready al'" "al_config al' = dc_audio (cp_config (as_pipe s))" "unat (al_actual_period al') = P"
  shows "\<exists>cp'. on_audio_chunk (ae_math E) c ((as_pipe s)\<lparr>cp_capture := Some al'\<rparr>) = Some (Inr cp') \<and>
     as_inv E P cap cx0 br0 (s\<lparr>as_pipe := cp', as_capturing := go,
       as_stream := as_stream s @
         (case chunk_output ((as_pipe s)\<lparr>cp_capture := Some al'\<rparr>) c of (n, out) \<Rightarrow> frames_of (out_width (as_pipe s)) n out),
       as_accepted := as_accepted s @ chunk_recorded ((as_pipe s)\<lparr>cp_capture := Some al'\<rparr>) c\<rparr>)"
proof -
  note I = as_invD [OF inv]
  obtain meta data count where c: "c = (meta, data, count)" by (cases c)
  let ?cp = "(as_pipe s)\<lparr>cp_capture := Some al'\<rparr>" and ?H = "as_stream s" and ?A = "as_accepted s"
  let ?w = "out_width (as_pipe s)"
  define fc where "fc = count div ucast (cm_channels meta)"
  obtain R where rec: "recorder_ok ?A R (as_pipe s)" using rec_part_running [OF I(5) run] by blast
  have ring: "ring_ok ?H (as_pipe s)" using I(3) by (auto simp: ring_part_def ring_ok_def)
  have pinv: "pipe_inv P ?H ?A R ?cp"
    using I(1,2) run rec ring by (simp add: pipe_inv_def recorder_ok_def ring_ok_def)
  have fits': "chunk_fits P n ?cp (meta, data, count)" using fits by (simp add: chunk_fits_def c)
  obtain cp' H' A' where ok: "on_audio_chunk (ae_math E) c ?cp = Some (Inr cp')" "pipe_inv P H' A' R cp'"
    "cp_params cp' = cp_params ?cp"
    using on_audio_chunk_ok [OF pinv fits' [folded c], of "ae_math E"] by blast
  obtain raw samples cp1 rb rb' where S: "cp_signal ?cp meta data fc count = Inr (raw, samples, cp1)"
    "cp_ring cp1 = Some rb" "rb_write rb raw fc = Some (Inr rb')" "cp_ring cp' = Some rb'"
    "cp_capture cp' = cp_capture cp1" "cp_clip cp' = cp_clip cp1" "cp_running cp' = cp_running cp1"
    "case cp_recorder cp1 of None \<Rightarrow> cp_recorder cp' = None
     | Some br \<Rightarrow> \<exists>taken br'. br_push br raw fc = Inr (taken, br') \<and> cp_recorder cp' = Some br'"
    by (rule on_audio_chunk_parts [OF ok(1) [unfolded c] fc_def])
  have sok: "signal_ok P ?cp" using I(1) by simp
  note sig = signal_of_chunk [OF sok fits' fc_def S(1), unfolded out_width_clip]
  note rest = cp_rest_parts [OF sig(2), simplified]
  let ?out = "take (n * ?w) raw"
  have len: "length ?out = n * ?w" using sig(3) by simp
  have same: "out_width cp' = ?w" "out_channels cp' = out_channels (as_pipe s)" "cp_config cp' = cp_config (as_pipe s)"
    using cp_params_out [OF ok(3)] ok(3) by (simp_all add: cp_params_def)
  let ?s' = "s\<lparr>as_pipe := cp', as_capturing := go,
       as_stream := ?H @ (case chunk_output ?cp c of (n, out) \<Rightarrow> frames_of ?w n out),
       as_accepted := ?A @ chunk_recorded ?cp c\<rparr>"
  have stream: "as_stream ?s' = ?H @ frames_of ?w n ?out" using sig(5) by (simp add: c)
  have w: "0 < ?w" using I(1)
    by (auto simp: signal_ok_def out_width_def out_channels_def Let_def unat_gt_0 elim: supported_bits_cases)
  have ring': "ring_part cap (as_stream ?s') cp'"
  proof -
    from I(3) rest(1) S(2) have rb: "rb_holds ?H rb" "rb_width rb = ?w" "rb_cap rb = cap"
      "rb_channels rb = out_channels (as_pipe s)" "unat (rb_bytes_per_sample rb) = bytes_of_bits (pipe_bits (as_pipe s))"
      by (auto simp: ring_part_def)
    have "unat fc * rb_width rb \<le> length raw" using sig(1,3) by (simp add: rb(2))
    from rb_write_refines [OF rb(1) this] S(3)
    have "rb_holds (?H @ frames_of ?w n raw) rb'" "rb_cap rb' = cap" "rb_width rb' = ?w"
      by (auto simp: rb sig(1))
    then show ?thesis using rb_write_shape [OF S(3)] rb(4,5) S(4) same unfolding stream
      by (simp add: ring_part_def frames_of_take)
  qed
  have acc: "rec_part br0 ?s' \<and> (chunk_recorded ?cp c = ?out \<or> chunk_recorded ?cp c = [])"
  proof (cases "cp_recorder (as_pipe s)")
    case None
    then have "cp_recorder cp' = None" "chunk_recorded ?cp c = []"
      using S(8) rest(5) sig(5) by (simp_all add: chunk_recorded_def c)
    then show ?thesis using I(5) None by (simp add: rec_part_def)
  next
    case (Some br)
    then obtain taken br' where push: "br_push br raw fc = Inr (taken, br')" "cp_recorder cp' = Some br'"
      using S(8) rest(5) by auto
    have rs: "rs_ok br0 \<lparr>rs_rec = br, rs_pc = as_writer s, rs_accepted = ?A\<rparr>" "br_width br = ?w" "br_recording br"
      using I(5) run by (simp_all add: rec_part_def Some rec_view_def)
    have "n < 2 ^ 64" using sig(1) unat_lt_64 [of fc] by simp
    note R = rec_part_push [OF rs sig(3,4,1) push(1) this]
    have "chunk_recorded ?cp c = (if taken then ?out else [])"
      using R(4) sig(5) by (simp add: chunk_recorded_def c Some)
    then show ?thesis using R(1-3) push(2) rs(3) run S(7) rest(4) same
      by (auto simp: rec_part_def rec_view_def)
  qed
  have st: "?w dvd length ?A" "subseq (frames_of ?w (length ?A div ?w) ?A) ?H"
    using I(7) by (simp_all add: stream_part_def Let_def)
  have "stream_part ?s'"
    using stream_part_extend [OF st len w conjunct2 [OF acc]] unfolding stream_part_def Let_def stream
    by (simp add: same(1))
  moreover have "clip_part E cx0 cap ?s'"
    using I(4) S(6) rest(3) same clip_ok_grows unfolding clip_part_def stream by auto
  moreover have "capture_part P cp'"
    using al' S(5,7) rest(2,4) run same(3) by (simp add: capture_part_def)
  ultimately have "as_inv E P cap cx0 br0 ?s'"
    using ok(2) ring' acc by (simp add: as_inv_def pipe_inv_def)
  then show ?thesis using ok(1) by blast
qed

section \<open>The other turns keep the invariant\<close>

lemma as_invI:
  assumes "signal_ok P (as_pipe s)" and "cp_running (as_pipe s) \<longrightarrow> publisher_ok (as_pipe s)"
    and "ring_part cap (as_stream s) (as_pipe s)" and "clip_part E cx0 cap s" and "rec_part br0 s"
    and "capture_part P (as_pipe s)" and "stream_part s"
  shows "as_inv E P cap cx0 br0 s"
  using assms by (simp add: as_inv_def)

lemma capture_turn_inv:
  assumes inv: "as_inv E P cap cx0 br0 s" and al: "cp_capture (as_pipe s) = Some al" "al_running al"
    and dev: "device_ok al r"
  shows "\<exists>s'. capture_turn E r al s = Some (Inr s') \<and> as_inv E P cap cx0 br0 s'"
proof -
  note I = as_invD [OF inv]
  have C: "al_config al = dc_audio (cp_config (as_pipe s))" "unat (al_actual_period al) = P"
    "cp_running (as_pipe s)" "al_ready al"
    using I(6) al by (auto simp: capture_part_def split: if_splits)
  have same: "al_config al' = dc_audio (cp_config (as_pipe s)) \<and> unat (al_actual_period al') = P"
    if "al_static al' = al_static al" for al'
    using that C(1,2) by (simp add: al_static_def)
  have quiet: "as_inv E P cap cx0 br0 (s\<lparr>as_pipe := (as_pipe s)\<lparr>cp_capture := Some al'\<rparr>, as_capturing := go\<rparr>)"
    if "al_static al' = al_static al" "al_ready al'" for al' go
    using I C(3) same [OF that(1)] that(2)
    by (intro as_invI) (simp_all add: clip_part_def rec_part_def rec_view_def capture_part_def stream_part_def
        split: option.splits)
  note T = al_turn_ok [OF C(4) dev]
  show ?thesis
  proof (cases "\<not> fatal_read r \<and> 0 < dr_frames r")
    case False
    then obtain go al' where "al_turn al r = Inr (go, None, al')" "al_static al' = al_static al" "al_ready al'"
      using T by (auto split: if_splits)
    then show ?thesis using quiet by (simp add: capture_turn_def Let_def)
  next
    case True
    then obtain al' c where t: "al_turn al r = Inr (True, Some c, al')" "chunk_ok al c"
      "chunk_bytes c = dr_bytes r" "al_static al' = al_static al" "al_ready al'"
      using T by auto
    have "pipe_channels (as_pipe s) \<noteq> 0" using I(1) by (simp add: signal_ok_def)
    from chunk_of_read(1) [OF C(4) dev t(2,3) C(1) this]
    have "chunk_fits P (nat (dr_frames r)) (as_pipe s) c" by (simp only: C(2))
    from chunk_inv [OF inv C(3) this t(5), of True] same [OF t(4)] show ?thesis
      using t(1) by (auto simp: capture_turn_def Let_def)
  qed
qed

lemma set_parameter_inv:
  assumes inv: "as_inv E P cap cx0 br0 s" and fits: "parameter_fits (ae_math E) key val (as_pipe s)"
  shows "\<exists>ok cp. set_parameter (ae_math E) key val (as_pipe s) = Inr (ok, cp) \<and>
     as_inv E P cap cx0 br0 (s\<lparr>as_pipe := cp\<rparr>)"
proof -
  note I = as_invD [OF inv]
  let ?cp = "as_pipe s"
  have keep: "as_inv E P cap cx0 br0 (s\<lparr>as_pipe := ?cp\<lparr>cp_gain_db := a, cp_gain_linear := g, cp_dc_remove := d, cp_dc_prev := q\<rparr>\<rparr>)"
    if "0 \<le> g \<and> g \<le> gain_room (pipe_bits ?cp)" "q = cp_dc_prev ?cp \<or>
      q = (replicate (length (fst (cp_dc_prev ?cp))) 0, replicate (length (snd (cp_dc_prev ?cp))) 0)" for a g d q
  proof (rule as_invI, simp_all)
    let ?new = "?cp\<lparr>cp_gain_db := a, cp_gain_linear := g, cp_dc_remove := d, cp_dc_prev := q\<rparr>"
    have w: "out_width ?new = out_width ?cp" "out_channels ?new = out_channels ?cp"
      by (simp_all add: out_width_def out_channels_def)
    show "signal_ok P ?new" using I(1) that by (auto simp: signal_ok_def w(2) dc_sane_def)
    show "cp_running ?cp \<longrightarrow> publisher_ok ?new" using I(2) by (simp add: publisher_ok_def w(2))
    show "ring_part cap (as_stream s) ?new" using I(3) by (simp add: ring_part_def w)
    show "clip_part E cx0 cap (s\<lparr>as_pipe := ?new\<rparr>)" using I(4) by (simp add: clip_part_def w)
    show "rec_part br0 (s\<lparr>as_pipe := ?new\<rparr>)"
      using I(5) by (simp add: rec_part_def rec_view_def w split: option.splits)
    show "capture_part P ?new" using I(6) by (simp add: capture_part_def)
    show "stream_part (s\<lparr>as_pipe := ?new\<rparr>)" using I(7) by (simp add: stream_part_def w)
  qed
  have g: "0 \<le> cp_gain_linear ?cp \<and> cp_gain_linear ?cp \<le> gain_room (pipe_bits ?cp)"
    using I(1) by (simp add: signal_ok_def)
  consider (gain) "key = ''gain_db'' \<or> key = ''gain''" | (dc) "key = ''dc_remove''"
    | (other) "\<not> (key = ''gain_db'' \<or> key = ''gain'')" "key \<noteq> ''dc_remove''" by blast
  then show ?thesis
  proof cases
    case gain
    then obtain db where db: "ml_stod (ae_math E) val = Inr db"
      "0 \<le> linear_gain (ae_math E) db \<and> linear_gain (ae_math E) db \<le> gain_room (pipe_bits ?cp)"
      using fits by (auto simp: parameter_fits_def split: sum.splits)
    from keep [OF db(2) disjI1 [OF refl], where a = "fl32 db" and d = "cp_dc_remove ?cp"] gain db(1) show ?thesis
      by (simp add: set_parameter_def ex_bool_eq)
  next
    case dc
    from keep [OF g disjI1 [OF refl], where a = "cp_gain_db ?cp" and d = True]
      keep [OF g disjI2 [OF refl], where a = "cp_gain_db ?cp" and d = False] dc show ?thesis
      by (auto simp: set_parameter_def Let_def)
  next
    case other
    have "s\<lparr>as_pipe := as_pipe s\<rparr> = s" by simp
    then show ?thesis using other inv
      by (intro exI [of _ False] exI [of _ "as_pipe s"]) (simp add: set_parameter_def)
  qed
qed

text \<open>Everything the extractor computes depends only on what stays the same of it.\<close>

lemma cx_key_eq:
  assumes "cx_key a = cx_key b"
  shows "cx_info a = cx_info b" "cx_sample_rate a = cx_sample_rate b" "cx_bits_per_sample a = cx_bits_per_sample b"
    "clip_frames a = clip_frames b" "request_fits mem_ok a = request_fits mem_ok b"
  using assms
  by (auto simp: cx_key_def cx_info_def clip_frames_def request_fits_def clip_fits_def clip_bytes_def
      cx_frame_bytes_def fun_eq_iff)

lemma cx_key_updates [simp]:
  "cx_key (cx\<lparr>cx_queue := q\<rparr>) = cx_key cx" "cx_key (cx\<lparr>cx_results := r\<rparr>) = cx_key cx"
  "cx_key (cx\<lparr>cx_next_id := i, cx_queue := q\<rparr>) = cx_key cx" "cx_key (cx\<lparr>cx_running := b\<rparr>) = cx_key cx"
  by (simp_all add: cx_key_def)

text \<open>The extraction of a request that fits, on the ring buffer of the moment.\<close>

lemma extract_now:
  assumes holds: "rb_holds H rb" "length H < 2 ^ 64" and match: "cx_matches cx rb"
    and bits: "supported_bits (cx_bits_per_sample cx)" and ch: "cx_channels cx \<noteq> 0"
    and fits: "request_fits mem_ok cx req"
  shows "\<exists>path new. cx_extract_clip mem_ok (\<lambda>_ rb. rb) stamp lib cx rb calls req = Some (Inr (path, rb, calls @ new)) \<and>
     clip_ok cx (rb_cap rb) H \<lparr>cr_request = req, cr_path = path, cr_calls = new, cr_frames = length H\<rparr>"
proof -
  let ?s = "sint (rq_start_offset req)" and ?e = "sint (rq_end_offset req)"
  let ?r = "\<lambda>path new. \<lparr>cr_request = req, cr_path = path, cr_calls = new, cr_frames = length H\<rparr>"
  define tot where "tot = nat (?e - ?s) * unat (cx_sample_rate cx)"
  define m where "m = min tot (min (length H) (rb_cap rb))"
  have fr: "clip_frames cx (rb_cap rb) (?r path new) = m" for path new
    by (simp add: clip_frames_def m_def tot_def)
  have F: "\<bar>?s\<bar> \<le> 2147483" "\<bar>?e\<bar> \<le> 2147483" "tot * cx_frame_bytes cx < 2 ^ 63" "mem_ok (tot * cx_frame_bytes cx)"
    using fits by (simp_all add: request_fits_def clip_fits_def clip_bytes_def tot_def)
  then have no_ovf: "\<not> int32_overflow (?e * 1000)" "\<not> int32_overflow (?e - ?s)"
    by (auto simp: int32_overflow_def)
  show ?thesis
  proof (cases "?s < ?e")
    case False
    then have "cx_extract_clip mem_ok (\<lambda>_ rb. rb) stamp lib cx rb calls req = Some (Inr ([], rb, calls @ []))"
      using no_ovf by (simp add: cx_extract_clip_def Let_def)
    moreover have "clip_frames cx (rb_cap rb) (?r [] []) = 0" using False by (simp add: clip_frames_def)
    ultimately show ?thesis by (intro exI [of _ "[]"]) (simp add: clip_ok_def Let_def)
  next
    case True
    have wpos: "0 < cx_frame_bytes cx" using bits ch by (rule cx_frame_bytes_pos)
    have size: "tot * cx_frame_bytes cx < 2 ^ 64" using F(3) by simp
    define base where "base = cc_output_dir (cx_config cx) @ ''/clip_'' @ stamp"
    have run: "cx_extract_clip mem_ok (\<lambda>_ rb. rb) stamp lib cx rb calls req =
        (if m = 0 then Some (Inr ([], rb, calls))
         else Some (obind (cx_write_sndfile lib cx calls (concat (recent H 0 m)) base (rq_format req))
               (\<lambda>(path, calls'). Inr (path, rb, calls'))))"
      using extract_clip_cases [where sleep = "\<lambda>_ rb. rb" and ?rb0.0 = rb, OF refl refl True no_ovf _ holds match wpos tot_def size m_def,
          of mem_ok stamp lib calls] F(3,4)
      by (simp add: new_zeroed_def base_def)
    have window: "recent H 0 m = frames_between H (int (length H) - int m) (int (length H))"
      using recent_frames_between [of 0 m H] by (simp add: m_def)
    have len: "length (concat (recent H 0 m)) = m * cx_frame_bytes cx"
      using rb.length_recent_bytes [OF holds(1), of 0 m] by (simp add: cx_matches_width [OF match] m_def)
    define full where "full = base @ (if rq_format req = ''flac'' then ''.flac'' else ''.wav'')"
    consider (none) "m = 0" | (opened) "m \<noteq> 0" "lib_open lib calls full (cx_info cx (rq_format req))"
      | (failed) "m \<noteq> 0" "\<not> lib_open lib calls full (cx_info cx (rq_format req))" by blast
    then show ?thesis
    proof cases
      case none
      have "clip_ok cx (rb_cap rb) H (?r [] [])" by (simp add: clip_ok_def Let_def fr none)
      then show ?thesis using run none by (intro exI [of _ "[]"]) simp
    next
      case opened
      note w = write_sndfile_ok [OF bits ch len opened(2) [unfolded full_def] refl, folded full_def]
      obtain p where p: "cx_write_sndfile lib cx calls (concat (recent H 0 m)) base (rq_format req) =
          Inr (full, calls @ [Sf_Open full (cx_info cx (rq_format req)) True, Sf_Write p, Sf_Close])"
        "payload_bytes (cx_bits_per_sample cx) p = concat (recent H 0 m)"
        using w by blast
      let ?new = "[Sf_Open full (cx_info cx (rq_format req)) True, Sf_Write p, Sf_Close]"
      have "full \<noteq> []" by (simp add: full_def base_def)
      then have "clip_ok cx (rb_cap rb) H (?r full ?new)"
        using p(2) opened(1) by (simp add: clip_ok_def Let_def fr window)
      then show ?thesis using run p(1) opened(1) by (intro exI [of _ full] exI [of _ ?new]) simp
    next
      case failed
      let ?new = "[Sf_Open full (cx_info cx (rq_format req)) False]"
      have "cx_write_sndfile lib cx calls (concat (recent H 0 m)) base (rq_format req) = Inr ([], calls @ ?new)"
        using failed(2) unfolding full_def by (simp add: cx_write_sndfile_def Let_def)
      moreover have "clip_ok cx (rb_cap rb) H (?r [] ?new)" using failed(1) by (simp add: clip_ok_def Let_def fr)
      ultimately show ?thesis using run failed(1) by (intro exI [of _ "[]"] exI [of _ ?new]) simp
    qed
  qed
qed

lemma ring_matches:
  assumes "ring_part cap H cp" and "cx_channels cx = out_channels cp" and "cx_bits_per_sample cx = pipe_bits cp"
    and "cp_ring cp = Some rb"
  shows "cx_matches cx rb" and "rb_holds H rb" and "rb_cap rb = cap"
  using assms by (auto simp: ring_part_def cx_matches_def)

text \<open>A step of the extractor: only its object, its current request and its records change.\<close>

lemma clip_step_inv:
  assumes inv: "as_inv E P cap cx0 br0 s" and cx: "cp_clip (as_pipe s) = Some cx" and key: "cx_key cx' = cx_key cx"
    and reqs: "\<forall>req \<in> set (cx_queue cx') \<union> set_option cur. request_fits (ae_mem_ok E) cx req"
    and recs: "\<forall>r \<in> set new. clip_ok cx cap (as_stream s) r"
  shows "as_inv E P cap cx0 br0 (s\<lparr>as_pipe := (as_pipe s)\<lparr>cp_clip := Some cx'\<rparr>, as_current := cur,
    as_clip_calls := calls, as_clips := as_clips s @ new\<rparr>)"
proof -
  note I = as_invD [OF inv]
  from I(4) cx have C: "cx_key cx = cx_key cx0" "cx_channels cx = out_channels (as_pipe s)"
    "cx_bits_per_sample cx = pipe_bits (as_pipe s)" "\<forall>r \<in> set (as_clips s). clip_ok cx0 cap (as_stream s) r"
    by (auto simp: clip_part_def)
  have same: "cx_channels cx' = cx_channels cx" "cx_bits_per_sample cx' = cx_bits_per_sample cx"
    using key by (simp_all add: cx_key_def)
  have "clip_ok cx0 = clip_ok cx"
    using cx_key_eq [OF C(1)] by (simp add: clip_ok_def fun_eq_iff)
  then have "clip_part E cx0 cap (s\<lparr>as_pipe := (as_pipe s)\<lparr>cp_clip := Some cx'\<rparr>, as_current := cur,
      as_clip_calls := calls, as_clips := as_clips s @ new\<rparr>)"
    using C key reqs recs same cx_key_eq(5) [OF key] by (auto simp: clip_part_def)
  moreover have "rec_part br0 (s\<lparr>as_pipe := (as_pipe s)\<lparr>cp_clip := Some cx'\<rparr>, as_current := cur,
      as_clip_calls := calls, as_clips := as_clips s @ new\<rparr>)"
    using I(5) by (simp add: rec_part_def rec_view_def split: option.splits)
  ultimately show ?thesis using I by (intro as_invI) (simp_all add: stream_part_def)
qed

lemma clip_current:
  assumes "as_inv E P cap cx0 br0 s" and "cp_clip (as_pipe s) = Some cx"
  shows "\<forall>req \<in> set (cx_queue cx) \<union> set_option (as_current s). request_fits (ae_mem_ok E) cx req"
  using as_invD(4) [OF assms(1)] assms(2) by (auto simp: clip_part_def)

lemma clip_turn_inv:
  assumes inv: "as_inv E P cap cx0 br0 s" and cur: "as_current s = Some req"
    and cx: "cp_clip (as_pipe s) = Some cx" and rb: "cp_ring (as_pipe s) = Some rb"
    and short: "length (as_stream s) < 2 ^ 64"
  shows "\<exists>s'. clip_turn E stamp cx rb req s = Some (Inr s') \<and> as_inv E P cap cx0 br0 s'"
proof -
  note I = as_invD [OF inv]
  have C: "cx_channels cx = out_channels (as_pipe s)" "cx_bits_per_sample cx = pipe_bits (as_pipe s)"
    using I(4) cx by (auto simp: clip_part_def)
  have R: "cx_matches cx rb" "rb_holds (as_stream s) rb" "rb_cap rb = cap" by (rule ring_matches [OF I(3) C rb])+
  have bits: "supported_bits (cx_bits_per_sample cx)" "cx_channels cx \<noteq> 0"
    using I(1) C by (auto simp: signal_ok_def out_channels_def Let_def)
  have fits: "request_fits (ae_mem_ok E) cx req" using clip_current [OF inv cx] cur by simp
  obtain path new where X: "cx_extract_clip (ae_mem_ok E) (\<lambda>_ rb. rb) stamp (ae_clip_lib E) cx rb (as_clip_calls s) req =
      Some (Inr (path, rb, as_clip_calls s @ new))"
    "clip_ok cx cap (as_stream s) \<lparr>cr_request = req, cr_path = path, cr_calls = new, cr_frames = length (as_stream s)\<rparr>"
    using extract_now [OF R(2) short R(1) bits fits] unfolding R(3) by blast
  have key: "cx_key (cx_store_result cx req path) = cx_key cx" by (simp add: cx_store_result_def)
  have "\<forall>req' \<in> set (cx_queue (cx_store_result cx req path)) \<union> set_option None. request_fits (ae_mem_ok E) cx req'"
    using clip_current [OF inv cx] by (simp add: cx_store_result_def)
  from clip_step_inv [OF inv cx key this] X show ?thesis by (simp add: clip_turn_def)
qed

text \<open>A turn of the writer is one of its steps in \<open>Recorder_System\<close>.\<close>

lemma writer_turn_inv:
  assumes inv: "as_inv E P cap cx0 br0 s" and opens: "opens_succeed (ae_rec_lib E)"
    and br: "cp_recorder (as_pipe s) = Some br" and can: "writer_can (as_writer s) br"
  shows "\<exists>s'. writer_turn E br s = Some (Inr s') \<and> as_inv E P cap cx0 br0 s'"
proof -
  note I = as_invD [OF inv]
  have rs: "rs_ok br0 (rec_view br s)" "br_width br = out_width (as_pipe s)" "br_recording br = cp_running (as_pipe s)"
    using I(5) by (simp_all add: rec_part_def br)
  have next_state: "as_inv E P cap cx0 br0 (s\<lparr>as_pipe := (as_pipe s)\<lparr>cp_recorder := Some br'\<rparr>, as_writer := pc\<rparr>)"
    if step: "rec_step (ae_rec_lib E) (ae_clock E) (rec_view br s) \<lparr>rs_rec = br', rs_pc = pc, rs_accepted = as_accepted s\<rparr>"
      and rec: "br_recording br' = br_recording br" for br' pc
  proof -
    have rs': "rs_ok br0 \<lparr>rs_rec = br', rs_pc = pc, rs_accepted = as_accepted s\<rparr>"
      by (rule rs_ok_step [OF opens rs(1) step])
    moreover have "br_width br' = br_width br"
      using rs(1) rs' br_static_width by (metis rs_ok_def rec_view_def rec_system.select_convs(1))
    ultimately have "rec_part br0 (s\<lparr>as_pipe := (as_pipe s)\<lparr>cp_recorder := Some br'\<rparr>, as_writer := pc\<rparr>)"
      using rs(2,3) rec by (simp add: rec_part_def rec_view_def)
    then show ?thesis using I
      by (intro as_invI) (simp_all add: clip_part_def stream_part_def)
  qed
  have same: "(as_pipe s)\<lparr>cp_recorder := Some br\<rparr> = as_pipe s" using br by simp
  show ?thesis
  proof (cases "as_writer s")
    case Waiting
    then have "rec_step (ae_rec_lib E) (ae_clock E) (rec_view br s)
        \<lparr>rs_rec = br, rs_pc = Draining, rs_accepted = as_accepted s\<rparr>"
      using rec_step.wake [of "rec_view br s"] can by (simp add: rec_view_def writer_can_def)
    from next_state [OF this refl] show ?thesis using Waiting by (simp add: writer_turn_def same)
  next
    case Draining
    then obtain R where binv: "br_inv (as_accepted s) R br" using rs(1) by (auto simp: rs_ok_def rec_view_def)
    obtain res br' where it: "br_drain_iter (ae_rec_lib E) (ae_clock E) br = Some (Inr (res, br'))"
      "br_recording br' = br_recording br"
    proof (cases "R = length (as_accepted s)")
      case True
      show ?thesis by (rule that [OF br_drain_iter_empty [OF binv True] refl])
    next
      case False
      obtain br' where "br_drain_iter (ae_rec_lib E) (ae_clock E) br = Some (Inr (Go_On, br'))"
        "br_params br' = br_params br"
        using br_drain_iter_ok [OF opens binv False] by blast
      then show ?thesis using br_params_static by (intro that) blast+
    qed
    let ?pc = "if res = Go_On then Draining else Deciding"
    have "rec_step (ae_rec_lib E) (ae_clock E) (rec_view br s)
        \<lparr>rs_rec = br', rs_pc = ?pc, rs_accepted = as_accepted s\<rparr>"
      using rec_step.drain [of "rec_view br s" "ae_rec_lib E" "ae_clock E" res br'] it(1) Draining
      by (simp add: rec_view_def)
    from next_state [OF this it(2)] show ?thesis using Draining it(1) by (simp add: writer_turn_def)
  next
    case Deciding
    show ?thesis
    proof (cases "br_exit br")
      case True
      have "rec_step (ae_rec_lib E) (ae_clock E) (rec_view br s)
          \<lparr>rs_rec = br_close_current_file br, rs_pc = Exited, rs_accepted = as_accepted s\<rparr>"
        using rec_step.exit [of "rec_view br s"] True Deciding by (simp add: rec_view_def)
      moreover have "br_recording (br_close_current_file br) = br_recording br"
        by (simp add: br_close_current_file_def)
      ultimately show ?thesis using next_state Deciding True by (simp add: writer_turn_def)
    next
      case False
      have "rec_step (ae_rec_lib E) (ae_clock E) (rec_view br s)
          \<lparr>rs_rec = br, rs_pc = Waiting, rs_accepted = as_accepted s\<rparr>"
        using rec_step.again [of "rec_view br s"] False Deciding by (simp add: rec_view_def)
      from next_state [OF this refl] show ?thesis using Deciding False by (simp add: writer_turn_def same)
    qed
  next
    case Exited
    then show ?thesis using can by (simp add: writer_can_def)
  qed
qed

lemma stop_inv:
  assumes inv: "as_inv E P cap cx0 br0 s" and opens: "opens_succeed (ae_rec_lib E)"
  shows "\<exists>cp. cp_stop (as_pipe s) = Inr cp \<and> as_inv E P cap cx0 br0 (s\<lparr>as_pipe := cp\<rparr>)"
proof (cases "cp_running (as_pipe s)")
  case False
  then show ?thesis using inv by (simp add: cp_stop_def)
next
  case True
  note I = as_invD [OF inv]
  obtain al cx where ac: "cp_capture (as_pipe s) = Some al" "cp_clip (as_pipe s) = Some cx"
    "al_config al = dc_audio (cp_config (as_pipe s))" "unat (al_actual_period al) = P"
    using I(4,6) by (auto simp: capture_part_def clip_part_def)
  let ?cp = "(as_pipe s)\<lparr>cp_running := False, cp_capture := Some (al_stop al),
      cp_clip := Some (cx_stop_flag cx), cp_recorder := map_option br_stop_flags (cp_recorder (as_pipe s)),
      cp_publisher := map_option sp_cleanup (cp_publisher (as_pipe s))\<rparr>"
  have stop: "cp_stop (as_pipe s) = Inr ?cp" using True ac by (simp add: cp_stop_def)
  have w: "out_width ?cp = out_width (as_pipe s)" "out_channels ?cp = out_channels (as_pipe s)"
    by (simp_all add: out_width_def out_channels_def)
  have "rec_part br0 (s\<lparr>as_pipe := ?cp\<rparr>)"
  proof (cases "cp_recorder (as_pipe s)")
    case None
    then show ?thesis using I(5) by (simp add: rec_part_def)
  next
    case (Some br)
    have rs: "rs_ok br0 (rec_view br s)" "br_width br = out_width (as_pipe s)"
      using I(5) by (simp_all add: rec_part_def Some)
    have "rs_ok br0 ((rec_view br s)\<lparr>rs_rec := br_stop_flags (rs_rec (rec_view br s))\<rparr>)"
      by (rule rs_ok_step [OF opens rs(1) rec_step.stop])
    then have "rs_ok br0 (rec_view (br_stop_flags br) (s\<lparr>as_pipe := ?cp\<rparr>))" by (simp add: rec_view_def)
    moreover have "br_width (br_stop_flags br) = br_width br" "\<not> br_recording (br_stop_flags br)"
      by (simp_all add: br_stop_flags_def br_width_def)
    ultimately show ?thesis using rs(2) w(1) by (simp add: rec_part_def Some)
  qed
  moreover have "clip_part E cx0 cap (s\<lparr>as_pipe := ?cp\<rparr>)"
  proof -
    have key: "cx_key (cx_stop_flag cx) = cx_key cx" by (simp add: cx_stop_flag_def)
    show ?thesis using I(4) ac(2) w(2) cx_key_eq(5) [OF key] key
      by (auto simp: clip_part_def cx_stop_flag_def)
  qed
  moreover have "capture_part P ?cp" using ac by (simp add: capture_part_def al_stop_def)
  moreover have "signal_ok P ?cp" "ring_part cap (as_stream s) ?cp" "stream_part (s\<lparr>as_pipe := ?cp\<rparr>)"
    using I(1,3,7) by (simp_all add: signal_ok_def ring_part_def stream_part_def w)
  ultimately have "as_inv E P cap cx0 br0 (s\<lparr>as_pipe := ?cp\<rparr>)" by (simp add: as_inv_def)
  with stop show ?thesis by blast
qed

lemma as_step_inv:
  assumes inv: "as_inv E P cap cx0 br0 s" and opens: "opens_succeed (ae_rec_lib E)"
    and short: "length (as_stream s) < 2 ^ 64" and step: "as_step E s r"
  shows "\<exists>s'. r = Some (Inr s') \<and> as_inv E P cap cx0 br0 s'"
  using step
proof cases
  case (capture al r')
  then show ?thesis using capture_turn_inv [OF inv] by blast
next
  case capture_exit
  then show ?thesis using as_invD [OF inv]
    by (auto intro!: as_invI simp: clip_part_def rec_part_def rec_view_def stream_part_def split: option.splits)
next
  case (parameter key val)
  from set_parameter_inv [OF inv parameter(2)] parameter(1) show ?thesis by auto
next
  case (request cx a b now fmt)
  let ?cx = "snd (cx_request_clip now cx a b fmt)"
  have "cx_key ?cx = cx_key cx" by (simp add: cx_request_clip_def Let_def cx_key_def)
  moreover have "\<forall>req \<in> set (cx_queue ?cx) \<union> set_option (as_current s). request_fits (ae_mem_ok E) cx req"
    using clip_current [OF inv request(2)] request(3)
    by (auto simp: cx_request_clip_def Let_def request_fits_def)
  ultimately have "as_inv E P cap cx0 br0 (s\<lparr>as_pipe := (as_pipe s)\<lparr>cp_clip := Some ?cx\<rparr>, as_current := as_current s,
      as_clip_calls := as_clip_calls s, as_clips := as_clips s @ []\<rparr>)"
    by (intro clip_step_inv [OF inv request(2)]) auto
  then show ?thesis using request(1) by simp
next
  case (serve cx req cx')
  then obtain rest where q: "cx_queue cx = req # rest" "cx' = cx\<lparr>cx_queue := rest\<rparr>"
    by (auto simp: cx_worker_serves)
  have "\<forall>req' \<in> set (cx_queue cx') \<union> set_option (Some req). request_fits (ae_mem_ok E) cx req'"
    using clip_current [OF inv serve(4)] q by auto
  then have "as_inv E P cap cx0 br0 (s\<lparr>as_pipe := (as_pipe s)\<lparr>cp_clip := Some cx'\<rparr>, as_current := Some req,
      as_clip_calls := as_clip_calls s, as_clips := as_clips s @ []\<rparr>)"
    using q(2) by (intro clip_step_inv [OF inv serve(4)]) auto
  then show ?thesis using serve(1) by simp
next
  case (finish req cx rb stamp)
  then show ?thesis using clip_turn_inv [OF inv _ _ _ short] by blast
next
  case worker_exit
  then show ?thesis using as_invD [OF inv]
    by (auto intro!: as_invI simp: clip_part_def rec_part_def rec_view_def stream_part_def split: option.splits)
next
  case (take_result cx rid)
  let ?cx = "snd (cx_sync_take cx rid)"
  have "cx_key ?cx = cx_key cx" "cx_queue ?cx = cx_queue cx"
    by (simp_all add: cx_sync_take_def split: option.split)
  then have "as_inv E P cap cx0 br0 (s\<lparr>as_pipe := (as_pipe s)\<lparr>cp_clip := Some ?cx\<rparr>, as_current := as_current s,
      as_clip_calls := as_clip_calls s, as_clips := as_clips s @ []\<rparr>)"
    using clip_current [OF inv take_result(2)] by (intro clip_step_inv [OF inv take_result(2)]) auto
  then show ?thesis using take_result(1) by simp
next
  case (writer br)
  then show ?thesis using writer_turn_inv [OF inv opens] by blast
next
  case stop
  from stop_inv [OF inv opens] stop show ?thesis by auto
qed

lemma Inr_obind_iff: "Inr z = obind x f \<longleftrightarrow> (\<exists>y. x = Inr y \<and> f y = Inr z)"
  using obind_Inr_iff [of x f z] by (simp add: eq_commute)

lemma as_step_stream: "as_step E s (Some (Inr s')) \<Longrightarrow> length (as_stream s) \<le> length (as_stream s')"
  by (erule as_step.cases)
    (auto simp: capture_turn_def clip_turn_def writer_turn_def Inr_obind_iff Let_def
      split: option.splits sum.splits prod.splits writer_pc.splits if_splits)

lemma as_reach_inv:
  assumes "as_reach E cp s" and "as_inv E P cap cx0 br0 (as_init cp)" and opens: "opens_succeed (ae_rec_lib E)"
    and "length (as_stream s) < 2 ^ 64"
  shows "as_inv E P cap cx0 br0 s"
  using assms(1,4)
proof induction
  case start
  show ?case by (rule assms(2))
next
  case (step s s')
  have "length (as_stream s) < 2 ^ 64" using as_step_stream [OF step.hyps(2)] step.prems by simp
  with as_step_inv [OF step.IH opens _ step.hyps(2)] show ?case by auto
qed

section \<open>The started pipeline\<close>

lemma started_system:
  assumes init: "cp_initialize env (cp_new math config) = Inr (True, cp)" and px: "px_works (pe_shm env)"
    and cfg: "config_ok math (actual_rate env config) (actual_period env config) config"
    and bits: "ac_bits_per_sample (dc_audio config) = 16 \<or> ac_bits_per_sample (dc_audio config) = 32"
    and start: "cp_start cp = Inr (True, cp0)"
  shows "\<exists>rb cx br0. cp_ring cp0 = Some rb \<and> cp_clip cp0 = Some cx \<and>
     as_inv E (unat (actual_period env config)) (rb_cap rb) cx br0 (as_init cp0)"
proof -
  let ?P = "unat (actual_period env config)" and ?b = "ac_bits_per_sample (dc_audio config)"
  obtain al where S: "al_initialize (pe_alsa env) (pe_mem_ok env) (al_new (dc_audio config)) = Inr (True, al)"
    "cp_capture cp0 = Some (al_start (al_set_callback al))" "cp_config cp0 = config" "cp_running cp0"
    "pipe_inv ?P [] [] 0 cp0"
    using cp_started_ok [OF init px cfg] start by auto
  obtain rb where I: "out_channels cp = out_channels (cp_new math config)" "cp_ring cp = Some rb"
    "rb_channels rb = out_channels cp" "rb_bytes_per_sample rb = bits_div8 ?b"
    "cp_clip cp = Some (cx_new \<lparr>cc_output_dir = dc_clips_dir config, cc_format = ''wav''\<rparr>
       (al_actual_rate al) (out_channels cp) ?b)"
    "\<forall>br. cp_recorder cp = Some br \<longrightarrow> bc_enabled (dc_block_recorder config) \<and>
        br_new (pe_mem_ok env) (dc_block_recorder config) (al_actual_rate al) (out_channels cp) ?b = Inr br"
    using cp_initialize_parts [OF init] S(1) by auto
  let ?cx = "cx_start (cx_new \<lparr>cc_output_dir = dc_clips_dir config, cc_format = ''wav''\<rparr>
       (al_actual_rate al) (out_channels cp) ?b)"
  have run: "\<not> cp_running cp" using cp_initialize_ok [OF init px cfg] by auto
  have cp0: "cp_ring cp0 = Some rb" "cp_clip cp0 = Some ?cx" "cp_recorder cp0 = map_option br_start (cp_recorder cp)"
    "out_channels cp0 = out_channels cp" "out_width cp0 = out_width cp" "cp_config cp0 = cp_config cp"
    using start run I(2,5) by (auto simp: cp_start_def obind_Inr_iff deref_Inr_iff out_channels_def out_width_def)
  have act: "al_config al = dc_audio config" "al_actual_period al = actual_period env config"
    "al_actual_rate al = actual_rate env config"
    using al_initialize_actual [OF S(1)] by (simp_all add: actual_period_def actual_rate_def)
  note C = cfg [unfolded config_ok_def Let_def]
  have size: "unat (al_actual_period al) * unat (ac_channels (dc_audio config)) < 2 ^ 32"
    using C by (simp add: act(2))
  have P: "signal_ok ?P cp0" "ring_ok [] cp0" "publisher_ok cp0" using S(5) by (simp_all add: pipe_inv_def)
  have ring: "ring_part (rb_cap rb) [] cp0"
    using P(2) I(3,4) cp0 S(3) by (simp add: ring_part_def ring_ok_def)
  have clip: "clip_part E ?cx (rb_cap rb) (as_init cp0)"
    using cp0 S(3) by (simp add: clip_part_def as_init_def) (simp add: cx_start_def cx_new_def)
  have capture: "capture_part ?P cp0"
    using S(2,3,4) al_started_ready [OF S(1) size bits] act
    by (simp add: capture_part_def) (simp add: al_start_def al_set_callback_def)
  have rec: "\<exists>br0. rec_part br0 (as_init cp0)"
  proof (cases "cp_recorder cp")
    case None
    then show ?thesis using cp0(3) by (simp add: rec_part_def as_init_def)
  next
    case (Some br)
    then have br: "bc_enabled (dc_block_recorder config)"
      "br_new (pe_mem_ok env) (dc_block_recorder config) (al_actual_rate al) (out_channels cp) ?b = Inr br"
      using I(6) by auto
    have "out_channels cp0 \<noteq> 0" using P(1) by (auto simp: signal_ok_def out_channels_def Let_def)
    then have sane: "supported_bits ?b" "out_channels cp \<noteq> 0" "al_actual_rate al \<noteq> 0"
      "bc_block_duration_seconds (dc_block_recorder config) \<noteq> 0"
      using C br(1) cp0(4) by (simp_all add: act(3))
    note N = br_new_ok [OF br(2) sane(1-3)]
    have "rs_ok br (rs_init br)"
      using br_start_inv [OF br(2) sane] N(16,17) by (auto simp: rs_ok_def rs_init_def br_start_def br_static_def)
    moreover have "rec_view (br_start br) (as_init cp0) = rs_init br" by (simp add: rec_view_def rs_init_def as_init_def)
    moreover have "br_width (br_start br) = out_width cp0" "br_recording (br_start br)"
      using N(1,18) br(1) cp0(4) S(3) by (simp_all add: br_start_def br_width_def out_width_def)
    ultimately have "rec_part br (as_init cp0)" using Some cp0(3) S(4) by (simp add: rec_part_def) (simp add: as_init_def)
    then show ?thesis ..
  qed
  then obtain br0 where rec: "rec_part br0 (as_init cp0)" ..
  have "as_inv E ?P (rb_cap rb) ?cx br0 (as_init cp0)"
    using P(1,3) ring clip rec capture by (intro as_invI) (simp_all add: as_init_def stream_part_def frames_of_def)
  then show ?thesis using cp0(1,2) by blast
qed

section \<open>Properties\<close>


text \<open>What the files of the recorder and of the extractor contain, in terms of one stream.\<close>

lemma as_inv_files:
  assumes inv: "as_inv E P cap cx0 br0 s" and br: "cp_recorder (as_pipe s) = Some br"
  shows "prefix (recorded (files_of br)) (as_accepted s)"
    and "as_writer s = Exited \<Longrightarrow> recorded (files_of br) = as_accepted s"
proof -
  have rs: "rs_ok br0 (rec_view br s)" using as_invD(5) [OF inv] by (simp add: rec_part_def br)
  then show "as_writer s = Exited \<Longrightarrow> recorded (files_of br) = as_accepted s"
    by (simp add: rs_ok_def rec_view_def)
  show "prefix (recorded (files_of br)) (as_accepted s)"
  proof (cases "as_writer s = Exited")
    case True
    then show ?thesis using rs by (simp add: rs_ok_def rec_view_def)
  next
    case False
    then obtain R where "br_inv (as_accepted s) R br" using rs by (auto simp: rs_ok_def rec_view_def)
    then have "recorded (files_of br) @ take (unat (br_buffer_used br)) (br_write_buffer br) = take R (as_accepted s)"
      by (simp add: br_inv_def)
    then show ?thesis by (metis append_prefixD take_is_prefix)
  qed
qed

text \<open>
  C4: everything the daemon hands out comes from one stream. In every state of the threads
  there is one sequence of frames, those handed to the consumers so far, such that the ring
  buffer holds its newest part; the recorder has taken frames of it, in order, and its files,
  end to end, are a prefix of what it took, and all of it once the writer has exited; and each
  finished clip is a window of it, the newest \<open>m\<close> frames of the \<open>k\<close> there were when the worker
  came to read, with \<open>m\<close> bounded by the requested length and the capacity of the ring buffer.
\<close>

theorem consumers_share_one_stream:
  assumes "cp_initialize env (cp_new math config) = Inr (True, cp)" and "px_works (pe_shm env)"
    and "config_ok math (actual_rate env config) (actual_period env config) config"
    and "ac_bits_per_sample (dc_audio config) = 16 \<or> ac_bits_per_sample (dc_audio config) = 32"
    and "cp_start cp = Inr (True, cp0)" and "opens_succeed (ae_rec_lib E)"
    and "as_reach E cp0 s" and "length (as_stream s) < 2 ^ 64"
    and "cp_ring cp0 = Some rb0" and "cp_clip cp0 = Some cx0" and "w = out_width (as_pipe s)"
  shows "(\<exists>rb. cp_ring (as_pipe s) = Some rb \<and> rb_holds (as_stream s) rb) \<and>
     subseq (frames_of w (length (as_accepted s) div w) (as_accepted s)) (as_stream s) \<and>
     (\<forall>br. cp_recorder (as_pipe s) = Some br \<longrightarrow>
        prefix (recorded (files_of br)) (as_accepted s) \<and>
        (as_writer s = Exited \<longrightarrow> recorded (files_of br) = as_accepted s)) \<and>
     (\<forall>r \<in> set (as_clips s). clip_ok cx0 (rb_cap rb0) (as_stream s) r)"
proof -
  obtain br0 where "as_inv E (unat (actual_period env config)) (rb_cap rb0) cx0 br0 (as_init cp0)"
    using started_system [OF assms(1-5)] assms(9,10) by auto
  from as_reach_inv [OF assms(7) this assms(6,8)]
  have inv: "as_inv E (unat (actual_period env config)) (rb_cap rb0) cx0 br0 s" .
  note I = as_invD [OF inv]
  have "\<exists>rb. cp_ring (as_pipe s) = Some rb \<and> rb_holds (as_stream s) rb" using I(3) by (auto simp: ring_part_def)
  moreover have "subseq (frames_of w (length (as_accepted s) div w) (as_accepted s)) (as_stream s)"
    using I(7) by (simp add: stream_part_def Let_def assms(11))
  moreover have "\<forall>r \<in> set (as_clips s). clip_ok cx0 (rb_cap rb0) (as_stream s) r"
    using I(4) by (simp add: clip_part_def)
  ultimately show ?thesis using as_inv_files [OF inv] by blast
qed

section \<open>A run\<close>

definition demo_audio_env :: audio_env where
  "demo_audio_env = \<lparr>ae_math = demo_math, ae_rec_lib = reliable_lib, ae_clip_lib = reliable_lib,
     ae_clock = (\<lambda>_. 0), ae_mem_ok = (\<lambda>_. True)\<rparr>"

lemma demo_system_opens: "opens_succeed (ae_rec_lib demo_audio_env)"
  by (simp add: demo_audio_env_def opens_succeed_def reliable_lib_def)

lemma demo_system:
  obtains cp cp0 rb cx br0 where "cp_initialize demo_env (cp_new demo_math demo_pipe_config) = Inr (True, cp)"
    and "cp_start cp = Inr (True, cp0)" and "cp_ring cp0 = Some rb" and "cp_clip cp0 = Some cx"
    and "as_inv demo_audio_env 2 (rb_cap rb) cx br0 (as_init cp0)"
    and "\<exists>s r al. as_reach demo_audio_env cp0 s \<and> length (as_stream s) = 1 \<and>
      capture_turn demo_audio_env r al (as_init cp0) = Some (Inr s)"
proof -
  obtain cp where init: "cp_initialize demo_env (cp_new demo_math demo_pipe_config) = Inr (True, cp)"
    using demo_initialized by blast
  have px: "px_works (pe_shm demo_env)" by (simp add: demo_env_def demo_px_works)
  note ok = demo_config_ok [folded demo_actual]
  have bits: "ac_bits_per_sample (dc_audio demo_pipe_config) = 16 \<or> ac_bits_per_sample (dc_audio demo_pipe_config) = 32"
    by (simp add: demo_pipe_config_def default_config_def)
  obtain cp0 al where st: "cp_start cp = Inr (True, cp0)" "cp_running cp0"
    "cp_capture cp0 = Some (al_start (al_set_callback al))"
    "al_initialize (pe_alsa demo_env) (pe_mem_ok demo_env) (al_new (dc_audio demo_pipe_config)) = Inr (True, al)"
    using cp_started_ok [OF init px ok] by blast
  let ?al = "al_start (al_set_callback al)"
  obtain rb cx br0 where inv: "cp_ring cp0 = Some rb" "cp_clip cp0 = Some cx"
    "as_inv demo_audio_env 2 (rb_cap rb) cx br0 (as_init cp0)"
    using started_system [OF init px ok bits st(1), of demo_audio_env] by (auto simp: demo_actual)
  let ?r = "\<lparr>dr_frames = 1, dr_bytes = [1, 0, 2, 0], dr_recover = 0, dr_now = 7\<rparr>"
  have act: "al_actual_period al = 2" "al_config al = dc_audio demo_pipe_config"
    using al_initialize_actual [OF st(4)] by (simp_all add: demo_actual(2) [unfolded actual_period_def])
  have dev: "device_ok ?al ?r"
    by (simp add: device_ok_def al_start_def al_set_callback_def act al_format_def)
      (simp add: demo_pipe_config_def default_config_def)
  have run: "al_running ?al" by (simp add: al_start_def)
  have cap: "cp_capture (as_pipe (as_init cp0)) = Some ?al" using st(3) by (simp add: as_init_def)
  obtain s where s: "capture_turn demo_audio_env ?r ?al (as_init cp0) = Some (Inr s)"
    "as_inv demo_audio_env 2 (rb_cap rb) cx br0 s"
    using capture_turn_inv [OF inv(3) cap run dev] by blast
  have "as_step demo_audio_env (as_init cp0) (Some (Inr s))"
    using as_step.capture [of "as_init cp0" ?al ?r demo_audio_env] cap run dev s(1) by (simp add: as_init_def)
  then have reach: "as_reach demo_audio_env cp0 s" by (rule as_reach.step [OF as_reach.start])
  have "length (as_stream s) = 1"
  proof -
    have ready: "al_ready ?al" using as_invD(6) [OF inv(3)] st(2,3) by (auto simp: capture_part_def as_init_def)
    obtain al' c where t: "al_turn ?al ?r = Inr (True, Some c, al')" "chunk_ok ?al c" "chunk_bytes c = dr_bytes ?r"
      using al_turn_ok [OF ready dev] by (auto simp: fatal_read_def)
    have cfg: "al_config ?al = dc_audio (cp_config cp0)" "signal_ok 2 cp0" "unat (al_actual_period ?al) = 2"
      using as_invD(1,6) [OF inv(3)] st(3) by (auto simp: capture_part_def as_init_def)
    have "pipe_channels cp0 \<noteq> 0" using cfg(2) by (simp add: signal_ok_def)
    note fits = chunk_of_read(1) [OF ready dev t(2,3) cfg(1) this]
    obtain meta data count where c: "c = (meta, data, count)" by (cases c)
    let ?cp = "cp0\<lparr>cp_capture := Some al'\<rparr>"
    have ok': "signal_ok 2 ?cp" "chunk_fits 2 1 ?cp (meta, data, count)"
      using cfg(2,3) fits by (simp_all add: chunk_fits_def c)
    obtain cp' where run': "on_audio_chunk demo_math c ?cp = Some (Inr cp')" "as_stream s =
        (case chunk_output ?cp c of (n, out) \<Rightarrow> frames_of (out_width ?cp) n out)"
      using s(1) t(1) by (auto simp: capture_turn_def as_init_def demo_audio_env_def Let_def split: option.splits sum.splits)
    obtain raw samples cp1 where "cp_signal ?cp meta data (count div ucast (cm_channels meta)) count = Inr (raw, samples, cp1)"
      by (rule on_audio_chunk_parts [OF run'(1) [unfolded c] refl]) blast
    from signal_of_chunk(5) [OF ok' refl this] run'(2) show ?thesis by (simp add: c)
  qed
  with reach s(1) show thesis by (intro that [OF init st(1) inv]) blast
qed


theorem consumers_share_one_stream_witness:
  "\<exists>cp0 s rb. as_reach demo_audio_env cp0 s \<and> length (as_stream s) = 1 \<and>
     cp_ring (as_pipe s) = Some rb \<and> rb_holds (as_stream s) rb"
proof -
  obtain cp cp0 rb cx br0 s where D: "cp_initialize demo_env (cp_new demo_math demo_pipe_config) = Inr (True, cp)"
    "cp_start cp = Inr (True, cp0)" "cp_ring cp0 = Some rb" "cp_clip cp0 = Some cx"
    "as_reach demo_audio_env cp0 s" "length (as_stream s) = 1"
    by (rule demo_system) blast
  have px: "px_works (pe_shm demo_env)" by (simp add: demo_env_def demo_px_works)
  have bits: "ac_bits_per_sample (dc_audio demo_pipe_config) = 16 \<or> ac_bits_per_sample (dc_audio demo_pipe_config) = 32"
    by (simp add: demo_pipe_config_def default_config_def)
  have "length (as_stream s) < 2 ^ 64" using D(6) by simp
  from consumers_share_one_stream [OF D(1) px demo_config_ok [folded demo_actual] bits D(2) demo_system_opens D(5) this D(3,4) refl]
  show ?thesis using D(5,6) by blast
qed

end
