(* ===== verification/Clip_Service.thy ===== *)
theory Clip_Service
  imports Audio_System Clients
begin

text \<open>
  Clips from the client to the file: \<open>capture_clip\<close> (\<open>request_clip_sync\<close> of
  src/capture/clip_extractor.cpp, called by src/pipeline/capture_pipeline.cpp) as it runs while
  the threads of \<open>Audio_System\<close> go on, the socket that offers it, and the client program.
\<close>

section \<open>Runs of the threads\<close>

inductive as_run :: "audio_env \<Rightarrow> audio_system \<Rightarrow> audio_system \<Rightarrow> bool" for E where
  stay: "as_run E s s"
| go: "\<lbrakk>as_run E s s'; as_step E s' (Some (Inr s''))\<rbrakk> \<Longrightarrow> as_run E s s''"

lemma as_reach_run: "\<lbrakk>as_run E s s'; as_reach E cp s\<rbrakk> \<Longrightarrow> as_reach E cp s'"
  by (induction rule: as_run.induct) (auto intro: as_reach.step)

text \<open>
  \<open>capture_clip\<close>: the request is put into the queue, the calling thread waits until its
  condition holds, whatever the other threads do meanwhile, and takes the result.
\<close>

definition with_clip :: "audio_system \<Rightarrow> clip_extractor \<Rightarrow> audio_system" where
  "with_clip s cx = s\<lparr>as_pipe := (as_pipe s)\<lparr>cp_clip := Some cx\<rparr>\<rparr>"

inductive capture_clip ::
  "audio_env \<Rightarrow> i32 \<Rightarrow> i32 \<Rightarrow> string \<Rightarrow> audio_system \<Rightarrow> string \<Rightarrow> audio_system \<Rightarrow> bool" for E a b fmt s where
  call: "\<lbrakk>cp_clip (as_pipe s) = Some cx; clip_fits (ae_mem_ok E) cx a b;
     cx_request_clip now cx a b fmt = (rid, cx1); as_run E (with_clip s cx1) s2;
     cp_clip (as_pipe s2) = Some cx2; cx_sync_ready cx2 rid; cx_sync_take cx2 rid = (path, cx3)\<rbrakk> \<Longrightarrow>
   capture_clip E a b fmt s path (with_clip s2 cx3)"

lemma capture_clip_reach:
  assumes "capture_clip E a b fmt s path s'" and "as_reach E cp s"
  shows "as_reach E cp s'"
  using assms(1)
proof cases
  case (call cx now rid cx1 s2 cx2 cx3)
  have "as_step E s (Some (Inr (with_clip s cx1)))"
    using as_step.request [OF call(2,3), of now fmt] call(4) by (simp add: with_clip_def)
  then have "as_reach E cp (with_clip s cx1)" using assms(2) by (rule as_reach.step [rotated])
  then have "as_reach E cp s2" by (rule as_reach_run [OF call(5)])
  moreover have "as_step E s2 (Some (Inr (with_clip s2 cx3)))"
    using as_step.take_result [OF call(6,7)] call(8) by (simp add: with_clip_def)
  ultimately show ?thesis using call(1) as_reach.step by blast
qed

section \<open>The requests in order\<close>

text \<open>Finished, current and waiting requests, oldest first.\<close>

definition all_requests :: "audio_system \<Rightarrow> clip_request list" where
  "all_requests s =
     map cr_request (as_clips s) @ (case as_current s of None \<Rightarrow> [] | Some req \<Rightarrow> [req]) @
     (case cp_clip (as_pipe s) of None \<Rightarrow> [] | Some cx \<Rightarrow> cx_queue cx)"

definition requests_ok :: "audio_system \<Rightarrow> bool" where
  "requests_ok s \<longleftrightarrow>
     (\<exists>cx. cp_clip (as_pipe s) = Some cx \<and>
        map rq_request_id (all_requests s) = issued_ids (length (all_requests s)) \<and>
        cx_next_id cx = of_nat (Suc (length (all_requests s))) \<and>
        (\<forall>rid p. cx_results cx rid = Some p \<longrightarrow>
           (\<exists>r \<in> set (as_clips s). rq_request_id (cr_request r) = rid \<and> cr_path r = p)) \<and>
        (as_worker_exited s \<longrightarrow> \<not> cx_running cx))"

text \<open>How a step moves them: nothing is taken away, and a new clip has the whole stream so far.\<close>

definition requests_grow :: "audio_system \<Rightarrow> audio_system \<Rightarrow> bool" where
  "requests_grow s s' \<longleftrightarrow> prefix (all_requests s) (all_requests s') \<and>
     (\<exists>new. as_clips s' = as_clips s @ new \<and> (\<forall>r \<in> set new. length (as_stream s) \<le> cr_frames r)) \<and>
     length (as_stream s) \<le> length (as_stream s')"

lemma requests_grow_refl: "requests_grow s s"
  by (simp add: requests_grow_def)

lemma requests_grow_trans:
  assumes "requests_grow s s'" and "requests_grow s' s''"
  shows "requests_grow s s''"
proof -
  obtain new new' where "as_clips s' = as_clips s @ new" "as_clips s'' = as_clips s' @ new'"
    "\<forall>r \<in> set new. length (as_stream s) \<le> cr_frames r" "\<forall>r \<in> set new'. length (as_stream s') \<le> cr_frames r"
    "length (as_stream s) \<le> length (as_stream s')"
    using assms by (auto simp: requests_grow_def)
  then have "\<exists>new. as_clips s'' = as_clips s @ new \<and> (\<forall>r \<in> set new. length (as_stream s) \<le> cr_frames r)"
    by (intro exI [of _ "new @ new'"]) auto
  then show ?thesis using assms unfolding requests_grow_def by (meson order_trans prefix_order.order_trans)
qed

text \<open>Steps that leave the extractor as it is, but for the flag \<open>stop()\<close> clears.\<close>

definition same_clips :: "audio_system \<Rightarrow> audio_system \<Rightarrow> bool" where
  "same_clips s s' \<longleftrightarrow> as_clips s' = as_clips s \<and> as_current s' = as_current s \<and>
     as_worker_exited s' = as_worker_exited s \<and>
     (cp_clip (as_pipe s') = cp_clip (as_pipe s) \<or>
      cp_clip (as_pipe s') = map_option cx_stop_flag (cp_clip (as_pipe s)))"

lemma same_clips_ok:
  assumes "same_clips s s'" and "requests_ok s"
  shows "requests_ok s'" and "all_requests s' = all_requests s"
proof -
  obtain cx where cx: "cp_clip (as_pipe s) = Some cx" using assms(2) by (auto simp: requests_ok_def)
  then show all: "all_requests s' = all_requests s"
    using assms(1) by (auto simp: same_clips_def all_requests_def cx_stop_flag_def)
  show "requests_ok s'"
    using assms cx unfolding requests_ok_def all by (auto simp: same_clips_def cx_stop_flag_def)
qed

lemma stages_keep_clip:
  "stage_downmix cp meta data fc count = Inr (cur, channels, samples, cp1) \<Longrightarrow> cp_clip cp1 = cp_clip cp"
  "stage_gain cp bits cur samples bytes = Inr (copied, cp1) \<Longrightarrow> cp_clip cp1 = cp_clip cp"
  "stage_dc cp bits copied cur channels samples bytes = Inr (copied', cp1) \<Longrightarrow> cp_clip cp1 = cp_clip cp"
    apply (simp add: stage_downmix_def split: if_split_asm; auto simp: obind_Inr_iff)
   apply (simp add: stage_gain_def split: if_split_asm; auto simp: obind_Inr_iff)
  apply (simp add: stage_dc_def split: if_split_asm; auto simp: obind_Inr_iff)
  done

lemma signal_keeps_clip:
  assumes "cp_signal cp meta data fc count = Inr (out, samples, cp1)"
  shows "cp_clip cp1 = cp_clip cp"
proof -
  let ?bits = "cm_bits_per_sample meta"
  obtain cur channels n copied copied' cp2 cp3 bytes where
    "stage_downmix cp meta data fc count = Inr (cur, channels, n, cp2)"
    "stage_gain cp2 ?bits cur n bytes = Inr (copied, cp3)"
    "stage_dc cp3 ?bits copied cur channels n bytes = Inr (copied', cp1)"
    using assms by (simp add: cp_signal_def Let_def obind_Inr_iff split_paired_Ex) blast
  then show ?thesis using stages_keep_clip by metis
qed

lemma capture_same_clips:
  assumes "capture_turn E r al s = Some (Inr s')"
  shows "same_clips s s'"
proof -
  have chunk: "cp_clip cp' = cp_clip cp" if "on_audio_chunk math c cp = Some (Inr cp')" for math c cp cp'
  proof -
    obtain meta data count where c: "c = (meta, data, count)" by (cases c)
    show ?thesis by (rule on_audio_chunk_parts [OF that [unfolded c] refl]) (simp add: signal_keeps_clip)
  qed
  show ?thesis using assms
    by (auto simp: capture_turn_def same_clips_def Let_def chunk split: sum.splits option.splits prod.splits)
qed

lemma writer_same_clips: "writer_turn E br s = Some (Inr s') \<Longrightarrow> same_clips s s'"
  by (auto simp: writer_turn_def same_clips_def split: writer_pc.splits option.splits sum.splits if_splits)

lemma parameter_same_clips:
  "set_parameter math key val (as_pipe s) = Inr (ok, cp) \<Longrightarrow> same_clips s (s\<lparr>as_pipe := cp\<rparr>)"
  by (auto simp: set_parameter_def same_clips_def obind_Inr_iff Let_def split: if_splits)

lemma stop_same_clips: "cp_stop (as_pipe s) = Inr cp \<Longrightarrow> same_clips s (s\<lparr>as_pipe := cp\<rparr>)"
  by (auto simp: cp_stop_def same_clips_def obind_Inr_iff deref_Inr_iff split: if_splits)

text \<open>The four steps that change the extractor.\<close>

lemma request_step:
  assumes ok: "requests_ok s" and cx: "cp_clip (as_pipe s) = Some cx"
    and req: "cx_request_clip now cx a b fmt = (rid, cx')"
  shows "requests_ok (with_clip s cx')" and "requests_grow s (with_clip s cx')"
    and "\<exists>r. all_requests (with_clip s cx') = all_requests s @ [r] \<and> rq_request_id r = rid \<and>
      rq_start_offset r = a \<and> rq_end_offset r = b \<and>
      rq_format r = (if fmt = [] then cc_format (cx_config cx) else fmt)"
proof -
  let ?r = "\<lparr>rq_request_id = cx_next_id cx, rq_start_offset = a, rq_end_offset = b,
    rq_format = (if fmt = [] then cc_format (cx_config cx) else fmt), rq_timestamp = now\<rparr>"
  have rid: "rid = cx_next_id cx" and cx': "cx' = cx\<lparr>cx_next_id := cx_next_id cx + 1, cx_queue := cx_queue cx @ [?r]\<rparr>"
    using req by (auto simp: cx_request_clip_def Let_def)
  have all: "all_requests (with_clip s cx') = all_requests s @ [?r]"
    by (simp add: all_requests_def with_clip_def cx cx')
  show "requests_ok (with_clip s cx')"
    using ok cx unfolding requests_ok_def all
    by (auto simp: with_clip_def cx' issued_ids_Suc)
  show "requests_grow s (with_clip s cx')"
    unfolding requests_grow_def all by (simp add: with_clip_def)
  show "\<exists>r. all_requests (with_clip s cx') = all_requests s @ [r] \<and> rq_request_id r = rid \<and>
      rq_start_offset r = a \<and> rq_end_offset r = b \<and>
      rq_format r = (if fmt = [] then cc_format (cx_config cx) else fmt)"
    unfolding all rid by simp
qed

lemma serve_step:
  assumes ok: "requests_ok s" and cx: "cp_clip (as_pipe s) = Some cx" and idle: "as_current s = None"
    and turn: "cx_worker_turn cx = Worker_Serves req cx'"
  shows "requests_ok (with_clip s cx'\<lparr>as_current := Some req\<rparr>)"
    and "all_requests (with_clip s cx'\<lparr>as_current := Some req\<rparr>) = all_requests s"
proof -
  obtain rest where q: "cx_queue cx = req # rest" "cx' = cx\<lparr>cx_queue := rest\<rparr>"
    using turn by (auto simp: cx_worker_serves)
  show all: "all_requests (with_clip s cx'\<lparr>as_current := Some req\<rparr>) = all_requests s"
    by (simp add: all_requests_def with_clip_def cx q idle)
  show "requests_ok (with_clip s cx'\<lparr>as_current := Some req\<rparr>)"
    using ok cx unfolding requests_ok_def all by (auto simp: with_clip_def q(2))
qed

lemma finish_step:
  assumes ok: "requests_ok s" and cx: "cp_clip (as_pipe s) = Some cx" and cur: "as_current s = Some req"
    and turn: "clip_turn E stamp cx rb req s = Some (Inr s')"
  shows "requests_ok s'" and "all_requests s' = all_requests s" and "requests_grow s s'"
    and "\<exists>path. cp_clip (as_pipe s') = Some (cx_store_result cx req path)"
    and "as_current s' = None" and "as_worker_exited s' = as_worker_exited s" and "as_stream s' = as_stream s"
proof -
  obtain path calls new where s': "s' = s\<lparr>as_pipe := (as_pipe s)\<lparr>cp_clip := Some (cx_store_result cx req path)\<rparr>,
      as_current := None, as_clip_calls := calls,
      as_clips := as_clips s @ [\<lparr>cr_request = req, cr_path = path, cr_calls = new, cr_frames = length (as_stream s)\<rparr>]\<rparr>"
    using turn by (auto simp: clip_turn_def split: option.splits sum.splits)
  show all: "all_requests s' = all_requests s"
    by (simp add: s' all_requests_def cx cur cx_store_result_def)
  show "requests_ok s'"
    using ok cx unfolding requests_ok_def all by (auto simp: s' cx_store_result_def split: if_splits)
  show "requests_grow s s'" unfolding requests_grow_def all by (simp add: s')
  show "\<exists>path. cp_clip (as_pipe s') = Some (cx_store_result cx req path)" by (auto simp: s')
  show "as_current s' = None" "as_worker_exited s' = as_worker_exited s" "as_stream s' = as_stream s" by (simp_all add: s')
qed

lemma take_step:
  assumes ok: "requests_ok s" and cx: "cp_clip (as_pipe s) = Some cx" and take: "cx_sync_take cx rid = (path, cx')"
  shows "requests_ok (with_clip s cx')" and "all_requests (with_clip s cx') = all_requests s"
proof -
  have cx': "cx' = cx\<lparr>cx_results := cx_results cx'\<rparr>" "\<And>i p. cx_results cx' i = Some p \<Longrightarrow> cx_results cx i = Some p"
    using take by (auto simp: cx_sync_take_def split: option.splits if_splits)
  have q: "cx_queue cx' = cx_queue cx" "cx_next_id cx' = cx_next_id cx" "cx_running cx' = cx_running cx"
    by (subst cx'(1), simp)+
  show all: "all_requests (with_clip s cx') = all_requests s" by (simp add: all_requests_def with_clip_def cx q)
  show "requests_ok (with_clip s cx')"
    using ok cx cx'(2) unfolding requests_ok_def all by (auto simp: with_clip_def q)
qed

lemma requests_step:
  assumes "as_step E s (Some (Inr s'))" and ok: "requests_ok s"
  shows "requests_ok s' \<and> requests_grow s s'"
proof -
  have same: "requests_ok s' \<and> requests_grow s s'" if "same_clips s s'"
    using same_clips_ok [OF that ok] that as_step_stream [OF assms(1)]
    by (simp add: requests_grow_def same_clips_def)
  have plain: "requests_ok s' \<and> requests_grow s s'"
    if "requests_ok s'" "all_requests s' = all_requests s" "as_clips s' = as_clips s"
    using that as_step_stream [OF assms(1)] by (simp add: requests_grow_def)
  from assms(1) show ?thesis
  proof cases
    case (capture al r)
    then show ?thesis using same capture_same_clips by metis
  next
    case capture_exit
    then show ?thesis by (intro same) (simp add: same_clips_def)
  next
    case (parameter key val)
    then show ?thesis using same parameter_same_clips by (auto simp: Inr_obind_iff)
  next
    case (request cx a b now fmt)
    then show ?thesis
      using request_step(1,2) [OF ok request(2), of now a b fmt] by (simp add: with_clip_def prod_eq_iff)
  next
    case (serve cx req cx')
    then show ?thesis
      using serve_step [OF ok serve(4) _ serve(5)] by (intro plain) (simp_all add: with_clip_def)
  next
    case (finish req cx rb stamp)
    then show ?thesis using finish_step [OF ok finish(3,2)] by metis
  next
    case (worker_exit cx)
    then have "requests_ok s'" using ok by (auto simp: requests_ok_def all_requests_def cx_worker_turn_def split: list.splits if_splits)
    then show ?thesis using worker_exit(1) by (intro plain) (simp_all add: all_requests_def)
  next
    case (take_result cx rid)
    then show ?thesis
      using take_step [OF ok take_result(2), of rid] by (intro plain) (simp_all add: with_clip_def prod_eq_iff)
  next
    case (writer br)
    then show ?thesis using same writer_same_clips by metis
  next
    case stop
    then show ?thesis using same stop_same_clips by (auto simp: Inr_obind_iff)
  qed
qed

lemma requests_run:
  assumes "as_run E s s'" and "requests_ok s"
  shows "requests_ok s' \<and> requests_grow s s'"
  using assms
proof induction
  case (go s s' s'')
  then show ?case using requests_step requests_grow_trans by blast
qed (simp add: requests_grow_refl)

lemma started_requests:
  assumes init: "cp_initialize env (cp_new math config) = Inr (True, cp)" and start: "cp_start cp = Inr (True, cp0)"
  shows "requests_ok (as_init cp0)"
proof -
  obtain dir rate ch bits where "cp_clip cp = Some (cx_new dir rate ch bits)"
    using cp_initialize_parts [OF init] by blast
  then have "cp_clip cp0 = Some (cx_new dir rate ch bits) \<or> cp_clip cp0 = Some (cx_start (cx_new dir rate ch bits))"
    using start by (auto simp: cp_start_def obind_Inr_iff deref_Inr_iff split: if_splits)
  then show ?thesis
    by (auto simp: requests_ok_def all_requests_def as_init_def cx_start_def cx_new_def issued_ids_def)
qed

lemma requests_reach:
  assumes "as_reach E cp0 s" and "requests_ok (as_init cp0)"
  shows "requests_ok s"
  using assms by induction (auto dest: requests_step)

section \<open>The clip that answers a call\<close>

lemma capture_clip_record:
  assumes call: "capture_clip E a b fmt s path s'" and ok: "requests_ok s" and path: "path \<noteq> []"
    and few: "length (all_requests s') < 2 ^ 64" and fmt: "fmt \<noteq> []"
  shows "\<exists>r \<in> set (as_clips s'). cr_path r = path \<and> rq_start_offset (cr_request r) = a \<and>
    rq_end_offset (cr_request r) = b \<and> rq_format (cr_request r) = fmt \<and> length (as_stream s) \<le> cr_frames r"
  using call
proof cases
  case (call cx now rid cx1 s2 cx2 cx3)
  note R = request_step [OF ok call(2,4)]
  obtain q where q: "all_requests (with_clip s cx1) = all_requests s @ [q]" "rq_request_id q = rid"
    "rq_start_offset q = a" "rq_end_offset q = b" "rq_format q = fmt"
    using R(3) fmt by auto
  have G: "requests_ok s2" "requests_grow (with_clip s cx1) s2" using requests_run [OF call(5) R(1)] by simp_all
  have "requests_grow s s2" by (rule requests_grow_trans [OF R(2) G(2)])
  then obtain new where new: "as_clips s2 = as_clips s @ new" "\<forall>r \<in> set new. length (as_stream s) \<le> cr_frames r"
    by (auto simp: requests_grow_def)
  have s': "as_clips s' = as_clips s2" using call(1) by (simp add: with_clip_def)
  have all': "all_requests s' = all_requests s2" using take_step(2) [OF G(1) call(6,8)] call(1) by simp
  have "cx_results cx2 rid = Some path" using call(8) path by (auto simp: cx_sync_take_def split: option.splits)
  then obtain r where r: "r \<in> set (as_clips s2)" "rq_request_id (cr_request r) = rid" "cr_path r = path"
    using G(1) call(6) by (auto simp: requests_ok_def)
  have "distinct (map rq_request_id (all_requests s2))"
    using G(1) few distinct_issued_ids unfolding all' requests_ok_def by metis
  moreover have pre: "prefix (all_requests s @ [q]) (all_requests s2)"
    using G(2) by (simp add: requests_grow_def q(1))
  ultimately have inj: "inj_on rq_request_id (set (all_requests s2))" and fresh: "q \<notin> set (all_requests s)"
    by (auto simp: distinct_map prefix_def)
  have mem: "q \<in> set (all_requests s2)" using pre by (auto dest: set_mono_prefix)
  moreover have "cr_request r \<in> set (all_requests s2)" using r(1) by (simp add: all_requests_def)
  ultimately have same: "cr_request r = q" using inj r(2) q(2) by (auto dest: inj_onD)
  have "r \<notin> set (as_clips s)" using fresh same by (auto simp: all_requests_def)
  then have "r \<in> set new" using r(1) new(1) by auto
  then show ?thesis using r same q new(2) s' by (intro bexI [of _ r]) auto
qed

section \<open>The worker on its own\<close>

text \<open>
  The next turn of the worker thread: it finishes the request it has, or takes the next one. It
  does nothing while it waits or when it has left its loop.
\<close>

definition extractor_turn :: "audio_env \<Rightarrow> string \<Rightarrow> audio_system \<Rightarrow> audio_system outcome option" where
  "extractor_turn E stamp s =
     (case cp_clip (as_pipe s) of None \<Rightarrow> Some (Inr s) | Some cx \<Rightarrow>
        (case as_current s of
           Some req \<Rightarrow> (case cp_ring (as_pipe s) of None \<Rightarrow> Some (Inr s) | Some rb \<Rightarrow> clip_turn E stamp cx rb req s)
         | None \<Rightarrow>
             (case cx_worker_turn cx of
                Worker_Serves req cx' \<Rightarrow>
                  Some (Inr (if as_worker_exited s then s else with_clip s cx'\<lparr>as_current := Some req\<rparr>))
              | _ \<Rightarrow> Some (Inr s))))"

fun extractor_turns :: "audio_env \<Rightarrow> string list \<Rightarrow> audio_system \<Rightarrow> audio_system outcome option" where
  "extractor_turns E [] s = Some (Inr s)"
| "extractor_turns E (stamp # stamps) s = pbind (extractor_turn E stamp s) (extractor_turns E stamps)"

lemma extractor_turns_append:
  "extractor_turns E (xs @ ys) s = pbind (extractor_turns E xs s) (extractor_turns E ys)"
  by (induction xs arbitrary: s) (simp_all add: pbind_def split: option.split sum.split)

text \<open>The state between two requests, and after one.\<close>

definition answers :: "audio_env \<Rightarrow> audio_system \<Rightarrow> u64 \<Rightarrow> clip_extractor \<Rightarrow> audio_system \<Rightarrow> bool" where
  "answers E s rid cx s' \<longleftrightarrow> as_run E s s' \<and> as_stream s' = as_stream s \<and> requests_ok s' \<and>
     all_requests s' = all_requests s \<and>
     as_current s' = None \<and> as_worker_exited s' = as_worker_exited s \<and>
     (\<exists>cx'. cp_clip (as_pipe s') = Some cx' \<and> cx_queue cx' = cx_queue cx \<and> cx_results cx' rid \<noteq> None)"

lemma finish_turn:
  assumes inv: "as_inv E P cap cx0 br0 s" and short: "length (as_stream s) < 2 ^ 64" and ok: "requests_ok s"
    and cx: "cp_clip (as_pipe s) = Some cx" and cur: "as_current s = Some req"
  shows "\<exists>s'. extractor_turn E stamp s = Some (Inr s') \<and> as_inv E P cap cx0 br0 s' \<and>
    answers E s (rq_request_id req) cx s'"
proof -
  obtain rb where rb: "cp_ring (as_pipe s) = Some rb" using as_invD(3) [OF inv] by (auto simp: ring_part_def)
  obtain s' where s': "clip_turn E stamp cx rb req s = Some (Inr s')" "as_inv E P cap cx0 br0 s'"
    using clip_turn_inv [OF inv cur cx rb short] by blast
  have "as_run E s s'"
    using as_run.go [OF as_run.stay] as_step.finish [OF cur cx rb, of E stamp] unfolding s'(1) by blast
  then show ?thesis
    using s' finish_step [OF ok cx cur s'(1)] by (auto simp: extractor_turn_def cx cur rb answers_def cx_store_result_def)
qed

lemma serve_turn:
  assumes inv: "as_inv E P cap cx0 br0 s" and ok: "requests_ok s"
    and cx: "cp_clip (as_pipe s) = Some cx" and idle: "as_current s = None" "\<not> as_worker_exited s"
    and queue: "cx_queue cx = req # rest"
  shows "\<exists>s'. extractor_turn E stamp s = Some (Inr s') \<and> as_inv E P cap cx0 br0 s' \<and> as_run E s s' \<and>
    requests_ok s' \<and> cp_clip (as_pipe s') = Some (cx\<lparr>cx_queue := rest\<rparr>) \<and> as_current s' = Some req \<and>
    as_stream s' = as_stream s \<and> \<not> as_worker_exited s' \<and> all_requests s' = all_requests s"
proof -
  let ?cx = "cx\<lparr>cx_queue := rest\<rparr>" and ?s = "with_clip s (cx\<lparr>cx_queue := rest\<rparr>)\<lparr>as_current := Some req\<rparr>"
  have turn: "cx_worker_turn cx = Worker_Serves req ?cx" by (simp add: cx_worker_turn_def queue)
  have step: "as_step E s (Some (Inr ?s))"
    using as_step.serve [OF idle(2,1) cx turn] by (simp add: with_clip_def)
  have "as_inv E P cap cx0 br0 ?s"
    using clip_step_inv [OF inv cx, of ?cx "Some req" "[]" "as_clip_calls s"] clip_current [OF inv cx] queue
    by (simp add: with_clip_def idle)
  moreover have "as_run E s ?s" by (rule as_run.go [OF as_run.stay step])
  ultimately show ?thesis using serve_step [OF ok cx idle(1) turn] idle(2)
    by (intro exI [of _ ?s]) (simp add: extractor_turn_def cx idle turn, simp add: with_clip_def idle)
qed

lemma as_run_trans: "\<lbrakk>as_run E s' s''; as_run E s s'\<rbrakk> \<Longrightarrow> as_run E s s''"
  by (induction rule: as_run.induct) (auto intro: as_run.go)

text \<open>Two turns for each request ahead, and two for the request itself.\<close>

lemma queue_served:
  assumes "as_inv E P cap cx0 br0 s" and "length (as_stream s) < 2 ^ 64" and "requests_ok s"
    and "cp_clip (as_pipe s) = Some cx" and "as_current s = None" "\<not> as_worker_exited s"
    and "cx_queue cx = ahead @ req # behind" and "length stamps = 2 * length ahead + 2"
  shows "\<exists>s' cx'. extractor_turns E stamps s = Some (Inr s') \<and> as_run E s s' \<and> as_stream s' = as_stream s \<and>
    requests_ok s' \<and> all_requests s' = all_requests s \<and>
    cp_clip (as_pipe s') = Some cx' \<and> cx_results cx' (rq_request_id req) \<noteq> None"
  using assms
proof (induction ahead arbitrary: s cx stamps)
  have two: "\<exists>s'. extractor_turns E [st1, st2] s = Some (Inr s') \<and> as_inv E P cap cx0 br0 s' \<and>
      answers E s (rq_request_id hd) (cx\<lparr>cx_queue := tl\<rparr>) s'"
    if inv: "as_inv E P cap cx0 br0 s" and short: "length (as_stream s) < 2 ^ 64" and ok: "requests_ok s"
      and cx: "cp_clip (as_pipe s) = Some cx" and idle: "as_current s = None" "\<not> as_worker_exited s"
      and queue: "cx_queue cx = hd # tl" for s cx hd tl st1 st2
  proof -
    obtain s1 where s1: "extractor_turn E st1 s = Some (Inr s1)" "as_inv E P cap cx0 br0 s1" "as_run E s s1"
      "requests_ok s1" "cp_clip (as_pipe s1) = Some (cx\<lparr>cx_queue := tl\<rparr>)" "as_current s1 = Some hd"
      "as_stream s1 = as_stream s" "\<not> as_worker_exited s1" "all_requests s1 = all_requests s"
      using serve_turn [OF inv ok cx idle queue, of st1] by blast
    have "length (as_stream s1) < 2 ^ 64" using short s1(7) by simp
    from finish_turn [OF s1(2) this s1(4-6), of st2] obtain s2 where s2: "extractor_turn E st2 s1 = Some (Inr s2)"
      "as_inv E P cap cx0 br0 s2" "answers E s1 (rq_request_id hd) (cx\<lparr>cx_queue := tl\<rparr>) s2" by blast
    then have "answers E s (rq_request_id hd) (cx\<lparr>cx_queue := tl\<rparr>) s2"
      using as_run_trans [OF _ s1(3), of s2] s1(7-9) idle(2) by (auto simp: answers_def)
    then show ?thesis using s1(1) s2(1,2) by simp
  qed
  {
    case (Nil s cx stamps)
    from Nil(8) obtain st1 st2 where st: "stamps = [st1, st2]" by (auto simp: length_Suc_conv numeral_2_eq_2)
    from two [OF Nil(1-6) Nil(7) [unfolded append_Nil], of st1 st2] obtain s' where
      s': "extractor_turns E stamps s = Some (Inr s')" "answers E s (rq_request_id req) (cx\<lparr>cx_queue := behind\<rparr>) s'"
      unfolding st by blast
    from s'(2) obtain cx' where "cp_clip (as_pipe s') = Some cx'" "cx_results cx' (rq_request_id req) \<noteq> None"
      "as_run E s s'" "as_stream s' = as_stream s" "requests_ok s'" "all_requests s' = all_requests s"
      unfolding answers_def by blast
    with s'(1) show ?case by blast
  next
    case (Cons head ahead s cx stamps)
    from Cons.prems(8) obtain st1 st2 rest where st: "stamps = [st1, st2] @ rest" "length rest = 2 * length ahead + 2"
      by (auto simp: length_Suc_conv numeral_2_eq_2)
    obtain s1 where s1: "extractor_turns E [st1, st2] s = Some (Inr s1)" "as_inv E P cap cx0 br0 s1"
      "answers E s (rq_request_id head) (cx\<lparr>cx_queue := ahead @ req # behind\<rparr>) s1"
      using two [OF Cons.prems(1-6), of head "ahead @ req # behind" st1 st2] Cons.prems(7) by auto
    then obtain cx1 where A: "as_run E s s1" "as_stream s1 = as_stream s" "requests_ok s1" "as_current s1 = None"
      "\<not> as_worker_exited s1" "cp_clip (as_pipe s1) = Some cx1" "cx_queue cx1 = ahead @ req # behind" "all_requests s1 = all_requests s"
      using Cons.prems(6) by (auto simp: answers_def)
    have "length (as_stream s1) < 2 ^ 64" using Cons.prems(2) A(2) by simp
    from Cons.IH [OF s1(2) this A(3,6,4,5,7) st(2)] obtain s2 cx2 where "extractor_turns E rest s1 = Some (Inr s2)"
      "as_run E s1 s2" "as_stream s2 = as_stream s1" "requests_ok s2" "all_requests s2 = all_requests s1" "cp_clip (as_pipe s2) = Some cx2"
      "cx_results cx2 (rq_request_id req) \<noteq> None" by blast
    then show ?case using as_run_trans [OF _ A(1)] A(2,8) unfolding st(1) extractor_turns_append s1(1) pbind_simps
      by (intro exI [of _ s2] exI [of _ cx2]) simp
  }
qed

section \<open>The socket of the whole system\<close>

text \<open>
  \<open>clip\<close> stands for what the threads do while the socket thread waits: any behaviour that
  \<open>capture_clip\<close> allows.
\<close>

type_synonym clip_service = "int \<Rightarrow> int \<Rightarrow> string \<Rightarrow> audio_system \<Rightarrow> (string \<times> audio_system) outcome"

definition system_socket :: "math_lib \<Rightarrow> number_text \<Rightarrow> clip_service \<Rightarrow> audio_system control_socket" where
  "system_socket math nt clip =
     daemon_socket
       \<lparr>pl_capture_clip = clip,
        pl_set_parameter = (\<lambda>key val s. obind (set_parameter math key val (as_pipe s)) (\<lambda>(ok, cp).
          Inr (ok, s\<lparr>as_pipe := cp\<rparr>))),
        pl_status_json = (\<lambda>s. get_status_json nt (as_pipe s)),
        pl_levels_json = (\<lambda>s. Inr (get_levels_json nt (as_pipe s)))\<rparr>"

definition serves_clips :: "audio_env \<Rightarrow> clip_service \<Rightarrow> bool" where
  "serves_clips E clip \<longleftrightarrow> (\<forall>a b fmt s path s'. clip a b fmt s = Inr (path, s') \<longrightarrow>
     capture_clip E (word_of_int a) (word_of_int b) fmt s path s')"

text \<open>What a client that asked for \<open>a\<close> to \<open>b\<close> finds in the file of record \<open>r\<close>.\<close>

definition clip_window :: "clip_extractor \<Rightarrow> nat \<Rightarrow> u8 list list \<Rightarrow> int \<Rightarrow> int \<Rightarrow> string \<Rightarrow> clip_record \<Rightarrow> bool" where
  "clip_window cx cap H a b fmt r \<longleftrightarrow>
     (let k = cr_frames r; m = min (nat (b - a) * unat (cx_sample_rate cx)) (min k cap)
      in k \<le> length H \<and>
         (\<exists>p. cr_calls r = [Sf_Open (cr_path r) (cx_info cx fmt) True, Sf_Write p, Sf_Close] \<and>
              payload_bytes (cx_bits_per_sample cx) p = concat (frames_between H (int k - int m) (int k))))"

lemma clip_ok_window:
  assumes "clip_ok cx cap H r" and "cr_path r \<noteq> []" and "rq_format (cr_request r) = fmt"
    and "rq_start_offset (cr_request r) = word_of_int a" "rq_end_offset (cr_request r) = word_of_int b"
    and "int32_range a" and "int32_range b"
  shows "clip_window cx cap H a b fmt r"
proof -
  have "sint (word_of_int a :: i32) = a" "sint (word_of_int b :: i32) = b"
    using assms(6,7) by (simp_all add: int32_range_def sint_sbintrunc' signed_take_bit_int_eq_self)
  then show ?thesis using assms(1-5) unfolding clip_ok_def clip_window_def clip_frames_def Let_def
    by (auto split: if_splits)
qed

text \<open>
  C7: a clip from the client's command line to its file. The daemon has been started and its
  threads are in any state; a client is run with any two offsets and a format. If it ends, it has
  printed the failure reply, or the path of a clip that was made for this very request, after it
  was sent and before it was answered: the file holds the last \<open>m\<close> of the \<open>k\<close> frames the daemon
  had captured when the worker came to read, where \<open>m\<close> is the requested length as far as the
  ring buffer reaches.
\<close>

theorem clip_client_gets_its_window:
  assumes init: "cp_initialize env (cp_new math config) = Inr (True, cp)" and px: "px_works (pe_shm env)"
    and cfg: "config_ok math (actual_rate env config) (actual_period env config) config"
    and bits: "ac_bits_per_sample (dc_audio config) = 16 \<or> ac_bits_per_sample (dc_audio config) = 32"
    and start: "cp_start cp = Inr (True, cp0)" and opens: "opens_succeed (ae_rec_lib E)"
    and parts: "cp_ring cp0 = Some rb0" "cp_clip cp0 = Some cx0" and reach: "as_reach E cp0 s"
    and clip: "serves_clips E clip" and range: "int32_range a" "int32_range b" and f: "plain_word f" "length f \<le> 900"
    and run: "clip_client (handle_client (system_socket math nt clip)) True [to_string a, to_string b, f] s =
      Inr (status, out, s')"
    and few: "length (as_stream s') < 2 ^ 64" "length (all_requests s') < 2 ^ 64"
  shows "status = 0 \<and> as_reach E cp0 s' \<and>
    (out = printed_reply (resp_error ''Clip extraction failed'') \<or>
     (\<exists>r \<in> set (as_clips s'). out = printed_reply (resp_ok_path (cr_path r)) \<and>
        length (as_stream s) \<le> cr_frames r \<and>
        clip_window cx0 (rb_cap rb0) (as_stream s') a b (map to_lower f) r))"
proof -
  obtain path where path: "clip a b (map to_lower f) s = Inr (path, s')" "status = 0"
    "out = printed_reply (if path = [] then resp_error ''Clip extraction failed'' else resp_ok_path path)"
    using run unfolding system_socket_def clip_client_reply [OF range f] by (auto simp: obind_Inr_iff)
  have call: "capture_clip E (word_of_int a) (word_of_int b) (map to_lower f) s path s'"
    using clip path(1) by (simp add: serves_clips_def)
  have reach': "as_reach E cp0 s'" by (rule capture_clip_reach [OF call reach])
  have ok: "requests_ok s" by (rule requests_reach [OF reach started_requests [OF init start]])
  have fmt: "map to_lower f \<noteq> []" using f(1) by (simp add: plain_word_def)
  obtain br0 where "as_inv E (unat (actual_period env config)) (rb_cap rb0) cx0 br0 (as_init cp0)"
    using started_system [OF init px cfg bits start] parts by auto
  from as_invD(4) [OF as_reach_inv [OF reach' this opens few(1)]]
  have clips: "\<forall>r \<in> set (as_clips s'). clip_ok cx0 (rb_cap rb0) (as_stream s') r" by (simp add: clip_part_def)
  show ?thesis
  proof (cases "path = []")
    case False
    from capture_clip_record [OF call ok False few(2) fmt] obtain r where r: "r \<in> set (as_clips s')"
      "cr_path r = path" "rq_start_offset (cr_request r) = word_of_int a" "rq_end_offset (cr_request r) = word_of_int b"
      "rq_format (cr_request r) = map to_lower f" "length (as_stream s) \<le> cr_frames r" by blast
    have "clip_window cx0 (rb_cap rb0) (as_stream s') a b (map to_lower f) r"
      using clip_ok_window [OF _ _ r(5,3,4) range] clips r(1,2) False by blast
    then show ?thesis using r path reach' False by auto
  qed (use path reach' in simp)
qed

lemma capture_clip_served:
  assumes inv0: "as_inv E P cap cx0 br0 s" and ok0: "requests_ok s" and opens: "opens_succeed (ae_rec_lib E)"
    and short: "length (as_stream s) < 2 ^ 64"
    and cx: "cp_clip (as_pipe s) = Some cx" and fits: "clip_fits (ae_mem_ok E) cx a b"
    and call: "cx_request_clip now cx a b fmt = (rid, cx1)"
    and stamps: "length stamps = (if as_current s = None then 0 else 1) + 2 * length (cx_queue cx) + 2"
  shows "(cx_sync_ready cx1 rid \<or>
      (\<exists>s2 cx2. extractor_turns E stamps (with_clip s cx1) = Some (Inr s2) \<and> as_stream s2 = as_stream s \<and>
         cp_clip (as_pipe s2) = Some cx2 \<and> cx_results cx2 rid \<noteq> None)) \<and>
    (\<exists>path s'. capture_clip E a b fmt s path s' \<and> as_stream s' = as_stream s \<and>
       length (all_requests s') = Suc (length (all_requests s)))"
proof -
  let ?s = "with_clip s cx1"
  have s: "cp_clip (as_pipe ?s) = Some cx1" "as_stream ?s = as_stream s" "as_current ?s = as_current s"
    "as_worker_exited ?s = as_worker_exited s" by (simp_all add: with_clip_def)
  obtain req where q: "cx_queue cx1 = cx_queue cx @ [req]" "rq_request_id req = rid" "cx_running cx1 = cx_running cx"
    using call by (auto simp: cx_request_clip_def Let_def)
  have "as_step E s (Some (Inr ?s))" using as_step.request [OF cx fits, of now fmt] call by (simp add: with_clip_def)
  from as_step_inv [OF inv0 opens short this]
  have inv: "as_inv E P cap cx0 br0 ?s" by simp
  have ok: "requests_ok ?s" by (rule request_step(1) [OF ok0 cx call])
  have one_more: "length (all_requests ?s) = Suc (length (all_requests s))" using request_step(3) [OF ok0 cx call] by auto
  have call_returns: "\<exists>path s'. capture_clip E a b fmt s path s' \<and> as_stream s' = as_stream s \<and>
      length (all_requests s') = Suc (length (all_requests s))"
    if s2: "as_run E ?s s2" "cp_clip (as_pipe s2) = Some cx2" "cx_sync_ready cx2 rid" "requests_ok s2"
      "as_stream s2 = as_stream s" "all_requests s2 = all_requests ?s" for s2 cx2
  proof -
    obtain path cx3 where take: "cx_sync_take cx2 rid = (path, cx3)" by fastforce
    from take_step(2) [OF s2(4,2) take] capture_clip.call [OF cx fits call s2(1-3) take] show ?thesis
      using s2(5,6) one_more by (intro exI [of _ path] exI [of _ "with_clip s2 cx3"]) (simp add: with_clip_def)
  qed
  show ?thesis
  proof (cases "cx_running cx")
    case False
    then have "cx_sync_ready cx1 rid" using q(3) by (simp add: cx_sync_ready_def)
    then show ?thesis using call_returns [OF as_run.stay s(1) _ ok s(2) refl] by blast
  next
    case True
    then have busy: "\<not> as_worker_exited ?s" using ok0 cx s(4) by (auto simp: requests_ok_def)
    have short': "length (as_stream ?s) < 2 ^ 64" using short s(2) by simp
    have "\<exists>s2 cx2. extractor_turns E stamps ?s = Some (Inr s2) \<and> as_run E ?s s2 \<and> as_stream s2 = as_stream ?s \<and>
        requests_ok s2 \<and> all_requests s2 = all_requests ?s \<and> cp_clip (as_pipe s2) = Some cx2 \<and> cx_results cx2 (rq_request_id req) \<noteq> None"
    proof (cases "as_current s")
      case None
      then show ?thesis using queue_served [OF inv short' ok s(1) _ busy q(1)] stamps s(3) by simp
    next
      case (Some old)
      then obtain stamp rest where st: "stamps = stamp # rest" "length rest = 2 * length (cx_queue cx) + 2"
        using stamps by (auto simp: length_Suc_conv)
      have "as_current ?s = Some old" using Some s(3) by simp
      from finish_turn [OF inv short' ok s(1) this, of stamp] obtain s1 cx' where
        s1: "extractor_turn E stamp ?s = Some (Inr s1)" "as_inv E P cap cx0 br0 s1"
          "as_run E ?s s1" "as_stream s1 = as_stream ?s" "requests_ok s1" "as_current s1 = None" "\<not> as_worker_exited s1"
          "cp_clip (as_pipe s1) = Some cx'" "cx_queue cx' = cx_queue cx @ [req]"
          "all_requests s1 = all_requests ?s"
        using busy q(1) by (auto simp: answers_def)
      have "length (as_stream s1) < 2 ^ 64" using short' s1(4) by simp
      from queue_served [OF s1(2) this s1(5,8,6,7,9) st(2)] show ?thesis
        using as_run_trans [OF _ s1(3)] s1(4,10) unfolding st(1) extractor_turns.simps s1(1) pbind_simps by metis
    qed
    then show ?thesis using call_returns s(2) q(2) by (auto simp: cx_sync_ready_def)
  qed
qed

text \<open>
  A clip call returns. In every state of the started daemon's threads, a call of
  \<open>capture_clip\<close> is ready at once when the extractor has been stopped, and otherwise after the
  worker's own turns: one if it is busy, two for each request in the queue and two for this one,
  however the other threads stand. No turn faults, and the call gets a result.
\<close>

theorem clip_call_returns:
  assumes init: "cp_initialize env (cp_new math config) = Inr (True, cp)" and px: "px_works (pe_shm env)"
    and cfg: "config_ok math (actual_rate env config) (actual_period env config) config"
    and bits: "ac_bits_per_sample (dc_audio config) = 16 \<or> ac_bits_per_sample (dc_audio config) = 32"
    and start: "cp_start cp = Inr (True, cp0)" and opens: "opens_succeed (ae_rec_lib E)"
    and reach: "as_reach E cp0 s" and short: "length (as_stream s) < 2 ^ 64"
    and cx: "cp_clip (as_pipe s) = Some cx" and fits: "clip_fits (ae_mem_ok E) cx a b"
    and call: "cx_request_clip now cx a b fmt = (rid, cx1)"
    and stamps: "length stamps = (if as_current s = None then 0 else 1) + 2 * length (cx_queue cx) + 2"
  shows "(cx_sync_ready cx1 rid \<or>
      (\<exists>s2 cx2. extractor_turns E stamps (with_clip s cx1) = Some (Inr s2) \<and> as_stream s2 = as_stream s \<and>
         cp_clip (as_pipe s2) = Some cx2 \<and> cx_results cx2 rid \<noteq> None)) \<and>
    (\<exists>path s'. capture_clip E a b fmt s path s')"
proof -
  obtain rb0 cx0 br0 where "as_inv E (unat (actual_period env config)) (rb_cap rb0) cx0 br0 (as_init cp0)"
    using started_system [OF init px cfg bits start] by blast
  from as_reach_inv [OF reach this opens short]
  have "as_inv E (unat (actual_period env config)) (rb_cap rb0) cx0 br0 s" .
  moreover have "requests_ok s" by (rule requests_reach [OF reach started_requests [OF init start]])
  ultimately show ?thesis using capture_clip_served [OF _ _ opens short cx fits call stamps] by blast
qed

section \<open>A clip of the last second\<close>

lemma demo_clip:
  obtains cp cp0 rb0 cx0 s cx where "cp_initialize demo_env (cp_new demo_math demo_pipe_config) = Inr (True, cp)"
    and "cp_start cp = Inr (True, cp0)" and "cp_ring cp0 = Some rb0" and "cp_clip cp0 = Some cx0"
    and "as_reach demo_audio_env cp0 s" and "length (as_stream s) = 1" and "all_requests s = []"
    and "cp_clip (as_pipe s) = Some cx" and "clip_fits (ae_mem_ok demo_audio_env) cx (-1) 0"
    and "\<exists>path s'. capture_clip demo_audio_env (-1) 0 ''wav'' s path s' \<and> length (as_stream s') = 1 \<and>
      length (all_requests s') = 1"
proof -
  obtain cp cp0 rb0 cx0 br0 s r al where D: "cp_initialize demo_env (cp_new demo_math demo_pipe_config) = Inr (True, cp)"
    "cp_start cp = Inr (True, cp0)" "cp_ring cp0 = Some rb0" "cp_clip cp0 = Some cx0"
    "as_inv demo_audio_env 2 (rb_cap rb0) cx0 br0 (as_init cp0)" "as_reach demo_audio_env cp0 s"
    "length (as_stream s) = 1" "capture_turn demo_audio_env r al (as_init cp0) = Some (Inr s)"
    by (rule demo_system) blast
  note ok = started_requests [OF D(1,2)]
  note same = same_clips_ok [OF capture_same_clips [OF D(8)] ok]
  have "all_requests (as_init cp0) = []"
    using started_requests [OF D(1,2)] cp_initialize_parts [OF D(1)] D(2)
    by (auto simp: all_requests_def as_init_def cp_start_def obind_Inr_iff deref_Inr_iff cx_start_def cx_new_def
        split: if_splits)
  then have none: "all_requests s = []" using same(2) by simp
  obtain cx where cx: "cp_clip (as_pipe s) = Some cx" using same(1) by (auto simp: requests_ok_def)
  have width: "cx_frame_bytes cx \<le> 2 ^ 16 * 2 ^ 13"
    using unat_lt_16 [of "cx_channels cx"] unat_lt_16 [of "cx_bits_per_sample cx"]
    unfolding cx_frame_bytes_def by (intro mult_mono) (simp_all add: bytes_of_bits_def)
  have "unat (cx_sample_rate cx) \<le> 2 ^ 32" using unat_lt_32 [of "cx_sample_rate cx"] by simp
  from mult_le_mono [OF this width]
  have fits: "clip_fits (ae_mem_ok demo_audio_env) cx (-1) 0"
    by (simp add: clip_fits_def clip_bytes_def demo_audio_env_def)
  have short: "length (as_stream s) < 2 ^ 64" using D(7) by simp
  obtain rid cx1 where req: "cx_request_clip 0 cx (-1) 0 ''wav'' = (rid, cx1)" by fastforce
  have q: "length (replicate ((if as_current s = None then 0 else 1) + 2 * length (cx_queue cx) + 2) []) =
      (if as_current s = None then 0 else 1) + 2 * length (cx_queue cx) + 2" by simp
  from capture_clip_served [OF as_reach_inv [OF D(6,5) demo_system_opens short] same(1) demo_system_opens short cx fits req q]
  obtain path s' where "capture_clip demo_audio_env (-1) 0 ''wav'' s path s'" "as_stream s' = as_stream s"
    "length (all_requests s') = Suc (length (all_requests s))" by blast
  then have "\<exists>path s'. capture_clip demo_audio_env (-1) 0 ''wav'' s path s' \<and> length (as_stream s') = 1 \<and>
      length (all_requests s') = 1" using D(7) none by (intro exI [of _ path] exI [of _ s']) simp
  then show thesis by (rule that [OF D(1-4,6,7) none cx fits])
qed

lemma demo_system_config:
  shows "px_works (pe_shm demo_env)"
    and "config_ok demo_math (actual_rate demo_env demo_pipe_config) (actual_period demo_env demo_pipe_config) demo_pipe_config"
    and "ac_bits_per_sample (dc_audio demo_pipe_config) = 16 \<or> ac_bits_per_sample (dc_audio demo_pipe_config) = 32"
  using demo_config_ok [folded demo_actual]
  by (simp_all add: demo_env_def demo_px_works) (simp add: demo_pipe_config_def default_config_def)

theorem clip_client_gets_its_window_witness:
  "\<exists>cp0 rb0 cx0 clip s out s'. as_reach demo_audio_env cp0 s \<and> cp_ring cp0 = Some rb0 \<and> cp_clip cp0 = Some cx0 \<and>
     length (as_stream s) = 1 \<and>
     clip_client (handle_client (system_socket demo_math demo_text clip)) True [to_string (-1), to_string 0, ''wav''] s =
       Inr (0, out, s') \<and>
     (out = printed_reply (resp_error ''Clip extraction failed'') \<or>
      (\<exists>r \<in> set (as_clips s'). out = printed_reply (resp_ok_path (cr_path r)) \<and>
         clip_window cx0 (rb_cap rb0) (as_stream s') (-1) 0 (map to_lower ''wav'') r))"
proof -
  obtain cp cp0 rb0 cx0 s cx path s' where D: "cp_initialize demo_env (cp_new demo_math demo_pipe_config) = Inr (True, cp)"
    "cp_start cp = Inr (True, cp0)" "cp_ring cp0 = Some rb0" "cp_clip cp0 = Some cx0"
    "as_reach demo_audio_env cp0 s" "length (as_stream s) = 1" and
    C: "capture_clip demo_audio_env (-1) 0 ''wav'' s path s'" "length (as_stream s') = 1" "length (all_requests s') = 1"
    by (rule demo_clip) blast
  define clip :: clip_service where
    "clip = (\<lambda>a b fmt st. if a = -1 \<and> b = 0 \<and> fmt = ''wav'' \<and> st = s then Inr (path, s') else Inl Bad_Alloc)"
  have serves: "serves_clips demo_audio_env clip" using C(1) by (simp add: serves_clips_def clip_def)
  have low: "map to_lower ''wav'' = ''wav''" by (simp add: to_lower_def of_char_def)
  have range: "int32_range (-1)" "int32_range 0" "plain_word ''wav''" "length ''wav'' \<le> 900"
    by (simp_all add: int32_range_def plain_word_def is_space_def)
  have run: "clip_client (handle_client (system_socket demo_math demo_text clip)) True [to_string (-1), to_string 0, ''wav''] s =
      Inr (0, printed_reply (if path = [] then resp_error ''Clip extraction failed'' else resp_ok_path path), s')"
    unfolding system_socket_def clip_client_reply [OF range] low by (simp add: clip_def)
  have few: "length (as_stream s') < 2 ^ 64" "length (all_requests s') < 2 ^ 64" using C(2,3) by simp_all
  from clip_client_gets_its_window [OF D(1) demo_system_config D(2) demo_system_opens D(3-5) serves range run few]
  show ?thesis using D(3-6) run by blast
qed

theorem clip_call_returns_witness:
  "\<exists>cp0 s path s'. as_reach demo_audio_env cp0 s \<and> length (as_stream s) = 1 \<and>
     capture_clip demo_audio_env (-1) 0 ''wav'' s path s'"
proof -
  obtain cp cp0 s cx where D: "cp_initialize demo_env (cp_new demo_math demo_pipe_config) = Inr (True, cp)"
    "cp_start cp = Inr (True, cp0)" "as_reach demo_audio_env cp0 s" "length (as_stream s) = 1"
    "cp_clip (as_pipe s) = Some cx" "clip_fits (ae_mem_ok demo_audio_env) cx (-1) 0"
    by (rule demo_clip) blast
  obtain rid cx1 where req: "cx_request_clip 0 cx (-1) 0 ''wav'' = (rid, cx1)" by fastforce
  have short: "length (as_stream s) < 2 ^ 64" using D(4) by simp
  have q: "length (replicate ((if as_current s = None then 0 else 1) + 2 * length (cx_queue cx) + 2) []) =
      (if as_current s = None then 0 else 1) + 2 * length (cx_queue cx) + 2" by simp
  from clip_call_returns [OF D(1) demo_system_config D(2) demo_system_opens D(3) short D(5,6) req q]
  show ?thesis using D(3,4) by blast
qed

end
