(* ===== verification/Fair_Threads.thy ===== *)
theory Fair_Threads
  imports Prelude
begin

text \<open>
  Threads that take turns. A turn of a thread that has to wait changes nothing. The locale is what a
  protocol has to provide so that every schedule that keeps coming back to each of its threads
  brings it to its end: an invariant, an amount of work that every effective turn decreases
  (but for the turns of the environment, which may add to it what they cost), and the absence of
  deadlocks.
\<close>

locale fair_threads =
  fixes turn :: "'a \<Rightarrow> 's \<Rightarrow> 's"
    and thread :: "'a \<Rightarrow> 't option"
    and threads :: "'t set"
    and allowed :: "'a \<Rightarrow> bool"
    and inv :: "'s \<Rightarrow> bool"
    and ended :: "'s \<Rightarrow> bool"
    and work :: "'s \<Rightarrow> nat"
    and cost :: "'a \<Rightarrow> nat"
  assumes keeps: "\<lbrakk>inv s; allowed a\<rbrakk> \<Longrightarrow> inv (turn a s)"
    and pays: "\<lbrakk>inv s; allowed a; turn a s \<noteq> s\<rbrakk> \<Longrightarrow> work (turn a s) < work s + cost a"
    and no_deadlock: "\<lbrakk>inv s; \<not> ended s\<rbrakk> \<Longrightarrow>
      \<exists>t \<in> threads. \<forall>a. allowed a \<and> thread a = Some t \<longrightarrow> turn a s \<noteq> s"
    and stays: "\<lbrakk>inv s; ended s; allowed a\<rbrakk> \<Longrightarrow> ended (turn a s)"
begin

lemma run_keeps: "\<lbrakk>inv s; \<forall>a \<in> set as. allowed a\<rbrakk> \<Longrightarrow> inv (fold turn as s)"
  by (induction as arbitrary: s) (auto intro: keeps)

lemma run_stays: "\<lbrakk>inv s; ended s; \<forall>a \<in> set as. allowed a\<rbrakk> \<Longrightarrow> ended (fold turn as s)"
  by (induction as arbitrary: s) (auto intro: keeps stays)

lemma turn_work: "\<lbrakk>inv s; allowed a\<rbrakk> \<Longrightarrow> work (turn a s) \<le> work s + cost a"
  using pays [of s a] by (cases "turn a s = s") auto

lemma run_work: "\<lbrakk>inv s; \<forall>a \<in> set as. allowed a\<rbrakk> \<Longrightarrow>
  work (fold turn as s) \<le> work s + sum_list (map cost as)"
proof (induction as arbitrary: s)
  case (Cons a as)
  then have "work (fold turn as (turn a s)) \<le> work (turn a s) + sum_list (map cost as)"
    using keeps by simp
  moreover have "work (turn a s) \<le> work s + cost a" using Cons.prems by (intro turn_work) auto
  ultimately show ?case by simp
qed simp

lemma run_pays:
  "\<lbrakk>inv s; \<forall>a \<in> set as. allowed a; fold turn as s \<noteq> s\<rbrakk> \<Longrightarrow>
   work (fold turn as s) < work s + sum_list (map cost as)"
proof (induction as arbitrary: s)
  case (Cons a as)
  have ok: "inv (turn a s)" "allowed a" using Cons.prems keeps by auto
  show ?case
  proof (cases "turn a s = s")
    case True
    then show ?thesis using Cons by (simp add: add.left_commute trans_less_add2)
  next
    case False
    have "work (fold turn as (turn a s)) \<le> work (turn a s) + sum_list (map cost as)"
      using Cons.prems by (intro run_work [OF ok(1)]) simp
    moreover have "work (turn a s) < work s + cost a" by (rule pays [OF Cons.prems(1) ok(2) False])
    ultimately show ?thesis by simp
  qed
qed simp

text \<open>A round has a turn of every thread, in any order, and whatever else.\<close>

lemma round_pays:
  assumes "inv s" and "\<not> ended s" and "\<forall>a \<in> set as. allowed a"
    and "\<forall>t \<in> threads. \<exists>a \<in> set as. thread a = Some t"
  shows "work (fold turn as s) < work s + sum_list (map cost as)"
proof -
  obtain t where t: "t \<in> threads" "\<And>a. \<lbrakk>allowed a; thread a = Some t\<rbrakk> \<Longrightarrow> turn a s \<noteq> s"
    using no_deadlock [OF assms(1,2)] by blast
  then obtain a where a: "a \<in> set as" "thread a = Some t" using assms(4) by blast
  then obtain bs cs where as: "as = bs @ a # cs" by (auto dest: split_list)
  have ok: "\<forall>a \<in> set bs. allowed a" "allowed a" "\<forall>a \<in> set cs. allowed a"
    using assms(3) by (simp_all add: as)
  have part: "work (fold turn (bs @ [a]) s) < work s + sum_list (map cost (bs @ [a]))"
  proof (cases "fold turn bs s = s")
    case True
    then show ?thesis using pays [OF assms(1) ok(2)] t(2) [OF ok(2) a(2)] by simp
  next
    case False
    have "work (fold turn bs s) < work s + sum_list (map cost bs)" by (rule run_pays [OF assms(1) ok(1) False])
    moreover have "work (turn a (fold turn bs s)) \<le> work (fold turn bs s) + cost a"
      by (rule turn_work [OF run_keeps [OF assms(1) ok(1)] ok(2)])
    ultimately show ?thesis by simp
  qed
  have "inv (fold turn (bs @ [a]) s)" using ok by (intro run_keeps [OF assms(1)]) auto
  from run_work [OF this ok(3)] part show ?thesis by (simp add: as)
qed

text \<open>More rounds than there is work, with what the environment adds to it, are enough.\<close>

lemma rounds_end:
  "\<lbrakk>inv s; \<forall>as \<in> set rounds. (\<forall>a \<in> set as. allowed a) \<and> (\<forall>t \<in> threads. \<exists>a \<in> set as. thread a = Some t);
    work s + sum_list (map cost (concat rounds)) < length rounds\<rbrakk> \<Longrightarrow>
   ended (fold turn (concat rounds) s)"
proof (induction rounds arbitrary: s)
  case (Cons as rounds)
  have ok: "\<forall>a \<in> set as. allowed a" "\<forall>a \<in> set (concat rounds). allowed a"
    using Cons.prems(2) by auto
  have inv: "inv (fold turn as s)" by (rule run_keeps [OF Cons.prems(1) ok(1)])
  show ?case
  proof (cases "ended s")
    case True
    then show ?thesis using run_stays [OF inv run_stays [OF Cons.prems(1) True ok(1)] ok(2)] by simp
  next
    case False
    have "\<forall>t \<in> threads. \<exists>a \<in> set as. thread a = Some t" using Cons.prems(2) by simp
    from round_pays [OF Cons.prems(1) False ok(1) this] Cons.prems(3)
    have "work (fold turn as s) + sum_list (map cost (concat rounds)) < length rounds" by simp
    with Cons.IH [OF inv] Cons.prems(2) show ?thesis by simp
  qed
qed simp

end

end
