(* ===== verification/Clip_Waiting.thy ===== *)
theory Clip_Waiting
  imports Clip_Extractor Fair_Threads
begin

text \<open>
  The threads of the clip extractor with its two mutexes and two condition variables: the worker,
  any number of callers of \<open>request_clip_sync\<close>, and \<open>stop()\<close>. A turn is one acquisition, one
  critical section up to its next access, one notification or one wait; waiting releases the mutex and sleeps
  in one turn, as \<open>std::condition_variable::wait\<close> does, and a woken thread locks again
  before it tests again. A turn of a thread that cannot go on changes nothing.
\<close>

section \<open>The two halves of \<open>request_clip\<close>\<close>

definition cx_new_request ::
  "u64 \<Rightarrow> clip_extractor \<Rightarrow> i32 \<Rightarrow> i32 \<Rightarrow> string \<Rightarrow> clip_request \<times> clip_extractor" where
  "cx_new_request now cx start_offset end_offset format =
     (\<lparr>rq_request_id = cx_next_id cx, rq_start_offset = start_offset, rq_end_offset = end_offset,
       rq_format = (if format = [] then cc_format (cx_config cx) else format), rq_timestamp = now\<rparr>,
      cx\<lparr>cx_next_id := cx_next_id cx + 1\<rparr>)"

definition cx_enqueue :: "clip_extractor \<Rightarrow> clip_request \<Rightarrow> clip_extractor" where
  "cx_enqueue cx req = cx\<lparr>cx_queue := cx_queue cx @ [req]\<rparr>"

lemma cx_request_clip_halves:
  "cx_request_clip now cx a b fmt =
   (let (req, cx1) = cx_new_request now cx a b fmt in (rq_request_id req, cx_enqueue cx1 req))"
  by (simp add: cx_request_clip_def cx_new_request_def cx_enqueue_def Let_def)

section \<open>Threads\<close>

datatype cw_worker_pc =
  K_Lock | K_Test | K_Asleep | K_Extract clip_request | K_Store clip_request string
| K_Storing clip_request string | K_Notify | K_Exited

datatype cw_caller_pc =
  C_New i32 i32 string u64 | C_Push clip_request | C_Pushing clip_request | C_Notify u64
| C_Lock u64 | C_Test u64 | C_Test_Running u64 | C_Asleep u64 | C_Take u64 | C_Done u64 string

datatype cw_stop_pc = X_Idle | X_Locked | X_Notify | X_Join | X_Done

datatype cw_thread = T_Worker | T_Caller nat | T_Stopper

text \<open>\<open>cw_made\<close> is the history of the paths the worker has stored.\<close>

record cw_system =
  cw_cx :: clip_extractor
  cw_queue_mutex :: "cw_thread option"
  cw_results_mutex :: "cw_thread option"
  cw_worker :: cw_worker_pc
  cw_callers :: "cw_caller_pc list"
  cw_stop :: cw_stop_pc
  cw_made :: "(u64 \<times> string) list"

text \<open>After \<open>start()\<close>, with each caller about to make its call.\<close>

type_synonym clip_call = "i32 \<times> i32 \<times> string \<times> u64"

definition cw_init :: "clip_config \<Rightarrow> u32 \<Rightarrow> u16 \<Rightarrow> u16 \<Rightarrow> clip_call list \<Rightarrow> cw_system" where
  "cw_init config rate channels bits calls =
     \<lparr>cw_cx = cx_start (cx_new config rate channels bits), cw_queue_mutex = None,
      cw_results_mutex = None, cw_worker = K_Lock,
      cw_callers = map (\<lambda>(a, b, fmt, now). C_New a b fmt now) calls, cw_stop = X_Idle, cw_made = []\<rparr>"

text \<open>\<open>queue_cv_\<close> has one waiter, the worker; on \<open>results_cv_\<close> all sleeping callers are woken.\<close>

definition notify_queue :: "cw_system \<Rightarrow> cw_system" where
  "notify_queue s = s\<lparr>cw_worker := (if cw_worker s = K_Asleep then K_Lock else cw_worker s)\<rparr>"

fun woken :: "cw_caller_pc \<Rightarrow> cw_caller_pc" where
  "woken (C_Asleep rid) = C_Lock rid"
| "woken pc = pc"

definition notify_results :: "cw_system \<Rightarrow> cw_system" where
  "notify_results s = s\<lparr>cw_callers := map woken (cw_callers s)\<rparr>"

text \<open>
  \<open>worker_func\<close>. The path is what \<open>extract_clip\<close> returns in this turn.
\<close>

definition cw_worker_turn :: "string \<Rightarrow> cw_system \<Rightarrow> cw_system" where
  "cw_worker_turn path s =
     (case cw_worker s of
        K_Lock \<Rightarrow> if cw_queue_mutex s = None
          then s\<lparr>cw_queue_mutex := Some T_Worker, cw_worker := K_Test\<rparr> else s
      | K_Test \<Rightarrow> (case cx_worker_turn (cw_cx s) of
            Worker_Waits \<Rightarrow> s\<lparr>cw_queue_mutex := None, cw_worker := K_Asleep\<rparr>
          | Worker_Exits \<Rightarrow> s\<lparr>cw_queue_mutex := None, cw_worker := K_Exited\<rparr>
          | Worker_Serves req cx \<Rightarrow>
              s\<lparr>cw_cx := cx, cw_queue_mutex := None, cw_worker := K_Extract req\<rparr>)
      | K_Asleep \<Rightarrow> s
      | K_Extract req \<Rightarrow> s\<lparr>cw_worker := K_Store req path\<rparr>
      | K_Store req p \<Rightarrow> if cw_results_mutex s = None
          then s\<lparr>cw_results_mutex := Some T_Worker, cw_worker := K_Storing req p\<rparr> else s
      | K_Storing req p \<Rightarrow>
          s\<lparr>cw_cx := cx_store_result (cw_cx s) req p, cw_results_mutex := None, cw_worker := K_Notify,
            cw_made := cw_made s @ [(rq_request_id req, p)]\<rparr>
      | K_Notify \<Rightarrow> (notify_results s)\<lparr>cw_worker := K_Lock\<rparr>
      | K_Exited \<Rightarrow> s)"

text \<open>
  \<open>request_clip_sync\<close> of the \<open>k\<close>-th caller. Its predicate reads the results under the mutex, and
  \<open>running_\<close>, which \<open>stop()\<close> clears under the other mutex, only when there is none.
\<close>

definition cw_goto :: "nat \<Rightarrow> cw_caller_pc \<Rightarrow> cw_system \<Rightarrow> cw_system" where
  "cw_goto k pc s = s\<lparr>cw_callers := (cw_callers s)[k := pc]\<rparr>"

definition cw_caller_turn :: "nat \<Rightarrow> cw_system \<Rightarrow> cw_system" where
  "cw_caller_turn k s =
     (case cw_callers s ! k of
        C_New a b fmt now \<Rightarrow>
          let (req, cx) = cx_new_request now (cw_cx s) a b fmt in cw_goto k (C_Push req) (s\<lparr>cw_cx := cx\<rparr>)
      | C_Push req \<Rightarrow> if cw_queue_mutex s = None
          then cw_goto k (C_Pushing req) (s\<lparr>cw_queue_mutex := Some (T_Caller k)\<rparr>) else s
      | C_Pushing req \<Rightarrow> cw_goto k (C_Notify (rq_request_id req))
          (s\<lparr>cw_cx := cx_enqueue (cw_cx s) req, cw_queue_mutex := None\<rparr>)
      | C_Notify rid \<Rightarrow> cw_goto k (C_Lock rid) (notify_queue s)
      | C_Lock rid \<Rightarrow> if cw_results_mutex s = None
          then cw_goto k (C_Test rid) (s\<lparr>cw_results_mutex := Some (T_Caller k)\<rparr>) else s
      | C_Test rid \<Rightarrow> cw_goto k
          (if cx_results (cw_cx s) rid \<noteq> None then C_Take rid else C_Test_Running rid) s
      | C_Test_Running rid \<Rightarrow> if cx_running (cw_cx s)
          then cw_goto k (C_Asleep rid) (s\<lparr>cw_results_mutex := None\<rparr>) else cw_goto k (C_Take rid) s
      | C_Asleep rid \<Rightarrow> s
      | C_Take rid \<Rightarrow> let (path, cx) = cx_sync_take (cw_cx s) rid in
          cw_goto k (C_Done rid path) (s\<lparr>cw_cx := cx, cw_results_mutex := None\<rparr>)
      | C_Done rid path \<Rightarrow> s)"

text \<open>\<open>stop()\<close>: the flag under the mutex of the queue, the notification of the worker, \<open>join()\<close>.\<close>

definition cw_stop_turn :: "cw_system \<Rightarrow> cw_system" where
  "cw_stop_turn s =
     (case cw_stop s of
        X_Idle \<Rightarrow> if cw_queue_mutex s = None
          then s\<lparr>cw_queue_mutex := Some T_Stopper, cw_stop := X_Locked\<rparr> else s
      | X_Locked \<Rightarrow> s\<lparr>cw_cx := cx_stop_flag (cw_cx s), cw_queue_mutex := None, cw_stop := X_Notify\<rparr>
      | X_Notify \<Rightarrow> (notify_queue s)\<lparr>cw_stop := X_Join\<rparr>
      | X_Join \<Rightarrow> if cw_worker s = K_Exited then s\<lparr>cw_stop := X_Done\<rparr> else s
      | X_Done \<Rightarrow> s)"

text \<open>Whose turn it is; the last two are spurious wakeups.\<close>

datatype cw_actor = Clip_Worker string | Clip_Caller nat | Clip_Stopper | Wake_Worker | Wake_Caller nat

fun cw_turn :: "cw_actor \<Rightarrow> cw_system \<Rightarrow> cw_system" where
  "cw_turn (Clip_Worker path) s = cw_worker_turn path s"
| "cw_turn (Clip_Caller k) s = (if k < length (cw_callers s) then cw_caller_turn k s else s)"
| "cw_turn Clip_Stopper s = cw_stop_turn s"
| "cw_turn Wake_Worker s = notify_queue s"
| "cw_turn (Wake_Caller k) s =
     (if k < length (cw_callers s) then cw_goto k (woken (cw_callers s ! k)) s else s)"

section \<open>The invariant\<close>

text \<open>Who holds the mutexes is where the threads are.\<close>

fun in_queue_section :: "cw_caller_pc \<Rightarrow> bool" where
  "in_queue_section (C_Pushing req) = True"
| "in_queue_section _ = False"

fun in_results_section :: "cw_caller_pc \<Rightarrow> bool" where
  "in_results_section (C_Test rid) = True"
| "in_results_section (C_Test_Running rid) = True"
| "in_results_section (C_Take rid) = True"
| "in_results_section _ = False"

fun is_storing :: "cw_worker_pc \<Rightarrow> bool" where
  "is_storing (K_Storing req p) = True"
| "is_storing _ = False"

definition held_by :: "cw_thread option \<Rightarrow> bool \<Rightarrow> bool \<Rightarrow> bool list \<Rightarrow> bool" where
  "held_by m worker stopper callers \<longleftrightarrow>
     (m = Some T_Worker \<longleftrightarrow> worker) \<and> (m = Some T_Stopper \<longleftrightarrow> stopper) \<and>
     (\<forall>k. m = Some (T_Caller k) \<longleftrightarrow> k < length callers \<and> callers ! k)"

lemma held_by_worker:
  "held_by None w x cs \<Longrightarrow> held_by (Some T_Worker) True x cs"
  "held_by m True x cs \<Longrightarrow> held_by None False x cs"
  by (auto simp: held_by_def)

lemma held_by_stopper:
  "held_by None w x cs \<Longrightarrow> held_by (Some T_Stopper) w True cs"
  "held_by m w True cs \<Longrightarrow> held_by None w False cs"
  by (auto simp: held_by_def)

lemma held_by_caller:
  assumes "k < length cs"
  shows "held_by None w x cs \<Longrightarrow> held_by (Some (T_Caller k)) w x (cs[k := True])"
    and "\<lbrakk>held_by m w x cs; cs ! k\<rbrakk> \<Longrightarrow> held_by None w x (cs[k := False])"
proof -
  show "held_by None w x cs \<Longrightarrow> held_by (Some (T_Caller k)) w x (cs[k := True])"
    using assms by (auto simp: held_by_def nth_list_update)
  assume h: "held_by m w x cs" "cs ! k"
  then have m: "m = Some (T_Caller k)" using assms by (simp add: held_by_def)
  then have "\<not> w" "\<not> x" using h(1) by (simp_all add: held_by_def)
  moreover have "i = k" if "i < length cs" "cs ! i" for i
  proof -
    have "\<forall>j. m = Some (T_Caller j) \<longleftrightarrow> j < length cs \<and> cs ! j"
      using h(1) unfolding held_by_def by (elim conjE)
    then have "m = Some (T_Caller i)" using that by (elim allE [of _ i]) simp
    then show ?thesis using m by simp
  qed
  ultimately show "held_by None w x (cs[k := False])"
    using assms by (auto simp: held_by_def nth_list_update split: if_splits)
qed

lemma held_by_same: "\<lbrakk>k < length cs; held_by m w x cs; cs ! k = b\<rbrakk> \<Longrightarrow> held_by m w x (cs[k := b])"
  by hypsubst simp

lemma held_byD:
  "\<lbrakk>held_by m w x cs; k < length cs; cs ! k\<rbrakk> \<Longrightarrow> m = Some (T_Caller k)"
  "held_by m True x cs \<Longrightarrow> m = Some T_Worker"
  "held_by m w True cs \<Longrightarrow> m = Some T_Stopper"
  by (simp_all add: held_by_def)

definition cw_locks :: "cw_system \<Rightarrow> bool" where
  "cw_locks s \<longleftrightarrow>
     held_by (cw_queue_mutex s) (cw_worker s = K_Test) (cw_stop s = X_Locked)
       (map in_queue_section (cw_callers s)) \<and>
     held_by (cw_results_mutex s) (is_storing (cw_worker s)) False
       (map in_results_section (cw_callers s))"

lemma woken_sections [simp]:
  "in_queue_section (woken pc) = in_queue_section pc"
  "in_results_section (woken pc) = in_results_section pc"
  by (cases pc; simp)+

lemma length_callers [simp]: "length (cw_callers (cw_turn a s)) = length (cw_callers s)"
  by (cases a) (auto simp: cw_worker_turn_def cw_caller_turn_def cw_stop_turn_def cw_goto_def Let_def
      notify_queue_def notify_results_def split: cw_worker_pc.split cw_caller_pc.split cw_stop_pc.split
      worker_turn.split prod.split)

lemmas held_by_rules = held_by_worker held_by_stopper held_by_caller held_by_same

lemma notify_queue_test [simp]:
  "(cw_worker (notify_queue s) = K_Test) = (cw_worker s = K_Test)"
  "is_storing (cw_worker (notify_queue s)) = is_storing (cw_worker s)"
  "(cw_worker (notify_queue s) = K_Exited) = (cw_worker s = K_Exited)"
  by (simp_all add: notify_queue_def)

lemma notify_queue_sel [simp]:
  "cw_cx (notify_queue s) = cw_cx s" "cw_queue_mutex (notify_queue s) = cw_queue_mutex s"
  "cw_results_mutex (notify_queue s) = cw_results_mutex s" "cw_callers (notify_queue s) = cw_callers s"
  "cw_stop (notify_queue s) = cw_stop s" "cw_made (notify_queue s) = cw_made s"
  by (simp_all add: notify_queue_def)

lemma cw_goto_sel [simp]:
  "cw_cx (cw_goto k pc s) = cw_cx s" "cw_queue_mutex (cw_goto k pc s) = cw_queue_mutex s"
  "cw_results_mutex (cw_goto k pc s) = cw_results_mutex s" "cw_worker (cw_goto k pc s) = cw_worker s"
  "cw_stop (cw_goto k pc s) = cw_stop s" "cw_made (cw_goto k pc s) = cw_made s"
  "cw_callers (cw_goto k pc s) = (cw_callers s)[k := pc]"
  by (simp_all add: cw_goto_def)

lemma cw_locks_turn:
  assumes "cw_locks s"
  shows "cw_locks (cw_turn a s)"
proof (cases a)
  case (Clip_Worker path)
  then show ?thesis using assms
    by (cases "cw_worker s") (auto simp: cw_locks_def cw_worker_turn_def notify_results_def comp_def
        intro: held_by_rules split: worker_turn.split)
next
  case (Clip_Caller k)
  then show ?thesis using assms
    by (cases "cw_callers s ! k")
      (auto simp: cw_locks_def cw_caller_turn_def map_update Let_def intro: held_by_rules split: prod.split)
next
  case Clip_Stopper
  then show ?thesis using assms
    by (cases "cw_stop s") (auto simp: cw_locks_def cw_stop_turn_def intro: held_by_rules)
next
  case Wake_Worker
  then show ?thesis using assms by (simp add: cw_locks_def)
next
  case (Wake_Caller k)
  then show ?thesis using assms by (auto simp: cw_locks_def map_update intro: held_by_rules)
qed

text \<open>Every caller has an id of its own.\<close>

fun caller_id :: "cw_caller_pc \<Rightarrow> u64 option" where
  "caller_id (C_New a b fmt now) = None"
| "caller_id (C_Push req) = Some (rq_request_id req)"
| "caller_id (C_Pushing req) = Some (rq_request_id req)"
| "caller_id (C_Notify rid) = Some rid"
| "caller_id (C_Lock rid) = Some rid"
| "caller_id (C_Test rid) = Some rid"
| "caller_id (C_Test_Running rid) = Some rid"
| "caller_id (C_Asleep rid) = Some rid"
| "caller_id (C_Take rid) = Some rid"
| "caller_id (C_Done rid path) = Some rid"

lemma caller_id_woken [simp]: "caller_id (woken pc) = caller_id pc"
  by (cases pc) simp_all

definition ids_given :: "u64 option list \<Rightarrow> nat" where
  "ids_given ids = sum_list (map (\<lambda>i. if i = None then 0 else 1) ids)"

lemma ids_given_update:
  "\<lbrakk>k < length ids; ids ! k = None\<rbrakk> \<Longrightarrow> ids_given (ids[k := Some rid]) = Suc (ids_given ids)"
  by (simp add: ids_given_def map_update sum_list_update)

lemma ids_given_le: "ids_given ids \<le> length ids"
  by (induction ids) (auto simp: ids_given_def)

definition ids_ok :: "u64 \<Rightarrow> u64 option list \<Rightarrow> bool" where
  "ids_ok next_id ids \<longleftrightarrow>
     unat next_id = Suc (ids_given ids) \<and>
     (\<forall>k rid. k < length ids \<and> ids ! k = Some rid \<longrightarrow> unat rid < unat next_id) \<and>
     (\<forall>i j rid. i < length ids \<and> j < length ids \<and> ids ! i = Some rid \<and> ids ! j = Some rid \<longrightarrow> i = j)"

lemma ids_ok_new:
  assumes "ids_ok next_id ids" and "k < length ids" and "ids ! k = None" and "length ids + 1 < 2 ^ 64"
  shows "ids_ok (next_id + 1) (ids[k := Some next_id])"
proof -
  have "ids_given (ids[k := Some next_id]) \<le> length ids"
    using ids_given_le [of "ids[k := Some next_id]"] by simp
  then have "unat next_id + 1 < 2 ^ 64"
    using assms by (simp add: ids_given_update ids_ok_def)
  then have "unat (next_id + 1) = unat next_id + 1" by (simp add: unat_add_64)
  moreover have old: "\<And>i rid. \<lbrakk>i < length ids; ids ! i = Some rid\<rbrakk> \<Longrightarrow> unat rid < unat next_id"
    using assms(1) unfolding ids_ok_def by blast
  moreover from this have "\<And>i. \<lbrakk>i < length ids; ids ! i = Some next_id\<rbrakk> \<Longrightarrow> False" by blast
  moreover have "ids_given (ids[k := Some next_id]) = unat next_id"
    using assms by (simp add: ids_ok_def ids_given_update)
  moreover have "\<And>i j rid. \<lbrakk>i < length ids; j < length ids; ids ! i = Some rid; ids ! j = Some rid\<rbrakk> \<Longrightarrow> i = j"
    using assms(1) unfolding ids_ok_def by blast
  ultimately show ?thesis
    using assms(2) unfolding ids_ok_def by (auto simp: nth_list_update less_Suc_eq split: if_splits)
qed

definition cw_ids :: "cw_system \<Rightarrow> bool" where
  "cw_ids s \<longleftrightarrow> ids_ok (cx_next_id (cw_cx s)) (map caller_id (cw_callers s))"

lemma ids_ok_same: "\<lbrakk>ids_ok next_id ids; k < length ids; ids ! k = i\<rbrakk> \<Longrightarrow> ids_ok next_id (ids[k := i])"
  by (metis list_update_id)

lemma cx_next_id_kept [simp]:
  "cx_worker_turn cx = Worker_Serves req cx' \<Longrightarrow> cx_next_id cx' = cx_next_id cx"
  "cx_next_id (cx_store_result cx req p) = cx_next_id cx"
  "cx_next_id (cx_enqueue cx req) = cx_next_id cx"
  "cx_next_id (cx_stop_flag cx) = cx_next_id cx"
  "cx_next_id (snd (cx_sync_take cx rid)) = cx_next_id cx"
  by (auto simp: cx_worker_serves cx_store_result_def cx_enqueue_def cx_stop_flag_def cx_sync_take_def
      split: option.split)

lemma cw_ids_turn:
  assumes "cw_ids s" and "length (cw_callers s) + 1 < 2 ^ 64"
  shows "cw_ids (cw_turn a s)"
proof (cases a)
  case (Clip_Worker path)
  then show ?thesis using assms(1)
    by (auto simp: cw_ids_def cw_worker_turn_def notify_results_def comp_def
        split: worker_turn.split cw_worker_pc.split)
next
  case (Clip_Caller k)
  show ?thesis
  proof (cases "k < length (cw_callers s)")
    case k: True
    show ?thesis
    proof (cases "cw_callers s ! k")
      case (C_New a b fmt now)
      have "ids_ok (cx_next_id (cw_cx s) + 1)
          ((map caller_id (cw_callers s))[k := Some (cx_next_id (cw_cx s))])"
        by (rule ids_ok_new) (use assms k C_New in \<open>simp_all add: cw_ids_def\<close>)
      then show ?thesis
        by (simp add: Clip_Caller k cw_caller_turn_def C_New cw_ids_def map_update cx_new_request_def)
    next
      case (C_Take rid)
      obtain path cx where t: "cx_sync_take (cw_cx s) rid = (path, cx)" by fastforce
      then have "cx_next_id cx = cx_next_id (cw_cx s)" using cx_next_id_kept(5) [of "cw_cx s" rid] by simp
      then show ?thesis using assms(1) k Clip_Caller C_Take t
        by (auto simp: cw_caller_turn_def cw_ids_def map_update intro!: ids_ok_same)
    qed (use assms(1) k Clip_Caller in \<open>auto simp: cw_caller_turn_def cw_ids_def map_update intro!: ids_ok_same\<close>)
  qed (use assms(1) Clip_Caller in simp)
next
  case Clip_Stopper
  then show ?thesis using assms(1)
    by (auto simp: cw_ids_def cw_stop_turn_def split: cw_stop_pc.split)
next
  case Wake_Worker
  then show ?thesis using assms(1) by (simp add: cw_ids_def)
next
  case (Wake_Caller k)
  then show ?thesis using assms(1) by (auto simp: cw_ids_def map_update intro!: ids_ok_same)
qed

text \<open>
  A request is due if the worker has it, or has not left and has it in its queue. A caller on its
  way to sleep or asleep is one whose request is due, or there is an answer and the worker is about
  to notify; else the extractor has been stopped.
\<close>

fun in_hand :: "cw_worker_pc \<Rightarrow> u64 option" where
  "in_hand (K_Extract req) = Some (rq_request_id req)"
| "in_hand (K_Store req p) = Some (rq_request_id req)"
| "in_hand (K_Storing req p) = Some (rq_request_id req)"
| "in_hand _ = None"

definition due :: "clip_extractor \<Rightarrow> cw_worker_pc \<Rightarrow> u64 \<Rightarrow> bool" where
  "due cx wk rid \<longleftrightarrow>
     in_hand wk = Some rid \<or> wk \<noteq> K_Exited \<and> rid \<in> rq_request_id ` set (cx_queue cx)"

fun caller_ok :: "clip_extractor \<Rightarrow> cw_worker_pc \<Rightarrow> (u64 \<times> string) list \<Rightarrow> cw_caller_pc \<Rightarrow> bool" where
  "caller_ok cx wk made (C_Notify rid) = (due cx wk rid \<or> cx_sync_ready cx rid)"
| "caller_ok cx wk made (C_Lock rid) = (due cx wk rid \<or> cx_sync_ready cx rid)"
| "caller_ok cx wk made (C_Test rid) = (due cx wk rid \<or> cx_sync_ready cx rid)"
| "caller_ok cx wk made (C_Test_Running rid) = (due cx wk rid \<or> \<not> cx_running cx)"
| "caller_ok cx wk made (C_Asleep rid) =
     (due cx wk rid \<or> wk = K_Notify \<and> cx_results cx rid \<noteq> None)"
| "caller_ok cx wk made (C_Take rid) = cx_sync_ready cx rid"
| "caller_ok cx wk made (C_Done rid path) = ((rid, path) \<in> set made \<or> path = [] \<and> \<not> cx_running cx)"
| "caller_ok cx wk made _ = True"

fun notifies :: "cw_caller_pc \<Rightarrow> bool" where
  "notifies (C_Notify rid) = True"
| "notifies _ = False"

definition cw_flags :: "cw_system \<Rightarrow> bool" where
  "cw_flags s \<longleftrightarrow>
     (cw_worker s = K_Exited \<longrightarrow> \<not> cx_running (cw_cx s)) \<and>
     (cx_running (cw_cx s) \<longleftrightarrow> cw_stop s = X_Idle \<or> cw_stop s = X_Locked) \<and>
     (cw_stop s = X_Done \<longrightarrow> cw_worker s = K_Exited) \<and>
     (\<forall>rid p. cx_results (cw_cx s) rid = Some p \<longrightarrow> (rid, p) \<in> set (cw_made s))"

definition cw_no_lost_wakeup :: "cw_system \<Rightarrow> bool" where
  "cw_no_lost_wakeup s \<longleftrightarrow>
     (cw_worker s = K_Asleep \<longrightarrow>
        cx_worker_turn (cw_cx s) = Worker_Waits \<or> cw_stop s = X_Notify \<or>
        (\<exists>pc \<in> set (cw_callers s). notifies pc)) \<and>
     (\<forall>pc \<in> set (cw_callers s). caller_ok (cw_cx s) (cw_worker s) (cw_made s) pc)"

lemma cx_turn_cases:
  "cx_worker_turn cx = Worker_Waits \<longleftrightarrow> cx_queue cx = [] \<and> cx_running cx"
  "cx_worker_turn cx = Worker_Exits \<longleftrightarrow> cx_queue cx = [] \<and> \<not> cx_running cx"
  by (auto simp: cx_worker_turn_def split: list.split)

lemma cx_sel [simp]:
  "cx_running (cx_store_result cx req p) = cx_running cx"
  "cx_queue (cx_store_result cx req p) = cx_queue cx"
  "cx_results (cx_store_result cx req p) = (cx_results cx)(rq_request_id req \<mapsto> p)"
  "cx_running (cx_enqueue cx req) = cx_running cx"
  "cx_queue (cx_enqueue cx req) = cx_queue cx @ [req]"
  "cx_results (cx_enqueue cx req) = cx_results cx"
  "\<not> cx_running (cx_stop_flag cx)" "cx_queue (cx_stop_flag cx) = cx_queue cx"
  "cx_results (cx_stop_flag cx) = cx_results cx"
  by (simp_all add: cx_store_result_def cx_enqueue_def cx_stop_flag_def)

lemma cx_sync_take_eq:
  "cx_sync_take cx rid = (path, cx') \<longleftrightarrow>
   path = (case cx_results cx rid of None \<Rightarrow> [] | Some p \<Rightarrow> p) \<and>
   cx' = cx\<lparr>cx_results := (cx_results cx)(rid := None)\<rparr>"
proof -
  have "cx = cx\<lparr>cx_results := (cx_results cx)(rid := None)\<rparr>" if "cx_results cx rid = None"
  proof -
    have "(cx_results cx)(rid := None) = cx_results cx" using that by (rule fun_upd_idem)
    then show ?thesis by simp
  qed
  then show ?thesis by (cases "cx_results cx rid") (auto simp: cx_sync_take_def)
qed

lemma cw_flags_turn:
  assumes "cw_flags s"
  shows "cw_flags (cw_turn a s)"
proof (cases a)
  case (Clip_Worker path)
  then show ?thesis using assms
    by (cases "cw_worker s")
      (auto simp: cw_flags_def cw_worker_turn_def notify_results_def cx_worker_serves cx_turn_cases split: worker_turn.split)
next
  case (Clip_Caller k)
  then show ?thesis using assms
    by (cases "cw_callers s ! k")
      (auto simp: cw_flags_def cw_caller_turn_def cx_new_request_def cx_sync_take_eq notify_queue_def
        split: prod.split if_splits)
next
  case Clip_Stopper
  then show ?thesis using assms
    by (cases "cw_stop s") (auto simp: cw_flags_def cw_stop_turn_def notify_queue_def)
next
  case Wake_Worker
  then show ?thesis using assms by (auto simp: cw_flags_def notify_queue_def)
next
  case (Wake_Caller k)
  have "cw_flags (cw_goto k pc s) = cw_flags s" for pc by (simp add: cw_flags_def)
  with Wake_Caller assms show ?thesis by simp
qed

lemma caller_ok_mono:
  assumes "caller_ok cx wk made pc"
    and "\<And>rid. \<lbrakk>caller_id pc = Some rid; due cx wk rid\<rbrakk> \<Longrightarrow> due cx' wk' rid"
    and "\<And>rid. \<lbrakk>caller_id pc = Some rid; cx_results cx rid \<noteq> None\<rbrakk> \<Longrightarrow> cx_results cx' rid \<noteq> None"
    and "cx_running cx' \<Longrightarrow> cx_running cx" and "set made \<subseteq> set made'"
    and "wk = K_Notify \<Longrightarrow> wk' = K_Notify"
  shows "caller_ok cx' wk' made' pc"
  using assms by (cases pc) (auto simp: cx_sync_ready_def)

lemma caller_ok_stored:
  assumes "caller_ok cx (K_Storing req p) made pc" and "\<And>rid. pc \<noteq> C_Test_Running rid"
  shows "caller_ok (cx_store_result cx req p) K_Notify (made @ [(rq_request_id req, p)]) pc"
  using assms by (cases pc) (auto simp: cx_sync_ready_def due_def)

lemma caller_ok_woken:
  "caller_ok cx wk made pc \<Longrightarrow> caller_ok cx wk made (woken pc)"
  by (cases pc) (auto simp: cx_sync_ready_def)

lemma caller_ok_notified:
  "caller_ok cx K_Notify made pc \<Longrightarrow> caller_ok cx K_Lock made (woken pc)"
  by (cases pc) (auto simp: cx_sync_ready_def due_def)

lemma notifies_woken [simp]: "notifies (woken pc) = notifies pc"
  by (cases pc) simp_all

lemma set_update_all:
  assumes "k < length xs" and "P y" and "\<And>i. \<lbrakk>i < length xs; i \<noteq> k\<rbrakk> \<Longrightarrow> P (xs ! i)"
  shows "\<forall>x \<in> set (xs[k := y]). P x"
  using assms by (auto simp: in_set_conv_nth nth_list_update)

lemma set_update_ex:
  "\<lbrakk>k < length xs; P (xs ! k) \<Longrightarrow> P y; \<exists>x \<in> set xs. P x\<rbrakk> \<Longrightarrow> \<exists>x \<in> set (xs[k := y]). P x"
  by (metis in_set_conv_nth length_list_update nth_list_update)

lemma no_test_while_storing:
  assumes "cw_locks s" and "is_storing (cw_worker s)" and "pc \<in> set (cw_callers s)"
  shows "\<not> in_results_section pc"
proof
  assume "in_results_section pc"
  then obtain k where "k < length (cw_callers s)" "in_results_section (cw_callers s ! k)"
    using assms(3) by (auto simp: in_set_conv_nth)
  then have "cw_results_mutex s = Some (T_Caller k)" "cw_results_mutex s = Some T_Worker"
    using assms(1,2) by (auto simp: cw_locks_def dest: held_byD)
  then show False by simp
qed

lemma no_lost_wakeup_worker:
  assumes "cw_locks s" and "cw_flags s" and "cw_no_lost_wakeup s"
  shows "cw_no_lost_wakeup (cw_worker_turn path s)"
proof -
  have callers: "caller_ok (cw_cx s) (cw_worker s) (cw_made s) pc" if "pc \<in> set (cw_callers s)" for pc
    using assms(3) that by (simp add: cw_no_lost_wakeup_def)
  show ?thesis
  proof (cases "cw_worker s")
    case K_Test
    show ?thesis
    proof (cases "cx_worker_turn (cw_cx s)")
      case (Worker_Serves req cx)
      then obtain rest where "cx_queue (cw_cx s) = req # rest" "cx = (cw_cx s)\<lparr>cx_queue := rest\<rparr>"
        by (auto simp: cx_worker_serves)
      then have "caller_ok cx (K_Extract req) (cw_made s) pc" if "pc \<in> set (cw_callers s)" for pc
        by (intro caller_ok_mono [OF callers [OF that]]) (auto simp: K_Test due_def)
      then show ?thesis by (simp add: cw_no_lost_wakeup_def cw_worker_turn_def K_Test Worker_Serves)
    next
      case Worker_Waits
      have "caller_ok (cw_cx s) K_Asleep (cw_made s) pc" if "pc \<in> set (cw_callers s)" for pc
        by (rule caller_ok_mono [OF callers [OF that]]) (auto simp: K_Test due_def)
      with Worker_Waits show ?thesis by (simp add: cw_no_lost_wakeup_def cw_worker_turn_def K_Test)
    next
      case Worker_Exits
      have "caller_ok (cw_cx s) K_Exited (cw_made s) pc" if "pc \<in> set (cw_callers s)" for pc
        by (rule caller_ok_mono [OF callers [OF that]]) (use Worker_Exits in \<open>auto simp: K_Test due_def cx_turn_cases\<close>)
      with Worker_Exits show ?thesis by (simp add: cw_no_lost_wakeup_def cw_worker_turn_def K_Test)
    qed
  next
    case (K_Storing req p)
    then have "pc \<noteq> C_Test_Running rid" if "pc \<in> set (cw_callers s)" for pc rid
      using no_test_while_storing [OF assms(1) _ that] by auto
    then show ?thesis using callers K_Storing
      by (auto simp: cw_no_lost_wakeup_def cw_worker_turn_def intro!: caller_ok_stored)
  next
    case K_Notify
    then show ?thesis using callers
      by (auto simp: cw_no_lost_wakeup_def cw_worker_turn_def notify_results_def intro!: caller_ok_notified)
  next
    case K_Lock
    have "caller_ok (cw_cx s) K_Test (cw_made s) pc" if "pc \<in> set (cw_callers s)" for pc
      by (rule caller_ok_mono [OF callers [OF that]]) (auto simp: K_Lock due_def)
    then show ?thesis using assms(3) by (auto simp: cw_no_lost_wakeup_def cw_worker_turn_def K_Lock)
  next
    case (K_Extract req)
    have "caller_ok (cw_cx s) (K_Store req path) (cw_made s) pc" if "pc \<in> set (cw_callers s)" for pc
      by (rule caller_ok_mono [OF callers [OF that]]) (auto simp: K_Extract due_def)
    then show ?thesis by (auto simp: cw_no_lost_wakeup_def cw_worker_turn_def K_Extract)
  next
    case (K_Store req p)
    have "caller_ok (cw_cx s) (K_Storing req p) (cw_made s) pc" if "pc \<in> set (cw_callers s)" for pc
      by (rule caller_ok_mono [OF callers [OF that]]) (auto simp: K_Store due_def)
    then show ?thesis using assms(3) by (auto simp: cw_no_lost_wakeup_def cw_worker_turn_def K_Store)
  qed (use assms(3) in \<open>simp_all add: cw_worker_turn_def\<close>)
qed

lemma no_lost_wakeup_notify:
  assumes "cw_no_lost_wakeup s"
  shows "cw_no_lost_wakeup (notify_queue s)"
proof -
  have "caller_ok (cw_cx s) (cw_worker (notify_queue s)) (cw_made s) pc"
    if "caller_ok (cw_cx s) (cw_worker s) (cw_made s) pc" for pc
    by (rule caller_ok_mono [OF that]) (auto simp: due_def notify_queue_def split: if_splits)
  then show ?thesis using assms by (auto simp: cw_no_lost_wakeup_def) (auto simp: notify_queue_def split: if_splits)
qed

lemma no_lost_wakeup_stop:
  assumes "cw_no_lost_wakeup s"
  shows "cw_no_lost_wakeup (cw_stop_turn s)"
proof (cases "cw_stop s")
  case X_Locked
  have "caller_ok (cx_stop_flag (cw_cx s)) (cw_worker s) (cw_made s) pc"
    if "caller_ok (cw_cx s) (cw_worker s) (cw_made s) pc" for pc
    by (rule caller_ok_mono [OF that]) (auto simp: due_def)
  then show ?thesis using assms by (auto simp: cw_no_lost_wakeup_def cw_stop_turn_def X_Locked)
next
  case X_Notify
  have "cw_worker (notify_queue s) \<noteq> K_Asleep" by (simp add: notify_queue_def)
  then show ?thesis using no_lost_wakeup_notify [OF assms]
    by (simp add: cw_no_lost_wakeup_def cw_stop_turn_def X_Notify)
qed (use assms in \<open>auto simp: cw_no_lost_wakeup_def cw_stop_turn_def\<close>)

text \<open>A turn of the \<open>k\<close>-th caller: what it needs for itself, and for the others.\<close>

lemma no_lost_wakeup_goto:
  assumes inv: "cw_no_lost_wakeup s" and k: "k < length (cw_callers s)"
    and me: "caller_ok (cw_cx s') (cw_worker s') (cw_made s') pc"
    and others: "\<And>i. \<lbrakk>i < length (cw_callers s); i \<noteq> k;
        caller_ok (cw_cx s) (cw_worker s) (cw_made s) (cw_callers s ! i)\<rbrakk> \<Longrightarrow>
      caller_ok (cw_cx s') (cw_worker s') (cw_made s') (cw_callers s ! i)"
    and same: "cw_callers s' = (cw_callers s)[k := pc]" "cw_stop s' = cw_stop s"
    and sleeps: "cw_worker s' = K_Asleep \<Longrightarrow> notifies pc \<or> \<not> notifies (cw_callers s ! k) \<and>
      cw_worker s = K_Asleep \<and>
      (cx_worker_turn (cw_cx s) = Worker_Waits \<longrightarrow> cx_worker_turn (cw_cx s') = Worker_Waits)"
  shows "cw_no_lost_wakeup s'"
proof -
  have "\<forall>pc \<in> set (cw_callers s'). caller_ok (cw_cx s') (cw_worker s') (cw_made s') pc"
    unfolding same(1)
    by (rule set_update_all [where P = "caller_ok (cw_cx s') (cw_worker s') (cw_made s')", OF k me], rule others)
      (use inv in \<open>auto simp: cw_no_lost_wakeup_def\<close>)
  moreover have "cx_worker_turn (cw_cx s') = Worker_Waits \<or> cw_stop s' = X_Notify \<or>
      (\<exists>pc \<in> set (cw_callers s'). notifies pc)" if asleep: "cw_worker s' = K_Asleep"
  proof (cases "notifies pc")
    case True
    then show ?thesis using k by (auto simp: same(1) set_update_memI)
  next
    case False
    note S = sleeps [OF asleep]
    then have "\<exists>pc' \<in> set (cw_callers s'). notifies pc'" if "\<exists>pc' \<in> set (cw_callers s). notifies pc'"
      unfolding same(1) using False by (intro set_update_ex [OF k _ that]) simp
    with S False inv show ?thesis by (auto simp: cw_no_lost_wakeup_def same(2))
  qed
  ultimately show ?thesis by (simp add: cw_no_lost_wakeup_def)
qed

lemma no_lost_wakeup_caller:
  assumes inv: "cw_no_lost_wakeup s" and flags: "cw_flags s" and ids: "cw_ids s"
    and k: "k < length (cw_callers s)"
  shows "cw_no_lost_wakeup (cw_caller_turn k s)"
proof -
  have mine: "caller_ok (cw_cx s) (cw_worker s) (cw_made s) (cw_callers s ! k)"
    using inv k by (simp add: cw_no_lost_wakeup_def)
  note step = no_lost_wakeup_goto [OF inv k]
  show ?thesis
  proof (cases "cw_callers s ! k")
    case (C_New a b fmt now)
    let ?cx = "(cw_cx s)\<lparr>cx_next_id := cx_next_id (cw_cx s) + 1\<rparr>"
    have "caller_ok ?cx (cw_worker s) (cw_made s) pc = caller_ok (cw_cx s) (cw_worker s) (cw_made s) pc" for pc
      by (cases pc) (simp_all add: cx_sync_ready_def due_def)
    moreover have "cx_worker_turn (cw_cx s) = Worker_Waits \<longrightarrow> cx_worker_turn ?cx = Worker_Waits"
      by (simp add: cx_turn_cases)
    ultimately show ?thesis
      unfolding cw_caller_turn_def C_New cw_caller_pc.case cx_new_request_def Let_def prod.case
      by (intro step) (auto simp: C_New)
  next
    case (C_Push req)
    then show ?thesis unfolding cw_caller_turn_def by (auto intro!: step inv)
  next
    case (C_Pushing req)
    let ?s' = "cw_goto k (C_Notify (rq_request_id req))
      (s\<lparr>cw_cx := cx_enqueue (cw_cx s) req, cw_queue_mutex := None\<rparr>)"
    show ?thesis unfolding cw_caller_turn_def C_Pushing cw_caller_pc.case
    proof (rule step)
      show "caller_ok (cw_cx ?s') (cw_worker ?s') (cw_made ?s') (C_Notify (rq_request_id req))"
        using flags by (auto simp: due_def cx_sync_ready_def cw_flags_def)
    next
      fix i assume "caller_ok (cw_cx s) (cw_worker s) (cw_made s) (cw_callers s ! i)"
      then have "caller_ok (cx_enqueue (cw_cx s) req) (cw_worker s) (cw_made s) (cw_callers s ! i)"
        by (rule caller_ok_mono) (auto simp: due_def)
      then show "caller_ok (cw_cx ?s') (cw_worker ?s') (cw_made ?s') (cw_callers s ! i)" by simp
    qed simp_all
  next
    case (C_Notify rid)
    have "cw_no_lost_wakeup (notify_queue s)" by (rule no_lost_wakeup_notify [OF inv])
    moreover from this have "caller_ok (cw_cx s) (cw_worker (notify_queue s)) (cw_made s) (C_Notify rid)"
      using k C_Notify [symmetric] by (auto simp: cw_no_lost_wakeup_def)
    moreover have "cw_worker (notify_queue s) \<noteq> K_Asleep" by (simp add: notify_queue_def)
    ultimately show ?thesis unfolding cw_caller_turn_def C_Notify cw_caller_pc.case
      using no_lost_wakeup_goto [of "notify_queue s" k "cw_goto k (C_Lock rid) (notify_queue s)" "C_Lock rid"] k
      by simp
  next
    case (C_Lock rid)
    then show ?thesis using mine unfolding cw_caller_turn_def by (auto intro!: step inv)
  next
    case (C_Test rid)
    then show ?thesis using mine unfolding cw_caller_turn_def
      by (auto intro!: step simp: cx_sync_ready_def)
  next
    case (C_Test_Running rid)
    then show ?thesis using mine unfolding cw_caller_turn_def
      by (auto intro!: step simp: cx_sync_ready_def)
  next
    case (C_Take rid)
    obtain path cx where t: "cx_sync_take (cw_cx s) rid = (path, cx)" by fastforce
    then have cx: "cx = (cw_cx s)\<lparr>cx_results := (cx_results (cw_cx s))(rid := None)\<rparr>"
      and path: "path = (case cx_results (cw_cx s) rid of None \<Rightarrow> [] | Some p \<Rightarrow> p)"
      by (simp_all add: cx_sync_take_eq)
    have ne: "caller_id (cw_callers s ! i) \<noteq> Some rid" if "i < length (cw_callers s)" "i \<noteq> k" for i
      using ids that k C_Take unfolding cw_ids_def ids_ok_def
      by (metis caller_id.simps(9) length_map nth_map)
    have "caller_ok cx (cw_worker s) (cw_made s) (C_Done rid path)"
      using mine flags by (auto simp: C_Take cx_sync_ready_def cx path cw_flags_def split: option.split)
    moreover have "caller_ok cx (cw_worker s) (cw_made s) (cw_callers s ! i)"
      if "i < length (cw_callers s)" "i \<noteq> k" "caller_ok (cw_cx s) (cw_worker s) (cw_made s) (cw_callers s ! i)" for i
      by (rule caller_ok_mono [OF that(3)]) (use ne [OF that(1,2)] in \<open>auto simp: cx due_def\<close>)
    moreover have "cx_worker_turn cx = Worker_Waits \<longleftrightarrow> cx_worker_turn (cw_cx s) = Worker_Waits"
      by (simp add: cx cx_turn_cases)
    ultimately show ?thesis unfolding cw_caller_turn_def C_Take cw_caller_pc.case t Let_def prod.case
      by (intro step) (simp_all add: C_Take)
  qed (use inv in \<open>simp_all add: cw_caller_turn_def\<close>)
qed

lemma no_lost_wakeup_wake:
  assumes "cw_no_lost_wakeup s" and "k < length (cw_callers s)"
  shows "cw_no_lost_wakeup (cw_goto k (woken (cw_callers s ! k)) s)"
  by (rule no_lost_wakeup_goto [OF assms])
    (use assms in \<open>auto simp: cw_no_lost_wakeup_def intro: caller_ok_woken\<close>)

definition cw_inv :: "nat \<Rightarrow> cw_system \<Rightarrow> bool" where
  "cw_inv n s \<longleftrightarrow> length (cw_callers s) = n \<and> n + 1 < 2 ^ 64 \<and>
     cw_locks s \<and> cw_ids s \<and> cw_flags s \<and> cw_no_lost_wakeup s"

lemma cw_inv_turn:
  assumes "cw_inv n s"
  shows "cw_inv n (cw_turn a s)"
proof -
  have inv: "cw_locks s" "cw_ids s" "cw_flags s" "cw_no_lost_wakeup s" "length (cw_callers s) + 1 < 2 ^ 64"
    using assms by (simp_all add: cw_inv_def)
  have "cw_no_lost_wakeup (cw_turn a s)"
    using inv by (cases a) (simp_all add: no_lost_wakeup_worker no_lost_wakeup_caller no_lost_wakeup_stop
        no_lost_wakeup_notify no_lost_wakeup_wake)
  moreover have "length (cw_callers s) = n" using assms by (simp add: cw_inv_def)
  ultimately show ?thesis
    using cw_locks_turn [OF inv(1), of a] cw_ids_turn [OF inv(2,5), of a] cw_flags_turn [OF inv(3), of a] inv(5)
    by (simp add: cw_inv_def)
qed

lemma ids_given_none: "\<forall>i \<in> set ids. i = None \<Longrightarrow> ids_given ids = 0"
  by (induction ids) (simp_all add: ids_given_def)

lemma cw_inv_init:
  assumes "length calls + 1 < 2 ^ 64"
  shows "cw_inv (length calls) (cw_init config rate channels bits calls)"
proof -
  let ?s = "cw_init config rate channels bits calls"
  have new: "\<exists>a b fmt now. cw_callers ?s ! k = C_New a b fmt now" if "k < length calls" for k
    using that by (simp add: cw_init_def split: prod.split)
  have pc: "\<exists>a b fmt now. pc = C_New a b fmt now" if "pc \<in> set (cw_callers ?s)" for pc
    using that by (auto simp: cw_init_def)
  have len: "length (cw_callers ?s) = length calls" by (simp add: cw_init_def)
  have none: "caller_id (cw_callers ?s ! k) = None" "\<not> in_queue_section (cw_callers ?s ! k)"
    "\<not> in_results_section (cw_callers ?s ! k)" if "k < length calls" for k
    using new [OF that] by auto
  have "cw_locks ?s"
    using none(2,3) by (auto simp: cw_locks_def held_by_def len) (simp_all add: cw_init_def)
  moreover have "ids_given (map caller_id (cw_callers ?s)) = 0"
    by (rule ids_given_none) (use pc in force)
  then have "cw_ids ?s"
    using none(1) by (auto simp: cw_ids_def ids_ok_def len) (simp add: cw_init_def cx_start_def cx_new_def)
  moreover have "cw_flags ?s" by (simp add: cw_flags_def cw_init_def cx_start_def cx_new_def)
  moreover have "cw_no_lost_wakeup ?s"
    using pc by (fastforce simp: cw_no_lost_wakeup_def cw_init_def)
  ultimately show ?thesis using assms by (simp add: cw_inv_def len)
qed

section \<open>No deadlock\<close>

definition worker_can :: "cw_system \<Rightarrow> bool" where
  "worker_can s \<longleftrightarrow>
     (case cw_worker s of
        K_Lock \<Rightarrow> cw_queue_mutex s = None
      | K_Store req p \<Rightarrow> cw_results_mutex s = None
      | K_Asleep \<Rightarrow> False | K_Exited \<Rightarrow> False | _ \<Rightarrow> True)"

definition caller_can :: "cw_system \<Rightarrow> nat \<Rightarrow> bool" where
  "caller_can s k \<longleftrightarrow>
     (case cw_callers s ! k of
        C_Push req \<Rightarrow> cw_queue_mutex s = None
      | C_Lock rid \<Rightarrow> cw_results_mutex s = None
      | C_Asleep rid \<Rightarrow> False | C_Done rid path \<Rightarrow> False | _ \<Rightarrow> True)"

definition stop_can :: "cw_system \<Rightarrow> bool" where
  "stop_can s \<longleftrightarrow>
     (case cw_stop s of
        X_Idle \<Rightarrow> cw_queue_mutex s = None
      | X_Join \<Rightarrow> cw_worker s = K_Exited
      | X_Done \<Rightarrow> False | _ \<Rightarrow> True)"

fun is_done :: "cw_caller_pc \<Rightarrow> bool" where
  "is_done (C_Done rid path) = True"
| "is_done _ = False"

lemma worker_can_moves: "worker_can s \<Longrightarrow> cw_worker_turn path s \<noteq> s"
proof
  assume can: "worker_can s" and "cw_worker_turn path s = s"
  then have "cw_worker (cw_worker_turn path s) = cw_worker s" by simp
  then show False using can
    by (cases "cw_worker s") (auto simp: worker_can_def cw_worker_turn_def split: worker_turn.splits)
qed

lemma caller_can_moves:
  assumes "caller_can s k" and "k < length (cw_callers s)"
  shows "cw_caller_turn k s \<noteq> s"
proof
  assume "cw_caller_turn k s = s"
  then have "cw_callers (cw_caller_turn k s) ! k = cw_callers s ! k" by simp
  then show False using assms
    by (cases "cw_callers s ! k") (auto simp: caller_can_def cw_caller_turn_def split: prod.splits if_splits)
qed

lemma stop_can_moves: "stop_can s \<Longrightarrow> cw_stop_turn s \<noteq> s"
proof
  assume can: "stop_can s" and "cw_stop_turn s = s"
  then have "cw_stop (cw_stop_turn s) = cw_stop s" by simp
  then show False using can by (cases "cw_stop s") (auto simp: stop_can_def cw_stop_turn_def)
qed

lemma held_by_cases:
  assumes "held_by m w x cs"
  obtains "m = None" | "w" | "x" | k where "k < length cs" and "cs ! k"
proof (cases m)
  case (Some t)
  with assms that show thesis by (cases t) (auto simp: held_by_def)
qed (use that in simp)

lemma cw_no_deadlock:
  assumes inv: "cw_inv n s" and worker: "\<not> worker_can s" and callers: "\<And>k. k < n \<Longrightarrow> \<not> caller_can s k"
    and stop: "\<not> stop_can s \<or> cw_stop s = X_Idle"
  shows "\<forall>pc \<in> set (cw_callers s). is_done pc" and "\<not> stop_can s \<Longrightarrow> cw_stop s = X_Done"
proof -
  have I: "length (cw_callers s) = n" "cw_locks s" "cw_flags s" "cw_no_lost_wakeup s"
    using inv by (simp_all add: cw_inv_def)
  have Q: "held_by (cw_queue_mutex s) (cw_worker s = K_Test) (cw_stop s = X_Locked)
       (map in_queue_section (cw_callers s))"
    and R: "held_by (cw_results_mutex s) (is_storing (cw_worker s)) False
       (map in_results_section (cw_callers s))"
    using I(2) by (simp_all add: cw_locks_def)
  have q: "cw_queue_mutex s = None"
    using Q
  proof (cases rule: held_by_cases)
    case (4 k)
    then show ?thesis using callers [of k] I(1) by (cases "cw_callers s ! k") (auto simp: caller_can_def)
  qed (use worker stop in \<open>auto simp: worker_can_def stop_can_def\<close>)
  have r: "cw_results_mutex s = None"
    using R
  proof (cases rule: held_by_cases)
    case 2
    then show ?thesis using worker by (cases "cw_worker s") (auto simp: worker_can_def)
  next
    case (4 k)
    then show ?thesis using callers [of k] I(1) by (cases "cw_callers s ! k") (auto simp: caller_can_def)
  qed simp_all
  have w: "cw_worker s = K_Asleep \<or> cw_worker s = K_Exited"
    using worker by (cases "cw_worker s") (auto simp: worker_can_def q r)
  have c: "(\<exists>rid. pc = C_Asleep rid) \<or> is_done pc" if pc: "pc \<in> set (cw_callers s)" for pc
  proof -
    obtain k where "k < n" "pc = cw_callers s ! k" using pc I(1) by (auto simp: in_set_conv_nth)
    then show ?thesis using callers [of k] by (cases "cw_callers s ! k") (auto simp: caller_can_def q r)
  qed
  then have "\<not> notifies pc" if "pc \<in> set (cw_callers s)" for pc using that by (cases pc) force+
  moreover have "cw_stop s \<noteq> X_Notify" using stop by (auto simp: stop_can_def)
  ultimately have asleep: "cx_queue (cw_cx s) = [] \<and> cx_running (cw_cx s)" if "cw_worker s = K_Asleep"
    using I(4) that by (auto simp: cw_no_lost_wakeup_def cx_turn_cases)
  have "pc \<noteq> C_Asleep rid" if pc: "pc \<in> set (cw_callers s)" for pc rid
  proof
    assume "pc = C_Asleep rid"
    then have "caller_ok (cw_cx s) (cw_worker s) (cw_made s) (C_Asleep rid)"
      using I(4) pc by (auto simp: cw_no_lost_wakeup_def)
    then show False using w asleep by (auto simp: due_def)
  qed
  with c show "\<forall>pc \<in> set (cw_callers s). is_done pc" by blast
  assume "\<not> stop_can s"
  then show "cw_stop s = X_Done"
    using q w asleep I(3) by (cases "cw_stop s") (auto simp: stop_can_def cw_flags_def)
qed

section \<open>Every turn is progress\<close>

text \<open>
  How many turns are left, for \<open>n\<close> callers: a result wakes at most all callers, who each need three
  turns to go back to sleep, and a request or a stop wakes the worker.
\<close>

fun caller_work :: "nat \<Rightarrow> cw_caller_pc \<Rightarrow> nat" where
  "caller_work n (C_New a b fmt now) = 3 * n + 17"
| "caller_work n (C_Push req) = 3 * n + 16"
| "caller_work n (C_Pushing req) = 3 * n + 15"
| "caller_work n (C_Notify rid) = 8"
| "caller_work n (C_Lock rid) = 5"
| "caller_work n (C_Test rid) = 4"
| "caller_work n (C_Test_Running rid) = 3"
| "caller_work n (C_Asleep rid) = 2"
| "caller_work n (C_Take rid) = 1"
| "caller_work n (C_Done rid path) = 0"

fun worker_work :: "nat \<Rightarrow> cw_worker_pc \<Rightarrow> nat" where
  "worker_work n K_Lock = 2"
| "worker_work n K_Test = 1"
| "worker_work n K_Asleep = 0"
| "worker_work n (K_Extract req) = 3 * n + 6"
| "worker_work n (K_Store req p) = 3 * n + 5"
| "worker_work n (K_Storing req p) = 3 * n + 4"
| "worker_work n K_Notify = 3 * n + 3"
| "worker_work n K_Exited = 0"

fun stopper_work :: "cw_stop_pc \<Rightarrow> nat" where
  "stopper_work X_Idle = 6"
| "stopper_work X_Locked = 5"
| "stopper_work X_Notify = 4"
| "stopper_work X_Join = 1"
| "stopper_work X_Done = 0"

definition cw_work :: "nat \<Rightarrow> cw_system \<Rightarrow> nat" where
  "cw_work n s = sum_list (map (caller_work n) (cw_callers s)) + worker_work n (cw_worker s) +
     (3 * n + 6) * length (cx_queue (cw_cx s)) + stopper_work (cw_stop s)"

lemma callers_work_goto:
  assumes "k < length pcs"
  shows "sum_list (map (caller_work n) (pcs[k := pc])) + caller_work n (pcs ! k) =
    sum_list (map (caller_work n) pcs) + caller_work n pc"
  using assms
proof (induction pcs arbitrary: k)
  case (Cons x pcs)
  then show ?case by (cases k) (simp_all add: add.assoc add.commute add.left_commute)
qed simp

lemma woken_work: "sum_list (map (caller_work n) (map woken pcs)) \<le> sum_list (map (caller_work n) pcs) + 3 * length pcs"
proof (induction pcs)
  case (Cons pc pcs)
  have "caller_work n (woken pc) \<le> caller_work n pc + 3" by (cases pc) simp_all
  with Cons show ?case by simp
qed simp

lemma notify_queue_work: "worker_work n (cw_worker (notify_queue s)) \<le> worker_work n (cw_worker s) + 2"
  by (simp add: notify_queue_def)

lemma worker_turn_work:
  assumes "length (cw_callers s) = n" and "cw_worker_turn path s \<noteq> s"
  shows "cw_work n (cw_worker_turn path s) < cw_work n s"
proof (cases "cw_worker s")
  case K_Test
  then show ?thesis
    by (auto simp: cw_worker_turn_def cw_work_def cx_worker_serves split: worker_turn.split)
next
  case K_Notify
  then show ?thesis using woken_work [of n "cw_callers s"] assms(1)
    by (simp add: cw_worker_turn_def cw_work_def notify_results_def)
qed (use assms(2) in \<open>auto simp: cw_worker_turn_def cw_work_def split: if_splits\<close>)

lemma caller_turn_work:
  assumes "k < length (cw_callers s)" and "cw_caller_turn k s \<noteq> s"
  shows "cw_work n (cw_caller_turn k s) < cw_work n s"
proof (cases "cw_callers s ! k")
  case (C_Take rid)
  obtain path cx where t: "cx_sync_take (cw_cx s) rid = (path, cx)" by fastforce
  with C_Take show ?thesis using callers_work_goto [OF assms(1), of n "C_Done rid path"]
    by (simp add: cw_caller_turn_def cw_work_def) (simp add: cx_sync_take_eq)
next
  case (C_Notify rid)
  then show ?thesis using callers_work_goto [OF assms(1), of n "C_Lock rid"] notify_queue_work [of n s]
    by (simp add: cw_caller_turn_def cw_work_def)
next
  case (C_New a b fmt now)
  then show ?thesis
    using callers_work_goto [OF assms(1), of n "C_Push (fst (cx_new_request now (cw_cx s) a b fmt))"]
    by (simp add: cw_caller_turn_def cw_work_def cx_new_request_def)
next
  case (C_Push req)
  then show ?thesis using callers_work_goto [OF assms(1), of n "C_Pushing req"] assms(2)
    by (simp add: cw_caller_turn_def cw_work_def split: if_splits)
next
  case (C_Pushing req)
  then show ?thesis using callers_work_goto [OF assms(1), of n "C_Notify (rq_request_id req)"]
    by (simp add: cw_caller_turn_def cw_work_def)
next
  case (C_Lock rid)
  then show ?thesis using callers_work_goto [OF assms(1), of n "C_Test rid"] assms(2)
    by (simp add: cw_caller_turn_def cw_work_def split: if_splits)
next
  case (C_Test rid)
  then show ?thesis using callers_work_goto [OF assms(1), of n "C_Take rid"]
      callers_work_goto [OF assms(1), of n "C_Test_Running rid"]
    by (simp add: cw_caller_turn_def cw_work_def)
next
  case (C_Test_Running rid)
  then show ?thesis using callers_work_goto [OF assms(1), of n "C_Take rid"]
      callers_work_goto [OF assms(1), of n "C_Asleep rid"]
    by (simp add: cw_caller_turn_def cw_work_def)
qed (use assms(2) in \<open>simp_all add: cw_caller_turn_def\<close>)

lemma stop_turn_work:
  assumes "cw_stop_turn s \<noteq> s"
  shows "cw_work n (cw_stop_turn s) < cw_work n s"
  using assms notify_queue_work [of n s]
  by (cases "cw_stop s") (auto simp: cw_stop_turn_def cw_work_def split: if_splits)

text \<open>A spurious wakeup costs its thread at most three turns.\<close>

fun wake_cost :: "cw_actor \<Rightarrow> nat" where
  "wake_cost Wake_Worker = 4"
| "wake_cost (Wake_Caller k) = 4"
| "wake_cost _ = 0"

lemma cw_turn_work:
  assumes "cw_inv n s" and "cw_turn a s \<noteq> s"
  shows "cw_work n (cw_turn a s) < cw_work n s + wake_cost a"
proof (cases a)
  case (Clip_Worker path)
  then show ?thesis using assms worker_turn_work [of s n path] by (simp add: cw_inv_def)
next
  case (Clip_Caller k)
  then show ?thesis using assms caller_turn_work [of k s n] by (auto split: if_splits)
next
  case Clip_Stopper
  then show ?thesis using assms stop_turn_work [of s n] by simp
next
  case Wake_Worker
  then show ?thesis using notify_queue_work [of n s] by (simp add: cw_work_def)
next
  case (Wake_Caller k)
  have "caller_work n (woken pc) \<le> caller_work n pc + 3" for pc by (cases pc) simp_all
  from this [of "cw_callers s ! k"] Wake_Caller show ?thesis
    using callers_work_goto [of k "cw_callers s" n "woken (cw_callers s ! k)"]
    by (auto simp: cw_work_def)
qed

section \<open>Every call returns\<close>

fun actor_thread :: "cw_actor \<Rightarrow> cw_thread option" where
  "actor_thread (Clip_Worker path) = Some T_Worker"
| "actor_thread (Clip_Caller k) = Some (T_Caller k)"
| "actor_thread Clip_Stopper = Some T_Stopper"
| "actor_thread _ = None"

definition call_threads :: "nat \<Rightarrow> cw_thread set" where
  "call_threads n = insert T_Worker (T_Caller ` {0..<n})"

definition calls_done :: "cw_system \<Rightarrow> bool" where
  "calls_done s \<longleftrightarrow> (\<forall>pc \<in> set (cw_callers s). is_done pc)"

lemma set_goto_done: "\<lbrakk>\<forall>pc \<in> set xs. is_done pc; is_done pc'\<rbrakk> \<Longrightarrow> \<forall>pc \<in> set (xs[k := pc']). is_done pc"
  using set_update_subset_insert [of xs k pc'] by blast

lemma calls_done_turn:
  assumes "calls_done s"
  shows "calls_done (cw_turn a s)"
proof -
  have woken: "is_done (woken pc) = is_done pc" for pc by (cases pc) simp_all
  show ?thesis
  proof (cases a)
    case (Clip_Worker path)
    then show ?thesis using assms
      by (auto simp: calls_done_def cw_worker_turn_def notify_results_def woken
          split: cw_worker_pc.split worker_turn.split)
  next
    case (Clip_Caller k)
    show ?thesis
    proof (cases "k < length (cw_callers s)")
      case True
      then have "is_done (cw_callers s ! k)" using assms by (simp add: calls_done_def)
      then show ?thesis using assms Clip_Caller
        by (cases "cw_callers s ! k") (simp_all add: cw_caller_turn_def)
    qed (use assms Clip_Caller in simp)
  next
    case Clip_Stopper
    then show ?thesis using assms by (auto simp: calls_done_def cw_stop_turn_def split: cw_stop_pc.split)
  next
    case Wake_Worker
    then show ?thesis using assms by (simp add: calls_done_def)
  next
    case (Wake_Caller k)
    have "\<forall>pc \<in> set ((cw_callers s)[k := woken (cw_callers s ! k)]). is_done pc" if "k < length (cw_callers s)"
      by (rule set_goto_done) (use assms that in \<open>simp_all add: calls_done_def woken\<close>)
    then show ?thesis using assms Wake_Caller by (simp add: calls_done_def)
  qed
qed

lemma thread_moves:
  assumes inv: "cw_inv n s" and t: "\<not> calls_done s \<or> cw_stop s \<noteq> X_Done \<and> stops"
    and stop: "stops \<or> cw_stop s = X_Idle"
  shows "\<exists>t \<in> call_threads n \<union> (if stops then {T_Stopper} else {}).
    \<forall>a. actor_thread a = Some t \<longrightarrow> cw_turn a s \<noteq> s"
proof -
  have len: "length (cw_callers s) = n" using inv by (simp add: cw_inv_def)
  have worker: "\<forall>a. actor_thread a = Some T_Worker \<longrightarrow> cw_turn a s \<noteq> s" if "worker_can s"
  proof (intro allI impI)
    fix a assume "actor_thread a = Some T_Worker"
    then obtain path where "a = Clip_Worker path" by (cases a) auto
    then show "cw_turn a s \<noteq> s" using worker_can_moves [OF that] by simp
  qed
  have caller: "\<forall>a. actor_thread a = Some (T_Caller k) \<longrightarrow> cw_turn a s \<noteq> s" if k: "k < n" "caller_can s k" for k
  proof (intro allI impI)
    fix a assume "actor_thread a = Some (T_Caller k)"
    then have "a = Clip_Caller k" by (cases a) auto
    then show "cw_turn a s \<noteq> s" using caller_can_moves [OF k(2)] k(1) len by simp
  qed
  have stopper: "\<forall>a. actor_thread a = Some T_Stopper \<longrightarrow> cw_turn a s \<noteq> s" if "stop_can s"
  proof (intro allI impI)
    fix a assume "actor_thread a = Some T_Stopper"
    then have "a = Clip_Stopper" by (cases a) auto
    then show "cw_turn a s \<noteq> s" using stop_can_moves [OF that] by simp
  qed
  show ?thesis
  proof (cases "worker_can s \<or> (\<exists>k < n. caller_can s k)")
    case True
    then consider "worker_can s" | k where "k < n" "caller_can s k" by blast
    then show ?thesis
    proof cases
      case 1
      then show ?thesis using worker by (intro bexI [of _ T_Worker]) (simp_all add: call_threads_def)
    next
      case (2 k)
      then show ?thesis using caller by (intro bexI [of _ "T_Caller k"]) (simp_all add: call_threads_def)
    qed
  next
    case False
    then have idle: "\<not> worker_can s" "\<And>k. k < n \<Longrightarrow> \<not> caller_can s k" by auto
    have "stops \<and> stop_can s"
    proof (rule ccontr)
      assume no: "\<not> (stops \<and> stop_can s)"
      then have s: "\<not> stop_can s \<or> cw_stop s = X_Idle" using stop by auto
      have "calls_done s" using cw_no_deadlock(1) [OF inv idle s] by (simp add: calls_done_def)
      with t have "stops" "cw_stop s \<noteq> X_Done" by auto
      with cw_no_deadlock(2) [OF inv idle s] no show False by simp
    qed
    then show ?thesis using stopper by auto
  qed
qed

lemma stop_idle_kept: "\<lbrakk>cw_stop s = X_Idle; a \<noteq> Clip_Stopper\<rbrakk> \<Longrightarrow> cw_stop (cw_turn a s) = X_Idle"
  by (cases a) (auto simp: cw_worker_turn_def cw_caller_turn_def Let_def notify_results_def
      split: cw_worker_pc.split cw_caller_pc.split worker_turn.split prod.split)

lemma stop_done_kept: "cw_stop s = X_Done \<Longrightarrow> cw_stop (cw_turn a s) = X_Done"
  by (cases a) (auto simp: cw_worker_turn_def cw_caller_turn_def cw_stop_turn_def Let_def notify_results_def
      split: cw_worker_pc.split cw_caller_pc.split worker_turn.split prod.split)

text \<open>The extractor as it runs, and the extractor when it is stopped.\<close>

interpretation running: fair_threads cw_turn actor_thread "call_threads n" "\<lambda>a. a \<noteq> Clip_Stopper"
  "\<lambda>s. cw_inv n s \<and> cw_stop s = X_Idle" calls_done "cw_work n" wake_cost for n
proof
  fix s assume "cw_inv n s \<and> cw_stop s = X_Idle" "\<not> calls_done s"
  then show "\<exists>t \<in> call_threads n. \<forall>a. a \<noteq> Clip_Stopper \<and> actor_thread a = Some t \<longrightarrow> cw_turn a s \<noteq> s"
    using thread_moves [of n s False] by auto
qed (auto intro: cw_inv_turn cw_turn_work stop_idle_kept calls_done_turn)

interpretation stopped: fair_threads cw_turn actor_thread "insert T_Stopper (call_threads n)" "\<lambda>a. True"
  "cw_inv n" "\<lambda>s. calls_done s \<and> cw_stop s = X_Done" "cw_work n" wake_cost for n
proof
  fix s assume "cw_inv n s" "\<not> (calls_done s \<and> cw_stop s = X_Done)"
  then show "\<exists>t \<in> insert T_Stopper (call_threads n). \<forall>a. True \<and> actor_thread a = Some t \<longrightarrow> cw_turn a s \<noteq> s"
    using thread_moves [of n s True] by auto
qed (auto intro: cw_inv_turn cw_turn_work stop_done_kept calls_done_turn)

lemma sum_wake_cost: "sum_list (map wake_cost as) = 4 * length (filter (\<lambda>a. 0 < wake_cost a) as)"
proof (induction as)
  case (Cons a as)
  have "wake_cost a = (if 0 < wake_cost a then 4 else 0)" by (cases a) simp_all
  with Cons show ?case by (simp split: if_splits)
qed simp

lemma cw_work_init:
  "cw_work (length calls) (cw_init config rate channels bits calls) = length calls * (3 * length calls + 17) + 8"
proof -
  have "sum_list (map (caller_work n) (map (\<lambda>(a, b, fmt, now). C_New a b fmt now) xs)) =
      length xs * (3 * n + 17)" for n and xs :: "clip_call list"
    by (induction xs) (auto simp: algebra_simps)
  then show ?thesis by (simp add: cw_work_def cw_init_def cx_start_def cx_new_def)
qed

lemma covers_calls:
  assumes "\<exists>path. Clip_Worker path \<in> set as" and "\<forall>k < n. Clip_Caller k \<in> set as"
  shows "\<forall>t \<in> call_threads n. \<exists>a \<in> set as. actor_thread a = Some t"
proof
  fix t assume "t \<in> call_threads n"
  then consider "t = T_Worker" | k where "k < n" "t = T_Caller k" by (auto simp: call_threads_def)
  then show "\<exists>a \<in> set as. actor_thread a = Some t"
    using assms by cases (auto intro: bexI [of _ "Clip_Worker _"] bexI [of _ "Clip_Caller _"])
qed

lemma calls_done_ids:
  assumes inv: "cw_inv n s" and d: "calls_done s"
  shows "\<exists>answers. cw_callers s = map (\<lambda>(rid, path). C_Done rid path) answers \<and> distinct (map fst answers) \<and>
    length answers = n \<and>
    (\<forall>(rid, path) \<in> set answers. (rid, path) \<in> set (cw_made s) \<or> path = [] \<and> \<not> cx_running (cw_cx s))"
proof -
  define answer where "answer pc = (case pc of C_Done rid path \<Rightarrow> (rid, path) | _ \<Rightarrow> undefined)" for pc
  let ?as = "map answer (cw_callers s)"
  have len: "length (cw_callers s) = n" using inv by (simp add: cw_inv_def)
  have pc: "pc = (\<lambda>(rid, path). C_Done rid path) (answer pc)" "caller_id pc = Some (fst (answer pc))"
    "caller_ok (cw_cx s) (cw_worker s) (cw_made s) pc" if "pc \<in> set (cw_callers s)" for pc
  proof -
    have "is_done pc" using d that by (simp add: calls_done_def)
    then show "pc = (\<lambda>(rid, path). C_Done rid path) (answer pc)" "caller_id pc = Some (fst (answer pc))"
      by (cases pc; simp add: answer_def)+
    show "caller_ok (cw_cx s) (cw_worker s) (cw_made s) pc"
      using inv that by (simp add: cw_inv_def cw_no_lost_wakeup_def)
  qed
  have eq: "cw_callers s = map (\<lambda>(rid, path). C_Done rid path) ?as"
    unfolding map_map by (rule map_idI [symmetric]) (simp add: pc(1) [symmetric])
  have "map caller_id (cw_callers s) = map (Some \<circ> fst) ?as" using pc(2) by simp
  moreover have "ids_ok (cx_next_id (cw_cx s)) (map caller_id (cw_callers s))"
    using inv by (simp add: cw_inv_def cw_ids_def)
  ultimately have "\<And>i j. \<lbrakk>i < n; j < n; fst (?as ! i) = fst (?as ! j)\<rbrakk> \<Longrightarrow> i = j"
    unfolding ids_ok_def by (simp add: len)
  then have "distinct (map fst ?as)" by (auto simp: distinct_conv_nth len)
  moreover have answers: "(rid, path) \<in> set (cw_made s) \<or> path = [] \<and> \<not> cx_running (cw_cx s)"
    if a: "(rid, path) \<in> set ?as" for rid path
  proof -
    obtain c where "c \<in> set (cw_callers s)" "answer c = (rid, path)" using a by auto
    then show ?thesis using pc(1,3) [of c] by auto
  qed
  then have "\<forall>(rid, path) \<in> set ?as. (rid, path) \<in> set (cw_made s) \<or> path = [] \<and> \<not> cx_running (cw_cx s)"
    by blast
  moreover have "length ?as = n" by (simp add: len)
  ultimately show ?thesis using eq by blast
qed

text \<open>
  C18: every call of \<open>request_clip_sync\<close> returns. While the extractor runs, with \<open>n\<close> concurrent
  callers and any number of spurious wakeups, no wakeup is lost and no deadlock occurs: any schedule of more than
  \<open>n * (3 * n + 17) + 8\<close> rounds (and four more per spurious wakeup), each with a turn of the worker
  and of every caller in any order, ends with every caller having the path that was made for its own
  request, and the requests of no two callers share an id.
\<close>

theorem clip_calls_return:
  assumes "length calls + 1 < 2 ^ 64"
    and "\<forall>as \<in> set rounds. Clip_Stopper \<notin> set as \<and> (\<exists>path. Clip_Worker path \<in> set as) \<and>
      (\<forall>k < length calls. Clip_Caller k \<in> set as)"
    and "length calls * (3 * length calls + 17) + 8 +
      4 * length (filter (\<lambda>a. 0 < wake_cost a) (concat rounds)) < length rounds"
  shows "\<exists>answers. cw_callers (fold cw_turn (concat rounds) (cw_init config rate channels bits calls)) =
      map (\<lambda>(rid, path). C_Done rid path) answers \<and>
    length answers = length calls \<and> distinct (map fst answers) \<and>
    set answers \<subseteq> set (cw_made (fold cw_turn (concat rounds) (cw_init config rate channels bits calls)))"
proof -
  let ?n = "length calls" and ?s = "cw_init config rate channels bits calls"
  let ?t = "fold cw_turn (concat rounds) ?s"
  have start: "cw_inv ?n ?s \<and> cw_stop ?s = X_Idle" using cw_inv_init [OF assms(1)] by (simp add: cw_init_def)
  have rounds: "(\<forall>a \<in> set as. a \<noteq> Clip_Stopper) \<and> (\<forall>t \<in> call_threads ?n. \<exists>a \<in> set as. actor_thread a = Some t)"
    if "as \<in> set rounds" for as using that assms(2) covers_calls [of as ?n] by auto
  then have ended: "calls_done ?t"
    by (intro running.rounds_end [OF start]) (use assms(3) in \<open>simp_all add: cw_work_init sum_wake_cost\<close>)
  have "cw_inv ?n ?t \<and> cw_stop ?t = X_Idle" by (rule running.run_keeps [OF start]) (use rounds in auto)
  then have "cw_inv ?n ?t" "cx_running (cw_cx ?t)" by (auto simp: cw_inv_def cw_flags_def)
  with calls_done_ids [OF this(1) ended] show ?thesis by auto
qed

theorem clip_calls_return_witness:
  "\<exists>answers. cw_callers (fold cw_turn (concat (replicate 67 [Clip_Caller 1, Clip_Worker ''/a.wav'', Clip_Caller 0]))
      (cw_init (cx_config clip_demo) 48000 1 16 [(0, 1, [], 0), (0, 2, [], 0)])) =
      map (\<lambda>(rid, path). C_Done rid path) answers \<and>
    length answers = 2 \<and> distinct (map fst answers)"
proof -
  have none: "filter (\<lambda>a. 0 < wake_cost a)
      (concat (replicate k [Clip_Caller 1, Clip_Worker ''/a.wav'', Clip_Caller 0])) = []" for k
    by (induction k) simp_all
  have rounds: "\<forall>as \<in> set (replicate 67 [Clip_Caller 1, Clip_Worker ''/a.wav'', Clip_Caller 0]).
      Clip_Stopper \<notin> set as \<and> (\<exists>path. Clip_Worker path \<in> set as) \<and>
      (\<forall>k < length [(0 :: i32, 1 :: i32, [] :: string, 0 :: u64), (0, 2, [], 0)]. Clip_Caller k \<in> set as)"
    by (auto simp: in_set_replicate less_Suc_eq)
  have "length [(0 :: i32, 1 :: i32, [] :: string, 0 :: u64), (0, 2, [], 0)] + 1 < 2 ^ 64"
    "length [(0 :: i32, 1 :: i32, [] :: string, 0 :: u64), (0, 2, [], 0)] *
      (3 * length [(0 :: i32, 1 :: i32, [] :: string, 0 :: u64), (0, 2, [], 0)] + 17) + 8 +
      4 * length (filter (\<lambda>a. 0 < wake_cost a)
        (concat (replicate 67 [Clip_Caller 1, Clip_Worker ''/a.wav'', Clip_Caller 0]))) <
      length (replicate 67 [Clip_Caller 1, Clip_Worker ''/a.wav'', Clip_Caller 0])"
    unfolding none length_replicate by simp_all
  from clip_calls_return [OF this(1) rounds this(2), of "cx_config clip_demo" 48000 1 16] obtain answers where
    "cw_callers (fold cw_turn (concat (replicate 67 [Clip_Caller 1, Clip_Worker ''/a.wav'', Clip_Caller 0]))
      (cw_init (cx_config clip_demo) 48000 1 16 [(0, 1, [], 0), (0, 2, [], 0)])) =
      map (\<lambda>(rid, path). C_Done rid path) answers"
    "length answers = length [(0 :: i32, 1 :: i32, [] :: string, 0 :: u64), (0, 2, [], 0)]"
    "distinct (map fst answers)" by blast
  moreover from this(2) have "length answers = 2" by simp
  ultimately show ?thesis by blast
qed

text \<open>
  C19: \<open>stop()\<close> of the extractor returns, whenever it is called. However its turns fall between
  those of the worker and the callers, after as many rounds of all threads the worker has left its
  loop, \<open>stop()\<close> has returned, and every caller has the path made for its request or, if the
  extractor was stopped before it was served, the empty string.
\<close>

theorem clip_stop_returns:
  assumes "length calls + 1 < 2 ^ 64"
    and "\<forall>as \<in> set rounds. Clip_Stopper \<in> set as \<and> (\<exists>path. Clip_Worker path \<in> set as) \<and>
      (\<forall>k < length calls. Clip_Caller k \<in> set as)"
    and "length calls * (3 * length calls + 17) + 8 +
      4 * length (filter (\<lambda>a. 0 < wake_cost a) (before @ concat rounds)) < length rounds"
  shows "\<exists>t answers. t = fold cw_turn (before @ concat rounds) (cw_init config rate channels bits calls) \<and>
    cw_stop t = X_Done \<and> cw_worker t = K_Exited \<and>
    cw_callers t = map (\<lambda>(rid, path). C_Done rid path) answers \<and>
    length answers = length calls \<and> distinct (map fst answers) \<and>
    (\<forall>(rid, path) \<in> set answers. (rid, path) \<in> set (cw_made t) \<or> path = [])"
proof -
  let ?n = "length calls" and ?s = "cw_init config rate channels bits calls"
  let ?u = "fold cw_turn before ?s"
  let ?t = "fold cw_turn (concat rounds) ?u"
  have start: "cw_inv ?n ?s" by (rule cw_inv_init [OF assms(1)])
  have u: "cw_inv ?n ?u" by (rule stopped.run_keeps [OF start]) simp
  have "cw_work ?n ?u \<le> cw_work ?n ?s + sum_list (map wake_cost before)"
    by (rule stopped.run_work [OF start]) simp
  then have work: "cw_work ?n ?u + sum_list (map wake_cost (concat rounds)) < length rounds"
    using assms(3) unfolding sum_wake_cost cw_work_init by simp
  have "\<forall>as \<in> set rounds. (\<forall>a \<in> set as. True) \<and>
      (\<forall>t \<in> insert T_Stopper (call_threads ?n). \<exists>a \<in> set as. actor_thread a = Some t)"
  proof
    fix as assume "as \<in> set rounds"
    with assms(2) have "Clip_Stopper \<in> set as" "\<exists>path. Clip_Worker path \<in> set as"
      "\<forall>k < ?n. Clip_Caller k \<in> set as" by auto
    with covers_calls [OF this(2,3)] show "(\<forall>a \<in> set as. True) \<and>
        (\<forall>t \<in> insert T_Stopper (call_threads ?n). \<exists>a \<in> set as. actor_thread a = Some t)"
      by (auto intro: bexI [of _ Clip_Stopper])
  qed
  from stopped.rounds_end [OF u this work] have t: "calls_done ?t" "cw_stop ?t = X_Done" by simp_all
  have inv: "cw_inv ?n ?t" by (rule stopped.run_keeps [OF u]) simp
  then have "cw_worker ?t = K_Exited" using t(2) by (simp add: cw_inv_def cw_flags_def)
  with calls_done_ids [OF inv t(1)] t(2) show ?thesis by fastforce
qed

theorem clip_stop_returns_witness:
  "\<exists>t answers. t = fold cw_turn ([Clip_Stopper, Clip_Caller 0] @
      concat (replicate 29 [Clip_Caller 0, Clip_Stopper, Clip_Worker []])) (cw_init (cx_config clip_demo) 48000 1 16 [(0, 1, [], 0)]) \<and>
    cw_stop t = X_Done \<and> cw_callers t = map (\<lambda>(rid, path). C_Done rid path) answers \<and> length answers = 1"
proof -
  have none: "filter (\<lambda>a. 0 < wake_cost a)
      (concat (replicate k [Clip_Caller 0, Clip_Stopper, Clip_Worker []])) = []" for k
    by (induction k) simp_all
  have rounds: "\<forall>as \<in> set (replicate 29 [Clip_Caller 0, Clip_Stopper, Clip_Worker []]).
      Clip_Stopper \<in> set as \<and> (\<exists>path. Clip_Worker path \<in> set as) \<and>
      (\<forall>k < length [(0 :: i32, 1 :: i32, [] :: string, 0 :: u64)]. Clip_Caller k \<in> set as)"
    by (auto simp: in_set_replicate)
  have "length [(0 :: i32, 1 :: i32, [] :: string, 0 :: u64)] + 1 < 2 ^ 64"
    "length [(0 :: i32, 1 :: i32, [] :: string, 0 :: u64)] *
      (3 * length [(0 :: i32, 1 :: i32, [] :: string, 0 :: u64)] + 17) + 8 +
      4 * length (filter (\<lambda>a. 0 < wake_cost a) ([Clip_Stopper, Clip_Caller 0] @
        concat (replicate 29 [Clip_Caller 0, Clip_Stopper, Clip_Worker []]))) <
      length (replicate 29 [Clip_Caller 0, Clip_Stopper, Clip_Worker []])"
    unfolding filter_append none length_replicate by simp_all
  from clip_stop_returns [OF this(1) rounds this(2), of "cx_config clip_demo" 48000 1 16] obtain t answers where
    "t = fold cw_turn ([Clip_Stopper, Clip_Caller 0] @
      concat (replicate 29 [Clip_Caller 0, Clip_Stopper, Clip_Worker []])) (cw_init (cx_config clip_demo) 48000 1 16 [(0, 1, [], 0)])"
    "cw_stop t = X_Done" "cw_callers t = map (\<lambda>(rid, path). C_Done rid path) answers"
    "length answers = length [(0 :: i32, 1 :: i32, [] :: string, 0 :: u64)]" by blast
  moreover from this(4) have "length answers = 1" by simp
  ultimately show ?thesis by blast
qed

text \<open>
  A caller whose request is in the queue when \<open>stop()\<close> clears the flag is told of a failure
  (the empty string), and the worker makes its clip all the same before it leaves; the path
  stays in the map of results.
\<close>

lemma stopped_call_told_failure:
  "\<exists>s. s = fold cw_turn
      [Clip_Caller 0, Clip_Caller 0, Clip_Caller 0, Clip_Stopper, Clip_Stopper, Clip_Caller 0,
       Clip_Caller 0, Clip_Caller 0, Clip_Caller 0, Clip_Caller 0, Clip_Worker [], Clip_Worker [],
       Clip_Worker ''/clip.wav'', Clip_Worker [], Clip_Worker []]
      (cw_init (cx_config clip_demo) 48000 1 16 [(0, 1, [], 0)]) \<and>
     cw_callers s = [C_Done 1 []] \<and> cw_made s = [(1, ''/clip.wav'')] \<and>
     cx_results (cw_cx s) 1 = Some ''/clip.wav''"
  by (simp add: cw_init_def cw_caller_turn_def cw_worker_turn_def cw_stop_turn_def cw_goto_def
      cx_new_request_def cx_enqueue_def cx_start_def cx_new_def cx_stop_flag_def cx_sync_take_def
      cx_worker_turn_def cx_store_result_def notify_queue_def notify_results_def)

end
