(* ===== verification/Client_Programs.thy ===== *)
theory Client_Programs
  imports Clients Monitor_Keys
begin

text \<open>
  The \<open>main\<close> functions of the two programs that read the shared memory segment, with what they
  do to the system: examples/audiod-mon.cpp from the options to the clean-up, including the
  check of the control socket, the restart under sudo and the raw mode of the terminal, and
  examples/audio_consumer.cpp. What the system answers is the record \<open>client_env\<close>.
\<close>

section \<open>The system\<close>

text \<open>The terminal settings a program changes: the local modes and two control characters.\<close>

record termios =
  tm_lflag :: u32
  tm_vmin :: u8
  tm_vtime :: u8

definition ICANON :: u32 where "ICANON = 2"
definition ECHO :: u32 where "ECHO = 8"

text \<open>
  A segment as \<open>shm_open\<close>, \<open>fstat\<close> and \<open>mmap\<close> present it: whether it can be opened, its bytes,
  whether it can be mapped. \<open>ce_tty\<close> is \<open>None\<close> if the input is not a terminal.
\<close>

record shm_view =
  sv_open :: bool
  sv_bytes :: "u8 list"
  sv_map :: bool

record client_env =
  ce_socket_exists :: "string \<Rightarrow> bool"
  ce_socket_fd :: bool
  ce_connect :: "string \<Rightarrow> bool"
  ce_euid :: nat
  ce_exec :: bool
  ce_shm :: "string \<Rightarrow> shm_view"
  ce_tty :: "termios option"

text \<open>The calls that acquire, change or give back something.\<close>

datatype os_action =
    Shm_Opened | Shm_Closed | Mapped nat | Unmapped nat | Tty_Set termios

section \<open>The control socket\<close>

definition can_access_socket :: "client_env \<Rightarrow> string \<Rightarrow> bool" where
  "can_access_socket E path \<longleftrightarrow>
     (if \<not> ce_socket_exists E path then True
      else if \<not> ce_socket_fd E then False
      else ce_connect E (take 107 path))"

text \<open>\<open>reexec_with_sudo\<close>: the vector handed to \<open>execvp\<close>, without the closing null pointer.\<close>

definition sudo_args :: "string list \<Rightarrow> string list" where
  "sudo_args argv = ''sudo'' # argv"

datatype process_end = Ended int | Replaced "string list"

section \<open>The segment\<close>

text \<open>Both programs: open, size, map, check the magic number, read the header.\<close>

definition client_attach ::
  "shm_view \<Rightarrow> (os_action list \<times> (stream_info \<times> u8 list) option) outcome" where
  "client_attach v =
     (if \<not> sv_open v then Inr ([], None)
      else let shm_size = length (sv_bytes v) in
        if \<not> sv_map v then Inr ([Shm_Opened, Shm_Closed], None)
        else obind (shm_attach (sv_bytes v)) (\<lambda>info.
             Inr (case info of
                    None \<Rightarrow> ([Shm_Opened, Mapped shm_size, Unmapped shm_size, Shm_Closed], None)
                  | Some si \<Rightarrow> ([Shm_Opened, Mapped shm_size], Some (si, sv_bytes v)))))"

section \<open>The terminal\<close>

definition raw_mode :: "termios \<Rightarrow> termios" where
  "raw_mode t = t\<lparr>tm_lflag := tm_lflag t AND NOT (ICANON OR ECHO), tm_vmin := 0, tm_vtime := 0\<rparr>"

definition enable_raw_mode :: "termios option \<Rightarrow> os_action list" where
  "enable_raw_mode tty = (case tty of None \<Rightarrow> [] | Some t \<Rightarrow> [Tty_Set (raw_mode t)])"

definition disable_raw_mode :: "termios option \<Rightarrow> os_action list" where
  "disable_raw_mode tty = (case tty of None \<Rightarrow> [] | Some t \<Rightarrow> [Tty_Set t])"

section \<open>audiod-mon\<close>

definition mon_usage :: "string \<Rightarrow> string" where
  "mon_usage prog =
     ''Usage: '' @ prog @ '' [options]'' @ [CHR 0x0A] @
     ''  -s, --shm NAME      Shared memory name  (default: /ws_audiod_samples)'' @ [CHR 0x0A] @
     ''  -S, --socket PATH   Control socket path  (default: /run/ws-audiod/control.sock)'' @ [CHR 0x0A] @
     ''  -h, --help          Show this help'' @ [CHR 0x0A]"

definition mon_header :: "stream_info \<Rightarrow> string" where
  "mon_header si =
     CHR 0x1B # ''[2J'' @ CHR 0x1B # ''[H'' @ ''audiod-mon - ws-audiod live monitor'' @ [CHR 0x0A] @
     ''  '' @ dec (unat (si_sample_rate si)) @ '' Hz / '' @ dec (unat (si_bits si)) @ ''-bit / '' @
     dec (unat (si_channels si)) @ '' ch / '' @ dec (unat (si_period_frames si)) @ '' frames'' @ [CHR 0x0A] @
     ''  UP/DOWN or +/-: adjust gain   q: quit'' @ [CHR 0x0A] @ replicate 70 (CHR ''-'') @ [CHR 0x0A]"

text \<open>
  \<open>opts\<close> are the options \<open>getopt_long\<close> finds in \<open>argv\<close>, \<open>turns\<close> the turns of the loop: what is
  typed and how the segment is found. The list ends where a signal clears \<open>g_running\<close>, unless a
  key quits before. The result is how the process ends, what it did and what it printed.
\<close>

definition mon_main ::
  "math_lib \<Rightarrow> number_text \<Rightarrow> client_env \<Rightarrow> 's peer \<Rightarrow> string list \<Rightarrow> (char \<times> string) list \<Rightarrow>
   (string \<times> u8 list) list \<Rightarrow> 's \<Rightarrow> (process_end \<times> os_action list \<times> string \<times> 's) outcome" where
  "mon_main math nt E daemon argv opts turns st =
     (case mon_options opts mon_defaults of
        Exit n \<Rightarrow> Inr (Ended n, [], mon_usage (case argv of [] \<Rightarrow> [] | prog # _ \<Rightarrow> prog), st)
      | Run (shm_name, socket_path) \<Rightarrow>
          if \<not> can_access_socket E socket_path \<and> ce_euid E \<noteq> 0
          then Inr (if ce_exec E then Replaced (sudo_args argv) else Ended 1, [], [], st)
          else obind (client_attach (ce_shm E shm_name)) (\<lambda>(acts, attached).
               case attached of
                 None \<Rightarrow> Inr (Ended 1, acts, [], st)
               | Some (si, seg) \<Rightarrow>
                   obind (mon_start math daemon si st) (\<lambda>(mon, st1).
                   obind (mon_loop math nt daemon si turns [] mon st1) (\<lambda>(out, input, mon', st2).
                   Inr (Ended 0,
                        acts @ enable_raw_mode (ce_tty E) @ disable_raw_mode (ce_tty E) @
                          [Unmapped (length seg), Shm_Closed],
                        mon_header si @ out @ [CHR 0x0A], st2)))))"

section \<open>audio_consumer\<close>

text \<open>The lines the consumer prints first, and the whole program.\<close>

definition consumer_greeting :: "string \<Rightarrow> stream_info \<Rightarrow> string" where
  "consumer_greeting shm_name si =
     ''Connected to '' @ shm_name @ [CHR 0x0A] @
     ''  Rate:   '' @ dec (unat (si_sample_rate si)) @ '' Hz'' @ [CHR 0x0A] @
     ''  Ch:     '' @ dec (unat (si_channels si)) @ [CHR 0x0A] @
     ''  Bits:   '' @ dec (unat (si_bits si)) @ [CHR 0x0A] @
     ''  Period: '' @ dec (unat (si_period_frames si)) @ '' frames'' @ [CHR 0x0A] @
     ''Consuming... (Ctrl+C to stop)'' @ [CHR 0x0A]"

definition consumer_main ::
  "number_text \<Rightarrow> client_env \<Rightarrow> string list \<Rightarrow> (u8 list \<times> rat) list \<Rightarrow> (process_end \<times> os_action list \<times> string) outcome" where
  "consumer_main nt E args turns =
     (let shm_name = (case args of [] \<Rightarrow> ''/ws_audiod_samples'' | a # _ \<Rightarrow> a) in
      obind (client_attach (ce_shm E shm_name)) (\<lambda>(acts, attached).
        case attached of
          None \<Rightarrow> Inr (Ended 1, acts, [])
        | Some (si, seg) \<Rightarrow>
            obind (consumer_loop nt turns (0, 0)) (\<lambda>(report, last_counter, periods).
            Inr (Ended 0, acts @ [Unmapped (length seg), Shm_Closed],
                 consumer_greeting shm_name si @ report @
                 [CHR 0x0A] @ ''Consumed '' @ dec (unat periods) @ '' periods'' @ [CHR 0x0A]))))"

section \<open>Nothing is left behind\<close>

text \<open>What a list of actions leaves: open descriptors, mappings, and the terminal.\<close>

fun left_behind :: "os_action list \<Rightarrow> nat \<times> nat list \<times> termios option \<Rightarrow> nat \<times> nat list \<times> termios option" where
  "left_behind [] r = r"
| "left_behind (Shm_Opened # acts) (fds, maps, tty) = left_behind acts (fds + 1, maps, tty)"
| "left_behind (Shm_Closed # acts) (fds, maps, tty) = left_behind acts (fds - 1, maps, tty)"
| "left_behind (Mapped n # acts) (fds, maps, tty) = left_behind acts (fds, n # maps, tty)"
| "left_behind (Unmapped n # acts) (fds, maps, tty) = left_behind acts (fds, remove1 n maps, tty)"
| "left_behind (Tty_Set t # acts) (fds, maps, tty) = left_behind acts (fds, maps, Some t)"

lemma client_attach_cases:
  assumes "client_attach v = Inr (acts, attached)"
  shows "(attached = None \<and> left_behind acts (0, [], tty) = (0, [], tty)) \<or>
     (\<exists>si. attached = Some (si, sv_bytes v) \<and> shm_attach (sv_bytes v) = Inr (Some si) \<and>
        acts = [Shm_Opened, Mapped (length (sv_bytes v))])"
  using assms
  by (auto simp: client_attach_def Let_def obind_Inr_iff split: if_splits option.splits)

text \<open>
  However it ends, the monitor has closed and unmapped everything and the terminal is as it was.
  It ends with 0 exactly if it asked for help or showed the meter, and it hands itself to sudo
  only if it is not root already, so at most once.
\<close>

lemma mon_main_leaves_nothing:
  assumes "mon_main math nt E daemon argv opts turns st = Inr (how, acts, out, st')"
  shows "left_behind acts (0, [], ce_tty E) = (0, [], ce_tty E)"
    and "how = Replaced args \<Longrightarrow> ce_euid E \<noteq> 0 \<and> args = ''sudo'' # argv \<and> acts = []"
proof -
  have "left_behind acts (0, [], ce_tty E) = (0, [], ce_tty E) \<and>
      (how = Replaced args \<longrightarrow> ce_euid E \<noteq> 0 \<and> args = ''sudo'' # argv \<and> acts = [])" for args
  proof (cases "mon_options opts mon_defaults")
    case (Exit n)
    then show ?thesis using assms by (auto simp: mon_main_def)
  next
    case (Run names)
    obtain shm_name socket_path where n: "names = (shm_name, socket_path)" by (cases names)
    show ?thesis
    proof (cases "\<not> can_access_socket E socket_path \<and> ce_euid E \<noteq> 0")
      case True
      then show ?thesis using assms by (auto simp: mon_main_def Run n sudo_args_def split: if_splits)
    next
      case False
      then have "mon_main math nt E daemon argv opts turns st =
          obind (client_attach (ce_shm E shm_name)) (\<lambda>(acts, attached).
            case attached of None \<Rightarrow> Inr (Ended 1, acts, [], st)
            | Some (si, seg) \<Rightarrow>
                obind (mon_start math daemon si st) (\<lambda>(mon, st1).
                obind (mon_loop math nt daemon si turns [] mon st1) (\<lambda>(out, input, mon', st2).
                Inr (Ended 0, acts @ enable_raw_mode (ce_tty E) @ disable_raw_mode (ce_tty E) @
                       [Unmapped (length seg), Shm_Closed], mon_header si @ out @ [CHR 0x0A], st2))))"
        by (auto simp: mon_main_def Run n)
      with assms obtain acts1 attached where a: "client_attach (ce_shm E shm_name) = Inr (acts1, attached)"
        and r: "(case attached of None \<Rightarrow> Inr (Ended 1, acts1, [], st)
            | Some (si, seg) \<Rightarrow>
                obind (mon_start math daemon si st) (\<lambda>(mon, st1).
                obind (mon_loop math nt daemon si turns [] mon st1) (\<lambda>(out, input, mon', st2).
                Inr (Ended 0, acts1 @ enable_raw_mode (ce_tty E) @ disable_raw_mode (ce_tty E) @
                       [Unmapped (length seg), Shm_Closed], mon_header si @ out @ [CHR 0x0A], st2)))) =
          Inr (how, acts, out, st')"
        by (auto simp: obind_Inr_iff)
      from client_attach_cases [OF a, of "ce_tty E"] show ?thesis
      proof (elim disjE exE conjE)
        assume "attached = None" "left_behind acts1 (0, [], ce_tty E) = (0, [], ce_tty E)"
        then show ?thesis using r by auto
      next
        fix si assume "attached = Some (si, sv_bytes (ce_shm E shm_name))"
          "acts1 = [Shm_Opened, Mapped (length (sv_bytes (ce_shm E shm_name)))]"
        then show ?thesis using r
          by (cases "ce_tty E") (auto simp: obind_Inr_iff enable_raw_mode_def disable_raw_mode_def)
      qed
    qed
  qed
  then show "left_behind acts (0, [], ce_tty E) = (0, [], ce_tty E)"
    and "how = Replaced args \<Longrightarrow> ce_euid E \<noteq> 0 \<and> args = ''sudo'' # argv \<and> acts = []" by blast+
qed

text \<open>The consumer counts the changes of the counter and leaves nothing either.\<close>

lemma consumer_main_counts:
  assumes "consumer_main nt E args turns = Inr (how, acts, out)"
    and turns: "\<forall>(seg, elapsed) \<in> set turns. \<exists>c. shm_counter seg = Inr c"
  shows "left_behind acts (0, [], tty) = (0, [], tty)"
    and "how = Ended 0 \<Longrightarrow> \<exists>greeting. out = greeting @ [CHR 0x0A] @ ''Consumed '' @
      dec (unat (of_nat (changes 0 (counters turns)) :: u64)) @ '' periods'' @ [CHR 0x0A]"
proof -
  let ?name = "case args of [] \<Rightarrow> ''/ws_audiod_samples'' | a # _ \<Rightarrow> a"
  obtain acts1 attached where a: "client_attach (ce_shm E ?name) = Inr (acts1, attached)"
    using assms(1) by (auto simp: consumer_main_def Let_def obind_Inr_iff)
  obtain report where loop: "consumer_loop nt turns (0, 0) =
      Inr (report, List.last (0 # counters turns), of_nat (changes 0 (counters turns)))"
    using consumer_counts_changes [OF turns, of nt 0 0] by auto
  from client_attach_cases [OF a, of tty]
  have "left_behind acts (0, [], tty) = (0, [], tty) \<and> (how = Ended 0 \<longrightarrow>
      (\<exists>greeting. out = greeting @ [CHR 0x0A] @ ''Consumed '' @
        dec (unat (of_nat (changes 0 (counters turns)) :: u64)) @ '' periods'' @ [CHR 0x0A]))"
  proof (elim disjE exE conjE)
    assume "attached = None" "left_behind acts1 (0, [], tty) = (0, [], tty)"
    then show ?thesis using assms(1) a by (auto simp: consumer_main_def Let_def)
  next
    fix si assume "attached = Some (si, sv_bytes (ce_shm E ?name))"
      "acts1 = [Shm_Opened, Mapped (length (sv_bytes (ce_shm E ?name)))]"
    then show ?thesis using assms(1) a
      by (auto simp: consumer_main_def Let_def loop intro: exI [of _ "consumer_greeting ?name si @ report"])
  qed
  then show "left_behind acts (0, [], tty) = (0, [], tty)"
    and "how = Ended 0 \<Longrightarrow> \<exists>greeting. out = greeting @ [CHR 0x0A] @ ''Consumed '' @
      dec (unat (of_nat (changes 0 (counters turns)) :: u64)) @ '' periods'' @ [CHR 0x0A]"
    by blast+
qed

text \<open>
  A refused connection is taken for missing rights: with a socket file nobody listens on, the
  monitor of an ordinary user goes to sudo.
\<close>

lemma stale_socket_asks_for_sudo:
  assumes "mon_options opts mon_defaults = Run (shm_name, path)" and "ce_socket_exists E path"
    and "\<not> ce_connect E (take 107 path)" and "ce_euid E \<noteq> 0" and "ce_exec E"
  shows "mon_main math nt E daemon argv opts turns st = Inr (Replaced (''sudo'' # argv), [], [], st)"
  using assms by (simp add: mon_main_def can_access_socket_def sudo_args_def)

end
