(* ===== verification/Shutdown.thy ===== *)
theory Shutdown
  imports Daemon
begin

text \<open>
  The way out of \<open>main\<close>: the destructors, in the order in which C++ runs them, and what is left of
  sockets, shared memory and the sound device afterwards.
\<close>

section \<open>Destructors\<close>

definition al_destroy :: "'f alsa_capture \<Rightarrow> 'f alsa_capture" where
  "al_destroy al = al_stop al"

definition cx_destroy :: "clip_extractor \<Rightarrow> clip_extractor" where
  "cx_destroy cx = cx_stop_flag cx"

definition br_destroy :: "recorder \<Rightarrow> recorder" where
  "br_destroy br = br_stop_flags br"

definition sp_destroy :: "publisher \<Rightarrow> publisher" where
  "sp_destroy sp = sp_cleanup sp"

definition server_destroy :: "'w socket_calls \<Rightarrow> server \<Rightarrow> 'w \<Rightarrow> server \<times> 'w" where
  "server_destroy os sv w = server_stop os sv w"

text \<open>The body of the destructor, then the members from the last to the first.\<close>

definition cp_destroy :: "capture_pipeline \<Rightarrow> capture_pipeline outcome" where
  "cp_destroy cp =
     obind (cp_stop cp) (\<lambda>cp1.
       let cp2 = cp1\<lparr>cp_publisher := map_option sp_destroy (cp_publisher cp1)\<rparr>;
           cp3 = cp2\<lparr>cp_recorder := map_option br_destroy (cp_recorder cp2)\<rparr>;
           cp4 = cp3\<lparr>cp_clip := map_option cx_destroy (cp_clip cp3)\<rparr>
       in Inr (cp4\<lparr>cp_capture := map_option al_destroy (cp_capture cp4)\<rparr>))"

text \<open>
  The daemon's socket is destroyed before its pipeline, so no handler can still be at work on it.
  When \<open>initialize()\<close> fails there is no socket object yet.
\<close>

definition dm_destroy :: "'w socket_calls \<Rightarrow> bool \<Rightarrow> 'w daemon \<Rightarrow> 'w daemon outcome" where
  "dm_destroy os socket_made s =
     (let s1 = dm_stop s;
          (sv, w) = (if socket_made then server_destroy os (dm_server s1) (dm_world s1)
                     else (dm_server s1, dm_world s1))
      in obind (cp_destroy (dm_pipeline s1)) (\<lambda>cp.
         Inr (s1\<lparr>dm_server := sv, dm_world := w, dm_pipeline := cp\<rparr>)))"

section \<open>What is left\<close>

definition pipeline_released :: "capture_pipeline \<Rightarrow> bool" where
  "pipeline_released cp \<longleftrightarrow> \<not> cp_running cp \<and>
     (\<forall>al. cp_capture cp = Some al \<longrightarrow> \<not> al_pcm al \<and> \<not> al_running al) \<and>
     (\<forall>cx. cp_clip cp = Some cx \<longrightarrow> \<not> cx_running cx) \<and>
     (\<forall>br. cp_recorder cp = Some br \<longrightarrow> \<not> br_recording br \<and> \<not> br_writer_running br) \<and>
     (\<forall>sp. cp_publisher cp = Some sp \<longrightarrow> sp_shm_ptr sp = None \<and> sp_shm_fd sp < 0)"

lemma destroyed_parts:
  "\<not> al_pcm (al_destroy al) \<and> \<not> al_running (al_destroy al)" "\<not> cx_running (cx_destroy cx)"
  "\<not> br_recording (br_destroy br) \<and> \<not> br_writer_running (br_destroy br)"
  "sp_shm_ptr (sp_destroy sp) = None \<and> sp_shm_fd (sp_destroy sp) < 0"
  by (simp_all add: al_destroy_def al_stop_def cx_destroy_def cx_stop_flag_def br_destroy_def br_stop_flags_def
      sp_destroy_def sp_cleanup_def Let_def)

lemma cp_destroy_releases:
  assumes "cp_running cp \<longrightarrow> cp_capture cp \<noteq> None \<and> cp_clip cp \<noteq> None"
  shows "\<exists>cp'. cp_destroy cp = Inr cp' \<and> pipeline_released cp'"
proof -
  obtain cp1 where cp1: "cp_stop cp = Inr cp1" "\<not> cp_running cp1"
    using assms by (cases "cp_running cp") (auto simp: cp_stop_def)
  let ?cp = "cp1\<lparr>cp_publisher := map_option sp_destroy (cp_publisher cp1),
    cp_recorder := map_option br_destroy (cp_recorder cp1), cp_clip := map_option cx_destroy (cp_clip cp1),
    cp_capture := map_option al_destroy (cp_capture cp1)\<rparr>"
  have "cp_destroy cp = Inr ?cp" by (simp add: cp_destroy_def cp1(1) Let_def)
  moreover have "pipeline_released ?cp"
    unfolding pipeline_released_def by (intro conjI allI impI) (auto simp: cp1(2) destroyed_parts)
  ultimately show ?thesis by blast
qed

lemma failed_initialize_idle:
  assumes "cp_initialize env (cp_new math config) = Inr (False, cp)"
  shows "\<not> cp_running cp"
proof -
  let ?new = "cp_new math config"
  have new: "\<not> cp_running ?new" by (simp add: cp_new_def Let_def)
  obtain ok al where al: "al_initialize (pe_alsa env) (pe_mem_ok env) (al_new (dc_audio (cp_config ?new))) = Inr (ok, al)"
    using assms by (auto simp: cp_initialize_def obind_Inr_iff)
  show ?thesis
  proof (cases ok)
    case False
    then show ?thesis using assms al new by (auto simp: cp_initialize_def)
  next
    case True
    then obtain cp1 cp2 where "init_ring env al (?new\<lparr>cp_capture := Some al\<rparr>) = Inr cp1"
      "init_recorder env al cp1 = Inr cp2" "init_publisher env al cp2 = Inr (False, cp)"
      using assms al by (auto simp: cp_initialize_def obind_Inr_iff split: if_splits)
    then show ?thesis using init_ring_quiet init_recorder_quiet init_publisher_quiet new by fastforce
  qed
qed

text \<open>
  However \<open>main\<close> ends, by a failed \<open>initialize()\<close> or by \<open>run()\<close> returning, the destructors do not
  fault, and afterwards nothing runs, the device is closed, the segment is unmapped, and the
  socket is closed with its name gone; a failed \<open>initialize()\<close> never touched the socket.
\<close>

lemma main_releases_everything:
  assumes os: "socket_names os names" and init: "dm_initialize env math config w = Inr (ok, s0)"
    and run: "if ok then daemon_run os s0 evs s \<and> dm_pc s = Returned code else s = s0"
  shows "\<exists>s'. dm_destroy os ok s = Inr s' \<and> pipeline_released (dm_pipeline s') \<and>
    \<not> sv_server_fd (dm_server s') \<and> \<not> sv_thread (dm_server s') \<and>
    (if ok then dc_socket_path config \<notin> names (dm_world s') else dm_world s' = w)"
proof (cases ok)
  case True
  with init have s0: "dm_initialize env math config w = Inr (True, s0)" by simp
  have s: "daemon_run os s0 evs s" "dm_pc s = Returned code" using run True by simp_all
  from initialized_inv [OF s0, of names] run_inv [OF os s(1)]
  have inv: "dm_inv names evs s" and path: "socket_path s = dc_socket_path config" by auto
  have "quiet (dm_pipeline s)" using inv s(2) by (simp add: dm_inv_def)
  then have "\<not> cp_running (dm_pipeline s)" by (simp add: quiet_def)
  then obtain cp where "cp_destroy (dm_pipeline s) = Inr cp" "pipeline_released cp"
    using cp_destroy_releases [of "dm_pipeline s"] by auto
  moreover have "names (snd (server_stop os (dm_server s) (dm_world s))) = names (dm_world s) - {dc_socket_path config}"
    using server_stop_names [OF os, of "dm_server s" "dm_world s"] path by (simp add: socket_path_def)
  ultimately show ?thesis
    using True by (simp add: dm_destroy_def dm_stop_def server_destroy_def server_stop_def)
next
  case False
  with run have s: "s = s0" by simp
  obtain cp where cp: "cp_initialize env (cp_new math config) = Inr (False, cp)"
    "s0 = \<lparr>dm_pc = At_Socket, dm_running = False, dm_pipeline = cp,
       dm_server = server_new (dc_socket_path config), dm_world = w\<rparr>"
    using init False by (auto simp: dm_initialize_def obind_Inr_iff)
  obtain cp' where "cp_destroy cp = Inr cp'" "pipeline_released cp'"
    using cp_destroy_releases [of cp] failed_initialize_idle [OF cp(1)] by auto
  then show ?thesis using False s cp(2) by (simp add: dm_destroy_def dm_stop_def server_new_def)
qed

section \<open>The name of the shared memory\<close>

text \<open>What \<open>initialize()\<close> and \<open>cleanup()\<close> do to the names of segments that exist.\<close>

definition shm_after_initialize :: "posix_shm \<Rightarrow> publisher \<Rightarrow> string set \<Rightarrow> string set" where
  "shm_after_initialize px sp existing =
     (if px_open px (sp_shm_name sp) < 0 then existing else insert (sp_shm_name sp) existing)"

definition shm_after_cleanup :: "publisher \<Rightarrow> string set \<Rightarrow> string set" where
  "shm_after_cleanup sp existing = (if 0 \<le> sp_shm_fd sp then existing - {sp_shm_name sp} else existing)"

lemma sp_initialize_descriptor:
  assumes "sp_initialize px sp = Inr (ok, sp')" and "0 \<le> px_open px (sp_shm_name sp)"
  shows "sp_shm_name sp' = sp_shm_name sp"
    and "sp_shm_fd sp' = (if ok then px_open px (sp_shm_name sp) else -1)"
proof -
  define n where "n = shm_header_size + ucast (sp_period_frames sp) * ucast (sp_channels sp) *
    of_nat (unat (sp_bits_per_sample sp) div 8)"
  define fd where "fd = px_open px (sp_shm_name sp)"
  have fd: "\<not> fd < 0" using assms(2) by (simp add: fd_def)
  have "sp_initialize px sp =
     (if px_ftruncate px fd n < 0 then Inr (False, sp\<lparr>sp_shm_size := n, sp_shm_fd := -1\<rparr>)
      else case px_mmap px fd n of
        None \<Rightarrow> Inr (False, sp\<lparr>sp_shm_size := n, sp_shm_fd := -1, sp_shm_ptr := None\<rparr>)
      | Some mem \<Rightarrow> obind (store_all mem (sp_header_stores sp))
          (\<lambda>mem'. Inr (True, sp\<lparr>sp_shm_size := n, sp_shm_fd := fd, sp_shm_ptr := Some mem'\<rparr>)))"
    using fd unfolding sp_initialize_def Let_def n_def [symmetric] by (simp add: fd_def [symmetric] split: option.split)
  with assms(1) have "sp_shm_name sp' = sp_shm_name sp \<and> sp_shm_fd sp' = (if ok then fd else -1)"
    by (auto simp: obind_Inr_iff split: if_split_asm option.split_asm)
  then show "sp_shm_name sp' = sp_shm_name sp"
    and "sp_shm_fd sp' = (if ok then px_open px (sp_shm_name sp) else -1)" by (simp_all add: fd_def)
qed

text \<open>
  A publisher that was initialised takes its name back; one whose segment could be created but
  not sized or mapped leaves it behind, because the descriptor is gone by then.
\<close>

lemma shm_name_left_behind:
  assumes "sp_initialize px sp = Inr (ok, sp')" and "0 \<le> px_open px (sp_shm_name sp)"
  shows "sp_shm_name sp \<in> shm_after_cleanup sp' (shm_after_initialize px sp existing) \<longleftrightarrow> \<not> ok"
  using assms sp_initialize_descriptor [OF assms]
  by (simp add: shm_after_initialize_def shm_after_cleanup_def)

end
