(* ===== verification/Spec2Isabelle.thy ===== *)
theory Spec2Isabelle
  imports Ring_Buffer Ring_Interleaved Pcm_Samples Sndfile Clip_Extractor Spsc_Ring Timestamps Block_Recorder
    Recorder_System Recorder_Properties Recorder_Wakeups Sample_Publisher Text_Input Control_Socket Config
    Binary_Float Signal Signal_Properties Level_Meter Neon Neon_Meter Alsa_Capture Pipeline Pipeline_Signal
    Pipeline_Chunk Pipeline_Init Pipeline_Properties Status_Json Socket_Server Daemon Monitor
    Monitor_Meter Monitor_Keys Clients Logger Spsc_Interleaved Audio_System Clip_Service
    Fair_Threads Clip_Waiting Client_Programs Shutdown
begin

text \<open>
  Verification of ws-audiod, an audio capture daemon.

  \<^bold>\<open>The program.\<close> One thread reads periods of PCM audio from ALSA
  (src/capture/alsa_capture.cpp) and hands each of them to \<open>CapturePipeline::on_audio_chunk\<close>
  (src/pipeline/capture_pipeline.cpp), which downmixes, removes the DC offset, applies the gain,
  meters the result and feeds it to three consumers: the rolling ring buffer of the last seconds
  (src/capture/ring_buffer.cpp), the block recorder, which has a byte ring and a writer thread of
  its own (src/capture/block_recorder.cpp), and a shared memory segment that other processes poll
  (src/sharing/sample_publisher.cpp). A second thread answers a Unix socket
  (src/utils/control_socket.cpp): CLIP asks the clip extractor (src/capture/clip_extractor.cpp),
  whose worker thread copies a window out of the ring buffer into a file; SET changes a parameter
  of the signal path; GET reports the state. src/utils/config.cpp builds the configuration from a
  file and the command line, and src/main.cpp wires everything together.

  \<^bold>\<open>Theories and code.\<close>
  \<^item> Prelude: machine integers, \<open>fault\<close> and \<open>outcome\<close> (an exception or undefined behaviour of the
    C++ code is \<open>Inl\<close>), loads and stores in bounded memory, frames, \<open>for_each\<close>. Pow2: rounding up
    to a power of two.
  \<^item> Ring_Buffer: \<open>RingBuffer\<close>; \<open>rb_new\<close>, \<open>rb_write\<close>, \<open>rb_read\<close> are its constructor and methods, the
    abstract state is the list of all frames ever written (\<open>rb_holds\<close>), and \<open>frame_store\<close> is
    the interface the extractor and the pipeline use. Ring_Interleaved: the accesses of \<open>write()\<close>
    and \<open>read()\<close>, which takes a lock the writer never takes, interleaved byte by byte.
  \<^item> Pcm_Samples, Sndfile: the sample formats of the code (interface \<open>sample_codec\<close>), and the calls
    of libsndfile with a log of what was passed to them.
  \<^item> Clip_Extractor: \<open>ClipExtractor\<close>, its queue, worker and extraction. Clip_Waiting: its threads
    with both mutexes and both condition variables, any number of callers, and \<open>stop()\<close>;
    Fair_Threads is what such a protocol has to provide so that every fair schedule ends.
  \<^item> Spsc_Ring: the byte ring of the recorder, a FIFO (\<open>byte_fifo\<close>). Block_Recorder:
    \<open>BlockRecorder\<close>, one definition per method and \<open>br_drain_iter\<close> for one turn of the writer.
    Recorder_System: capture thread and writer thread as a step relation, with the writer's program
    counter and what has been accepted so far; Recorder_Properties: its theorems. Recorder_Wakeups:
    the same threads with the writer's wait taken apart, so that notifications can be lost; it
    refines Recorder_System (\<open>rw_turn_simulated\<close>). Timestamps:
    \<open>gmtime\<close> and the decimal conversions of the block file names.
  \<^item> Spsc_Interleaved: \<open>push()\<close> and the copy out of the same ring taken apart into single bytes and
    cursor accesses of two threads, where an acquire load may return any value the other thread
    has stored since the last one seen. What is atomic in Spsc_Ring is justified here.
  \<^item> Sample_Publisher: \<open>SamplePublisher\<close>, the byte layout of the segment, and how
    examples/audiod-mon.cpp and examples/audio_consumer.cpp read it.
  \<^item> Text_Input: formatted input from streams and \<open>std::stoi\<close> and its like. Control_Socket: the
    protocol, the handlers of main.cpp and the message of examples/clip_client.cpp. Config:
    config.cpp and the defaults of common.hpp. Logger: logger.hpp and the time stamps of
    common.hpp.
  \<^item> Binary_Float: rounding of rationals to binary32 and binary64. Signal, Signal_Properties,
    Level_Meter: gain, downmix, DC removal and meter in their portable form. Neon, Neon_Meter: the
    \<open>__ARM_NEON\<close> form of gain, downmix and meter, lane by lane.
  \<^item> Alsa_Capture: \<open>AlsaCapture\<close>. Pipeline: \<open>CapturePipeline\<close>. Pipeline_Signal, Pipeline_Chunk,
    Pipeline_Init: what a chunk becomes, the invariant \<open>pipe_inv\<close> of all consumers together, and how
    \<open>initialize()\<close> and \<open>start()\<close> establish it; Pipeline_Properties: its theorems.
  \<^item> Audio_System: the started pipeline with its four threads, a step being one turn of one thread
    (\<open>as_step\<close>): a device read with everything \<open>on_audio_chunk\<close> does, a turn of the recorder's writer,
    taking or finishing a clip request, a parameter, a request, \<open>stop()\<close>. Its histories are the
    stream handed to the consumers, what the recorder took and the clips made. Clip_Service: a
    call of \<open>capture_clip\<close> while these threads run, the socket over their state, and the worker on
    its own.
  \<^item> Status_Json: the status strings and the handlers on the pipeline. Socket_Server: opening,
    serving and closing the control socket. Daemon: main.cpp, \<open>run()\<close> statement by statement with
    signals in between. Shutdown: the destructors and what they leave.
  \<^item> Monitor, Monitor_Meter, Monitor_Keys: gain, keyboard, meter and loop of
    examples/audiod-mon.cpp; Clients: examples/clip_client.cpp and the loop of
    examples/audio_consumer.cpp; Client_Programs: the \<open>main\<close> functions around those loops, with
    what they do to the system (terminal, mapping, the restart under sudo).

  \<^bold>\<open>What the theorems show.\<close> Ring buffer, recorder ring and writer refine abstract histories; from
  that, a clip is the requested window, the files of the recorder are the accepted audio without a
  gap in blocks of exactly the configured length, and whatever the device returns from \<open>start()\<close> on
  is in the ring buffer and reaches every consumer. These facts are then put together: in every
  interleaving of the threads no turn faults, all consumers hold their part of one stream, a clip
  call gets its answer after a bounded number of turns of the worker, and a client that runs the
  clip program is told of the file made for its own request. The condition variables of the
  clip extractor lose no wakeup: in every fair schedule all calls and \<open>stop()\<close> return, after at most
  quadratically many rounds. Those of the recorder, which notifies without the mutex, do lose them:
  \<open>stop()\<close> returns with everything flushed if the writer is not just going to sleep, and
  may hang or leave the recording stalled if it is. The byte ring is linearizable and
  free of data races, and \<open>push()\<close> is wait-free. A read of the ring buffer beside any number of writes
  returns after a bounded number of its own steps and has its window unless the writer lapped it. The daemon stops cleanly from its waiting loop, and
  however \<open>main\<close> returns nothing is left running, open or mapped; the monitor shows the gain the
  daemon applies and draws within its bar. The signal path is compared with its mathematical
  meaning in single and double precision, and the vector form with the scalar one. The shared
  memory layout, the configuration file and the socket protocol round trip. Where the code
  does not do what its comments say, the theorem states what it does: clips that end in the past,
  torn reads, 24-bit capture, gain beyond the range of the cast, low data rates, zero-length blocks,
  status replies with a stray quote, signals during startup, long socket paths.

  \<^bold>\<open>Loops and bounds.\<close> There is no fuel. Loops over an index are \<open>for_each\<close> over a list of
  indices; loops that are not obviously finite (the copy loops of both rings, the writer, the
  extraction) are \<open>partial_function (option)\<close>, where \<open>None\<close> is not returning, and the theorems say
  \<open>Some\<close>. The capture loop consumes a list of device reads, the loops of the client programs a list
  of what they find in each turn, and a run of threads is a derivation of a step relation, or a
  schedule, a list that says whose turn it is. Machine integers are words of the width
  of the code; where an arithmetic bound is needed for exactness (\<open>config_ok\<close>, \<open>meter_ok\<close>,
  \<open>gain_room\<close>) it is a hypothesis, and the theorems about wrap-around say what happens without it.

  \<^bold>\<open>What is not modelled.\<close> NaN, infinities and negative zero, and contraction of products and sums
  into fused operations. Outside Recorder_Wakeups and Clip_Waiting, waiting on a condition variable is
  its predicate, and a request of a clip is one step. Time passes only as turns of other threads. Atomics are one shared
  memory, but for the acquire loads of the recorder's cursors, which may be stale; in Audio_System
  each turn is one step, so the unsynchronised overlaps of the code are seen only where they are
  taken apart (Spsc_Interleaved, Ring_Interleaved), and not when \<open>SET dc_remove\<close> clears the
  filter state under the capture thread. The signal handler is a step of its own between two
  statements, so what it may interrupt inside them is not seen. libasound, libsndfile, getopt, the
  POSIX calls and the printing of floating-point numbers are parameters; log messages of the
  components and memory exhaustion outside the large buffers are left out, and so are the Python client and the test programs.
\<close>

end
